(* ===== verification/Prelude.thy ===== *)
theory Prelude
  imports Main "HOL-Library.Word"
begin

unbundle bit_operations_syntax

text \<open>
  The vocabulary the component theories share: the fixed-width integer types of
  \<open>include/stdint.h\<close> (LP64) as words, the collections of simplification rules, and
  generic facts on words and bits. Nothing here models code except the type names.
\<close>

section \<open>Integer types\<close>

type_synonym u8 = "8 word"
type_synonym u16 = "16 word"
type_synonym u32 = "32 word"
type_synonym u64 = "64 word"

section \<open>Collections\<close>

named_theorems unat_simps \<open>reading word arithmetic back as arithmetic on natural numbers\<close>
named_theorems frame_simps \<open>what an operation leaves unchanged\<close>

section \<open>Loop counters\<close>

text \<open>A counter that is below some other word does not wrap around when it is incremented.\<close>

lemma unat_incr [unat_simps]: "unat (i + 1) = Suc (unat i)" if "i < n" for i n :: "'a::len word"
proof -
  have "Suc (unat i) \<le> unat n" using that by (simp add: word_less_nat_alt)
  also have "\<dots> < 2 ^ LENGTH('a)" by (rule unsigned_less)
  finally show ?thesis by (simp add: unat_word_ariths)
qed

lemma incr_le: "i < n \<Longrightarrow> i + 1 \<le> n" for i n :: "'a::len word"
  by (simp add: word_le_nat_alt word_less_nat_alt unat_simps)

lemma unat_add_small: "unat a + unat b < 2 ^ LENGTH('a) \<Longrightarrow> unat (a + b) = unat a + unat b"
  for a b :: "'a::len word"
  by (rule unat_add_lem [THEN iffD1])

lemma unat_diff_small [unat_simps]: "b \<le> a \<Longrightarrow> unat (a - b) = unat a - unat b" for a b :: "'a::len word"
  by (simp add: unat_sub)

text \<open>Natural numbers that fit into a word are read back unchanged.\<close>

lemma unat_of_nat_small [unat_simps]: "n < 2 ^ LENGTH('a) \<Longrightarrow> unat (of_nat n :: 'a::len word) = n"
  by (simp add: unat_of_nat)

lemma of_nat_inj_small:
  "m < 2 ^ LENGTH('a) \<Longrightarrow> n < 2 ^ LENGTH('a) \<Longrightarrow> (of_nat m :: 'a::len word) = of_nat n \<longleftrightarrow> m = n"
  by (metis unat_of_nat_small)

lemma sint_of_nat_small: "n < 2 ^ (LENGTH('a) - 1) \<Longrightarrow> sint (of_nat n :: 'a::len word) = int n"
proof -
  assume n: "n < 2 ^ (LENGTH('a) - 1)"
  have "int n < 2 ^ (LENGTH('a) - 1)" using n by (metis of_nat_less_iff of_nat_numeral of_nat_power)
  moreover have "- (2 ^ (LENGTH('a) - 1)) \<le> int n" by (rule order_trans [of _ 0]) simp_all
  ultimately have "signed_take_bit (LENGTH('a) - 1) (int n) = int n" by (intro signed_take_bit_int_eq_self)
  then have "sint (word_of_int (int n) :: 'a word) = int n" by (simp only: sint_sbintrunc')
  then show ?thesis by simp
qed

lemma unat_lt_64 [simp]: "unat (x :: u64) < 18446744073709551616"
  using unsigned_less [of x, where ?'a = nat] by simp

lemma div_less_trans: "k < n \<Longrightarrow> k div m < n" for k n :: nat
  by (meson div_le_dividend le_less_trans)

lemma div_add_le: "a div n + b div n \<le> (a + b) div n" for a b n :: nat
  by (subst div_add1_eq) simp

lemma of_nat_unat_add: "of_nat (unat a + k) = a + of_nat k" for a :: "'a::len word"
  by simp

section \<open>Single bits\<close>

lemma all_ones_64 [simp]: "(0xFFFFFFFFFFFFFFFF :: u64) = - 1"
  by simp

lemma and_single_bit_eq_0 [simp]:
  "(w AND push_bit n 1 = 0) \<longleftrightarrow> \<not> bit w n" if "n < LENGTH('a)" for w :: "'a::len word"
proof -
  have "(w AND push_bit n 1) = (if bit w n then push_bit n 1 else 0)"
    using that by (intro bit_word_eqI) (auto simp: bit_simps)
  moreover have "push_bit n (1 :: 'a word) \<noteq> 0"
    using that by (auto simp: bit_eq_iff bit_simps)
  ultimately show ?thesis by simp
qed

lemma and_two_power_eq_0 [simp]:
  "(w AND 2 ^ n = 0) \<longleftrightarrow> \<not> bit w n" if "n < LENGTH('a)" for w :: "'a::len word"
  using and_single_bit_eq_0 [OF that] by simp

lemma not_all_ones_bit: "w \<noteq> - 1 \<longleftrightarrow> (\<exists>n < LENGTH('a). \<not> bit w n)" for w :: "'a::len word"
  by (auto simp: bit_eq_iff)

end
