(* ===== verification/Bitmap.thy ===== *)
theory Bitmap
  imports Prelude
begin

text \<open>
  The block bitmap of \<open>kernel/memman.c\<close> (lines 24-114): the memory manager's globals as
  a record, the three bit operations, the two searches for free blocks, and what the searches
  find. One bit stands for one 4096-byte block of physical memory; a set bit is a used block.
\<close>

section \<open>State\<close>

text \<open>
  The globals of \<open>memman.c\<close> the allocator works on. \<open>mem_memory_map\<close> is the
  array of 64-bit words that \<open>_mem_memory_map\<close> points to, as a function of the index:
  C does not check the index, and the searches may look past \<open>_mem_max_blocks\<close>.
\<close>

record memman =
  mem_memory_size :: u64
  mem_used_blocks :: u64
  mem_max_blocks :: u64
  mem_memory_map :: "u64 \<Rightarrow> u64"
  kernel_next_block :: u64

section \<open>Operations\<close>

definition bit_mask :: "u64 \<Rightarrow> u64" where
  "bit_mask bt = push_bit (unat (bt mod 64)) 1"

definition mmap_set :: "u64 \<Rightarrow> memman \<Rightarrow> memman" where
  "mmap_set bt s = s\<lparr>mem_memory_map :=
     (mem_memory_map s)(bt div 64 := mem_memory_map s (bt div 64) OR bit_mask bt)\<rparr>"

definition mmap_unset :: "u64 \<Rightarrow> memman \<Rightarrow> memman" where
  "mmap_unset bt s = s\<lparr>mem_memory_map :=
     (mem_memory_map s)(bt div 64 := mem_memory_map s (bt div 64) AND NOT (bit_mask bt))\<rparr>"

definition mmap_test :: "u64 \<Rightarrow> memman \<Rightarrow> u64" where
  "mmap_test bt s = mem_memory_map s (bt div 64) AND bit_mask bt"

text \<open>
  \<open>mmap_first_free\<close> is two nested loops with an early return. The inner loop over
  \<open>j\<close> returns the first clear bit of one word; \<open>None\<close> is running off its end.
\<close>

function first_clear_bit :: "u64 \<Rightarrow> u64 \<Rightarrow> u64 option" where
  "first_clear_bit w j =
     (if j < 64
      then if w AND push_bit (unat j) 1 = 0 then Some j else first_clear_bit w (j + 1)
      else None)"
  by pat_completeness auto
termination
  by (relation "measure (\<lambda>(w, j). 64 - unat j)") (auto simp: unat_incr [of _ 64] word_less_nat_alt)

function mmap_first_free_from :: "memman \<Rightarrow> u64 \<Rightarrow> u64" where
  "mmap_first_free_from s i =
     (if i < mem_max_blocks s div 64
      then if mem_memory_map s i \<noteq> 0xFFFFFFFFFFFFFFFF
           then case first_clear_bit (mem_memory_map s i) 0 of
                  Some j \<Rightarrow> i * 64 + j
                | None \<Rightarrow> mmap_first_free_from s (i + 1)
           else mmap_first_free_from s (i + 1)
      else 0)"
  by pat_completeness auto
termination
  by (relation "measure (\<lambda>(s, i). unat (mem_max_blocks s div 64) - unat i)")
     (auto simp: unat_incr word_less_nat_alt)

definition mmap_first_free :: "memman \<Rightarrow> u64" where
  "mmap_first_free s = mmap_first_free_from s 0"

text \<open>
  \<open>mmap_first_free_zone\<close>: the loop over \<open>count\<close> measures the run of free
  blocks at \<open>pos\<close>. Its value is that of \<open>count\<close> when the loop is left: the
  \<open>return\<close> inside it happens exactly when \<open>count\<close> has reached the size.
\<close>

function zone_count :: "memman \<Rightarrow> u64 \<Rightarrow> u64 \<Rightarrow> u64 \<Rightarrow> u64" where
  "zone_count s pos sz count =
     (if count \<le> sz
      then if count = sz then count
           else if mmap_test (pos + count) s \<noteq> 0 then count
           else zone_count s pos sz (count + 1)
      else count)"
  by pat_completeness auto
termination
proof (relation "measure (\<lambda>(s, pos, sz, count). unat sz - unat count)", goal_cases)
  case (2 s pos sz count)
  then have "count < sz" by simp
  then show ?case by (simp add: unat_incr word_less_nat_alt)
qed simp

text \<open>
  The two outer loops. \<open>zone_loop s sz False i j\<close> is the head of the loop over
  \<open>i\<close> (where \<open>j\<close> is dead), \<open>zone_loop s sz True i j\<close> the head of the
  loop over \<open>j\<close> inside it. After a run that is too short both variables jump to the
  used block that ended the run, and the inner loop goes on behind it, without looking at the
  bound on \<open>i\<close>. With arbitrary memory contents the sum \<open>i*64+j+count\<close> may wrap
  around and the loop may not end, so the result is an option and \<open>None\<close> is not
  returning.
\<close>

partial_function (option) zone_loop :: "memman \<Rightarrow> u64 \<Rightarrow> bool \<Rightarrow> u64 \<Rightarrow> u64 \<Rightarrow> u64 option" where
  "zone_loop s sz inner i j =
     (if \<not> inner
      then if i < mem_max_blocks s div 64
           then if mem_memory_map s i \<noteq> 0xFFFFFFFFFFFFFFFF
                then zone_loop s sz True i 0
                else zone_loop s sz False (i + 1) j
           else Some 0
      else if j < 64
      then if mem_memory_map s i AND push_bit (unat j) 1 = 0
           then let count = zone_count s (i * 64 + j) sz 0
                in if count = sz then Some (i * 64 + j)
                   else zone_loop s sz True ((i * 64 + j + count) div 64)
                          ((i * 64 + j + count) mod 64 + 1)
           else zone_loop s sz True i (j + 1)
      else zone_loop s sz False (i + 1) j)"

definition mmap_first_free_zone :: "memman \<Rightarrow> u64 \<Rightarrow> u64 option" where
  "mmap_first_free_zone s sz =
     (if sz = 0 then Some 0
      else if sz = 1 then Some (mmap_first_free s)
      else zone_loop s sz False 0 0)"

declare first_clear_bit.simps [simp del]
declare mmap_first_free_from.simps [simp del]
declare zone_count.simps [simp del]

section \<open>The bitmap as a set of used blocks\<close>

text \<open>Whether block \<open>k\<close> is marked used, for any block number below \<open>2^64\<close>.\<close>

definition blk_used :: "memman \<Rightarrow> nat \<Rightarrow> bool" where
  "blk_used s k = bit (mem_memory_map s (of_nat (k div 64))) (k mod 64)"

lemma word_index_eq_iff:
  fixes b :: u64
  assumes "k < 2 ^ 64"
  shows "(of_nat (k div 64) :: u64) = of_nat (unat b div 64) \<longleftrightarrow> k div 64 = unat b div 64"
proof -
  have "k div 64 < 2 ^ 64" "unat b div 64 < 2 ^ 64"
    using assms by (simp_all add: div_less_trans)
  then show ?thesis by (simp add: of_nat_inj_small)
qed

lemma bit_of_blk: "b div 64 = of_nat (unat b div 64)" "unat (b mod 64) = unat b mod 64" for b :: u64
proof -
  have "unat b div 64 < 2 ^ 64" by (simp add: div_less_trans)
  then show "b div 64 = of_nat (unat b div 64)"
    by (simp add: word_unat_eq_iff unat_of_nat unat_div)
qed (simp add: unat_mod)

lemma mmap_test_iff: "mmap_test b s \<noteq> 0 \<longleftrightarrow> blk_used s (unat b)"
  by (simp add: mmap_test_def bit_mask_def blk_used_def bit_of_blk)

lemma bit_push_bit_1: "bit (push_bit n (1 :: 'a::len word)) m \<longleftrightarrow> m = n \<and> n < LENGTH('a)"
  by (auto simp: bit_simps)

lemma blk_used_set:
  assumes "k < 2 ^ 64"
  shows "blk_used (mmap_set b s) k \<longleftrightarrow> k = unat b \<or> blk_used s k"
proof -
  have "k = unat b \<longleftrightarrow> k div 64 = unat b div 64 \<and> k mod 64 = unat b mod 64"
    by (metis div_mult_mod_eq)
  then show ?thesis
    using assms
    by (auto simp: blk_used_def mmap_set_def bit_mask_def bit_push_bit_1 word_index_eq_iff
        bit_of_blk bit_or_iff simp del: push_bit_of_1)
qed

lemma blk_used_unset:
  assumes "k < 2 ^ 64"
  shows "blk_used (mmap_unset b s) k \<longleftrightarrow> k \<noteq> unat b \<and> blk_used s k"
proof -
  have "k = unat b \<longleftrightarrow> k div 64 = unat b div 64 \<and> k mod 64 = unat b mod 64"
    by (metis div_mult_mod_eq)
  moreover have "k mod 64 < 64" by simp
  ultimately show ?thesis
    using assms
    by (auto simp: blk_used_def mmap_unset_def bit_mask_def bit_push_bit_1 word_index_eq_iff
        bit_of_blk bit_and_iff bit_not_iff simp del: push_bit_of_1)
qed

section \<open>What the search for one block finds\<close>

text \<open>The searches look at the whole words below \<open>_mem_max_blocks / 64\<close>.\<close>

definition searched :: "memman \<Rightarrow> nat" where
  "searched s = 64 * (unat (mem_max_blocks s) div 64)"

lemma searched_le: "searched s \<le> unat (mem_max_blocks s)"
  by (simp add: searched_def)

lemma searched_lt: "searched s < 2 ^ 64"
  using le_less_trans [OF searched_le unat_lt_64] by simp

lemma first_clear_bit_Some:
  "first_clear_bit w j = Some r \<Longrightarrow>
     unat j \<le> unat r \<and> unat r < 64 \<and> \<not> bit w (unat r) \<and> (\<forall>n. unat j \<le> n \<and> n < unat r \<longrightarrow> bit w n)"
proof (induction w j rule: first_clear_bit.induct)
  case (1 w j)
  show ?case
  proof (cases "j < 64 \<and> bit w (unat j)")
    case True
    then have "w AND push_bit (unat j) 1 \<noteq> 0" and j: "unat (j + 1) = Suc (unat j)" "j < 64"
      by (simp_all add: word_less_nat_alt unat_incr [of _ 64])
    with "1.prems" have "first_clear_bit w (j + 1) = Some r"
      by (simp add: first_clear_bit.simps [of w j])
    with "1.IH" j \<open>w AND push_bit (unat j) 1 \<noteq> 0\<close> True show ?thesis
      by (metis Suc_leD Suc_leI le_neq_implies_less)
  next
    case False
    with "1.prems" show ?thesis
      by (auto simp: first_clear_bit.simps [of w j] word_less_nat_alt split: if_splits)
  qed
qed

lemma first_clear_bit_None:
  "first_clear_bit w j = None \<Longrightarrow> unat j \<le> n \<Longrightarrow> n < 64 \<Longrightarrow> bit w n"
proof (induction w j rule: first_clear_bit.induct)
  case (1 w j)
  from "1.prems" have j: "j < 64" by (simp add: word_less_nat_alt)
  then have j1: "unat (j + 1) = Suc (unat j)" by (rule unat_incr)
  from j "1.prems"(1) have b: "bit w (unat j)" "w AND push_bit (unat j) 1 \<noteq> 0"
    "first_clear_bit w (j + 1) = None"
    by (auto simp: first_clear_bit.simps [of w j] word_less_nat_alt split: if_splits)
  show ?case
  proof (cases "n = unat j")
    case False
    with "1.prems"(2) j1 have "unat (j + 1) \<le> n" by simp
    with "1.IH" [OF j b(2,3)] "1.prems"(3) show ?thesis by simp
  qed (use b in simp)
qed

lemma unat_div_64: "unat (b div 64) = unat b div 64" for b :: u64
  by (simp add: unat_div)

lemma unat_block_number:
  fixes i j b :: u64
  assumes "i \<le> b div 64" "unat j < 64"
  shows "unat (i * 64 + j) = unat i * 64 + unat j"
proof -
  have "unat i \<le> unat b div 64" using assms(1) by (simp add: word_le_nat_alt unat_div)
  moreover have "unat b div 64 < 288230376151711744"
    by (rule less_mult_imp_div_less) simp
  ultimately have "unat i * 64 + unat j < 18446744073709551616"
    using assms(2) by linarith
  then show ?thesis by (simp add: unat_word_ariths)
qed

lemma block_in_word:
  fixes a m n :: nat
  assumes "64 * a \<le> m" "m < a * 64 + n" "n \<le> 64"
  shows "m div 64 = a \<and> m mod 64 = m - 64 * a \<and> m - 64 * a < n"
proof -
  obtain d where "m = 64 * a + d" using assms(1) le_Suc_ex by blast
  with assms(2,3) show ?thesis by simp
qed

lemma blk_used_word: "n < 64 \<Longrightarrow> blk_used s (unat i * 64 + n) = bit (mem_memory_map s i) n"
  by (simp add: blk_used_def)

lemma mmap_first_free_from_spec:
  fixes s i
  defines "r \<equiv> mmap_first_free_from s i"
  assumes "i \<le> mem_max_blocks s div 64"
  shows "(64 * unat i \<le> unat r \<and> unat r < searched s \<and> \<not> blk_used s (unat r) \<and>
            (\<forall>m. 64 * unat i \<le> m \<and> m < unat r \<longrightarrow> blk_used s m)) \<or>
         (r = 0 \<and> (\<forall>m. 64 * unat i \<le> m \<and> m < searched s \<longrightarrow> blk_used s m))"
  using assms(2) unfolding r_def
proof (induction s i rule: mmap_first_free_from.induct)
  case (1 s i)
  let ?w = "mem_memory_map s i"
  have used_iff: "blk_used s m = bit ?w (m mod 64)" if "m div 64 = unat i" for m
    using that by (auto simp: blk_used_def)
  show ?case
  proof (cases "i < mem_max_blocks s div 64")
    case False
    with "1.prems" have "unat i = unat (mem_max_blocks s) div 64"
      by (simp add: unat_div_64 word_less_nat_alt word_le_nat_alt)
    with False show ?thesis
      by (subst mmap_first_free_from.simps) (auto simp: mmap_first_free_from.simps [of s i] searched_def)
  next
    case True
    then have i1: "i + 1 \<le> mem_max_blocks s div 64" "unat (i + 1) = Suc (unat i)"
      by (auto simp: incr_le intro: unat_incr)
    show ?thesis
    proof (cases "first_clear_bit ?w 0")
      case (Some j)
      from first_clear_bit_Some [OF Some]
      have j: "unat j < 64" "\<not> bit ?w (unat j)" "\<And>n. n < unat j \<Longrightarrow> bit ?w n" by auto
      from j(1,2) have "?w \<noteq> - 1" by (auto simp: not_all_ones_bit)
      with True Some have r: "mmap_first_free_from s i = i * 64 + j"
        by (simp add: mmap_first_free_from.simps [of s i])
      have u: "unat (i * 64 + j) = unat i * 64 + unat j"
        using unat_block_number [of i "mem_max_blocks s" j] True j(1) by simp
      have "unat i < unat (mem_max_blocks s) div 64"
        using True by (simp add: unat_div_64 word_less_nat_alt)
      then have "unat i * 64 + unat j < searched s" using j(1) by (simp add: searched_def)
      moreover have "blk_used s m" if "64 * unat i \<le> m" "m < unat i * 64 + unat j" for m
      proof -
        from that j(1) have "m div 64 = unat i" "m mod 64 < unat j"
          using block_in_word [of "unat i" m "unat j"] by simp_all
        then show ?thesis using j(3) used_iff by blast
      qed
      ultimately show ?thesis
        using j u r by (intro disjI1) (auto simp: used_iff blk_used_word)
    next
      case None
      have all: "bit ?w n" if "n < 64" for n
        using first_clear_bit_None [OF None, of n] that by simp
      then have used: "blk_used s m" if "64 * unat i \<le> m" "m < 64 * unat (i + 1)" for m
      proof -
        from that i1(2) have "m div 64 = unat i" using block_in_word [of "unat i" m 64] by simp
        then show ?thesis using all used_iff by simp
      qed
      have w: "?w = 0xFFFFFFFFFFFFFFFF" using not_all_ones_bit [of ?w] all by auto
      then have r: "mmap_first_free_from s i = mmap_first_free_from s (i + 1)"
        using True by (simp add: mmap_first_free_from.simps [of s i])
      have extend: "\<forall>m. 64 * unat i \<le> m \<and> m < u \<longrightarrow> blk_used s m"
        if "\<forall>m. 64 * unat (i + 1) \<le> m \<and> m < u \<longrightarrow> blk_used s m" for u
        using that used by (meson not_le)
      have "64 * unat i \<le> 64 * unat (i + 1)" using i1(2) by simp
      moreover note "1.IH"(2) [OF True _ i1(1)] w
      ultimately show ?thesis unfolding r
        using extend by (auto intro: le_trans)
    qed
  qed
qed

section \<open>What the search for a run of blocks finds\<close>

definition zone_free :: "memman \<Rightarrow> nat \<Rightarrow> nat \<Rightarrow> bool" where
  "zone_free s k n = (\<forall>d < n. \<not> blk_used s (k + d))"

text \<open>
  The guard bits: the bits of the last word of the map that stand for no block are set.
  \<open>memman_init\<close> sets them (its loop runs to \<open>i <= _mem_max_blocks / 64\<close>) and
  they stop the search for a run at the end of memory.
\<close>

definition map_guard :: "memman \<Rightarrow> bool" where
  "map_guard s = (unat (mem_max_blocks s) < 2 ^ 52 \<and>
     (\<forall>k. unat (mem_max_blocks s) \<le> k \<and> k < searched s + 64 \<longrightarrow> blk_used s k))"

lemma max_blocks_lt: "unat (mem_max_blocks s) < searched s + 64"
  unfolding searched_def using div_mult_mod_eq [of "unat (mem_max_blocks s)" 64]
    mod_less_divisor [of 64 "unat (mem_max_blocks s)"] by linarith

lemma map_guardD:
  assumes "map_guard s"
  shows "unat (mem_max_blocks s) < 2 ^ 52" "blk_used s (unat (mem_max_blocks s))"
    "\<And>k. \<not> blk_used s k \<Longrightarrow> k < searched s + 64 \<Longrightarrow> k < unat (mem_max_blocks s)"
  using assms max_blocks_lt [of s] unfolding map_guard_def by (auto simp: not_less)

lemma zone_count_spec:
  fixes s pos sz count
  defines "c \<equiv> zone_count s pos sz count"
  assumes "blk_used s e" "unat pos + unat count \<le> e" "e < 2 ^ 64" "count \<le> sz"
    and "zone_free s (unat pos) (unat count)"
  shows "c \<le> sz \<and> unat pos + unat c \<le> e \<and> zone_free s (unat pos) (unat c) \<and>
         (c \<noteq> sz \<longrightarrow> blk_used s (unat pos + unat c))"
  using assms(2-6) unfolding c_def
proof (induction s pos sz count rule: zone_count.induct)
  case (1 s pos sz count)
  from "1.prems" have pc: "unat (pos + count) = unat pos + unat count"
    by (intro unat_add_small) simp
  show ?case
  proof (cases "count = sz \<or> blk_used s (unat pos + unat count)")
    case True
    with pc have "zone_count s pos sz count = count"
      by (auto simp: zone_count.simps [of s pos sz count] mmap_test_iff)
    with True "1.prems" show ?thesis by auto
  next
    case False
    with "1.prems"(4) have lt: "count < sz" by (simp add: order_less_le)
    then have c1: "unat (count + 1) = Suc (unat count)" "count + 1 \<le> sz"
      by (auto simp: incr_le intro: unat_incr)
    from False "1.prems"(1,2) have "unat pos + unat (count + 1) \<le> e"
      unfolding c1 by (metis add_Suc_right le_neq_implies_less Suc_leI)
    moreover have "zone_free s (unat pos) (unat (count + 1))"
      using False "1.prems"(5) by (auto simp: zone_free_def c1 less_Suc_eq)
    moreover have "zone_count s pos sz count = zone_count s pos sz (count + 1)"
      using False "1.prems"(4) pc by (simp add: zone_count.simps [of s pos sz count] mmap_test_iff)
    ultimately show ?thesis
      using "1.IH" "1.prems" False pc c1 lt by (simp add: mmap_test_iff)
  qed
qed

lemma no_zone_over_used:
  "blk_used s u \<Longrightarrow> k \<le> u \<Longrightarrow> u < k + n \<Longrightarrow> \<not> zone_free s k n"
  unfolding zone_free_def by (metis add_diff_inverse_nat less_diff_conv2 linorder_not_less nat_add_left_cancel_less)

text \<open>
  The loops return under the guard, and what they return is the first run that is long enough:
  \<open>p\<close> is the block the search has come to, and no run starts before it.
\<close>

definition zone_result :: "memman \<Rightarrow> u64 \<Rightarrow> u64 \<Rightarrow> bool" where
  "zone_result s sz r \<longleftrightarrow>
     (zone_free s (unat r) (unat sz) \<and> unat r + unat sz \<le> unat (mem_max_blocks s) \<and>
        (\<forall>k < unat r. \<not> zone_free s k (unat sz))) \<or>
     (r = 0 \<and> (\<forall>k < searched s. \<not> zone_free s k (unat sz)))"

lemma zone_loop_spec:
  assumes guard: "map_guard s" and sz: "0 < unat sz"
    and "p = 64 * unat i + (if inner then unat j else 0)"
    and "if inner then 64 * unat i \<le> searched s \<and> unat j \<le> 64 else 64 * unat i \<le> searched s + 64"
    and "\<forall>k < p. \<not> zone_free s k (unat sz)"
  shows "\<exists>r. zone_loop s sz inner i j = Some r \<and> zone_result s sz r"
  using assms(3-5)
proof (induction "3 * (searched s + 64 - p) + (if inner then if unat j < 64 then 0 else 2 else 1 :: nat)"
    arbitrary: p inner i j rule: less_induct)
  case less
  let ?M = "unat (mem_max_blocks s)" and ?w = "mem_memory_map s i"
  note unfold = zone_loop.simps [of s sz inner i j]
  have M: "?M < 2 ^ 52" "blk_used s ?M" "?M < searched s + 64" "searched s \<le> ?M"
    using map_guardD [OF guard] max_blocks_lt searched_le by auto
  have i_bound: "i \<le> mem_max_blocks s div 64" if "64 * unat i \<le> searched s"
    using that by (simp add: searched_def word_le_nat_alt unat_div_64)
  have i_next: "unat (i + 1) = Suc (unat i)" if "64 * unat i \<le> searched s"
  proof -
    have "unat i + unat (1 :: u64) < 2 ^ LENGTH(64)" using that M by simp
    then show ?thesis by (simp add: unat_add_small)
  qed
  consider (head) "\<not> inner" | (body) "inner" "j < 64" | (next_i) "inner" "\<not> j < 64" by blast
  then show ?case
  proof cases
    case head
    note inv = less.prems [unfolded if_not_P [OF head]]
    show ?thesis
    proof (cases "i < mem_max_blocks s div 64")
      case False
      then have "searched s \<le> 64 * unat i"
        by (simp add: searched_def word_less_nat_alt unat_div_64)
      with inv have "zone_result s sz 0" by (auto simp: zone_result_def)
      moreover have "zone_loop s sz inner i j = Some 0"
        using head False by (subst unfold) simp
      ultimately show ?thesis by blast
    next
      case True
      then have lt: "64 * unat i + 64 \<le> searched s" "64 * unat i < searched s"
        by (auto simp: searched_def word_less_nat_alt unat_div_64)
      show ?thesis
      proof (cases "?w = - 1")
        case False
        have "\<exists>r. zone_loop s sz True i 0 = Some r \<and> zone_result s sz r"
          by (rule less.hyps [OF _ _ _ inv(3)]) (use inv head lt in auto)
        with head True False show ?thesis by (subst unfold) simp
      next
        case w: True
        have used: "blk_used s k" if "64 * unat i \<le> k" "k < 64 * unat i + 64" for k
          using that block_in_word [of "unat i" k 64] by (simp add: blk_used_def w)
        have "\<forall>k < 64 * unat (i + 1). \<not> zone_free s k (unat sz)"
        proof (intro allI impI)
          fix k assume "k < 64 * unat (i + 1)"
          then show "\<not> zone_free s k (unat sz)"
            using inv(1,3) i_next lt sz no_zone_over_used [OF used, of k k "unat sz"]
            by (cases "k < p") auto
        qed
        then have "\<exists>r. zone_loop s sz False (i + 1) j = Some r \<and> zone_result s sz r"
          by (rule less.hyps [rotated 3]) (use inv head lt i_next in auto)
        with head True w show ?thesis by (subst unfold) simp
      qed
    qed
  next
    case body
    then have jlt: "unat j < 64" by (simp add: word_less_nat_alt)
    from body less.prems have inv: "p = 64 * unat i + unat j" "64 * unat i \<le> searched s"
      "\<forall>k < p. \<not> zone_free s k (unat sz)" by auto
    have pos: "unat (i * 64 + j) = p"
      using unat_block_number [OF i_bound jlt] inv by simp
    have j1: "unat (j + 1) = Suc (unat j)" using body(2) by (rule unat_incr)
    have used_iff: "blk_used s p = bit ?w (unat j)"
      unfolding inv(1) using blk_used_word [OF jlt, of s i] by (simp add: mult.commute)
    show ?thesis
    proof (cases "bit ?w (unat j)")
      case True
      then have "\<forall>k < Suc p. \<not> zone_free s k (unat sz)"
        using inv(3) used_iff sz no_zone_over_used [of s p p "unat sz"] by (auto simp: less_Suc_eq)
      then have "\<exists>r. zone_loop s sz True i (j + 1) = Some r \<and> zone_result s sz r"
        by (rule less.hyps [rotated 3]) (use inv j1 jlt body in auto)
      with body True jlt show ?thesis by (subst unfold) simp
    next
      case False
      define c where "c = zone_count s (i * 64 + j) sz 0"
      from False used_iff have free: "\<not> blk_used s p" by simp
      have pM: "p < ?M" using map_guardD(3) [OF guard free] inv jlt by simp
      have c: "c \<le> sz" "p + unat c \<le> ?M" "zone_free s p (unat c)" "c \<noteq> sz \<longrightarrow> blk_used s (p + unat c)"
        using zone_count_spec [OF M(2), of "i * 64 + j" 0 sz] pM M pos
        unfolding c_def by (auto simp: zone_free_def)
      show ?thesis
      proof (cases "c = sz")
        case True
        then show ?thesis using body False jlt c inv(3) pos
          by (subst unfold) (auto simp: zone_result_def c_def)
      next
        case neq: False
        have ce: "unat (i * 64 + j + c) = p + unat c"
          using pos c(2) M(1) by (subst unat_add_small) auto
        have "c \<noteq> 0" using c(4) neq free by auto
        have csz: "unat c < unat sz" using c(1) neq by (simp add: word_le_nat_alt word_unat_eq_iff)
        let ?i = "(i * 64 + j + c) div 64" and ?j = "(i * 64 + j + c) mod 64 + 1"
        have "unat ((i * 64 + j + c) mod 64) < 64" by (simp add: unat_mod)
        then have "(i * 64 + j + c) mod 64 < 64" by (simp add: word_less_nat_alt)
        then have j': "unat ?j = Suc ((p + unat c) mod 64)" by (simp add: unat_incr [of _ 64] unat_mod ce)
        have i': "unat ?i = (p + unat c) div 64" by (simp add: unat_div ce)
        have p': "Suc (p + unat c) = 64 * unat ?i + unat ?j" unfolding i' j' by simp
        have none: "\<forall>k < Suc (p + unat c). \<not> zone_free s k (unat sz)"
        proof (intro allI impI)
          fix k assume "k < Suc (p + unat c)"
          then show "\<not> zone_free s k (unat sz)"
            using inv(3) no_zone_over_used [of s "p + unat c" k "unat sz"] c(4) neq csz
            by (cases "k < p") auto
        qed
        have iS: "64 * unat ?i \<le> searched s"
          unfolding i' searched_def using c(2) by (simp add: div_le_mono)
        have "\<exists>r. zone_loop s sz True ?i ?j = Some r \<and> zone_result s sz r"
          by (rule less.hyps [OF _ _ _ none]) (use iS p' j' c(2) pM M body jlt in auto)
        with body False jlt neq show ?thesis by (subst unfold) (simp add: c_def Let_def)
      qed
    qed
  next
    case next_i
    then have "unat j = 64" using less.prems by (auto simp: word_less_nat_alt)
    with next_i less.prems have inv: "p = 64 * unat (i + 1)" "64 * unat i \<le> searched s"
      "\<forall>k < p. \<not> zone_free s k (unat sz)" using i_next by auto
    have "\<exists>r. zone_loop s sz False (i + 1) j = Some r \<and> zone_result s sz r"
      by (rule less.hyps [OF _ _ _ inv(3)]) (use inv next_i \<open>unat j = 64\<close> i_next in auto)
    with next_i show ?thesis by (subst unfold) simp
  qed
qed

text \<open>
  Both searches, as the code calls them: \<open>mmap_first_free\<close> is the lowest free block
  of the searched words (block 0 and "none" share the result 0), and
  \<open>mmap_first_free_zone\<close> returns, with the lowest run of free blocks.
\<close>

lemma mmap_first_free_spec:
  "(\<not> blk_used s (unat (mmap_first_free s)) \<and> unat (mmap_first_free s) < searched s \<and>
      (\<forall>m < unat (mmap_first_free s). blk_used s m)) \<or>
   (mmap_first_free s = 0 \<and> (\<forall>m < searched s. blk_used s m))"
  using mmap_first_free_from_spec [of 0 s] unfolding mmap_first_free_def by auto

lemma mmap_first_free_eq:
  "unat (mmap_first_free s) =
     (if \<exists>k < searched s. \<not> blk_used s k then LEAST k. \<not> blk_used s k else 0)"
proof (cases "\<exists>k < searched s. \<not> blk_used s k")
  case True
  then have "\<not> blk_used s (unat (mmap_first_free s)) \<and> (\<forall>m < unat (mmap_first_free s). blk_used s m)"
    using mmap_first_free_spec [of s] by auto
  then have "(LEAST k. \<not> blk_used s k) = unat (mmap_first_free s)"
    by (intro Least_equality) (auto simp: not_less [symmetric])
  with True show ?thesis by simp
qed (use mmap_first_free_spec [of s] in auto)

lemma mmap_first_free_zone_spec:
  assumes guard: "map_guard s" and "sz \<noteq> 0"
  obtains r where "mmap_first_free_zone s sz = Some r" "zone_result s sz r"
proof (cases "sz = 1")
  case True
  have "zone_result s 1 (mmap_first_free s)"
    using mmap_first_free_spec [of s] searched_le [of s]
    by (auto simp: zone_result_def zone_free_def)
  with True show ?thesis by (intro that) (auto simp: mmap_first_free_zone_def)
next
  case False
  have "0 < unat sz" using assms(2) by (simp add: unat_gt_0)
  then obtain r where "zone_loop s sz False 0 0 = Some r" "zone_result s sz r"
    using zone_loop_spec [OF guard, of sz 0 0 False 0] by auto
  with False assms(2) show ?thesis by (intro that) (auto simp: mmap_first_free_zone_def)
qed

end
