(* ===== verification/FrameAlloc.thy ===== *)
theory FrameAlloc
  imports Bitmap
begin

text \<open>
  The physical block allocator of \<open>kernel/memman.c\<close>: \<open>mem_alloc_block(s)\<close>,
  \<open>mem_free_block(s)\<close>, \<open>mem_init_region\<close> and the part of
  \<open>memman_init\<close> that builds the bitmap from the BIOS memory map. The abstract view of
  the state is the set of free blocks; the contract the paging code relies on is the locale
  \<open>frame_allocator\<close>, interpreted here on the code's operations.
\<close>

section \<open>Operations\<close>

abbreviation MEM_BLOCK_SIZE :: u64 where "MEM_BLOCK_SIZE \<equiv> 4096"

definition mem_free_block_count :: "memman \<Rightarrow> u64" where
  "mem_free_block_count s = mem_max_blocks s - mem_used_blocks s"

definition mem_alloc_block :: "memman \<Rightarrow> u64 \<times> memman" where
  "mem_alloc_block s =
     (if mem_free_block_count s = 0 then (0, s)
      else let frame = mmap_first_free s
           in if frame = 0 then (0, s)
              else (frame * MEM_BLOCK_SIZE,
                    (mmap_set frame s)\<lparr>mem_used_blocks := mem_used_blocks s + 1\<rparr>))"

definition mem_free_block :: "u64 \<Rightarrow> memman \<Rightarrow> memman" where
  "mem_free_block a s =
     (mmap_unset (a div MEM_BLOCK_SIZE) s)\<lparr>mem_used_blocks := mem_used_blocks s - 1\<rparr>"

text \<open>The loops over a range of blocks, with the loop variable of the code.\<close>

function mmap_set_blocks :: "u64 \<Rightarrow> u64 \<Rightarrow> u64 \<Rightarrow> memman \<Rightarrow> memman" where
  "mmap_set_blocks frame sz i s =
     (if i < sz then mmap_set_blocks frame sz (i + 1) (mmap_set (frame + i) s) else s)"
  by pat_completeness auto
termination
  by (relation "measure (\<lambda>(frame, sz, i, s). unat sz - unat i)")
     (auto simp: unat_incr word_less_nat_alt)

function mmap_unset_blocks :: "u64 \<Rightarrow> u64 \<Rightarrow> memman \<Rightarrow> memman" where
  "mmap_unset_blocks end_block i s =
     (if i < end_block then mmap_unset_blocks end_block (i + 1) (mmap_unset i s) else s)"
  by pat_completeness auto
termination
  by (relation "measure (\<lambda>(end_block, i, s). unat end_block - unat i)")
     (auto simp: unat_incr word_less_nat_alt)

definition mem_alloc_blocks :: "u64 \<Rightarrow> memman \<Rightarrow> (u64 \<times> memman) option" where
  "mem_alloc_blocks sz s =
     (if mem_free_block_count s < sz then Some (0, s)
      else case mmap_first_free_zone s sz of
             None \<Rightarrow> None
           | Some frame \<Rightarrow>
               if frame = 0 then Some (0, s)
               else Some (frame * MEM_BLOCK_SIZE,
                      (mmap_set_blocks frame sz 0 s)\<lparr>mem_used_blocks := mem_used_blocks s + sz\<rparr>))"

definition mem_free_blocks :: "u64 \<Rightarrow> u64 \<Rightarrow> memman \<Rightarrow> memman" where
  "mem_free_blocks a sz s =
     (let frame = a div MEM_BLOCK_SIZE
      in (mmap_unset_blocks (frame + sz) frame s)\<lparr>mem_used_blocks := mem_used_blocks s - sz\<rparr>)"

text \<open>
  \<open>mem_init_region\<close>: \<open>align\<close> moves on only when the block was marked used.
\<close>

function init_region_loop :: "u64 \<Rightarrow> u64 \<Rightarrow> memman \<Rightarrow> memman" where
  "init_region_loop align blocks s =
     (if blocks > 0
      then if mmap_test align s \<noteq> 0
           then init_region_loop (align + 1) (blocks - 1)
                  ((mmap_unset align s)\<lparr>mem_used_blocks := mem_used_blocks s - 1\<rparr>)
           else init_region_loop align (blocks - 1) s
      else s)"
  by pat_completeness auto
termination
  by (relation "measure (\<lambda>(align, blocks, s). unat blocks)")
     (auto simp: word_gt_0 unat_minus_one unat_gt_0)

definition mem_init_region :: "u64 \<Rightarrow> u64 \<Rightarrow> memman \<Rightarrow> memman" where
  "mem_init_region base sz s = init_region_loop (base div MEM_BLOCK_SIZE) (sz div MEM_BLOCK_SIZE) s"

section \<open>Building the bitmap at boot\<close>

text \<open>An entry of the BIOS memory map (\<open>struct memory_region\<close> of \<open>memman.h\<close>).\<close>

record memory_region =
  region_start :: u64
  region_size :: u64
  region_type :: u32
  region_acpi3 :: u32

text \<open>The highest end of an available region, and the sum of the sizes of these regions.\<close>

fun scan_memory_map :: "memory_region list \<Rightarrow> u64 \<Rightarrow> u64 \<Rightarrow> u64 \<times> u64" where
  "scan_memory_map [] tot limit = (tot, limit)"
| "scan_memory_map (r # rs) tot limit =
     (if region_type r = 1
      then scan_memory_map rs (tot + region_size r)
             (if region_start r + region_size r > limit then region_start r + region_size r else limit)
      else scan_memory_map rs tot limit)"

text \<open>\<open>for (i = 0; i <= _mem_max_blocks / 64; i++) _mem_memory_map[i] = 0-1;\<close>\<close>

function mmap_fill :: "u64 \<Rightarrow> memman \<Rightarrow> memman" where
  "mmap_fill i s =
     (if i \<le> mem_max_blocks s div 64
      then mmap_fill (i + 1) (s\<lparr>mem_memory_map := (mem_memory_map s)(i := - 1)\<rparr>)
      else s)"
  by pat_completeness auto
termination
proof (relation "measure (\<lambda>(i, s). Suc (unat (mem_max_blocks s) div 64) - unat i)", goal_cases)
  case (2 i s)
  then have "i \<le> mem_max_blocks s div 64" by simp
  then have i: "unat i \<le> unat (mem_max_blocks s) div 64" by (simp add: word_le_nat_alt unat_div)
  have "unat (mem_max_blocks s) div 64 < 288230376151711744"
    by (rule less_mult_imp_div_less) simp
  with i have "unat (i + 1) = Suc (unat i)" by (simp add: unat_word_ariths)
  with i show ?case by simp
qed simp

fun init_regions :: "memory_region list \<Rightarrow> memman \<Rightarrow> memman" where
  "init_regions [] s = s"
| "init_regions (r # rs) s =
     init_regions rs
       (if region_type r = 1 then mem_init_region (region_start r) (region_size r) s else s)"

text \<open>The two loops that mark a range used if it is not (the first MB, the kernel).\<close>

function mark_used :: "u64 \<Rightarrow> u64 \<Rightarrow> memman \<Rightarrow> memman" where
  "mark_used i n s =
     (if i < n
      then mark_used (i + 1) n
             (if mmap_test i s = 0
              then mmap_set i (s\<lparr>mem_used_blocks := mem_used_blocks s + 1\<rparr>)
              else s)
      else s)"
  by pat_completeness auto
termination
  by (relation "measure (\<lambda>(i, n, s). unat n - unat i)") (auto simp: unat_incr word_less_nat_alt)

text \<open>
  \<open>memman_init\<close> up to the set-up of paging. \<open>kstart\<close> and \<open>kend\<close> are the
  addresses of the linker's symbols \<open>_kernel_start\<close> and \<open>_kernel_end\<close>;
  \<open>regions\<close> is the boot loader's map, \<open>m_mmap_length\<close> entries at
  \<open>m_mmap_addr\<close>.
\<close>

definition blocks_used_by_kernel :: "u64 \<Rightarrow> u64 \<Rightarrow> u64 \<Rightarrow> u64" where
  "blocks_used_by_kernel kstart kend max_blocks =
     (kend div 0x1000 + 1) + (max_blocks div 8) div MEM_BLOCK_SIZE + 1 - kstart div 0x1000"

definition memman_init_map :: "u64 \<Rightarrow> u64 \<Rightarrow> memory_region list \<Rightarrow> memman \<Rightarrow> memman" where
  "memman_init_map kstart kend regions s =
     (let (tot, limit) = scan_memory_map regions 0 0;
          s1 = s\<lparr>mem_memory_size := tot, mem_max_blocks := limit div MEM_BLOCK_SIZE,
                 mem_used_blocks := limit div MEM_BLOCK_SIZE\<rparr>;
          s2 = mmap_fill 0 s1;
          s3 = init_regions regions s2;
          s4 = mark_used 0 256 s3;
          kblocks = blocks_used_by_kernel kstart kend (mem_max_blocks s4);
          s5 = mark_used 0x200 (kblocks + 0x200) s4
      in s5\<lparr>kernel_next_block := 0xc0000000 div 0x1000 + kblocks\<rparr>)"

text \<open>The count of \<open>debug_memmap\<close>, which does not use the counter of the allocator.\<close>

function debug_count :: "u64 \<Rightarrow> u64 \<Rightarrow> memman \<Rightarrow> u64" where
  "debug_count i used s =
     (if i < mem_max_blocks s
      then debug_count (i + 1) (if mmap_test i s \<noteq> 0 then used + 1 else used) s
      else used)"
  by pat_completeness auto
termination
  by (relation "measure (\<lambda>(i, _, s). unat (mem_max_blocks s) - unat i)") (auto simp: unat_incr word_less_nat_alt)

text \<open>The three numbers shown.\<close>

definition debug_memmap :: "memman \<Rightarrow> u64 \<times> u64 \<times> u64" where
  "debug_memmap s =
     (let used = debug_count 0 0 s
      in (mem_max_blocks s, mem_max_blocks s - used, (mem_max_blocks s - used) * MEM_BLOCK_SIZE))"

declare debug_count.simps [simp del]

declare mmap_set_blocks.simps [simp del] mmap_unset_blocks.simps [simp del]
  init_region_loop.simps [simp del] mmap_fill.simps [simp del] mark_used.simps [simp del]

section \<open>The abstract view: the set of free blocks\<close>

definition free_blocks :: "memman \<Rightarrow> nat set" where
  "free_blocks s = {k. k < unat (mem_max_blocks s) \<and> \<not> blk_used s k}"

definition used_set :: "memman \<Rightarrow> nat set" where
  "used_set s = {k. k < unat (mem_max_blocks s) \<and> blk_used s k}"

text \<open>
  The invariant of the allocator: the guard bits are set, and \<open>_mem_used_blocks\<close> counts
  the used blocks.
\<close>

definition mm_inv :: "memman \<Rightarrow> bool" where
  "mm_inv s \<longleftrightarrow> map_guard s \<and> unat (mem_used_blocks s) = card (used_set s)"

lemma mmap_frame [simp, frame_simps]:
  "mem_max_blocks (mmap_set b s) = mem_max_blocks s"
  "mem_used_blocks (mmap_set b s) = mem_used_blocks s"
  "kernel_next_block (mmap_set b s) = kernel_next_block s"
  "mem_memory_size (mmap_set b s) = mem_memory_size s"
  "mem_max_blocks (mmap_unset b s) = mem_max_blocks s"
  "mem_used_blocks (mmap_unset b s) = mem_used_blocks s"
  "kernel_next_block (mmap_unset b s) = kernel_next_block s"
  "mem_memory_size (mmap_unset b s) = mem_memory_size s"
  by (simp_all add: mmap_set_def mmap_unset_def)

lemma blk_used_update [simp]:
  "blk_used (s\<lparr>mem_used_blocks := x\<rparr>) k = blk_used s k"
  "blk_used (s\<lparr>kernel_next_block := x\<rparr>) k = blk_used s k"
  "blk_used (s\<lparr>mem_memory_size := x\<rparr>) k = blk_used s k"
  "blk_used (s\<lparr>mem_max_blocks := x\<rparr>) k = blk_used s k"
  by (simp_all add: blk_used_def)

lemma searched_cong [simp]:
  "searched (s\<lparr>mem_used_blocks := x\<rparr>) = searched s"
  "searched (s\<lparr>kernel_next_block := x\<rparr>) = searched s"
  "searched (mmap_set b s) = searched s"
  "searched (mmap_unset b s) = searched s"
  by (simp_all add: searched_def)

lemma finite_block_sets [simp]: "finite (used_set s)" "finite (free_blocks s)"
  by (simp_all add: used_set_def free_blocks_def)

lemma card_block_sets: "card (used_set s) + card (free_blocks s) = unat (mem_max_blocks s)"
proof -
  have "used_set s \<union> free_blocks s = {..< unat (mem_max_blocks s)}" "used_set s \<inter> free_blocks s = {}"
    by (auto simp: used_set_def free_blocks_def)
  then show ?thesis by (metis card_Un_disjoint card_lessThan finite_block_sets)
qed

lemma used_set_alt: "used_set s = {..<unat (mem_max_blocks s)} - free_blocks s"
  by (auto simp: used_set_def free_blocks_def)

lemma mm_inv_guard: "mm_inv s \<Longrightarrow> map_guard s"
  by (simp add: mm_inv_def)

lemma mm_inv_max: "mm_inv s \<Longrightarrow> unat (mem_max_blocks s) < 2 ^ 52"
  using map_guardD(1) mm_inv_guard by blast

lemma free_blocks_lt: "mm_inv s \<Longrightarrow> f \<in> free_blocks s \<Longrightarrow> f < 2 ^ 52"
  using mm_inv_max by (fastforce simp: free_blocks_def)

lemma blk_used_set_52:
  "map_guard s \<Longrightarrow> k < searched s + 64 \<Longrightarrow> blk_used (mmap_set b s) k \<longleftrightarrow> k = unat b \<or> blk_used s k"
  "map_guard s \<Longrightarrow> k < searched s + 64 \<Longrightarrow> blk_used (mmap_unset b s) k \<longleftrightarrow> k \<noteq> unat b \<and> blk_used s k"
  using map_guardD(1) [of s] searched_le [of s] by (auto simp: blk_used_set blk_used_unset)

lemma free_blocks_set:
  "map_guard s \<Longrightarrow> free_blocks (mmap_set b s) = free_blocks s - {unat b}"
  "map_guard s \<Longrightarrow> used_set (mmap_set b s) =
     (if unat b < unat (mem_max_blocks s) then insert (unat b) (used_set s) else used_set s)"
  using max_blocks_lt [of s] by (auto simp: free_blocks_def used_set_def blk_used_set_52)

lemma free_blocks_unset:
  "map_guard s \<Longrightarrow> free_blocks (mmap_unset b s) =
     (if unat b < unat (mem_max_blocks s) then insert (unat b) (free_blocks s) else free_blocks s)"
  "map_guard s \<Longrightarrow> used_set (mmap_unset b s) = used_set s - {unat b}"
  using max_blocks_lt [of s] by (auto simp: free_blocks_def used_set_def blk_used_set_52)

lemma free_blocks_update [simp]:
  "free_blocks (s\<lparr>mem_used_blocks := x\<rparr>) = free_blocks s"
  "used_set (s\<lparr>mem_used_blocks := x\<rparr>) = used_set s"
  "free_blocks (s\<lparr>kernel_next_block := x\<rparr>) = free_blocks s"
  "used_set (s\<lparr>kernel_next_block := x\<rparr>) = used_set s"
  by (simp_all add: free_blocks_def used_set_def)

lemma map_guard_update [simp]:
  "map_guard (s\<lparr>mem_used_blocks := x\<rparr>) = map_guard s"
  "map_guard (s\<lparr>kernel_next_block := x\<rparr>) = map_guard s"
  by (simp_all add: map_guard_def)

lemma map_guard_set: "map_guard s \<Longrightarrow> map_guard (mmap_set b s)"
  by (auto simp: map_guard_def blk_used_set_52)

lemma map_guard_unset:
  "map_guard s \<Longrightarrow> unat b < unat (mem_max_blocks s) \<Longrightarrow> map_guard (mmap_unset b s)"
  by (auto simp: map_guard_def blk_used_set_52)

text \<open>Taking a free block and giving back a used one, with the count kept.\<close>

lemma mm_inv_take:
  assumes "mm_inv s" "unat b \<in> free_blocks s"
  shows "mm_inv ((mmap_set b s)\<lparr>mem_used_blocks := mem_used_blocks s + 1\<rparr>)"
proof -
  note guard = mm_inv_guard [OF assms(1)]
  have "card (used_set s) < unat (mem_max_blocks s)"
    using card_block_sets [of s] assms(2) by (metis card_gt_0_iff empty_iff finite_block_sets(2) less_add_same_cancel1)
  then have "unat (mem_used_blocks s + 1) = Suc (card (used_set s))"
    using assms(1) unat_incr [of "mem_used_blocks s" "mem_max_blocks s"]
    by (simp add: mm_inv_def word_less_nat_alt)
  moreover have "unat b \<notin> used_set s" "unat b < unat (mem_max_blocks s)"
    using assms(2) by (auto simp: free_blocks_def used_set_def)
  ultimately show ?thesis
    using guard by (simp add: mm_inv_def map_guard_set free_blocks_set)
qed

lemma mm_inv_give:
  assumes "mm_inv s" "unat b \<in> used_set s"
  shows "mm_inv ((mmap_unset b s)\<lparr>mem_used_blocks := mem_used_blocks s - 1\<rparr>)"
proof -
  note guard = mm_inv_guard [OF assms(1)]
  have "0 < card (used_set s)" using assms(2) by (auto simp: card_gt_0_iff)
  then have "unat (mem_used_blocks s - 1) = card (used_set s) - 1"
    using assms(1) by (simp add: mm_inv_def unat_minus_one unat_gt_0 [symmetric])
  moreover have "unat b < unat (mem_max_blocks s)" using assms(2) by (simp add: used_set_def)
  ultimately show ?thesis
    using guard assms(2) by (simp add: mm_inv_def map_guard_unset free_blocks_unset)
qed

section \<open>The contract of a block allocator\<close>

text \<open>
  What the users of the allocator rely on: a call either fails and changes nothing, or hands
  out a free block, which is in use from then on; giving back a block in use makes it free.
\<close>

locale frame_allocator =
  fixes inv :: "'s \<Rightarrow> bool"
    and free :: "'s \<Rightarrow> nat set"
    and in_use :: "'s \<Rightarrow> nat set"
    and alloc :: "'s \<Rightarrow> u64 \<times> 's"
    and release :: "u64 \<Rightarrow> 's \<Rightarrow> 's"
  assumes alloc_fail: "inv s \<Longrightarrow> alloc s = (0, s') \<Longrightarrow> s' = s"
    and alloc_block: "inv s \<Longrightarrow> alloc s = (a, s') \<Longrightarrow> a \<noteq> 0 \<Longrightarrow>
      \<exists>f \<in> free s. f \<noteq> 0 \<and> a = of_nat (f * 4096) \<and> inv s' \<and>
        free s' = free s - {f} \<and> in_use s' = insert f (in_use s)"
    and release_block: "inv s \<Longrightarrow> f \<in> in_use s \<Longrightarrow>
      inv (release (of_nat (f * 4096)) s) \<and>
      free (release (of_nat (f * 4096)) s) = insert f (free s) \<and>
      in_use (release (of_nat (f * 4096)) s) = in_use s - {f}"
    and blocks_bounded: "inv s \<Longrightarrow> f \<in> free s \<union> in_use s \<Longrightarrow> f < 2 ^ 52"
    and blocks_disjoint: "inv s \<Longrightarrow> free s \<inter> in_use s = {}"

text \<open>Runs of a client: \<open>own\<close> are the blocks it holds.\<close>

inductive alloc_run :: "('s \<Rightarrow> u64 \<times> 's) \<Rightarrow> (u64 \<Rightarrow> 's \<Rightarrow> 's) \<Rightarrow> 's \<Rightarrow> 's \<Rightarrow> nat set \<Rightarrow> bool"
  for alloc release s0 where
  run_start: "alloc_run alloc release s0 s0 {}"
| run_alloc: "alloc_run alloc release s0 s own \<Longrightarrow> alloc s = (a, s') \<Longrightarrow> a \<noteq> 0 \<Longrightarrow>
    alloc_run alloc release s0 s' (insert (unat a div 4096) own)"
| run_fail: "alloc_run alloc release s0 s own \<Longrightarrow> alloc s = (0, s') \<Longrightarrow>
    alloc_run alloc release s0 s' own"
| run_free: "alloc_run alloc release s0 s own \<Longrightarrow> f \<in> own \<Longrightarrow>
    alloc_run alloc release s0 (release (of_nat (f * 4096)) s) (own - {f})"

lemma block_address:
  assumes "f < 2 ^ 52"
  shows "unat (of_nat (f * 4096) :: u64) = f * 4096"
proof -
  have "f * 4096 < 2 ^ LENGTH(64)" using assms by simp
  then show ?thesis by (rule unat_of_nat_small)
qed

context frame_allocator
begin

lemma alloc_address: "inv s \<Longrightarrow> alloc s = (a, s') \<Longrightarrow> a \<noteq> 0 \<Longrightarrow>
   unat a div 4096 \<in> free s \<and> unat a mod 4096 = 0 \<and> unat a div 4096 \<noteq> 0 \<and> inv s' \<and>
   free s' = free s - {unat a div 4096} \<and> in_use s' = insert (unat a div 4096) (in_use s)"
  using alloc_block [of s a s'] blocks_bounded [of s] block_address by fastforce

text \<open>Giving back the block just taken leaves the same blocks free and in use.\<close>

lemma release_alloc:
  assumes "inv s" "alloc s = (a, s')" "a \<noteq> 0"
  shows "inv (release a s') \<and> free (release a s') = free s \<and> in_use (release a s') = in_use s"
proof -
  obtain f where f: "f \<in> free s" "a = of_nat (f * 4096)" "inv s'" "free s' = free s - {f}"
    "in_use s' = insert f (in_use s)"
    using alloc_block [OF assms] by blast
  moreover have "f \<notin> in_use s" using blocks_disjoint [OF assms(1)] f(1) by blast
  ultimately show ?thesis using release_block [OF f(3), of f] by auto
qed

text \<open>No run loses, duplicates or invents a block.\<close>

lemma run_conserves:
  assumes "alloc_run alloc release s0 s own" "inv s0"
  shows "inv s \<and> own \<inter> free s = {} \<and> own \<union> free s = free s0 \<and> own \<subseteq> in_use s \<and> in_use s = in_use s0 \<union> own"
  using assms
proof (induction rule: alloc_run.induct)
  case run_start
  then show ?case by simp
next
  case (run_alloc s own a s')
  then have "inv s" by simp
  from alloc_address [OF this run_alloc.hyps(2,3)] run_alloc show ?case by blast
next
  case (run_fail s own s')
  then show ?case using alloc_fail by blast
next
  case (run_free s own f)
  then have "inv s" "f \<in> in_use s" "f \<in> free s0" by auto
  moreover from this have "f \<notin> in_use s0" using blocks_disjoint [OF run_free.prems] by blast
  ultimately show ?case using release_block [of s f] run_free by auto
qed

end

section \<open>The code's allocator meets the contract\<close>

lemma mm_inv_first_free:
  assumes "mm_inv s" "mmap_first_free s \<noteq> 0"
  shows "unat (mmap_first_free s) \<in> free_blocks s" "unat (mmap_first_free s) = Min (free_blocks s)"
    "unat (mmap_first_free s * 4096) = unat (mmap_first_free s) * 4096"
proof -
  let ?f = "unat (mmap_first_free s)"
  have f: "?f < searched s" "\<not> blk_used s ?f" "\<forall>m < ?f. blk_used s m"
    using mmap_first_free_spec [of s] assms(2) by auto
  then show mem: "?f \<in> free_blocks s"
    using searched_le [of s] by (simp add: free_blocks_def)
  show "?f = Min (free_blocks s)"
    using mem f(3) by (intro Min_eqI [symmetric]) (auto simp: free_blocks_def not_less [symmetric])
  show "unat (mmap_first_free s * 4096) = ?f * 4096"
    using free_blocks_lt [OF assms(1) mem] by (simp add: unat_word_ariths)
qed

lemma mem_free_block_count_eq: "mm_inv s \<Longrightarrow> unat (mem_free_block_count s) = card (free_blocks s)"
  using card_block_sets [of s]
  by (simp add: mem_free_block_count_def mm_inv_def unat_diff_small word_le_nat_alt)

lemma debug_count_spec:
  "map_guard s \<Longrightarrow> unat i \<le> unat (mem_max_blocks s) \<Longrightarrow>
     debug_count i u s = u + of_nat (card (used_set s \<inter> {unat i..}))"
proof (induction i u s rule: debug_count.induct)
  case (1 i u s)
  have fin: "finite (used_set s)" by (rule finite_block_sets)
  show ?case
  proof (cases "i < mem_max_blocks s")
    case True
    have i1: "unat (i + 1) = Suc (unat i)" by (rule unat_incr [OF True])
    have "{unat i..} = insert (unat i) {Suc (unat i)..}" by auto
    then have split: "used_set s \<inter> {unat i..} =
        (if blk_used s (unat i) then insert (unat i) (used_set s \<inter> {Suc (unat i)..}) else used_set s \<inter> {Suc (unat i)..})"
      using True by (auto simp: used_set_def word_less_nat_alt)
    have "debug_count (i + 1) (if mmap_test i s \<noteq> 0 then u + 1 else u) s =
        (if mmap_test i s \<noteq> 0 then u + 1 else u) + of_nat (card (used_set s \<inter> {unat (i + 1)..}))"
      using "1.IH" [OF True] "1.prems" True i1 by (simp add: word_less_nat_alt)
    then show ?thesis using True fin
      by (simp add: debug_count.simps [of i u s] split i1 mmap_test_iff)
  next
    case False
    then have "used_set s \<inter> {unat i..} = {}" by (auto simp: used_set_def word_less_nat_alt)
    then show ?thesis using False by (simp add: debug_count.simps [of i u s])
  qed
qed

text \<open>What is shown agrees with the counter.\<close>

lemma debug_memmap_agrees:
  assumes "mm_inv s"
  shows "debug_memmap s = (mem_max_blocks s, mem_free_block_count s, mem_free_block_count s * MEM_BLOCK_SIZE)"
proof -
  have "of_nat (card (used_set s)) = mem_used_blocks s" using assms by (metis mm_inv_def of_nat_unat ucast_id)
  then have "debug_count 0 0 s = mem_used_blocks s"
    using debug_count_spec [of s 0 0] mm_inv_guard [OF assms] by simp
  then show ?thesis by (simp add: debug_memmap_def mem_free_block_count_def Let_def)
qed

lemma mem_free_block_count_0: "mm_inv s \<Longrightarrow> mem_free_block_count s = 0 \<longleftrightarrow> free_blocks s = {}"
  using mem_free_block_count_eq [of s] by (metis card_0_eq finite_block_sets(2) unat_eq_zero)

lemma block_number_of_address:
  "f < 2 ^ 52 \<Longrightarrow> unat ((of_nat (f * 4096) :: u64) div 4096) = f"
  by (simp add: unat_div block_address del: of_nat_mult)

interpretation phys: frame_allocator mm_inv free_blocks used_set mem_alloc_block mem_free_block
proof (unfold_locales, goal_cases)
  case (1 s s')
  then have "mmap_first_free s \<noteq> 0 \<Longrightarrow> mmap_first_free s * 4096 \<noteq> 0"
    using mm_inv_first_free [of s] by (metis mult_is_0 numeral_eq_iff unat_0 unat_eq_zero zero_neq_numeral)
  with 1 show ?case by (auto simp: mem_alloc_block_def Let_def split: if_splits)
next
  case (2 s a s')
  then have f: "mmap_first_free s \<noteq> 0" "a = mmap_first_free s * 4096"
    "s' = (mmap_set (mmap_first_free s) s)\<lparr>mem_used_blocks := mem_used_blocks s + 1\<rparr>"
    by (auto simp: mem_alloc_block_def Let_def split: if_splits)
  note mem = mm_inv_first_free(1) [OF 2(1) f(1)]
  then have "unat (mmap_first_free s) < unat (mem_max_blocks s)" by (simp add: free_blocks_def)
  with f mm_inv_guard [OF 2(1)] mm_inv_take [OF 2(1) mem] mem show ?case
    by (intro bexI [OF _ mem]) (simp add: free_blocks_set unat_eq_zero)
next
  case (3 s f)
  then have "f < 2 ^ 52" using mm_inv_max by (fastforce simp: used_set_def)
  note num = block_number_of_address [OF this]
  have "f < unat (mem_max_blocks s)" using 3(2) by (simp add: used_set_def)
  with mm_inv_give [OF 3(1), of "of_nat (f * 4096) div 4096"] mm_inv_guard [OF 3(1)] 3(2) num
  show ?case
    by (simp add: mem_free_block_def free_blocks_unset del: of_nat_mult)
next
  case (4 s f)
  then show ?case using mm_inv_max [of s] by (auto simp: free_blocks_def used_set_def)
next
  case (5 s)
  show ?case by (auto simp: free_blocks_def used_set_def)
qed

section \<open>Ranges of blocks\<close>

lemma mmap_set_blocks_frame [simp, frame_simps]:
  "mem_max_blocks (mmap_set_blocks frame sz i s) = mem_max_blocks s"
  "mem_used_blocks (mmap_set_blocks frame sz i s) = mem_used_blocks s"
  "mem_memory_size (mmap_set_blocks frame sz i s) = mem_memory_size s"
  "kernel_next_block (mmap_set_blocks frame sz i s) = kernel_next_block s"
  by (induction frame sz i s rule: mmap_set_blocks.induct; subst mmap_set_blocks.simps; simp)+

lemma mmap_unset_blocks_frame [simp, frame_simps]:
  "mem_max_blocks (mmap_unset_blocks e i s) = mem_max_blocks s"
  "mem_used_blocks (mmap_unset_blocks e i s) = mem_used_blocks s"
  "mem_memory_size (mmap_unset_blocks e i s) = mem_memory_size s"
  "kernel_next_block (mmap_unset_blocks e i s) = kernel_next_block s"
  by (induction e i s rule: mmap_unset_blocks.induct; subst mmap_unset_blocks.simps; simp)+

lemma blk_used_set_blocks:
  assumes "k < 2 ^ 64" "unat frame + unat sz \<le> 2 ^ 64"
  shows "blk_used (mmap_set_blocks frame sz i s) k \<longleftrightarrow>
           blk_used s k \<or> (unat frame + unat i \<le> k \<and> k < unat frame + unat sz)"
  using assms(2)
proof (induction frame sz i s rule: mmap_set_blocks.induct)
  case (1 frame sz i s)
  show ?case
  proof (cases "i < sz")
    case True
    then have lt: "unat i < unat sz" by (simp add: word_less_nat_alt)
    have i1: "unat (i + 1) = Suc (unat i)" using True by (rule unat_incr)
    have fi: "unat (frame + i) = unat frame + unat i"
      using lt "1.prems" by (intro unat_add_small) simp
    have "blk_used (mmap_set_blocks frame sz i s) k =
        blk_used (mmap_set_blocks frame sz (i + 1) (mmap_set (frame + i) s)) k"
      using True by (simp add: mmap_set_blocks.simps [of frame sz i])
    then show ?thesis
      using "1.IH" [OF True "1.prems"] lt assms(1) by (auto simp: i1 fi blk_used_set)
  next
    case False
    then show ?thesis by (auto simp: mmap_set_blocks.simps [of frame sz i] word_less_nat_alt)
  qed
qed

lemma blk_used_unset_blocks:
  assumes "k < 2 ^ 64"
  shows "blk_used (mmap_unset_blocks e i s) k \<longleftrightarrow> blk_used s k \<and> \<not> (unat i \<le> k \<and> k < unat e)"
proof (induction e i s rule: mmap_unset_blocks.induct)
  case (1 e i s)
  show ?case
  proof (cases "i < e")
    case True
    then have lt: "unat i < unat e" by (simp add: word_less_nat_alt)
    have i1: "unat (i + 1) = Suc (unat i)" using True by (rule unat_incr)
    have "blk_used (mmap_unset_blocks e i s) k = blk_used (mmap_unset_blocks e (i + 1) (mmap_unset i s)) k"
      using True by (simp add: mmap_unset_blocks.simps [of e i])
    then show ?thesis using "1.IH" [OF True] lt assms by (auto simp: i1 blk_used_unset)
  next
    case False
    then show ?thesis by (auto simp: mmap_unset_blocks.simps [of e i] word_less_nat_alt)
  qed
qed

lemma zone_free_blocks:
  "map_guard s \<Longrightarrow> k + n \<le> unat (mem_max_blocks s) \<Longrightarrow> zone_free s k n \<longleftrightarrow> {k..<k + n} \<subseteq> free_blocks s"
  by (auto simp: zone_free_def free_blocks_def subset_iff Ball_def)
    (metis le_add_diff_inverse less_diff_conv2 add.commute)+

lemma mm_inv_take_range:
  assumes inv: "mm_inv s" and free: "{unat f..<unat f + unat sz} \<subseteq> free_blocks s"
    and bound: "unat f + unat sz \<le> unat (mem_max_blocks s)"
  defines "s' \<equiv> (mmap_set_blocks f sz 0 s)\<lparr>mem_used_blocks := mem_used_blocks s + sz\<rparr>"
  shows "mm_inv s'" "free_blocks s' = free_blocks s - {unat f..<unat f + unat sz}"
proof -
  let ?R = "{unat f..<unat f + unat sz}" and ?M = "unat (mem_max_blocks s)"
  have M: "?M < 2 ^ 52" using mm_inv_max [OF inv] .
  have guard: "map_guard s" using inv by (rule mm_inv_guard)
  have s': "blk_used s' k \<longleftrightarrow> blk_used s k \<or> k \<in> ?R" if "k < 2 ^ 64" for k
    unfolding s'_def using blk_used_set_blocks [OF that, of f sz 0 s] bound M by simp
  have [simp]: "mem_max_blocks s' = mem_max_blocks s" "searched s' = searched s"
    by (simp_all add: s'_def searched_def)
  have lt: "k < 2 ^ 64" if "k < searched s + 64" for k
    using that searched_le [of s] M by simp
  show "free_blocks s' = free_blocks s - ?R"
    using s' M by (auto simp: free_blocks_def)
  have us: "used_set s' = used_set s \<union> ?R"
    using s' M bound by (auto simp: used_set_def)
  have "used_set s \<inter> ?R = {}" using free by (auto simp: used_set_def free_blocks_def)
  then have card: "card (used_set s') = card (used_set s) + unat sz"
    by (simp add: us card_Un_disjoint)
  also have "\<dots> \<le> ?M" using card_block_sets [of s'] card by simp
  finally have "unat (mem_used_blocks s + sz) = card (used_set s')"
    using card inv M by (subst unat_add_small) (auto simp: mm_inv_def)
  moreover have "map_guard s'"
    using guard s' lt unfolding map_guard_def by simp
  ultimately show "mm_inv s'" by (simp add: mm_inv_def s'_def)
qed

section \<open>Marking regions available and used\<close>

lemma init_region_loop_spec:
  fixes a n s
  defines "s' \<equiv> init_region_loop a n s"
  assumes "mm_inv s" "unat a + unat n \<le> unat (mem_max_blocks s)"
  shows "mm_inv s' \<and> mem_max_blocks s' = mem_max_blocks s \<and> free_blocks s \<subseteq> free_blocks s' \<and>
     free_blocks s' \<subseteq> free_blocks s \<union> {unat a..<unat a + unat n} \<and>
     ({unat a..<unat a + unat n} \<subseteq> used_set s \<longrightarrow>
        free_blocks s' = free_blocks s \<union> {unat a..<unat a + unat n})"
  using assms(2-3) unfolding s'_def
proof (induction a n s rule: init_region_loop.induct)
  case (1 a n s)
  show ?case
  proof (cases "n = 0")
    case True
    with "1.prems" show ?thesis by (simp add: init_region_loop.simps [of a 0 s])
  next
    case False
    then have n: "n > 0" "unat (n - 1) = unat n - 1" "0 < unat n"
      by (simp_all add: word_gt_0 unat_minus_one unat_gt_0)
    then have aM: "unat a < unat (mem_max_blocks s)" using "1.prems" by simp
    then have a1: "unat (a + 1) = Suc (unat a)"
      using unat_incr [of a "mem_max_blocks s"] by (simp add: word_less_nat_alt)
    show ?thesis
    proof (cases "blk_used s (unat a)")
      case True
      define t where "t = (mmap_unset a s)\<lparr>mem_used_blocks := mem_used_blocks s - 1\<rparr>"
      have used: "unat a \<in> used_set s" using True aM by (simp add: used_set_def)
      have t: "mm_inv t" "mem_max_blocks t = mem_max_blocks s"
        "free_blocks t = insert (unat a) (free_blocks s)" "used_set t = used_set s - {unat a}"
        using mm_inv_give [OF "1.prems"(1) used] mm_inv_guard [OF "1.prems"(1)] aM
        by (simp_all add: t_def free_blocks_unset)
      have r: "init_region_loop a n s = init_region_loop (a + 1) (n - 1) t"
        using True n by (simp add: init_region_loop.simps [of a n s] mmap_test_iff t_def)
      define R where "R = {unat (a + 1)..<unat (a + 1) + unat (n - 1)}"
      have R: "{unat a..<unat a + unat n} = insert (unat a) R" "unat a \<notin> R"
        using n a1 by (auto simp: R_def)
      have "mmap_test a s \<noteq> 0" using True by (simp add: mmap_test_iff)
      from "1.IH"(1) [OF n(1) this, folded t_def R_def] t n a1 "1.prems"
      have "mm_inv (init_region_loop a n s) \<and> mem_max_blocks (init_region_loop a n s) = mem_max_blocks t \<and>
          free_blocks t \<subseteq> free_blocks (init_region_loop a n s) \<and>
          free_blocks (init_region_loop a n s) \<subseteq> free_blocks t \<union> R \<and>
          (R \<subseteq> used_set t \<longrightarrow> free_blocks (init_region_loop a n s) = free_blocks t \<union> R)"
        unfolding r by simp
      then show ?thesis using t R(2) unfolding R(1) by auto
    next
      case False
      then have r: "init_region_loop a n s = init_region_loop a (n - 1) s"
        using n by (simp add: init_region_loop.simps [of a n s] mmap_test_iff)
      define R where "R = {unat a..<unat a + unat (n - 1)}"
      have R: "{unat a..<unat a + unat n} = insert (unat a + unat (n - 1)) R"
          "unat a \<in> {unat a..<unat a + unat n}" "unat a \<notin> used_set s"
        using n False by (auto simp: used_set_def R_def)
      have "\<not> mmap_test a s \<noteq> 0" using False by (simp add: mmap_test_iff)
      from "1.IH"(2) [OF n(1) this, folded R_def] n "1.prems"
      have "mm_inv (init_region_loop a n s) \<and> mem_max_blocks (init_region_loop a n s) = mem_max_blocks s \<and>
          free_blocks s \<subseteq> free_blocks (init_region_loop a n s) \<and>
          free_blocks (init_region_loop a n s) \<subseteq> free_blocks s \<union> R"
        unfolding r by simp
      then show ?thesis using R by auto
    qed
  qed
qed

lemma mark_used_max [simp]: "mem_max_blocks (mark_used i n s) = mem_max_blocks s"
  by (induction i n s rule: mark_used.induct; subst mark_used.simps; simp)

lemma mark_used_spec:
  fixes i n s
  defines "s' \<equiv> mark_used i n s"
  assumes "mm_inv s" "unat n \<le> unat (mem_max_blocks s)"
  shows "mm_inv s' \<and> mem_max_blocks s' = mem_max_blocks s \<and>
     free_blocks s' = free_blocks s - {unat i..<unat n}"
  using assms(2-3) unfolding s'_def
proof (induction i n s rule: mark_used.induct)
  case (1 i n s)
  show ?case
  proof (cases "i < n")
    case False
    with "1.prems" show ?thesis by (simp add: mark_used.simps [of i n s] word_less_nat_alt)
  next
    case True
    then have lt: "unat i < unat n" by (simp add: word_less_nat_alt)
    have i1: "unat (i + 1) = Suc (unat i)" using True by (rule unat_incr)
    define t where "t = (if mmap_test i s = 0
      then mmap_set i (s\<lparr>mem_used_blocks := mem_used_blocks s + 1\<rparr>) else s)"
    have "mmap_set i (s\<lparr>mem_used_blocks := x\<rparr>) = (mmap_set i s)\<lparr>mem_used_blocks := x\<rparr>" for x
      by (simp add: mmap_set_def)
    then have t: "mm_inv t \<and> mem_max_blocks t = mem_max_blocks s \<and>
        free_blocks t = free_blocks s - {unat i}"
      using mm_inv_take [OF "1.prems"(1), of i] mm_inv_guard [OF "1.prems"(1)] "1.prems" lt
        mmap_test_iff [of i s]
      by (auto simp: t_def free_blocks_set) (auto simp: free_blocks_def)
    have "mark_used i n s = mark_used (i + 1) n t"
      using True by (simp add: mark_used.simps [of i n s] t_def)
    moreover have "{unat i..<unat n} = insert (unat i) {unat (i + 1)..<unat n}" using i1 lt by auto
    ultimately show ?thesis using "1.IH" [OF True, folded t_def] t "1.prems" by auto
  qed
qed

text \<open>The blocks of a region: its start and its size are both rounded down.\<close>

definition region_blocks :: "memory_region \<Rightarrow> nat set" where
  "region_blocks r = {unat (region_start r) div 4096 ..<
     unat (region_start r) div 4096 + unat (region_size r) div 4096}"

definition avail_blocks :: "memory_region list \<Rightarrow> nat set" where
  "avail_blocks rs = (\<Union>r \<in> {r \<in> set rs. region_type r = 1}. region_blocks r)"

fun disjoint_regions :: "memory_region list \<Rightarrow> bool" where
  "disjoint_regions [] = True"
| "disjoint_regions (r # rs) =
     ((region_type r = 1 \<longrightarrow> region_blocks r \<inter> avail_blocks rs = {}) \<and> disjoint_regions rs)"

lemma avail_blocks_simps [simp]:
  "avail_blocks [] = {}"
  "avail_blocks (r # rs) =
     (if region_type r = 1 then region_blocks r \<union> avail_blocks rs else avail_blocks rs)"
  by (auto simp: avail_blocks_def)

lemma init_regions_spec:
  fixes rs s
  defines "s' \<equiv> init_regions rs s"
  assumes "mm_inv s"
    and "\<forall>r \<in> set rs. region_type r = 1 \<longrightarrow>
      unat (region_start r) div 4096 + unat (region_size r) div 4096 \<le> unat (mem_max_blocks s)"
  shows "mm_inv s' \<and> mem_max_blocks s' = mem_max_blocks s \<and> free_blocks s \<subseteq> free_blocks s' \<and>
     free_blocks s' \<subseteq> free_blocks s \<union> avail_blocks rs \<and>
     (avail_blocks rs \<subseteq> used_set s \<and> disjoint_regions rs \<longrightarrow>
        free_blocks s' = free_blocks s \<union> avail_blocks rs)"
  using assms(2-3) unfolding s'_def
proof (induction rs arbitrary: s)
  case Nil
  then show ?case by simp
next
  case (Cons r rs)
  define t where
    "t = (if region_type r = 1 then mem_init_region (region_start r) (region_size r) s else s)"
  define R where "R = (if region_type r = 1 then region_blocks r else {})"
  have t: "mm_inv t \<and> mem_max_blocks t = mem_max_blocks s \<and> free_blocks s \<subseteq> free_blocks t \<and>
     free_blocks t \<subseteq> free_blocks s \<union> R \<and> (R \<subseteq> used_set s \<longrightarrow> free_blocks t = free_blocks s \<union> R)"
    using init_region_loop_spec [of s "region_start r div 4096" "region_size r div 4096"] Cons.prems
    by (simp add: t_def R_def mem_init_region_def region_blocks_def unat_div)
  have used: "X \<subseteq> used_set s \<Longrightarrow> X \<inter> R = {} \<Longrightarrow> X \<subseteq> used_set t" for X
    using t by (simp add: used_set_alt) blast
  have ih: "mm_inv (init_regions rs t) \<and> mem_max_blocks (init_regions rs t) = mem_max_blocks t \<and>
     free_blocks t \<subseteq> free_blocks (init_regions rs t) \<and>
     free_blocks (init_regions rs t) \<subseteq> free_blocks t \<union> avail_blocks rs \<and>
     (avail_blocks rs \<subseteq> used_set t \<and> disjoint_regions rs \<longrightarrow>
        free_blocks (init_regions rs t) = free_blocks t \<union> avail_blocks rs)"
    using Cons.prems t by (intro Cons.IH) auto
  define u where "u = init_regions (r # rs) s"
  have u: "u = init_regions rs t" by (simp add: u_def t_def)
  have avail: "avail_blocks (r # rs) = R \<union> avail_blocks rs" by (simp add: R_def)
  have bounds: "mm_inv u" "mem_max_blocks u = mem_max_blocks s" "free_blocks s \<subseteq> free_blocks u"
    "free_blocks u \<subseteq> free_blocks s \<union> avail_blocks (r # rs)"
    using ih t unfolding u avail by auto
  moreover have "free_blocks u = free_blocks s \<union> avail_blocks (r # rs)"
    if "avail_blocks (r # rs) \<subseteq> used_set s" "disjoint_regions (r # rs)"
  proof -
    have "avail_blocks rs \<subseteq> used_set s" "avail_blocks rs \<inter> R = {}" "disjoint_regions rs" "R \<subseteq> used_set s"
      using that unfolding avail by (auto simp: R_def split: if_splits)
    then have "free_blocks u = free_blocks t \<union> avail_blocks rs" "free_blocks t = free_blocks s \<union> R"
      using ih t used [of "avail_blocks rs"] unfolding u by blast+
    then show ?thesis unfolding avail by blast
  qed
  ultimately show ?case unfolding u_def by blast
qed

lemma scan_memory_map_limit:
  "scan_memory_map rs t l = (t', l') \<Longrightarrow>
     l \<le> l' \<and> (\<forall>r \<in> set rs. region_type r = 1 \<longrightarrow> region_start r + region_size r \<le> l')"
  by (induction rs arbitrary: t l) (fastforce split: if_splits)+

lemma mmap_fill_frame [simp]:
  "mem_max_blocks (mmap_fill i s) = mem_max_blocks s" "mem_used_blocks (mmap_fill i s) = mem_used_blocks s"
  by (induction i s rule: mmap_fill.induct; subst mmap_fill.simps; simp)+

lemma mmap_fill_used:
  assumes "64 * unat i \<le> k" "k < searched s + 64"
  shows "blk_used (mmap_fill i s) k"
proof -
  have fill: "(\<forall>j. i \<le> j \<and> j \<le> mem_max_blocks s div 64 \<longrightarrow> mem_memory_map (mmap_fill i s) j = - 1) \<and>
      (\<forall>j < i. mem_memory_map (mmap_fill i s) j = mem_memory_map s j)"
  proof (induction i s rule: mmap_fill.induct)
    case (1 i s)
    show ?case
    proof (cases "i \<le> mem_max_blocks s div 64")
      case True
      define t where "t = s\<lparr>mem_memory_map := (mem_memory_map s)(i := - 1)\<rparr>"
      have "unat (mem_max_blocks s) div 64 < 288230376151711744"
        by (rule less_mult_imp_div_less) simp
      with True have i1: "unat (i + 1) = Suc (unat i)"
        by (simp add: unat_word_ariths word_le_nat_alt unat_div)
      have r: "mmap_fill i s = mmap_fill (i + 1) t" "mem_max_blocks t = mem_max_blocks s"
        "mem_memory_map t = (mem_memory_map s)(i := - 1)"
        using True by (simp_all add: mmap_fill.simps [of i s] t_def)
      have lt: "j < i + 1 \<longleftrightarrow> j < i \<or> j = i" "i + 1 \<le> j \<longleftrightarrow> i \<le> j \<and> j \<noteq> i" for j
        using i1 by (auto simp: word_less_nat_alt word_le_nat_alt word_unat_eq_iff)
      show ?thesis using "1.IH" [OF True, folded t_def] unfolding r lt
        by (metis fun_upd_apply order.strict_iff_not)
    next
      case False
      then show ?thesis by (auto simp: mmap_fill.simps [of i s])
    qed
  qed
  have kM: "k div 64 \<le> unat (mem_max_blocks s) div 64" using assms(2) by (simp add: searched_def)
  moreover have "unat (mem_max_blocks s) div 64 < 2 ^ 58"
    by (simp add: less_mult_imp_div_less)
  ultimately have "unat (of_nat (k div 64) :: u64) = k div 64" by (intro unat_of_nat_small) simp
  with kM assms(1) have "i \<le> of_nat (k div 64)" "of_nat (k div 64) \<le> mem_max_blocks s div 64"
    by (auto simp: word_le_nat_alt unat_div)
  with fill show ?thesis by (simp add: blk_used_def)
qed

text \<open>What the whole boot sequence leaves free.\<close>

lemma memman_init_map_spec:
  fixes kstart kend rs s
  defines "s' \<equiv> memman_init_map kstart kend rs s"
  defines "kblocks \<equiv> blocks_used_by_kernel kstart kend (mem_max_blocks s')"
  assumes regions: "\<forall>r \<in> set rs. region_type r = 1 \<longrightarrow>
      unat (region_start r) + unat (region_size r) < 2 ^ 64"
    and memory: "256 \<le> unat (mem_max_blocks s')" "512 + unat kblocks \<le> unat (mem_max_blocks s')"
  shows "mm_inv s' \<and> free_blocks s' \<subseteq> avail_blocks rs - {..<256} - {512..<512 + unat kblocks} \<and>
    (disjoint_regions rs \<longrightarrow>
       free_blocks s' = avail_blocks rs - {..<256} - {512..<512 + unat kblocks})"
proof -
  obtain tot limit where tl: "scan_memory_map rs 0 0 = (tot, limit)" by fastforce
  define s1 where "s1 = s\<lparr>mem_memory_size := tot, mem_max_blocks := limit div 4096,
    mem_used_blocks := limit div 4096\<rparr>"
  define s2 where "s2 = mmap_fill 0 s1"
  define s3 where "s3 = init_regions rs s2"
  define s4 where "s4 = mark_used 0 256 s3"
  define k4 where "k4 = blocks_used_by_kernel kstart kend (mem_max_blocks s4)"
  define s5 where "s5 = mark_used 0x200 (k4 + 0x200) s4"
  have s': "s' = s5\<lparr>kernel_next_block := 0xc0000000 div 0x1000 + k4\<rparr>"
    by (simp add: s'_def memman_init_map_def tl Let_def s1_def s2_def s3_def s4_def s5_def k4_def)
  have max1: "mem_max_blocks s2 = limit div 4096" "mem_used_blocks s2 = limit div 4096"
    by (simp_all add: s2_def s1_def)
  have used2: "blk_used s2 k" if "k < searched s2 + 64" for k
    using that mmap_fill_used [of 0 k s1] by (simp add: s2_def searched_def)
  have M52: "unat (mem_max_blocks s2) < 2 ^ 52"
    unfolding max1 by (simp add: unat_div less_mult_imp_div_less)
  have us2: "used_set s2 = {..<unat (mem_max_blocks s2)}"
    using used2 max_blocks_lt [of s2] by (auto simp: used_set_def)
  then have inv2: "mm_inv s2" "free_blocks s2 = {}"
    using used2 M52 max1 card_block_sets [of s2]
    by (auto simp: mm_inv_def map_guard_def)
  have ok: "\<forall>r \<in> set rs. region_type r = 1 \<longrightarrow>
      unat (region_start r) div 4096 + unat (region_size r) div 4096 \<le> unat (mem_max_blocks s2)"
  proof (intro ballI impI)
    fix r assume r: "r \<in> set rs" "region_type r = 1"
    then have "region_start r + region_size r \<le> limit" using scan_memory_map_limit [OF tl] by blast
    moreover have "unat (region_start r + region_size r) = unat (region_start r) + unat (region_size r)"
      using regions r by (intro unat_add_small) simp
    ultimately have "(unat (region_start r) + unat (region_size r)) div 4096 \<le> unat limit div 4096"
      by (intro div_le_mono) (simp add: word_le_nat_alt)
    moreover note div_add_le [of "unat (region_start r)" 4096 "unat (region_size r)"]
    ultimately show "unat (region_start r) div 4096 + unat (region_size r) div 4096 \<le> unat (mem_max_blocks s2)"
      unfolding max1 by (simp add: unat_div)
  qed
  note regs = init_regions_spec [OF inv2(1) ok, folded s3_def, unfolded inv2 us2]
  have "avail_blocks rs \<subseteq> {..<unat (mem_max_blocks s2)}"
    using ok by (force simp: avail_blocks_def region_blocks_def)
  with regs have r3: "mm_inv s3" "mem_max_blocks s3 = mem_max_blocks s2" "free_blocks s3 \<subseteq> avail_blocks rs"
    "disjoint_regions rs \<longrightarrow> free_blocks s3 = avail_blocks rs" by auto
  have maxs: "mem_max_blocks s4 = mem_max_blocks s3" "mem_max_blocks s5 = mem_max_blocks s3"
    "mem_max_blocks s' = mem_max_blocks s3" "k4 = kblocks"
    by (simp_all add: s4_def s5_def s' k4_def kblocks_def)
  have r4: "mm_inv s4" "free_blocks s4 = free_blocks s3 - {0..<256}"
    using mark_used_spec [OF r3(1), of 256 0] memory(1) maxs by (simp_all add: s4_def)
  have "unat (kblocks + 0x200) = 512 + unat kblocks"
    using le_less_trans [OF memory(2) unat_lt_64] by (subst unat_add_small) auto
  with memory(2) maxs have r5: "mm_inv s5"
    "free_blocks s5 = free_blocks s4 - {512..<512 + unat kblocks}"
    using mark_used_spec [OF r4(1), of "kblocks + 0x200" "0x200"] by (simp_all add: s5_def)
  have "mm_inv s'" "free_blocks s' = free_blocks s5"
    using r5(1) by (simp_all add: s' mm_inv_def)
  with r3 r4(2) r5(2) show ?thesis by (auto simp: atLeast0LessThan)
qed

section \<open>A small memory for the examples\<close>

text \<open>128 blocks, of which the first 64 are used.\<close>

definition sample_mm :: memman where
  "sample_mm = \<lparr>mem_memory_size = 0x80000, mem_used_blocks = 64, mem_max_blocks = 128,
     mem_memory_map = (\<lambda>i. if i = 1 then 0 else - 1), kernel_next_block = 0xc0000\<rparr>"

lemma sample_mm_used: "k < 192 \<Longrightarrow> blk_used sample_mm k \<longleftrightarrow> \<not> (64 \<le> k \<and> k < 128)"
proof -
  assume k: "k < 192"
  have "k div 64 = 1 \<longleftrightarrow> 64 \<le> k \<and> k < 128"
    using div_mult_mod_eq [of k 64] mod_less_divisor [of 64 k] block_in_word [of 1 k 64] by auto
  moreover have "(of_nat (k div 64) :: u64) = of_nat 1 \<longleftrightarrow> k div 64 = 1"
    using k by (intro of_nat_inj_small) auto
  ultimately show ?thesis by (simp add: blk_used_def sample_mm_def)
qed

lemma sample_mm_sets: "used_set sample_mm = {..<64}" "free_blocks sample_mm = {64..<128}"
proof -
  have M: "unat (mem_max_blocks sample_mm) = 128" by (simp add: sample_mm_def)
  show "used_set sample_mm = {..<64}" "free_blocks sample_mm = {64..<128}"
    unfolding used_set_def free_blocks_def M using sample_mm_used by auto
qed

lemma sample_mm_inv: "mm_inv sample_mm"
  using sample_mm_sets sample_mm_used
  by (auto simp: mm_inv_def map_guard_def searched_def sample_mm_def)

lemma sample_mm_zone:
  "\<not> zone_free sample_mm 0 3" "\<not> (\<forall>k < searched sample_mm. \<not> zone_free sample_mm k 3)"
proof -
  show "\<not> zone_free sample_mm 0 3"
    using sample_mm_used [of 0] by (auto simp: zone_free_def intro!: exI [of _ 0])
  have "zone_free sample_mm 64 3" using sample_mm_used by (simp add: zone_free_def)
  moreover have "64 < searched sample_mm" by (simp add: searched_def sample_mm_def)
  ultimately show "\<not> (\<forall>k < searched sample_mm. \<not> zone_free sample_mm k 3)" by blast
qed

lemma sample_mm_alloc: "\<exists>a s'. mem_alloc_blocks 3 sample_mm = Some (a, s') \<and> a \<noteq> 0"
proof -
  obtain r where r: "mmap_first_free_zone sample_mm 3 = Some r" "zone_result sample_mm 3 r"
    using mmap_first_free_zone_spec [OF mm_inv_guard [OF sample_mm_inv], of 3] by auto
  have "r \<noteq> 0" using r(2) sample_mm_zone by (auto simp: zone_result_def)
  moreover have "unat r < 128" using r(2) \<open>r \<noteq> 0\<close> by (simp add: zone_result_def sample_mm_def)
  ultimately have "unat (r * 4096) \<noteq> 0" by (simp add: unat_word_ariths unat_gt_0)
  then have "r * 4096 \<noteq> 0" by auto
  moreover have "\<not> mem_free_block_count sample_mm < 3"
    by (simp add: mem_free_block_count_def sample_mm_def)
  ultimately show ?thesis using r(1) \<open>r \<noteq> 0\<close> by (simp add: mem_alloc_blocks_def)
qed

lemma sample_mm_alloc_block: "\<exists>a s'. mem_alloc_block sample_mm = (a, s') \<and> a \<noteq> 0"
proof -
  let ?f = "mmap_first_free sample_mm"
  have "?f \<noteq> 0"
    using mmap_first_free_spec [of sample_mm] sample_mm_used [of 0] sample_mm_used [of 64]
    by (auto simp: searched_def sample_mm_def)
  moreover from this have "unat (?f * 4096) \<noteq> 0"
    using mm_inv_first_free(3) [OF sample_mm_inv] by (simp add: unat_eq_zero)
  then have "?f * 4096 \<noteq> 0" by auto
  moreover have "mem_free_block_count sample_mm \<noteq> 0"
    by (simp add: mem_free_block_count_def sample_mm_def)
  ultimately show ?thesis by (simp add: mem_alloc_block_def Let_def)
qed

section \<open>Properties\<close>

text \<open>When an allocation fails.\<close>

lemma mem_alloc_block_fail:
  assumes "mm_inv s" "mem_alloc_block s = (0, s')"
  shows "0 \<in> free_blocks s \<or> free_blocks s \<inter> {..<searched s} = {}"
proof (cases "mmap_first_free s = 0")
  case True
  then show ?thesis using mmap_first_free_spec [of s] searched_le [of s]
    by (fastforce simp: free_blocks_def)
next
  case False
  then have "mem_free_block_count s = 0"
    using assms(2) mm_inv_first_free [OF assms(1) False]
    by (auto simp: mem_alloc_block_def Let_def unat_eq_zero [symmetric] split: if_splits)
  then show ?thesis using mem_free_block_count_0 assms(1) by blast
qed

text \<open>
  C7: \<open>mem_alloc_block\<close> either fails and leaves the state alone (no block of the searched
  words is free, or the lowest free block is block 0, whose address is the failure value), or
  takes the lowest free block: it returns that block's address, the block is used afterwards,
  no other block changes and the count of used blocks stays right.
\<close>

theorem mem_alloc_block_correct:
  assumes "mm_inv s" and "mem_alloc_block s = (a, s')"
  shows "(a = 0 \<and> s' = s \<and> (0 \<in> free_blocks s \<or> free_blocks s \<inter> {..<searched s} = {})) \<or>
         (a \<noteq> 0 \<and> unat a = Min (free_blocks s) * 4096 \<and> Min (free_blocks s) \<in> free_blocks s \<and>
          free_blocks s' = free_blocks s - {Min (free_blocks s)} \<and> mm_inv s')"
proof (cases "a = 0")
  case True
  then have "s' = s" using phys.alloc_fail assms by blast
  moreover have "0 \<in> free_blocks s \<or> free_blocks s \<inter> {..<searched s} = {}"
    using mem_alloc_block_fail assms True by blast
  ultimately show ?thesis using True by blast
next
  case False
  then have f: "mmap_first_free s \<noteq> 0" "a = mmap_first_free s * 4096"
    using assms(2) by (auto simp: mem_alloc_block_def Let_def split: if_splits)
  note m = mm_inv_first_free [OF assms(1) f(1)]
  then have "unat a div 4096 = Min (free_blocks s)" by (simp add: f(2))
  with phys.alloc_address [OF assms False] m f(2) False show ?thesis by simp
qed

theorem mem_alloc_block_correct_witness:
  "\<exists>a s'. mem_alloc_block sample_mm = (a, s') \<and> mm_inv sample_mm \<and> unat a = 64 * 4096 \<and>
     free_blocks s' = free_blocks sample_mm - {64}"
proof -
  obtain a s' where r: "mem_alloc_block sample_mm = (a, s')" by fastforce
  have Min: "Min (free_blocks sample_mm) = 64"
    unfolding sample_mm_sets by (rule Min_eqI) auto
  have "searched sample_mm = 128" by (simp add: searched_def sample_mm_def)
  then have "64 \<in> free_blocks sample_mm \<inter> {..<searched sample_mm}" by (simp add: sample_mm_sets)
  moreover have "0 \<notin> free_blocks sample_mm" by (simp add: sample_mm_sets)
  ultimately have "unat a = 64 * 4096 \<and> free_blocks s' = free_blocks sample_mm - {64}"
    using mem_alloc_block_correct [OF sample_mm_inv r] unfolding Min by blast
  with r sample_mm_inv show ?thesis by blast
qed

text \<open>
  C8: \<open>mem_alloc_blocks\<close> always returns. It fails without changing the state only for
  size 0, when the lowest run of free blocks starts at block 0, or when no run of the size
  starts in the searched words; otherwise it takes the lowest such run as a whole, inside
  memory, and keeps the count right.
\<close>

theorem mem_alloc_blocks_correct:
  assumes "mm_inv s"
  shows "\<exists>a s'. mem_alloc_blocks sz s = Some (a, s') \<and> mm_inv s' \<and>
     ((a = 0 \<and> s' = s \<and>
         (sz = 0 \<or> zone_free s 0 (unat sz) \<or> (\<forall>k < searched s. \<not> zone_free s k (unat sz)))) \<or>
      (\<exists>f > 0. unat a = f * 4096 \<and> f + unat sz \<le> unat (mem_max_blocks s) \<and>
         {f..<f + unat sz} \<subseteq> free_blocks s \<and> (\<forall>k < f. \<not> zone_free s k (unat sz)) \<and>
         free_blocks s' = free_blocks s - {f..<f + unat sz}))"
proof (cases "sz = 0 \<or> mem_free_block_count s < sz")
  case True
  have few: "\<not> zone_free s k (unat sz)" if lt: "mem_free_block_count s < sz" and k: "k < searched s" for k
  proof
    assume z: "zone_free s k (unat sz)"
    have "\<not> unat (mem_max_blocks s) < k + unat sz"
      using no_zone_over_used [OF map_guardD(2) [OF mm_inv_guard [OF assms]], of k "unat sz"]
        k searched_le [of s] z by auto
    then have "{k..<k + unat sz} \<subseteq> free_blocks s"
      using zone_free_blocks [OF mm_inv_guard [OF assms], of k "unat sz"] z by simp
    then have "unat sz \<le> card (free_blocks s)" by (metis card_atLeastLessThan card_mono diff_add_inverse finite_block_sets(2))
    with lt show False by (simp add: word_less_nat_alt mem_free_block_count_eq [OF assms])
  qed
  with True assms show ?thesis
    by (cases "mem_free_block_count s < sz") (auto simp: mem_alloc_blocks_def mmap_first_free_zone_def)
next
  case False
  then have sz: "sz \<noteq> 0" by simp
  obtain r where r: "mmap_first_free_zone s sz = Some r" "zone_result s sz r"
    using mmap_first_free_zone_spec [OF mm_inv_guard [OF assms] sz] by blast
  show ?thesis
  proof (cases "r = 0")
    case True
    with r False assms show ?thesis
      by (auto simp: mem_alloc_blocks_def zone_result_def)
  next
    case r0: False
    with r(2) have z: "zone_free s (unat r) (unat sz)" "unat r + unat sz \<le> unat (mem_max_blocks s)"
      "\<forall>k < unat r. \<not> zone_free s k (unat sz)" by (auto simp: zone_result_def)
    then have free: "{unat r..<unat r + unat sz} \<subseteq> free_blocks s"
      using zone_free_blocks mm_inv_guard assms by blast
    note take = mm_inv_take_range [OF assms free z(2)]
    have "unat (r * 4096) = unat r * 4096"
      using z(2) mm_inv_max [OF assms] by (simp add: unat_word_ariths)
    with r0 r(1) False z free take show ?thesis
      by (auto simp: mem_alloc_blocks_def unat_gt_0 intro!: exI [of _ "unat r"])
  qed
qed

theorem mem_alloc_blocks_correct_witness:
  "mm_inv sample_mm \<and> (\<exists>a s' f. mem_alloc_blocks 3 sample_mm = Some (a, s') \<and> 0 < f \<and>
     unat a = f * 4096 \<and> {f..<f + 3} \<subseteq> free_blocks sample_mm \<and>
     free_blocks s' = free_blocks sample_mm - {f..<f + 3})"
proof -
  have 3: "unat (3 :: u64) = 3" "(3 :: u64) \<noteq> 0" by simp_all
  show ?thesis
    using mem_alloc_blocks_correct [OF sample_mm_inv, of 3] sample_mm_inv sample_mm_zone 3 by metis
qed

text \<open>
  C33: \<open>mem_free_blocks\<close> undoes \<open>mem_alloc_blocks\<close>: giving a run back right
  after it was taken restores every bit of the map and the count.
\<close>

theorem mem_free_blocks_undoes_alloc:
  assumes "mm_inv s" and "mem_alloc_blocks sz s = Some (a, s')" and "a \<noteq> 0"
  defines "s'' \<equiv> mem_free_blocks a sz s'"
  shows "(\<forall>k < 2 ^ 64. blk_used s'' k = blk_used s k) \<and> mem_used_blocks s'' = mem_used_blocks s \<and>
    mem_max_blocks s'' = mem_max_blocks s \<and> mm_inv s''"
proof -
  obtain r where r: "mmap_first_free_zone s sz = Some r" "r \<noteq> 0" "a = r * 4096" "sz \<noteq> 0"
    "s' = (mmap_set_blocks r sz 0 s)\<lparr>mem_used_blocks := mem_used_blocks s + sz\<rparr>"
    using assms(2,3) by (auto simp: mem_alloc_blocks_def mmap_first_free_zone_def split: if_splits option.splits)
  then have z: "zone_free s (unat r) (unat sz)" "unat r + unat sz \<le> unat (mem_max_blocks s)"
    using mmap_first_free_zone_spec [OF mm_inv_guard [OF assms(1)] r(4)]
    by (metis option.inject zone_result_def)+
  note M = mm_inv_max [OF assms(1)]
  have n: "a div 4096 = r" "unat (r + sz) = unat r + unat sz"
    using z(2) M by (auto simp: r(3) word_unat_eq_iff unat_div unat_word_ariths)
  have s'': "s'' = (mmap_unset_blocks (r + sz) r s')\<lparr>mem_used_blocks := mem_used_blocks s\<rparr>"
    by (simp add: s''_def mem_free_blocks_def Let_def n r(5))
  have bits: "\<forall>k < 2 ^ 64. blk_used s'' k = blk_used s k"
  proof (intro allI impI)
    fix k :: nat assume k: "k < 2 ^ 64"
    show "blk_used s'' k = blk_used s k"
      using z M k unfolding s'' r(5)
      by (simp add: blk_used_unset_blocks blk_used_set_blocks n zone_free_def)
         (metis le_add_diff_inverse less_diff_conv2 add.commute)
  qed
  moreover have "mem_max_blocks s'' = mem_max_blocks s" "mem_used_blocks s'' = mem_used_blocks s"
    by (simp_all add: s'' r(5))
  moreover have "mm_inv s''"
    using assms(1) bits calculation(2,3) M searched_le [of s]
    by (auto simp: mm_inv_def map_guard_def used_set_def searched_def intro!: arg_cong [of _ _ card])
  ultimately show ?thesis by blast
qed

theorem mem_free_blocks_undoes_alloc_witness:
  "\<exists>a s'. mem_alloc_blocks 3 sample_mm = Some (a, s') \<and> a \<noteq> 0 \<and> mm_inv sample_mm \<and>
     (\<forall>k < 2 ^ 64. blk_used (mem_free_blocks a 3 s') k = blk_used sample_mm k)"
  using mem_free_blocks_undoes_alloc [OF sample_mm_inv] sample_mm_alloc sample_mm_inv by metis

text \<open>
  \<open>mem_init_region\<close> keeps the invariant and frees only blocks of the region; when
  every block of the region is still marked used, it frees exactly these blocks.
\<close>

lemma mem_init_region_correct:
  assumes "mm_inv s"
    and "unat base div 4096 + unat sz div 4096 \<le> unat (mem_max_blocks s)"
  defines "region \<equiv> {unat base div 4096 ..< unat base div 4096 + unat sz div 4096}"
  defines "s' \<equiv> mem_init_region base sz s"
  shows "mm_inv s' \<and> free_blocks s \<subseteq> free_blocks s' \<and> free_blocks s' \<subseteq> free_blocks s \<union> region \<and>
    (region \<subseteq> used_set s \<longrightarrow> free_blocks s' = free_blocks s \<union> region)"
  using init_region_loop_spec [of s "base div 4096" "sz div 4096"] assms(1,2)
  by (simp add: region_def s'_def mem_init_region_def unat_div)

lemma mem_init_region_sample:
  "free_blocks (mem_init_region 0x2000 0x3000 sample_mm) = free_blocks sample_mm \<union> {2..<5}"
proof -
  have "unat (mem_max_blocks sample_mm) = 128" by (simp add: sample_mm_def)
  moreover have "{2..<5} \<subseteq> used_set sample_mm" by (auto simp: sample_mm_sets)
  ultimately show ?thesis
    using mem_init_region_correct [of sample_mm "0x2000" "0x3000"] sample_mm_inv by simp
qed

text \<open>
  \<open>mem_init_region\<close> gets stuck on a free block: the block number only moves on when
  the block was marked used, so a region whose first block is already free (an overlapping entry
  of the memory map, the case the comment in the code mentions) is skipped as a whole and the
  blocks behind stay marked used.
\<close>

lemma mem_init_region_stuck:
  assumes "\<not> blk_used s (unat base div 4096)"
  shows "mem_init_region base sz s = s"
proof -
  have "init_region_loop a n s = s" if "\<not> blk_used s (unat a)" for a n
    using that
  proof (induction a n s rule: init_region_loop.induct)
    case (1 a n s)
    then show ?case by (auto simp: init_region_loop.simps [of a n s] mmap_test_iff)
  qed
  then show ?thesis using assms by (simp add: mem_init_region_def unat_div)
qed

lemma mem_init_region_stuck_sample:
  "mem_init_region 0x7F000 0x10000 (sample_mm\<lparr>mem_memory_map := (\<lambda>i. - 1)(1 := 0x7FFFFFFFFFFFFFFF)\<rparr>)
     = sample_mm\<lparr>mem_memory_map := (\<lambda>i. - 1)(1 := 0x7FFFFFFFFFFFFFFF)\<rparr>"
  by (rule mem_init_region_stuck) (simp add: blk_used_def)

text \<open>
  C12: The map \<open>memman_init\<close> builds is safe: after boot the invariant holds and a free
  block belongs to an available region, is not in the first megabyte and is not in the kernel's
  image or bitmap; when the available regions do not overlap, all such blocks are free.
\<close>

theorem memman_init_map_safe:
  assumes "\<forall>r \<in> set rs. region_type r = 1 \<longrightarrow> unat (region_start r) + unat (region_size r) < 2 ^ 64"
    and "s' = memman_init_map kstart kend rs s"
    and "kblocks = unat (blocks_used_by_kernel kstart kend (mem_max_blocks s'))"
    and "256 \<le> unat (mem_max_blocks s')" and "512 + kblocks \<le> unat (mem_max_blocks s')"
  shows "mm_inv s' \<and> free_blocks s' \<subseteq> avail_blocks rs - {..<256} - {512..<512 + kblocks} \<and>
    (disjoint_regions rs \<longrightarrow> free_blocks s' = avail_blocks rs - {..<256} - {512..<512 + kblocks})"
  using memman_init_map_spec [of rs kstart kend s] assms by simp

text \<open>A machine with 8 MB of memory, available but for the last MB of the low 16-bit space.\<close>

definition sample_regions :: "memory_region list" where
  "sample_regions =
    [\<lparr>region_start = 0, region_size = 0x9F000, region_type = 1, region_acpi3 = 1\<rparr>,
     \<lparr>region_start = 0x9F000, region_size = 0x61000, region_type = 2, region_acpi3 = 1\<rparr>,
     \<lparr>region_start = 0x100000, region_size = 0x700000, region_type = 1, region_acpi3 = 1\<rparr>]"

lemma init_region_loop_max [simp]: "mem_max_blocks (init_region_loop a n t) = mem_max_blocks t"
  by (induction a n t rule: init_region_loop.induct; subst init_region_loop.simps; simp)

lemma init_regions_max [simp]: "mem_max_blocks (init_regions rs t) = mem_max_blocks t"
  by (induction rs arbitrary: t) (auto simp: mem_init_region_def)

lemma memman_init_map_max:
  "mem_max_blocks (memman_init_map kstart kend rs s) = snd (scan_memory_map rs 0 0) div 4096"
  by (simp add: memman_init_map_def Let_def split: prod.split)

theorem memman_init_map_safe_witness:
  "mm_inv (memman_init_map 0xc0000000 0xc0010000 sample_regions sample_mm) \<and>
   free_blocks (memman_init_map 0xc0000000 0xc0010000 sample_regions sample_mm) =
     avail_blocks sample_regions - {..<256} - {512..<530}"
proof -
  have "disjoint_regions sample_regions"
    by (auto simp: sample_regions_def region_blocks_def)
  moreover have
    "mem_max_blocks (memman_init_map 0xc0000000 0xc0010000 sample_regions sample_mm) = 2048"
    by (simp add: memman_init_map_max sample_regions_def)
  ultimately show ?thesis
    using memman_init_map_safe [OF _ refl refl, of sample_regions "0xc0000000" "0xc0010000" sample_mm]
    by (simp add: blocks_used_by_kernel_def) (simp add: sample_regions_def)
qed

text \<open>
  C19: No run of \<open>mem_alloc_block\<close> and \<open>mem_free_block\<close> calls by a client that gives
  back only what it was given loses, duplicates or invents a block: what it holds and what is
  free are disjoint and make up the blocks that were free at the start.
\<close>

theorem mem_alloc_runs_conserve:
  assumes "alloc_run mem_alloc_block mem_free_block s0 s own" and "mm_inv s0"
  shows "mm_inv s \<and> own \<inter> free_blocks s = {} \<and> own \<union> free_blocks s = free_blocks s0"
  using phys.run_conserves [OF assms] by blast

theorem mem_alloc_runs_conserve_witness:
  "\<exists>s own. alloc_run mem_alloc_block mem_free_block sample_mm s own \<and> own \<noteq> {} \<and>
     own \<union> free_blocks s = free_blocks sample_mm"
proof -
  obtain a s where r: "mem_alloc_block sample_mm = (a, s)" "a \<noteq> 0"
    using sample_mm_alloc_block by blast
  have "alloc_run mem_alloc_block mem_free_block sample_mm s {unat a div 4096}"
    using alloc_run.run_alloc [where alloc = mem_alloc_block and release = mem_free_block, OF run_start r]
    by simp
  then show ?thesis using mem_alloc_runs_conserve [OF _ sample_mm_inv] by blast
qed

end
