(* ===== verification/Memory.thy ===== *)
theory Memory
  imports Prelude
begin

text \<open>
  The byte-addressed memory the C code works on: a function from 64-bit addresses to bytes,
  with little-endian loads and stores of several bytes (the x86-64 layout the kernel is
  compiled for). Addresses wrap around at \<open>2^64\<close> as pointer arithmetic on
  \<open>uint64_t\<close> does. Component theories read and write their C structs through these
  operations, so overlapping structs and stray pointers behave as on the machine.
\<close>

type_synonym memory = "u64 \<Rightarrow> u8"

section \<open>Loads and stores\<close>

fun load_le :: "nat \<Rightarrow> memory \<Rightarrow> u64 \<Rightarrow> nat" where
  "load_le 0 m a = 0"
| "load_le (Suc n) m a = unat (m a) + 256 * load_le n m (a + 1)"

fun store_le :: "nat \<Rightarrow> memory \<Rightarrow> u64 \<Rightarrow> nat \<Rightarrow> memory" where
  "store_le 0 m a v = m"
| "store_le (Suc n) m a v = store_le n (m(a := of_nat v)) (a + 1) (v div 256)"

definition load_u32 :: "memory \<Rightarrow> u64 \<Rightarrow> u32" where
  "load_u32 m a = of_nat (load_le 4 m a)"

definition load_u64 :: "memory \<Rightarrow> u64 \<Rightarrow> u64" where
  "load_u64 m a = of_nat (load_le 8 m a)"

definition store_u32 :: "memory \<Rightarrow> u64 \<Rightarrow> u32 \<Rightarrow> memory" where
  "store_u32 m a v = store_le 4 m a (unat v)"

definition store_u64 :: "memory \<Rightarrow> u64 \<Rightarrow> u64 \<Rightarrow> memory" where
  "store_u64 m a v = store_le 8 m a (unat v)"

section \<open>Ranges of addresses\<close>

text \<open>\<open>x\<close> lies in the \<open>n\<close> bytes at \<open>a\<close>; the subtraction wraps.\<close>

definition in_range :: "u64 \<Rightarrow> nat \<Rightarrow> u64 \<Rightarrow> bool" where
  "in_range a n x \<longleftrightarrow> unat (x - a) < n"

lemma in_range_0 [simp]: "\<not> in_range a 0 x"
  by (simp add: in_range_def)

lemma in_range_nowrap:
  assumes "unat a + n \<le> 2 ^ 64"
  shows "in_range a n x \<longleftrightarrow> unat a \<le> unat x \<and> unat x < unat a + n"
proof (cases "unat a \<le> unat x")
  case True
  then show ?thesis by (auto simp: in_range_def unat_diff_small word_le_nat_alt)
next
  case False
  then have "unat (x - a) = unat x + 2 ^ 64 - unat a"
    by (simp add: unat_sub_if_size word_le_nat_alt word_size)
  then have "n \<le> unat (x - a)" using assms by simp
  with False show ?thesis by (simp add: in_range_def)
qed

lemma in_range_Suc: "Suc n \<le> 2 ^ 64 \<Longrightarrow> in_range a (Suc n) x \<longleftrightarrow> x = a \<or> in_range (a + 1) n x"
proof -
  assume n: "Suc n \<le> 2 ^ 64"
  show ?thesis
  proof (cases "x = a")
    case False
    then have "x - a \<noteq> 0" by simp
    then have "unat (x - (a + 1)) = unat (x - a) - 1"
      by (metis diff_diff_add unat_minus_one)
    moreover have "0 < unat (x - a)" using \<open>x - a \<noteq> 0\<close> by (simp add: unat_gt_0)
    ultimately show ?thesis using False by (auto simp: in_range_def)
  qed (simp add: in_range_def)
qed

lemma in_range_add: "k < n \<Longrightarrow> n \<le> 2 ^ 64 \<Longrightarrow> in_range a n (a + of_nat k)"
  by (simp add: in_range_def unat_of_nat_small)

lemma in_range_shift:
  assumes "in_range (a + of_nat k) n x" "k + n \<le> l" "l \<le> 2 ^ 64"
  shows "in_range a l x"
proof -
  have "unat (x - (a + of_nat k)) + k < l" using assms by (simp add: in_range_def)
  moreover from this have "unat (x - (a + of_nat k) + of_nat k) = unat (x - (a + of_nat k)) + k"
    using assms(3) by (subst unat_add_small) (simp_all add: unat_of_nat_small)
  ultimately show ?thesis by (simp add: in_range_def)
qed

text \<open>The address at an offset, and the offset of an address.\<close>

lemma address_eq_iff: "i < 2 ^ 64 \<Longrightarrow> x = a + of_nat i \<longleftrightarrow> unat (x - a) = i" for x a :: u64
proof -
  assume i: "i < 2 ^ 64"
  have "x = a + of_nat i \<longleftrightarrow> x - a = of_nat i" by (auto simp: algebra_simps)
  also have "\<dots> \<longleftrightarrow> unat (x - a) = i" using i by (simp add: word_unat_eq_iff unat_of_nat_small)
  finally show ?thesis .
qed

text \<open>Two ranges without a common address.\<close>

definition disjoint_ranges :: "u64 \<Rightarrow> nat \<Rightarrow> u64 \<Rightarrow> nat \<Rightarrow> bool" where
  "disjoint_ranges a n b k \<longleftrightarrow> (\<forall>x. \<not> (in_range a n x \<and> in_range b k x))"

lemma disjoint_rangesI:
  "unat a + n \<le> 2 ^ 64 \<Longrightarrow> unat b + k \<le> 2 ^ 64 \<Longrightarrow>
     unat a + n \<le> unat b \<or> unat b + k \<le> unat a \<Longrightarrow> disjoint_ranges a n b k"
  by (auto simp: disjoint_ranges_def in_range_nowrap)

lemma disjoint_ranges_sub: "disjoint_ranges a n b k \<Longrightarrow> n' \<le> n \<Longrightarrow> k' \<le> k \<Longrightarrow> disjoint_ranges a n' b k'"
  unfolding disjoint_ranges_def in_range_def by (meson less_le_trans)

section \<open>What a store changes and what a load reads\<close>

lemma store_le_outside: "n \<le> 2 ^ 64 \<Longrightarrow> \<not> in_range a n x \<Longrightarrow> store_le n m a v x = m x"
  by (induction n m a v rule: store_le.induct) (auto simp: in_range_Suc)

lemma load_le_cong:
  "n \<le> 2 ^ 64 \<Longrightarrow> (\<And>x. in_range a n x \<Longrightarrow> m x = m' x) \<Longrightarrow> load_le n m a = load_le n m' a"
  by (induction n m a rule: load_le.induct) (auto simp: in_range_Suc)

lemma load_le_zero [simp]: "load_le n (\<lambda>_. 0) a = 0"
  by (induction n arbitrary: a) simp_all

lemma load_store_other:
  "disjoint_ranges a n b k \<Longrightarrow> n \<le> 2 ^ 64 \<Longrightarrow> k \<le> 2 ^ 64 \<Longrightarrow>
     load_le k (store_le n m a v) b = load_le k m b"
  by (intro load_le_cong store_le_outside) (auto simp: disjoint_ranges_def)

lemma load_store_same: "n < 2 ^ 64 \<Longrightarrow> load_le n (store_le n m a v) a = v mod 256 ^ n"
proof (induction n arbitrary: m a v)
  case (Suc n)
  have "\<not> in_range (a + 1) n a"
    using Suc.prems by (simp add: in_range_def unsigned_minus_1_eq_mask mask_eq_exp_minus_1)
  then have "store_le n (m(a := of_nat v)) (a + 1) (v div 256) a = of_nat v"
    using Suc.prems by (simp add: store_le_outside)
  with Suc show ?case
    by (simp add: unat_of_nat mod_mult2_eq)
qed simp

lemma load_store_u64 [simp]: "load_u64 (store_u64 m a v) a = v"
  using unsigned_less [of v, where ?'a = nat]
  by (simp add: load_u64_def store_u64_def load_store_same)

lemma load_store_u32 [simp]: "load_u32 (store_u32 m a v) a = v"
  using unsigned_less [of v, where ?'a = nat]
  by (simp add: load_u32_def store_u32_def load_store_same)

lemma loads_other:
  "disjoint_ranges a 4 b 4 \<Longrightarrow> load_u32 (store_u32 m a v) b = load_u32 m b"
  "disjoint_ranges a 8 b 4 \<Longrightarrow> load_u32 (store_u64 m a w) b = load_u32 m b"
  "disjoint_ranges a 4 b 8 \<Longrightarrow> load_u64 (store_u32 m a v) b = load_u64 m b"
  "disjoint_ranges a 8 b 8 \<Longrightarrow> load_u64 (store_u64 m a w) b = load_u64 m b"
  "\<not> in_range b 4 x \<Longrightarrow> load_u32 (m(x := y)) b = load_u32 m b"
  "\<not> in_range b 8 x \<Longrightarrow> load_u64 (m(x := y)) b = load_u64 m b"
  by (auto simp: load_u32_def load_u64_def store_u32_def store_u64_def load_store_other
      intro!: arg_cong [where f = of_nat] load_le_cong)

lemma stores_outside:
  "\<not> in_range a 4 x \<Longrightarrow> store_u32 m a v x = m x"
  "\<not> in_range a 8 x \<Longrightarrow> store_u64 m a w x = m x"
  by (simp_all add: store_u32_def store_u64_def store_le_outside)

lemma loads_cong:
  "(\<And>x. in_range a 4 x \<Longrightarrow> m x = m' x) \<Longrightarrow> load_u32 m a = load_u32 m' a"
  "(\<And>x. in_range a 8 x \<Longrightarrow> m x = m' x) \<Longrightarrow> load_u64 m a = load_u64 m' a"
  unfolding load_u32_def load_u64_def by (auto intro!: arg_cong [where f = of_nat] load_le_cong)

end
