(* ===== verification/CLib.thy ===== *)
theory CLib
  imports Memory
begin

text \<open>
  The library routines of \<open>lib/stdlib.c\<close> and \<open>lib/string.c\<close> over
  byte-addressed memory. \<open>size_t\<close> is \<open>long\<close> (\<open>include/stdlib.h\<close>) and the
  loop counters are \<open>int\<close>; the sizes here are natural numbers, the numbers of iterations of
  these loops (a negative size makes none, and beyond \<open>2^31 - 1\<close> the counter overflows,
  which is undefined). Where a loop looks for a terminator that may be missing, the result is an
  option and \<open>None\<close> is not returning.
\<close>

section \<open>stdlib.c\<close>

text \<open>\<open>i\<close> is the loop counter, the first argument the number of iterations left.\<close>

fun memset_loop :: "nat \<Rightarrow> nat \<Rightarrow> u64 \<Rightarrow> u8 \<Rightarrow> memory \<Rightarrow> memory" where
  "memset_loop 0 i dest c m = m"
| "memset_loop (Suc k) i dest c m = memset_loop k (Suc i) dest c (m(dest + of_nat i := c))"

definition memset :: "u64 \<Rightarrow> u8 \<Rightarrow> nat \<Rightarrow> memory \<Rightarrow> memory" where
  "memset dest c n m = memset_loop n 0 dest c m"

fun copy_up :: "nat \<Rightarrow> nat \<Rightarrow> u64 \<Rightarrow> u64 \<Rightarrow> memory \<Rightarrow> memory" where
  "copy_up 0 i dest src m = m"
| "copy_up (Suc k) i dest src m =
     copy_up k (Suc i) dest src (m(dest + of_nat i := m (src + of_nat i)))"

text \<open>\<open>for (i = n-1; i >= 0; i--)\<close>: the argument is \<open>i + 1\<close>.\<close>

fun copy_down :: "nat \<Rightarrow> u64 \<Rightarrow> u64 \<Rightarrow> memory \<Rightarrow> memory" where
  "copy_down 0 dest src m = m"
| "copy_down (Suc i) dest src m =
     copy_down i dest src (m(dest + of_nat i := m (src + of_nat i)))"

definition memcpy :: "u64 \<Rightarrow> u64 \<Rightarrow> nat \<Rightarrow> memory \<Rightarrow> memory" where
  "memcpy dest src n m = copy_up n 0 dest src m"

definition memmove :: "u64 \<Rightarrow> u64 \<Rightarrow> nat \<Rightarrow> memory \<Rightarrow> memory" where
  "memmove dest src n m =
     (if dest < src then copy_up n 0 dest src m
      else if dest > src then copy_down n dest src m
      else m)"

section \<open>string.c\<close>

partial_function (option) strlen_loop :: "memory \<Rightarrow> u64 \<Rightarrow> u64 \<Rightarrow> u64 option" where
  "strlen_loop m str len =
     (if m (str + len) \<noteq> 0 then strlen_loop m str (len + 1) else Some (len + 1))"

definition strlen :: "memory \<Rightarrow> u64 \<Rightarrow> u64 option" where
  "strlen m str = strlen_loop m str 0"

fun strncmp_loop :: "nat \<Rightarrow> nat \<Rightarrow> memory \<Rightarrow> u64 \<Rightarrow> u64 \<Rightarrow> int" where
  "strncmp_loop 0 i m str str2 = 1"
| "strncmp_loop (Suc k) i m str str2 =
     (let a = m (str + of_nat i); b = m (str2 + of_nat i)
      in if a = 0 \<and> b = 0 then 1
         else if a = 0 \<or> b = 0 then 0
         else if a \<noteq> b then 0
         else strncmp_loop k (Suc i) m str str2)"

definition strncmp :: "memory \<Rightarrow> u64 \<Rightarrow> u64 \<Rightarrow> nat \<Rightarrow> int" where
  "strncmp m str str2 n = strncmp_loop n 0 m str str2"

partial_function (option) strcmp_loop :: "memory \<Rightarrow> u64 \<Rightarrow> u64 \<Rightarrow> nat \<Rightarrow> int option" where
  "strcmp_loop m str str2 i =
     (if m (str + of_nat i) = m (str2 + of_nat i)
      then if m (str + of_nat i) = 0 \<and> m (str2 + of_nat i) = 0 then Some 1
           else if m (str + of_nat i) = 0 \<or> m (str2 + of_nat i) = 0 then Some 0
           else strcmp_loop m str str2 (Suc i)
      else Some 0)"

definition strcmp :: "memory \<Rightarrow> u64 \<Rightarrow> u64 \<Rightarrow> int option" where
  "strcmp m str str2 = strcmp_loop m str str2 0"

text \<open>
  \<open>strncpy\<close>: the copying loop hands its counter to the padding loop. The condition of the
  first loop reads \<open>src[i]\<close> from the memory as the loop has left it.
\<close>

fun strncpy_pad :: "nat \<Rightarrow> nat \<Rightarrow> u64 \<Rightarrow> memory \<Rightarrow> memory" where
  "strncpy_pad 0 i dest m = m"
| "strncpy_pad (Suc k) i dest m = strncpy_pad k (Suc i) dest (m(dest + of_nat i := 0))"

fun strncpy_loop :: "nat \<Rightarrow> nat \<Rightarrow> u64 \<Rightarrow> u64 \<Rightarrow> memory \<Rightarrow> memory" where
  "strncpy_loop 0 i dest src m = m"
| "strncpy_loop (Suc k) i dest src m =
     (if m (src + of_nat i) \<noteq> 0
      then strncpy_loop k (Suc i) dest src (m(dest + of_nat i := m (src + of_nat i)))
      else strncpy_pad (Suc k) i dest m)"

definition strncpy :: "u64 \<Rightarrow> u64 \<Rightarrow> nat \<Rightarrow> memory \<Rightarrow> memory" where
  "strncpy dest src n m = strncpy_loop n 0 dest src m"

section \<open>What the block operations do\<close>

lemma memset_loop_at:
  "i + k \<le> 2 ^ 64 \<Longrightarrow> memset_loop k i dest c m x =
     (if i \<le> unat (x - dest) \<and> unat (x - dest) < i + k then c else m x)"
proof (induction k arbitrary: i m)
  case (Suc k)
  then have "x = dest + of_nat i \<longleftrightarrow> unat (x - dest) = i" by (intro address_eq_iff) simp
  with Suc show ?case by auto
qed auto

lemma copy_up_at:
  assumes "i + k \<le> 2 ^ 64"
    and "\<forall>j l. i \<le> j \<and> j < l \<and> l < i + k \<longrightarrow> dest + of_nat j \<noteq> src + of_nat l"
  shows "copy_up k i dest src m x =
     (if i \<le> unat (x - dest) \<and> unat (x - dest) < i + k then m (src + (x - dest)) else m x)"
  using assms
proof (induction k arbitrary: i m)
  case (Suc k)
  let ?m = "m(dest + of_nat i := m (src + of_nat i))"
  have here: "x = dest + of_nat i \<longleftrightarrow> unat (x - dest) = i"
    using Suc by (intro address_eq_iff) simp
  have ih: "copy_up k (Suc i) dest src ?m x =
     (if Suc i \<le> unat (x - dest) \<and> unat (x - dest) < Suc i + k then ?m (src + (x - dest)) else ?m x)"
    using Suc by auto
  have "?m (src + (x - dest)) = m (src + (x - dest))"
    if l: "Suc i \<le> unat (x - dest)" "unat (x - dest) < Suc i + k"
  proof -
    have "dest + of_nat i \<noteq> src + of_nat (unat (x - dest))"
      using Suc.prems(2) l by (metis add_Suc_right Suc_le_lessD lessI order_refl add_Suc)
    then show ?thesis by (simp only: of_nat_unat ucast_id fun_upd_other not_False_eq_True
          if_False fun_upd_apply eq_commute [of "src + (x - dest)"])
  qed
  with ih here show ?case by auto
qed auto

lemma copy_down_at:
  assumes "i \<le> 2 ^ 64" and "\<forall>j l. j < l \<and> l < i \<longrightarrow> dest + of_nat l \<noteq> src + of_nat j"
  shows "copy_down i dest src m x =
     (if unat (x - dest) < i then m (src + (x - dest)) else m x)"
  using assms
proof (induction i arbitrary: m)
  case (Suc i)
  let ?m = "m(dest + of_nat i := m (src + of_nat i))"
  have here: "x = dest + of_nat i \<longleftrightarrow> unat (x - dest) = i"
    using Suc by (intro address_eq_iff) simp
  have ih: "copy_down i dest src ?m x = (if unat (x - dest) < i then ?m (src + (x - dest)) else ?m x)"
    using Suc by auto
  have "?m (src + (x - dest)) = m (src + (x - dest))" if l: "unat (x - dest) < i"
  proof -
    have "dest + of_nat i \<noteq> src + of_nat (unat (x - dest))"
      using Suc.prems(2) l by (metis add_Suc_right Suc_le_lessD lessI order_refl add_Suc)
    then show ?thesis by (simp only: of_nat_unat ucast_id fun_upd_other not_False_eq_True
          if_False fun_upd_apply eq_commute [of "src + (x - dest)"])
  qed
  with ih here show ?case by auto
qed simp

lemma memset_at: "n \<le> 2 ^ 64 \<Longrightarrow> memset dest c n m x = (if in_range dest n x then c else m x)"
  by (simp add: memset_def memset_loop_at in_range_def)

lemma offset_neq:
  assumes "unat (a :: u64) + j < unat b + l" "unat b + l < 2 ^ 64"
  shows "a + of_nat j \<noteq> b + of_nat l"
proof -
  have "unat (a + of_nat j) = unat a + j" "unat (b + of_nat l) = unat b + l"
    using assms by (simp_all add: unat_add_small unat_of_nat_small)
  then show ?thesis using assms(1) by (metis nat_neq_iff)
qed

section \<open>C strings\<close>

text \<open>The bytes \<open>xs\<close>, none of them 0, followed by a 0.\<close>

fun cstr :: "memory \<Rightarrow> u64 \<Rightarrow> u8 list \<Rightarrow> bool" where
  "cstr m a [] \<longleftrightarrow> m a = 0"
| "cstr m a (x # xs) \<longleftrightarrow> m a = x \<and> x \<noteq> 0 \<and> cstr m (a + 1) xs"

lemma cstr_iff:
  "cstr m a cs \<longleftrightarrow> (\<forall>i < length cs. m (a + of_nat i) = cs ! i \<and> cs ! i \<noteq> 0) \<and> m (a + of_nat (length cs)) = 0"
  by (induction cs arbitrary: a) (auto simp: nth_Cons add.assoc split: nat.splits)

lemma cstrI:
  "(\<And>i. i < length cs \<Longrightarrow> m (a + of_nat i) = cs ! i) \<Longrightarrow> \<forall>c \<in> set cs. c \<noteq> 0 \<Longrightarrow>
     m (a + of_nat (length cs)) = 0 \<Longrightarrow> cstr m a cs"
  by (simp add: cstr_iff)

lemma cstr_nth: "cstr m a xs \<Longrightarrow> i \<le> length xs \<Longrightarrow> m (a + of_nat i) = (if i < length xs then xs ! i else 0)"
  by (auto simp: cstr_iff nat_less_le)

lemma cstr_nonzero: "cstr m a xs \<Longrightarrow> x \<in> set xs \<Longrightarrow> x \<noteq> 0"
  by (auto simp: cstr_iff in_set_conv_nth)

lemma strlen_loop_cstr:
  "cstr m (str + len) xs \<Longrightarrow> strlen_loop m str len = Some (len + of_nat (length xs) + 1)"
proof (induction xs arbitrary: len)
  case Nil
  then show ?case by (simp add: strlen_loop.simps)
next
  case (Cons x xs)
  then have "strlen_loop m str (len + 1) = Some (len + 1 + of_nat (length xs) + 1)"
    by (simp add: add.assoc)
  with Cons.prems show ?case by (simp add: strlen_loop.simps [of m str len] algebra_simps)
qed

lemma strncmp_loop_cstr:
  "cstr m (str + of_nat i) xs \<Longrightarrow> cstr m (str2 + of_nat i) ys \<Longrightarrow>
     strncmp_loop k i m str str2 = (if take k xs = take k ys then 1 else 0)"
proof (induction k arbitrary: i xs ys)
  case (Suc k)
  have step: "str + of_nat i + 1 = str + of_nat (Suc i)" "str2 + of_nat i + 1 = str2 + of_nat (Suc i)"
    by (simp_all add: algebra_simps)
  from Suc.prems Suc.IH [of "Suc i"] show ?case
    by (cases xs; cases ys) (auto simp: step Let_def simp del: of_nat_Suc)
qed simp

lemma strcmp_loop_cstr:
  "cstr m (str + of_nat i) xs \<Longrightarrow> cstr m (str2 + of_nat i) ys \<Longrightarrow>
     strcmp_loop m str str2 i = Some (if xs = ys then 1 else 0)"
proof (induction xs arbitrary: i ys)
  case Nil
  then show ?case by (cases ys) (auto simp: strcmp_loop.simps)
next
  case (Cons x xs)
  have step: "str + of_nat i + 1 = str + of_nat (Suc i)" "str2 + of_nat i + 1 = str2 + of_nat (Suc i)"
    by (simp_all add: algebra_simps)
  from Cons show ?case
    by (cases ys) (auto simp: step strcmp_loop.simps [of m str str2 i] simp del: of_nat_Suc)
qed

lemma strncpy_pad_at:
  "i + k \<le> 2 ^ 64 \<Longrightarrow> strncpy_pad k i dest m x =
     (if i \<le> unat (x - dest) \<and> unat (x - dest) < i + k then 0 else m x)"
proof (induction k arbitrary: i m)
  case (Suc k)
  then have "x = dest + of_nat i \<longleftrightarrow> unat (x - dest) = i" by (intro address_eq_iff) simp
  with Suc show ?case by auto
qed auto

lemma cstr_cong:
  "(\<And>x. in_range a (Suc (length xs)) x \<Longrightarrow> m x = m' x) \<Longrightarrow> length xs < 2 ^ 64 \<Longrightarrow>
     cstr m a xs = cstr m' a xs"
proof (induction xs arbitrary: a)
  case Nil
  then show ?case by (simp add: in_range_Suc)
next
  case (Cons b bs)
  have "m x = m' x" if "in_range (a + 1) (Suc (length bs)) x" for x
    using Cons.prems that in_range_Suc [of "Suc (length bs)" a x] by auto
  then have "cstr m (a + 1) bs = cstr m' (a + 1) bs" using Cons by auto
  moreover have "m a = m' a" using Cons.prems by (auto simp: in_range_def)
  ultimately show ?case by simp
qed

lemma cstr_disjoint:
  assumes "cstr m a xs" "disjoint_ranges b n a k" "length xs < k" "k \<le> 2 ^ 64"
    and "\<And>x. \<not> in_range b n x \<Longrightarrow> m' x = m x"
  shows "cstr m' a xs"
proof -
  have "m x = m' x" if x: "in_range a (Suc (length xs)) x" for x
  proof -
    have "in_range a k x" using x assms(3) by (simp add: in_range_def)
    then show ?thesis using assms(2) assms(5) [symmetric, of x] by (auto simp: disjoint_ranges_def)
  qed
  then show ?thesis using cstr_cong [of a xs m m'] assms(1,3,4) by simp
qed

lemma strncpy_loop_at:
  assumes "cstr m (src + of_nat i) xs" "i + k \<le> 2 ^ 64" "length xs < 2 ^ 64"
    and "\<And>j. i \<le> j \<Longrightarrow> j < i + k \<Longrightarrow> \<not> in_range (src + of_nat i) (Suc (length xs)) (dest + of_nat j)"
  shows "strncpy_loop k i dest src m x =
     (if i \<le> unat (x - dest) \<and> unat (x - dest) < i + k
      then if unat (x - dest) - i < length xs then xs ! (unat (x - dest) - i) else 0
      else m x)"
  using assms
proof (induction k arbitrary: i m xs)
  case (Suc k)
  show ?case
  proof (cases xs)
    case Nil
    with Suc.prems(1) have "strncpy_loop (Suc k) i dest src m = strncpy_pad (Suc k) i dest m"
      by (simp del: strncpy_pad.simps)
    with Nil Suc.prems(2) show ?thesis by (simp add: strncpy_pad_at del: strncpy_pad.simps)
  next
    case (Cons b bs)
    let ?m = "m(dest + of_nat i := b)"
    have step: "src + of_nat i + 1 = src + of_nat (Suc i)" by (simp add: algebra_simps)
    have here: "x = dest + of_nat i \<longleftrightarrow> unat (x - dest) = i"
      using Suc.prems(2) by (intro address_eq_iff) simp
    have out: "\<not> in_range (src + of_nat (Suc i)) (Suc (length bs)) (dest + of_nat j)"
      if "i \<le> j" "j < i + Suc k" for j
      using Suc.prems(4) [OF that] Suc.prems(3) Cons
      by (simp add: in_range_Suc step [symmetric] del: of_nat_Suc)
    have "cstr m (src + of_nat (Suc i)) bs" using Suc.prems(1) Cons step by (simp del: of_nat_Suc)
    moreover have "m y = ?m y" if "in_range (src + of_nat (Suc i)) (Suc (length bs)) y" for y
      using out [of i] that by auto
    ultimately have "cstr ?m (src + of_nat (Suc i)) bs"
      using cstr_cong [of "src + of_nat (Suc i)" bs m ?m] Suc.prems(3) Cons by simp
    moreover have "Suc i + k \<le> 2 ^ 64" "length bs < 2 ^ 64" using Suc.prems(2,3) Cons by simp_all
    ultimately have ih: "strncpy_loop k (Suc i) dest src ?m x =
       (if Suc i \<le> unat (x - dest) \<and> unat (x - dest) < Suc i + k
        then if unat (x - dest) - Suc i < length bs then bs ! (unat (x - dest) - Suc i) else 0
        else ?m x)"
      by (rule Suc.IH) (use out in auto)
    have "strncpy_loop (Suc k) i dest src m = strncpy_loop k (Suc i) dest src ?m"
      using Suc.prems(1) Cons by simp
    with ih here Cons show ?thesis
      by (auto simp: nth_Cons' Suc_diff_le less_Suc_eq_le not_le)
  qed
qed auto

section \<open>Properties\<close>

text \<open>
  C40: \<open>memmove\<close> moves the bytes whatever the overlap of the two areas: afterwards the
  destination holds what the source held before, and nothing outside it changes.
\<close>

theorem memmove_correct:
  assumes "unat src + n < 2 ^ 64" and "unat dest + n < 2 ^ 64" and "n < 2 ^ 31"
  shows "memmove dest src n m x =
    (if in_range dest n x then m (src + (x - dest)) else m x)"
proof -
  have n: "n \<le> 2 ^ 64" using assms by simp
  consider "dest < src" | "src < dest" | "dest = src" by (meson linorder_less_linear)
  then show ?thesis
  proof cases
    case 1
    then have "\<forall>j l. 0 \<le> j \<and> j < l \<and> l < 0 + n \<longrightarrow> dest + of_nat j \<noteq> src + of_nat l"
      using assms offset_neq [of dest _ src] by (auto simp: word_less_nat_alt)
    with 1 n show ?thesis by (simp add: memmove_def copy_up_at in_range_def)
  next
    case 2
    then have "\<forall>j l. j < l \<and> l < n \<longrightarrow> src + of_nat j \<noteq> dest + of_nat l"
      using assms offset_neq [of src _ dest] by (auto simp: word_less_nat_alt)
    then have "\<forall>j l. j < l \<and> l < n \<longrightarrow> dest + of_nat l \<noteq> src + of_nat j" by metis
    moreover have "\<not> dest < src" using 2 by simp
    ultimately show ?thesis using 2 n by (simp add: memmove_def copy_down_at in_range_def)
  qed (simp add: memmove_def)
qed

theorem memmove_correct_witness:
  "memmove 0x1001 0x1000 3 (\<lambda>a. if a = 0x1002 then 7 else 9) 0x1003 = 7"
  using memmove_correct [of "0x1000" 3 "0x1001" "\<lambda>a. if a = 0x1002 then 7 else 9" "0x1003"]
  by (simp add: in_range_def)

text \<open>
  \<open>strlen\<close> returns on every terminated string, and its value counts the terminator:
  it is one more than the number of characters, unlike the standard function's.
\<close>

lemma strlen_counts_terminator:
  assumes "cstr m str xs"
  shows "strlen m str = Some (of_nat (length xs) + 1)"
  using strlen_loop_cstr [of m str 0 xs] assms by (simp add: strlen_def)

lemma strlen_of_AB:
  "strlen (\<lambda>a. if a = 0x10 then 65 else if a = 0x11 then 66 else 0) 0x10 = Some 3"
  using strlen_counts_terminator
    [of "\<lambda>a. if a = 0x10 then 65 else if a = 0x11 then 66 else 0" "0x10" "[65, 66]"] by simp

text \<open>
  \<open>strncmp\<close> and \<open>strcmp\<close> decide equality and answer 1 for equal strings, 0
  for different ones: of the first \<open>n\<close> characters, and of the whole strings
  (\<open>strcmp\<close> returns whenever both are terminated).
\<close>

lemma string_compare_decides_equality:
  assumes "cstr m str xs" and "cstr m str2 ys" and "length xs < 2 ^ 31" and "n < 2 ^ 31"
  shows "strncmp m str str2 n = (if take n xs = take n ys then 1 else 0) \<and>
    strcmp m str str2 = Some (if xs = ys then 1 else 0)"
  using strncmp_loop_cstr [of m str 0 xs str2 ys n] strcmp_loop_cstr [of m str 0 xs str2 ys] assms
  by (simp add: strncmp_def strcmp_def)

text \<open>
  \<open>strncpy\<close> from a string that the destination does not overlap writes exactly
  \<open>n\<close> bytes: the first characters of the string, padded with zeros.
\<close>

lemma strncpy_correct:
  assumes "cstr m src xs" and "n < 2 ^ 31" and "length xs < 2 ^ 31"
    and "disjoint_ranges dest n src (Suc (length xs))"
  shows "strncpy dest src n m x =
    (if in_range dest n x
     then if unat (x - dest) < length xs then xs ! unat (x - dest) else 0
     else m x)"
proof -
  have "\<not> in_range src (Suc (length xs)) (dest + of_nat j)" if "j < n" for j
    using assms(2,4) that in_range_add [of j n dest] by (auto simp: disjoint_ranges_def)
  then show ?thesis
    using strncpy_loop_at [of m src 0 xs n dest x] assms by (auto simp: strncpy_def in_range_def)
qed

lemma strncpy_AB:
  "strncpy 0x20 0x10 4 (\<lambda>a. if a = 0x10 then 65 else if a = 0x11 then 66 else 9 * of_bool (a \<noteq> 0x12)) 0x21 = 66 \<and>
   strncpy 0x20 0x10 4 (\<lambda>a. if a = 0x10 then 65 else if a = 0x11 then 66 else 9 * of_bool (a \<noteq> 0x12)) 0x23 = 0"
proof -
  let ?m = "\<lambda>a :: u64. if a = 0x10 then 65 else if a = 0x11 then 66 else 9 * of_bool (a \<noteq> 0x12) :: u8"
  have "cstr ?m 0x10 [65, 66]" by simp
  moreover have "disjoint_ranges 0x20 4 0x10 (Suc (length [65, 66 :: u8]))"
    by (rule disjoint_rangesI) auto
  ultimately show ?thesis
    using strncpy_correct [of ?m "0x10" "[65, 66]" 4 "0x20"] by (simp add: in_range_def)
qed

end
