(* ===== verification/OrderedArray.thy ===== *)
theory OrderedArray
  imports Prelude "HOL-Library.Multiset"
begin

text \<open>
  The ordered array of \<open>kernel/ordered_array.c\<close>, the index of holes of the kernel heap:
  an array of pointers kept in the order of a comparison the caller supplies. The abstract view
  is the list of the entries; the contract the heap relies on is the locale
  \<open>ordered_index\<close>, interpreted here on the code's operations.
\<close>

section \<open>State and operations\<close>

text \<open>
  \<open>ordered_array_t\<close>. The array is a function of the index, since C checks no bound:
  \<open>insert_ordered_array\<close> does not look at \<open>max_size\<close>. The comparison reads the
  memory the entries point to, so it is an argument of the insertion and not a constant in
  the record.
\<close>

record 'a ordered_array =
  oa_array :: "u64 \<Rightarrow> 'a"
  oa_size :: u64
  oa_max_size :: u64

definition standard_lessthan_predicate :: "u64 \<Rightarrow> u64 \<Rightarrow> bool" where
  "standard_lessthan_predicate a b = (a < b)"

text \<open>\<open>memset\<close> clears the first \<open>max_size\<close> entries of what was there.\<close>

definition place_ordered_array :: "(u64 \<Rightarrow> 'a::zero) \<Rightarrow> u64 \<Rightarrow> 'a ordered_array" where
  "place_ordered_array old sz =
     \<lparr>oa_array = (\<lambda>i. if i < sz then 0 else old i), oa_size = 0, oa_max_size = sz\<rparr>"

text \<open>\<open>kmalloc\<close> tells what the memory it returns holds, by the size in bytes.\<close>

definition create_ordered_array :: "(u64 \<Rightarrow> u64 \<Rightarrow> 'a::zero) \<Rightarrow> u64 \<Rightarrow> 'a ordered_array" where
  "create_ordered_array kmalloc sz =
     \<lparr>oa_array = (\<lambda>i. if i < sz then 0 else kmalloc (sz * 8) i), oa_size = 0, oa_max_size = sz\<rparr>"

text \<open>The body of \<open>destroy_ordered_array\<close> is commented out.\<close>

definition destroy_ordered_array :: "'a ordered_array \<Rightarrow> 'a ordered_array" where
  "destroy_ordered_array a = a"

function insert_position :: "('a \<Rightarrow> 'a \<Rightarrow> bool) \<Rightarrow> 'a \<Rightarrow> 'a ordered_array \<Rightarrow> u64 \<Rightarrow> u64" where
  "insert_position lt item a i =
     (if i < oa_size a \<and> lt (oa_array a i) item
      then insert_position lt item a (i + 1)
      else i)"
  by pat_completeness auto
termination
  by (relation "measure (\<lambda>(_, _, a, i). unat (oa_size a) - unat i)")
     (auto simp: unat_incr word_less_nat_alt)

function shift_up :: "u64 \<Rightarrow> u64 \<Rightarrow> 'a \<Rightarrow> (u64 \<Rightarrow> 'a) \<Rightarrow> (u64 \<Rightarrow> 'a)" where
  "shift_up n i tmp arr =
     (if i < n then shift_up n (i + 1) (arr (i + 1)) (arr(i + 1 := tmp)) else arr)"
  by pat_completeness auto
termination
  by (relation "measure (\<lambda>(n, i, _, _). unat n - unat i)") (auto simp: unat_incr word_less_nat_alt)

definition insert_ordered_array ::
  "('a \<Rightarrow> 'a \<Rightarrow> bool) \<Rightarrow> 'a \<Rightarrow> 'a ordered_array \<Rightarrow> 'a ordered_array" where
  "insert_ordered_array lt item a =
     (let i = insert_position lt item a 0
      in if i = oa_size a
         then a\<lparr>oa_array := (oa_array a)(oa_size a := item), oa_size := oa_size a + 1\<rparr>
         else a\<lparr>oa_array := shift_up (oa_size a) i (oa_array a i) ((oa_array a)(i := item)),
                oa_size := oa_size a + 1\<rparr>)"

definition lookup_ordered_array :: "u64 \<Rightarrow> 'a::zero ordered_array \<Rightarrow> 'a" where
  "lookup_ordered_array i a = (if i < oa_size a then oa_array a i else 0)"

function shift_down :: "u64 \<Rightarrow> u64 \<Rightarrow> (u64 \<Rightarrow> 'a) \<Rightarrow> (u64 \<Rightarrow> 'a)" where
  "shift_down n i arr = (if i < n then shift_down n (i + 1) (arr(i := arr (i + 1))) else arr)"
  by pat_completeness auto
termination
  by (relation "measure (\<lambda>(n, i, _). unat n - unat i)") (auto simp: unat_incr word_less_nat_alt)

definition remove_ordered_array :: "u64 \<Rightarrow> 'a ordered_array \<Rightarrow> 'a ordered_array" where
  "remove_ordered_array i a =
     a\<lparr>oa_array := shift_down (oa_size a) i (oa_array a), oa_size := oa_size a - 1\<rparr>"

text \<open>
  The loop with which the heap searches its index: \<open>while (i < size && !P(lookup(i))) i++\<close>.
\<close>

function index_search :: "('a::zero \<Rightarrow> bool) \<Rightarrow> 'a ordered_array \<Rightarrow> u64 \<Rightarrow> u64" where
  "index_search P a i =
     (if i < oa_size a \<and> \<not> P (lookup_ordered_array i a) then index_search P a (i + 1) else i)"
  by pat_completeness auto
termination
  by (relation "measure (\<lambda>(_, a, i). unat (oa_size a) - unat i)")
     (auto simp: unat_incr word_less_nat_alt)

declare index_search.simps [simp del] insert_position.simps [simp del] shift_up.simps [simp del] shift_down.simps [simp del]

section \<open>The list of the entries\<close>

definition oa_list :: "'a ordered_array \<Rightarrow> 'a list" where
  "oa_list a = map (\<lambda>k. oa_array a (of_nat k)) [0..<unat (oa_size a)]"

lemma length_oa_list [simp]: "length (oa_list a) = unat (oa_size a)"
  by (simp add: oa_list_def)

lemma nth_oa_list: "k < unat (oa_size a) \<Longrightarrow> oa_list a ! k = oa_array a (of_nat k)"
  by (simp add: oa_list_def)

lemma oa_list_nth_unat: "i < oa_size a \<Longrightarrow> oa_array a i = oa_list a ! unat i"
  by (simp add: nth_oa_list word_less_nat_alt)

lemma lookup_oa_list:
  "lookup_ordered_array i a = (if unat i < length (oa_list a) then oa_list a ! unat i else 0)"
  by (simp add: lookup_ordered_array_def word_less_nat_alt nth_oa_list)

text \<open>The position found is the number of leading entries that are less than the item.\<close>

lemma insert_position_spec:
  fixes i :: u64 and a lt item
  defines "P \<equiv> \<lambda>y. lt y item" and "r \<equiv> insert_position lt item a i"
  assumes "unat i \<le> unat (oa_size a)"
  shows "unat i \<le> unat r \<and> unat r \<le> unat (oa_size a) \<and>
    (\<forall>k. unat i \<le> k \<and> k < unat r \<longrightarrow> P (oa_list a ! k)) \<and>
    (unat r < unat (oa_size a) \<longrightarrow> \<not> P (oa_list a ! unat r))"
  using assms(3) unfolding P_def r_def
proof (induction lt item a i rule: insert_position.induct)
  case (1 lt item a i)
  show ?case
  proof (cases "i < oa_size a \<and> lt (oa_array a i) item")
    case True
    then have i: "unat (i + 1) = Suc (unat i)" "Suc (unat i) \<le> unat (oa_size a)"
      by (auto simp: word_less_nat_alt intro!: unat_incr [of i "oa_size a"])
    then show ?thesis
      using True "1.IH" [OF True] oa_list_nth_unat [of i a]
      by (auto simp: insert_position.simps [of lt item a i] Suc_le_eq)
         (metis Suc_leI le_neq_implies_less Suc_le_lessD)+
  next
    case False
    then show ?thesis
      using "1.prems" oa_list_nth_unat [of i a]
      by (auto simp: insert_position.simps [of lt item a i] word_less_nat_alt)
  qed
qed

lemma takeWhile_position:
  assumes "r \<le> length xs" "\<forall>k < r. P (xs ! k)" "r < length xs \<longrightarrow> \<not> P (xs ! r)"
  shows "takeWhile P xs = take r xs \<and> dropWhile P xs = drop r xs"
proof -
  have "takeWhile P xs = take r xs"
    using assms by (cases "r = length xs")
      (auto intro!: takeWhile_eq_take_P_nth simp: takeWhile_eq_all_conv all_set_conv_all_nth)
  then show ?thesis
    using assms(1) by (metis append_eq_append_conv append_take_drop_id takeWhile_dropWhile_id)
qed

lemma shift_up_at:
  "unat i \<le> unat n \<Longrightarrow> unat n + 1 < 2 ^ 64 \<Longrightarrow>
     shift_up n i tmp arr k =
       (if unat i < unat k \<and> unat k \<le> unat n
        then (if k = i + 1 then tmp else arr (k - 1)) else arr k)"
proof (induction n i tmp arr rule: shift_up.induct)
  case (1 n i tmp arr)
  show ?case
  proof (cases "i < n")
    case False
    then show ?thesis using "1.prems" by (auto simp: shift_up.simps [of n i] word_less_nat_alt)
  next
    case True
    then have i: "unat (i + 1) = Suc (unat i)" "Suc (unat i) \<le> unat n"
      by (auto simp: word_less_nat_alt intro!: unat_incr [of i n])
    define A where "A = arr(i + 1 := tmp)"
    have A: "A j = (if j = i + 1 then tmp else arr j)" for j by (simp add: A_def)
    have step: "shift_up n i tmp arr = shift_up n (i + 1) (arr (i + 1)) A"
      using True by (simp add: shift_up.simps [of n i] A_def)
    have ih: "shift_up n (i + 1) (arr (i + 1)) A k =
       (if unat (i + 1) < unat k \<and> unat k \<le> unat n
        then (if k = i + 1 + 1 then arr (i + 1) else A (k - 1)) else A k)"
      if "unat (i + 1) \<le> unat n"
      unfolding A_def fun_upd_def using "1.IH" [OF True that "1.prems"(2), unfolded fun_upd_def] .
    have "k = i + 1 \<longleftrightarrow> unat k = Suc (unat i)" using i(1) by (metis word_unat_eq_iff)
    moreover have "k = i + 1 + 1 \<Longrightarrow> k - 1 = i + 1" by simp
    moreover have "k - 1 = i + 1 \<Longrightarrow> k = i + 1 + 1" by (metis diff_add_cancel)
    ultimately show ?thesis
      using ih "1.prems"(2) i by (auto simp: step A add.commute [of 1 i])
  qed
qed

lemma shift_down_at:
  "unat n + 1 < 2 ^ 64 \<Longrightarrow>
     shift_down n i arr k = (if unat i \<le> unat k \<and> unat k < unat n then arr (k + 1) else arr k)"
proof (induction n i arr rule: shift_down.induct)
  case (1 n i arr)
  show ?case
  proof (cases "i < n")
    case False
    then show ?thesis by (auto simp: shift_down.simps [of n i] word_less_nat_alt)
  next
    case True
    then have i: "unat (i + 1) = Suc (unat i)" by (rule unat_incr)
    define A where "A = arr(i := arr (i + 1))"
    have A: "A j = (if j = i then arr (i + 1) else arr j)" for j by (simp add: A_def)
    have step: "shift_down n i arr = shift_down n (i + 1) A"
      using True by (simp add: shift_down.simps [of n i] A_def)
    have "k + 1 \<noteq> i" if "unat i < unat k"  "unat k < unat n"
    proof -
      have "unat (k + 1) = Suc (unat k)" using that by (intro unat_incr [of k n]) (simp add: word_less_nat_alt)
      then show ?thesis using that by auto
    qed
    moreover have "k = i \<longleftrightarrow> unat k = unat i" by (simp add: word_unat_eq_iff)
    moreover have "shift_down n (i + 1) A k =
       (if unat (i + 1) \<le> unat k \<and> unat k < unat n then A (k + 1) else A k)"
      unfolding A_def fun_upd_def using "1.IH" [OF True "1.prems", unfolded fun_upd_def] .
    ultimately show ?thesis
      using i True
      by (auto simp: step A word_less_nat_alt)
  qed
qed

lemma map_upt_split:
  assumes "r \<le> n"
  shows "map f [0..<n] = map f [0..<r] @ map f [r..<n]"
  by (metis assms le_add_diff_inverse map_append upt_add_eq_append zero_le)

lemma insert_entries:
  fixes lt item
  defines "P \<equiv> \<lambda>y. lt y item"
  assumes "unat (oa_size a) + 1 < 2 ^ 64"
  shows "oa_list (insert_ordered_array lt item a) =
    takeWhile P (oa_list a) @ item # dropWhile P (oa_list a)"
proof -
  define i n where "i = insert_position lt item a 0" and "n = unat (oa_size a)"
  have pos: "unat i \<le> n" "\<forall>k < unat i. P (oa_list a ! k)" "unat i < n \<longrightarrow> \<not> P (oa_list a ! unat i)"
    using insert_position_spec [of 0 a lt item] by (simp_all add: i_def n_def P_def)
  then have tw: "takeWhile P (oa_list a) @ item # dropWhile P (oa_list a) =
      take (unat i) (oa_list a) @ item # drop (unat i) (oa_list a)"
    using takeWhile_position [of "unat i" "oa_list a" P] by (simp add: n_def)
  have n1: "unat (oa_size a + 1) = Suc n" using assms(2) by (simp add: n_def unat_word_ariths)
  let ?a = "insert_ordered_array lt item a"
  have at: "oa_array ?a (of_nat k) = (if k < unat i then oa_list a ! k else if k = unat i then item
      else oa_list a ! (k - 1))" if "k \<le> n" for k
  proof -
    have u: "unat (of_nat k :: u64) = k" using that assms(2) by (simp add: n_def unat_of_nat_small)
    show ?thesis
    proof (cases "i = oa_size a")
      case True
      then show ?thesis using that u nth_oa_list [of k a]
        by (auto simp: insert_ordered_array_def i_def [symmetric] n_def word_unat_eq_iff)
    next
      case False
      have m: "oa_array a (of_nat k - 1) = oa_list a ! (k - 1)" if "0 < k" "k \<le> n"
        using that nth_oa_list [of "k - 1" a] by (simp add: n_def of_nat_diff)
      have iff: "of_nat k = i + 1 \<longleftrightarrow> k = Suc (unat i)" "of_nat k = i \<longleftrightarrow> k = unat i"
        using u unat_incr [of i "oa_size a"] False pos(1)
        by (auto simp: word_unat_eq_iff word_less_nat_alt n_def)
      then have iff': "of_nat k - 1 = i \<longleftrightarrow> k = Suc (unat i)" by (metis diff_add_cancel add_diff_cancel_right')
      have "unat i < n" using False pos(1) by (auto simp: n_def word_unat_eq_iff)
      then show ?thesis
        using that u False m assms(2) nth_oa_list [of k a] oa_list_nth_unat [of i a]
        by (auto simp: insert_ordered_array_def i_def [symmetric] n_def Let_def shift_up_at iff iff'
            word_less_nat_alt)
    qed
  qed
  have "oa_size ?a = oa_size a + 1" by (simp add: insert_ordered_array_def Let_def)
  then have "oa_list ?a = map (\<lambda>k. oa_array ?a (of_nat k)) [0..<Suc n]" using n1 by (simp add: oa_list_def)
  also have "\<dots> = take (unat i) (oa_list a) @ item # drop (unat i) (oa_list a)"
    using at pos(1) by (intro nth_equalityI) (auto simp: n_def nth_append nth_Cons' less_Suc_eq_le simp del: upt_Suc)
  finally show ?thesis using tw by simp
qed

lemma remove_entries:
  assumes "unat i < unat (oa_size a)" "unat (oa_size a) + 1 < 2 ^ 64"
  shows "oa_list (remove_ordered_array i a) = take (unat i) (oa_list a) @ drop (Suc (unat i)) (oa_list a)"
proof -
  have n: "unat (oa_size a - 1) = unat (oa_size a) - 1"
    using assms(1) by (simp add: unat_minus_one unat_gt_0 [symmetric])
  have at: "shift_down (oa_size a) i (oa_array a) (of_nat k) =
      (if k < unat i then oa_list a ! k else oa_list a ! Suc k)" if "k < unat (oa_size a) - 1" for k
  proof -
    have u: "unat (of_nat k :: u64) = k" using that assms(2) by (simp add: unat_of_nat_small)
    show ?thesis using that u assms nth_oa_list [of k a] nth_oa_list [of "Suc k" a]
      by (auto simp: shift_down_at add.commute)
  qed
  show ?thesis
    using n at assms(1)
    by (intro nth_equalityI) (auto simp: remove_ordered_array_def oa_list_def nth_append Suc_diff_Suc)
qed

section \<open>The contract of an ordered index\<close>

text \<open>
  What the heap relies on: insertion log_msg the item behind the leading entries that are less
  than it, removal takes out one position, a look-up reads one, and nothing else happens.
\<close>

locale ordered_index =
  fixes entries :: "'o \<Rightarrow> 'a::zero list"
    and room :: "'o \<Rightarrow> bool"
    and ins :: "('a \<Rightarrow> 'a \<Rightarrow> bool) \<Rightarrow> 'a \<Rightarrow> 'o \<Rightarrow> 'o"
    and del :: "u64 \<Rightarrow> 'o \<Rightarrow> 'o"
    and look :: "u64 \<Rightarrow> 'o \<Rightarrow> 'a"
  assumes ins_entries: "room a \<Longrightarrow>
      entries (ins lt x a) = takeWhile (\<lambda>y. lt y x) (entries a) @ x # dropWhile (\<lambda>y. lt y x) (entries a)"
    and del_entries: "room a \<Longrightarrow> unat i < length (entries a) \<Longrightarrow>
      entries (del i a) = take (unat i) (entries a) @ drop (Suc (unat i)) (entries a)"
    and look_entry: "look i a = (if unat i < length (entries a) then entries a ! unat i else 0)"
begin

lemma ins_mset: "room a \<Longrightarrow> mset (entries (ins lt x a)) = add_mset x (mset (entries a))"
  by (simp add: ins_entries) (metis mset_append takeWhile_dropWhile_id)

lemma ins_set: "room a \<Longrightarrow> set (entries (ins lt x a)) = insert x (set (entries a))"
  using ins_mset [of a lt x] by (metis set_mset_add_mset_insert set_mset_mset)

lemma ins_distinct:
  "room a \<Longrightarrow> distinct (entries a) \<Longrightarrow> x \<notin> set (entries a) \<Longrightarrow> distinct (entries (ins lt x a))"
  using ins_mset [of a lt x] by (metis distinct.simps(2) mset_eq_imp_distinct_iff mset.simps(2))

lemma ins_length: "room a \<Longrightarrow> length (entries (ins lt x a)) = Suc (length (entries a))"
  using ins_mset [of a lt x] by (metis size_add_mset size_mset)

text \<open>An index that is sorted by a key stays so when the comparison compares the keys.\<close>

lemma ins_sorted:
  fixes key :: "'a \<Rightarrow> 'k::linorder"
  assumes "room a" "sorted (map key (entries a))" "\<And>y. lt y x \<longleftrightarrow> key y < key x"
  shows "sorted (map key (entries (ins lt x a)))"
proof -
  let ?P = "\<lambda>y. key y < key x"
  have split: "sorted (map key (takeWhile ?P (entries a) @ dropWhile ?P (entries a)))"
    using assms(2) by simp
  then have s: "sorted (map key (takeWhile ?P (entries a)))" "sorted (map key (dropWhile ?P (entries a)))"
    by (simp_all add: sorted_append del: takeWhile_dropWhile_id)
  have front: "key y \<le> key x" if "y \<in> set (takeWhile ?P (entries a))" for y
    using set_takeWhileD [OF that] by (simp add: less_imp_le)
  have behind: "key x \<le> key y" if y: "y \<in> set (dropWhile ?P (entries a))" for y
  proof (cases "dropWhile ?P (entries a)")
    case (Cons d ds)
    then have "\<not> ?P d" by (metis hd_dropWhile list.distinct(1) list.sel(1))
    moreover have "key d \<le> key y" using y s(2) Cons by auto
    ultimately show ?thesis by simp
  next
    case Nil
    then show ?thesis using y by (simp only: list.set(1) empty_iff)
  qed
  have P: "(\<lambda>y. lt y x) = ?P" using assms(3) by auto
  show ?thesis
    using s front behind unfolding ins_entries [OF assms(1)] P
    by (fastforce simp: sorted_append intro: order_trans)
qed

lemma del_mset:
  assumes "room a" "unat i < length (entries a)"
  shows "add_mset (look i a) (mset (entries (del i a))) = mset (entries a)"
proof -
  have "mset (entries a) = mset (take (unat i) (entries a) @ entries a ! unat i # drop (Suc (unat i)) (entries a))"
    using id_take_nth_drop [OF assms(2)] by simp
  then show ?thesis using assms by (simp add: del_entries look_entry)
qed

lemma del_set:
  assumes "room a" "unat i < length (entries a)" "distinct (entries a)"
  shows "set (entries (del i a)) = set (entries a) - {look i a} \<and> distinct (entries (del i a))"
proof -
  have "mset (entries a) = mset (look i a # entries (del i a))" using del_mset [OF assms(1,2)] by simp
  then have "distinct (look i a # entries (del i a))" "set (entries a) = set (look i a # entries (del i a))"
    using assms(3) by (metis mset_eq_imp_distinct_iff, metis mset_eq_setD)
  then show ?thesis by auto
qed

lemma del_sorted:
  assumes "room a" "unat i < length (entries a)" "sorted (map key (entries a))"
  shows "sorted (map key (entries (del i a)))"
proof -
  have "sorted (map key (take (unat i) (entries a) @ entries a ! unat i # drop (Suc (unat i)) (entries a)))"
    using id_take_nth_drop [OF assms(2)] assms(3) by simp
  then show ?thesis using assms by (auto simp: del_entries sorted_append)
qed

end

definition oa_room :: "'a ordered_array \<Rightarrow> bool" where
  "oa_room a \<longleftrightarrow> unat (oa_size a) + 1 < 2 ^ 64"

interpretation oa: ordered_index oa_list oa_room insert_ordered_array remove_ordered_array lookup_ordered_array
  by unfold_locales (simp_all add: oa_room_def insert_entries remove_entries lookup_oa_list)

section \<open>What the search loop finds\<close>

lemma index_search_spec:
  "unat i \<le> unat (oa_size a) \<Longrightarrow>
     unat i \<le> unat (index_search P a i) \<and> unat (index_search P a i) \<le> unat (oa_size a) \<and>
     (\<forall>k. unat i \<le> k \<and> k < unat (index_search P a i) \<longrightarrow> \<not> P (oa_list a ! k)) \<and>
     (unat (index_search P a i) < unat (oa_size a) \<longrightarrow> P (oa_list a ! unat (index_search P a i)))"
proof (induction P a i rule: index_search.induct)
  case (1 P a i)
  show ?case
  proof (cases "i < oa_size a \<and> \<not> P (lookup_ordered_array i a)")
    case True
    then have i: "unat (i + 1) = Suc (unat i)" "Suc (unat i) \<le> unat (oa_size a)"
      by (auto simp: word_less_nat_alt intro!: unat_incr [of i "oa_size a"])
    then show ?thesis
      using True "1.IH" [OF True] oa_list_nth_unat [of i a]
      by (auto simp: index_search.simps [of P a i] Suc_le_eq lookup_ordered_array_def)
         (metis Suc_leI le_neq_implies_less Suc_le_lessD)+
  next
    case False
    then show ?thesis
      using "1.prems" oa_list_nth_unat [of i a]
      by (auto simp: index_search.simps [of P a i] word_less_nat_alt lookup_ordered_array_def)
  qed
qed

text \<open>From the start: the first entry with the property, or the size when there is none.\<close>

lemma index_search_first:
  fixes P a
  defines "r \<equiv> index_search P a 0"
  shows "(r = oa_size a \<and> (\<forall>x \<in> set (oa_list a). \<not> P x)) \<or>
    (r < oa_size a \<and> P (lookup_ordered_array r a) \<and> lookup_ordered_array r a \<in> set (oa_list a) \<and>
       (\<forall>k < unat r. \<not> P (oa_list a ! k)))"
  using index_search_spec [of 0 a P]
  by (cases "r = oa_size a")
     (auto simp: r_def word_unat_eq_iff word_less_nat_alt lookup_oa_list in_set_conv_nth
       intro: le_neq_implies_less)

lemma index_search_mem:
  "x \<in> set (oa_list a) \<Longrightarrow> index_search (\<lambda>y. y = x) a 0 < oa_size a \<and>
     lookup_ordered_array (index_search (\<lambda>y. y = x) a 0) a = x"
  using index_search_first [of "\<lambda>y. y = x" a] by auto

section \<open>Properties\<close>

text \<open>
  C38: An index that is sorted by a key stays sorted when an item is inserted with the comparison
  of that key, and the entries are the old ones and the item; the size grows by one.
\<close>

theorem insert_ordered_array_sorted:
  fixes key :: "'a::zero \<Rightarrow> 'k::linorder" and item :: 'a
  assumes "unat (oa_size a) + 1 < 2 ^ 64" and "sorted (map key (oa_list a))"
  defines "a' \<equiv> insert_ordered_array (\<lambda>x y. key x < key y) item a"
  shows "sorted (map key (oa_list a')) \<and> mset (oa_list a') = add_mset item (mset (oa_list a)) \<and>
    oa_size a' = oa_size a + 1"
  using oa.ins_sorted [of a key] oa.ins_mset [of a] assms(1,2)
  by (simp add: a'_def oa_room_def) (simp add: insert_ordered_array_def Let_def)

theorem insert_ordered_array_sorted_witness:
  "sorted (map unat (oa_list (insert_ordered_array (\<lambda>x y. unat x < unat y) 5
     \<lparr>oa_array = (\<lambda>i :: u64. if i = 0 then 3 else 7 :: u64), oa_size = 2, oa_max_size = 4\<rparr>)))"
proof -
  let ?a = "\<lparr>oa_array = (\<lambda>i :: u64. if i = 0 then 3 else 7 :: u64), oa_size = 2, oa_max_size = 4\<rparr>"
  have "oa_list ?a = [3, 7]" by (simp add: oa_list_def upt_conv_Cons)
  then show ?thesis using insert_ordered_array_sorted [of ?a unat 5] by simp
qed

text \<open>
  C39: \<open>remove_ordered_array\<close> with an index that is not below the size does not fail: it
  drops the last entry, and on an empty array it makes the size \<open>2^64 - 1\<close>. With an
  index below the size it takes out that entry and keeps the order of the others.
\<close>

theorem remove_ordered_array_correct:
  fixes a :: "'a::zero ordered_array"
  assumes "unat (oa_size a) + 1 < 2 ^ 64"
  shows "oa_list (remove_ordered_array i a) =
      (if i < oa_size a then take (unat i) (oa_list a) @ drop (Suc (unat i)) (oa_list a)
       else if oa_size a \<noteq> 0 then butlast (oa_list a)
       else oa_list (a\<lparr>oa_size := - 1\<rparr>))"
proof (cases "i < oa_size a")
  case True
  then show ?thesis using oa.del_entries [of a i] assms by (simp add: oa_room_def word_less_nat_alt)
next
  case False
  then have r: "remove_ordered_array i a = a\<lparr>oa_size := oa_size a - 1\<rparr>"
    by (simp add: remove_ordered_array_def shift_down.simps [of _ i])
  show ?thesis
  proof (cases "oa_size a = 0")
    case nz: False
    then have "unat (oa_size a - 1) = unat (oa_size a) - 1" by (simp add: unat_minus_one)
    moreover obtain k where "unat (oa_size a) = Suc k" using nz by (metis not0_implies_Suc unat_eq_zero)
    ultimately show ?thesis using nz False by (simp add: r oa_list_def)
  qed (use False in \<open>simp add: r\<close>)
qed

theorem remove_ordered_array_correct_witness:
  "oa_list (remove_ordered_array 9
     \<lparr>oa_array = (\<lambda>i :: u64. if i = 0 then 3 else 7 :: u64), oa_size = 2, oa_max_size = 4\<rparr>) = [3]"
proof -
  let ?a = "\<lparr>oa_array = (\<lambda>i :: u64. if i = 0 then 3 else 7 :: u64), oa_size = 2, oa_max_size = 4\<rparr>"
  have "oa_list ?a = [3, 7]" by (simp add: oa_list_def upt_conv_Cons)
  then show ?thesis using remove_ordered_array_correct [of ?a 9] by simp
qed

end
