(* ===== verification/KHeap.thy ===== *)
theory KHeap
  imports Memory OrderedArray
begin

text \<open>
  The kernel heap of \<open>kernel/kheap.c\<close>: headers and footers in byte-addressed memory, the
  ordered index of holes, \<open>create_heap\<close>, \<open>alloc\<close>, \<open>free\<close>,
  \<open>expand\<close>, \<open>contract\<close> and the \<open>kmalloc\<close> family. The theories
  \<open>KHeapFields\<close> to \<open>KHeapContract\<close> hold the lemmas about them, \<open>KHeapCorrect\<close> the
  properties.
\<close>

section \<open>State\<close>

text \<open>
  \<open>heap_t\<close>. The index is kept beside the byte memory and not in it: it occupies the
  \<open>HEAP_INDEX_SIZE\<close> pointers between the structure and \<open>start_address\<close>, apart from
  the blocks for as long as it has at most that many entries.
\<close>

record heap_t =
  index :: "u64 ordered_array"
  start_address :: u64
  end_address :: u64
  max_address :: u64
  supervisor :: u8
  readonly :: u8

text \<open>
  The heap together with what its operations touch: the bytes at virtual addresses, the pages
  asked for from \<open>alloc_kernel_page\<close> (whose result \<open>expand\<close> ignores) and the complaints
  printed. \<open>free_kernel_page\<close> has no effect in the code (\<open>memman.c\<close> 487).
\<close>

record kheap_state =
  hmem :: memory
  heap :: heap_t
  page_requests :: "u64 list"
  console :: "string list"

abbreviation KHEAP_INITIAL_SIZE :: u64 where "KHEAP_INITIAL_SIZE \<equiv> 0x20000"
abbreviation HEAP_INDEX_SIZE :: u64 where "HEAP_INDEX_SIZE \<equiv> 0x1000"
abbreviation HEAP_MAGIC :: u32 where "HEAP_MAGIC \<equiv> 0xDEADBABA"
abbreviation HEAP_MIN_SIZE :: u64 where "HEAP_MIN_SIZE \<equiv> 0x10000"
abbreviation HEAP_BLOCK_SIZE :: u64 where "HEAP_BLOCK_SIZE \<equiv> 4096"

text \<open>
  The fields of \<open>header_t\<close> (16 bytes: magic, is_hole and padding, size) and of
  \<open>footer_t\<close> (16 bytes: magic and padding, header).
\<close>

definition hdr_magic :: "memory \<Rightarrow> u64 \<Rightarrow> u32" where "hdr_magic m h = load_u32 m h"
definition hdr_is_hole :: "memory \<Rightarrow> u64 \<Rightarrow> u8" where "hdr_is_hole m h = m (h + 4)"
definition hdr_size :: "memory \<Rightarrow> u64 \<Rightarrow> u64" where "hdr_size m h = load_u64 m (h + 8)"
definition ftr_magic :: "memory \<Rightarrow> u64 \<Rightarrow> u32" where "ftr_magic m f = load_u32 m f"
definition ftr_header :: "memory \<Rightarrow> u64 \<Rightarrow> u64" where "ftr_header m f = load_u64 m (f + 8)"

definition set_hdr_magic :: "u64 \<Rightarrow> u32 \<Rightarrow> memory \<Rightarrow> memory" where
  "set_hdr_magic h v m = store_u32 m h v"
definition set_hdr_is_hole :: "u64 \<Rightarrow> u8 \<Rightarrow> memory \<Rightarrow> memory" where
  "set_hdr_is_hole h v m = m(h + 4 := v)"
definition set_hdr_size :: "u64 \<Rightarrow> u64 \<Rightarrow> memory \<Rightarrow> memory" where
  "set_hdr_size h v m = store_u64 m (h + 8) v"
definition set_ftr_magic :: "u64 \<Rightarrow> u32 \<Rightarrow> memory \<Rightarrow> memory" where
  "set_ftr_magic f v m = store_u32 m f v"
definition set_ftr_header :: "u64 \<Rightarrow> u64 \<Rightarrow> memory \<Rightarrow> memory" where
  "set_ftr_header f v m = store_u64 m (f + 8) v"

text \<open>Each message printed, without its newline.\<close>

definition log_msg :: "string \<Rightarrow> kheap_state \<Rightarrow> kheap_state" where
  "log_msg msg st = st\<lparr>console := console st @ [msg]\<rparr>"

section \<open>Growing and shrinking\<close>

text \<open>The idiom \<open>if (x & 0xFFF) { x &= 0xFFFFF000; x += 0x1000; }\<close>; the mask has 32 bits.\<close>

definition page_round_up :: "u64 \<Rightarrow> u64" where
  "page_round_up x = (if x AND 0xFFF \<noteq> 0 then (x AND 0xFFFFF000) + 0x1000 else x)"

definition expand :: "u64 \<Rightarrow> kheap_state \<Rightarrow> kheap_state" where
  "expand new_size st =
     (let h = heap st;
          st1 = (if new_size < end_address h - start_address h
                 then log_msg ''expand: new_size smaller than current size'' st else st);
          new_size1 = page_round_up new_size;
          st2 = (if start_address h + new_size1 > max_address h
                 then log_msg ''expand: expanded address exceeds maximum'' st1 else st1);
          old_size = end_address h - start_address h
      in st2\<lparr>page_requests := page_requests st2 @ [(new_size1 - old_size) div HEAP_BLOCK_SIZE],
             heap := h\<lparr>end_address := start_address h + new_size1\<rparr>\<rparr>)"

definition contract :: "u64 \<Rightarrow> kheap_state \<Rightarrow> u64 \<times> kheap_state" where
  "contract new_size st =
     (let h = heap st;
          st0 = log_msg ''contracting'' st;
          st1 = (if new_size \<ge> end_address h - start_address h
                 then log_msg ''contract: contracting, but new_size is larger than old_size'' st0 else st0);
          new_size1 = page_round_up new_size;
          new_size2 = (if new_size1 < HEAP_MIN_SIZE then HEAP_MIN_SIZE else new_size1)
      in (new_size2, st1\<lparr>heap := h\<lparr>end_address := start_address h + new_size2\<rparr>\<rparr>))"

section \<open>The index\<close>

text \<open>The test of the loop in \<open>find_smallest_hole\<close>.\<close>

definition hole_fits :: "memory \<Rightarrow> u64 \<Rightarrow> u8 \<Rightarrow> u64 \<Rightarrow> bool" where
  "hole_fits m sz page_align header =
     (if page_align > 0
      then let location = header;
               offset = (if (location + 16) AND 0xFFF \<noteq> 0
                         then HEAP_BLOCK_SIZE - (location + 16) mod HEAP_BLOCK_SIZE else 0);
               hole_size = hdr_size m header - offset
           in hdr_size m header > offset \<and> hole_size \<ge> sz
      else hdr_size m header \<ge> sz)"

definition find_smallest_hole :: "u64 \<Rightarrow> u8 \<Rightarrow> kheap_state \<Rightarrow> u64" where
  "find_smallest_hole sz page_align st =
     (let iterator = index_search (hole_fits (hmem st) sz page_align) (index (heap st)) 0
      in if iterator = oa_size (index (heap st)) then - 1 else iterator)"

definition header_t_less_than :: "memory \<Rightarrow> u64 \<Rightarrow> u64 \<Rightarrow> bool" where
  "header_t_less_than m a b = (hdr_size m a < hdr_size m b)"

definition index_insert :: "u64 \<Rightarrow> kheap_state \<Rightarrow> kheap_state" where
  "index_insert item st = st\<lparr>heap := (heap st)\<lparr>index :=
     insert_ordered_array (header_t_less_than (hmem st)) item (index (heap st))\<rparr>\<rparr>"

definition index_remove :: "u64 \<Rightarrow> kheap_state \<Rightarrow> kheap_state" where
  "index_remove i st = st\<lparr>heap := (heap st)\<lparr>index := remove_ordered_array i (index (heap st))\<rparr>\<rparr>"

definition upd_mem :: "(memory \<Rightarrow> memory) \<Rightarrow> kheap_state \<Rightarrow> kheap_state" where
  "upd_mem f st = st\<lparr>hmem := f (hmem st)\<rparr>"

section \<open>create_heap\<close>

text \<open>\<open>sizeof(heap_t)\<close> is 64 and \<open>sizeof(void*) * HEAP_INDEX_SIZE\<close> is \<open>0x8000\<close>.\<close>

definition create_heap :: "u64 \<Rightarrow> u64 \<Rightarrow> u64 \<Rightarrow> u8 \<Rightarrow> u8 \<Rightarrow> kheap_state \<Rightarrow> kheap_state" where
  "create_heap start end_addr mx spv ro st =
     (let st1 = (if start AND 0xFFF \<noteq> 0 then log_msg ''Start address not page-aligned'' st else st);
          st2 = (if end_addr AND 0xFFF \<noteq> 0 then log_msg ''End address not page-aligned'' st1 else st1);
          idx = place_ordered_array (\<lambda>i. load_u64 (hmem st) (start + 64 + 8 * i)) HEAP_INDEX_SIZE;
          start1 = page_round_up (start + (8 * HEAP_INDEX_SIZE + 64));
          st3 = st2\<lparr>heap := \<lparr>index = idx, start_address = start1, end_address = end_addr,
                            max_address = mx, supervisor = spv, readonly = ro\<rparr>\<rparr>;
          st4 = upd_mem (set_hdr_is_hole start1 1 \<circ> set_hdr_magic start1 HEAP_MAGIC \<circ>
                         set_hdr_size start1 (end_addr - start1)) st3
      in index_insert start1 st4)"

section \<open>alloc\<close>

text \<open>The search for the hole at the highest address: \<open>idx\<close> and \<open>value\<close> of the code.\<close>

function endmost_hole :: "u64 ordered_array \<Rightarrow> u64 \<Rightarrow> u64 \<Rightarrow> u64 \<Rightarrow> u64" where
  "endmost_hole a iterator idx val =
     (if iterator < oa_size a
      then let tmp = lookup_ordered_array iterator a
           in if tmp > val then endmost_hole a (iterator + 1) iterator tmp
              else endmost_hole a (iterator + 1) idx val
      else idx)"
  by pat_completeness auto
termination
  by (relation "measure (\<lambda>(a, i, _, _). unat (oa_size a) - unat i)")
     (auto simp: unat_incr word_less_nat_alt)

text \<open>The branch of \<open>alloc\<close> for when no hole fits, up to the recursive call.\<close>

definition alloc_grow :: "u64 \<Rightarrow> kheap_state \<Rightarrow> kheap_state" where
  "alloc_grow new_size st =
     (let old_length = end_address (heap st) - start_address (heap st);
          old_end_address = end_address (heap st);
          st1 = expand (old_length + new_size) st;
          new_length = end_address (heap st1) - start_address (heap st1);
          idx = endmost_hole (index (heap st1)) 0 (- 1) 0
      in if idx = - 1
         then let header = old_end_address;
                  st2 = upd_mem (set_hdr_is_hole header 1 \<circ> set_hdr_size header (new_length - old_length)
                                 \<circ> set_hdr_magic header HEAP_MAGIC) st1;
                  footer = old_end_address + hdr_size (hmem st2) header - 16;
                  st3 = upd_mem (set_ftr_header footer header \<circ> set_ftr_magic footer HEAP_MAGIC) st2
              in index_insert header st3
         else let header = lookup_ordered_array idx (index (heap st1));
                  st2 = upd_mem (\<lambda>m. set_hdr_size header (hdr_size m header + (new_length - old_length)) m) st1;
                  footer = header + hdr_size (hmem st2) header - 16
              in upd_mem (set_ftr_magic footer HEAP_MAGIC \<circ> set_ftr_header footer header) st2)"

text \<open>The rest of \<open>alloc\<close>: carving the block out of the hole at \<open>iterator\<close>.\<close>

definition alloc_from :: "u64 \<Rightarrow> u64 \<Rightarrow> u64 \<Rightarrow> u8 \<Rightarrow> kheap_state \<Rightarrow> u64 \<times> kheap_state" where
  "alloc_from iterator sz0 new_size0 page_align st =
     (let pos0 = lookup_ordered_array iterator (index (heap st));
          hsize0 = hdr_size (hmem st) pos0;
          (sz, new_size) = (if hsize0 - new_size0 < 32 then (sz0 + (hsize0 - new_size0), hsize0)
                            else (sz0, new_size0));
          (pos, hsize, st1) =
            (if page_align \<noteq> 0 \<and> (pos0 + 16) AND 0xFFF \<noteq> 0
             then let new_location = pos0 + HEAP_BLOCK_SIZE - (pos0 AND 0xFFF) - 16;
                      front = HEAP_BLOCK_SIZE - (pos0 AND 0xFFF) - 16;
                      st' = upd_mem (set_ftr_header (new_location - 16) pos0 \<circ>
                                     set_ftr_magic (new_location - 16) HEAP_MAGIC \<circ>
                                     set_hdr_is_hole pos0 1 \<circ> set_hdr_magic pos0 HEAP_MAGIC \<circ>
                                     set_hdr_size pos0 front) st
                  in (new_location, hsize0 - hdr_size (hmem st') pos0, st')
             else (pos0, hsize0, index_remove iterator st));
          st2 = upd_mem (set_ftr_header (pos + 16 + sz) pos \<circ> set_ftr_magic (pos + 16 + sz) HEAP_MAGIC \<circ>
                         set_hdr_size pos new_size \<circ> set_hdr_is_hole pos 0 \<circ>
                         set_hdr_magic pos HEAP_MAGIC) st1;
          st3 =
            (if hsize - new_size > 0
             then let hole = pos + 16 + sz + 16;
                      s' = upd_mem (set_hdr_size hole (hsize - new_size) \<circ> set_hdr_is_hole hole 1 \<circ>
                                    set_hdr_magic hole HEAP_MAGIC) st2;
                      footer = hole + hsize - new_size - 16;
                      s'' = (if footer < end_address (heap s')
                             then upd_mem (set_ftr_header footer hole \<circ> set_ftr_magic footer HEAP_MAGIC) s'
                             else s')
                  in index_insert hole s''
             else st2)
      in (pos + 16, st3))"

text \<open>
  \<open>alloc\<close> calls itself after growing the heap. The recursion may not end (the heap's end
  may wrap around), so the result is an option.
\<close>

partial_function (option) alloc :: "u64 \<Rightarrow> u8 \<Rightarrow> kheap_state \<Rightarrow> (u64 \<times> kheap_state) option" where
  "alloc sz page_align st =
     (if find_smallest_hole (sz + 16 + 16) page_align st = - 1
      then alloc sz page_align (alloc_grow (sz + 16 + 16) st)
      else Some (alloc_from (find_smallest_hole (sz + 16 + 16) page_align st) sz (sz + 16 + 16) page_align st))"

section \<open>free\<close>

text \<open>\<open>Unify left\<close>: the new header, whether to add it to the index, and the state.\<close>

definition unify_left :: "u64 \<Rightarrow> u64 \<Rightarrow> kheap_state \<Rightarrow> u64 \<times> bool \<times> kheap_state" where
  "unify_left header footer st =
     (let m = hmem st; test_footer = header - 16
      in if ftr_magic m test_footer = HEAP_MAGIC \<and> hdr_is_hole m (ftr_header m test_footer) = 1
         then let cache_size = hdr_size m header;
                  header' = ftr_header m test_footer
              in (header', False,
                  upd_mem ((\<lambda>m. set_hdr_size header' (hdr_size m header' + cache_size) m) \<circ>
                           set_ftr_header footer header') st)
         else (header, True, st))"

text \<open>\<open>Unify right\<close>: the new footer and the state.\<close>

definition unify_right :: "u64 \<Rightarrow> u64 \<Rightarrow> kheap_state \<Rightarrow> u64 \<times> kheap_state" where
  "unify_right header footer st =
     (let m = hmem st; test_header = footer + 16
      in if hdr_magic m test_header = HEAP_MAGIC \<and> hdr_is_hole m test_header \<noteq> 0
         then let st1 = upd_mem (set_hdr_size header (hdr_size m header + hdr_size m test_header)) st;
                  footer' = test_header + hdr_size (hmem st1) test_header - 16;
                  i = index_search (\<lambda>x. x = test_header) (index (heap st1)) 0;
                  st2 = (if i \<ge> oa_size (index (heap st1))
                         then log_msg ''free: iterator failed to find item to unify'' st1 else st1)
              in (footer', index_remove i st2)
         else (footer, st))"

text \<open>
  The contraction. \<open>test_header\<close> is the header to the right of the freed block; the code
  looks for it, and not for the header that ceases to exist.
\<close>

definition free_contract :: "u64 \<Rightarrow> u64 \<Rightarrow> u64 \<Rightarrow> kheap_state \<Rightarrow> kheap_state" where
  "free_contract header footer test_header st =
     (if footer + 16 = end_address (heap st)
      then let old_length = end_address (heap st) - start_address (heap st);
               (new_length, st1) = contract (header - start_address (heap st)) st
           in if hdr_size (hmem st1) header - (old_length - new_length) > 0
              then let st2 = upd_mem (\<lambda>m. set_hdr_size header (hdr_size m header - (old_length - new_length)) m) st1;
                       footer' = header + hdr_size (hmem st2) header - 16
                   in upd_mem (set_ftr_header footer' header \<circ> set_ftr_magic footer' HEAP_MAGIC) st2
              else let iterator = index_search (\<lambda>x. x = test_header) (index (heap st1)) 0
                   in if iterator < oa_size (index (heap st1)) then index_remove iterator st1 else st1
      else st)"

definition kheap_free :: "u64 \<Rightarrow> kheap_state \<Rightarrow> kheap_state" where
  "kheap_free p st =
     (if p = 0 then st
      else let header = p - 16;
               footer = header + hdr_size (hmem st) header - 16;
               st1 = (if hdr_magic (hmem st) header \<noteq> HEAP_MAGIC then log_msg ''free: header magic bad'' st else st);
               st2 = (if ftr_magic (hmem st1) footer \<noteq> HEAP_MAGIC then log_msg ''free: footer magic bad'' st1 else st1);
               st3 = upd_mem (set_hdr_is_hole header 1) st2;
               (header', do_add, st4) = unify_left header footer st3;
               test_header = footer + 16;
               (footer', st5) = unify_right header' footer st4;
               st6 = free_contract header' footer' test_header st5
           in if do_add then index_insert header' st6 else st6)"

section \<open>The kmalloc family\<close>

text \<open>
  \<open>kheap\<close> is \<open>None\<close> until \<open>kheap_init\<close> has run; then requests go to
  \<open>alloc_kernel_page\<close> (\<open>memman.c\<close>), here the argument \<open>akp\<close> from the number of
  pages to the address returned. The physical address is never written by the code.
\<close>

definition kmalloc_int ::
  "(u64 \<Rightarrow> u64) \<Rightarrow> u64 \<Rightarrow> u32 \<Rightarrow> kheap_state option \<Rightarrow> (u64 \<times> kheap_state option) option" where
  "kmalloc_int akp sz align kheap =
     (if sz = 0 then Some (0, kheap)
      else case kheap of
             Some st \<Rightarrow> map_option (\<lambda>(a, st'). (a, Some st')) (alloc sz (ucast align) st)
           | None \<Rightarrow>
               let sz1 = (if sz AND 0xFFF \<noteq> 0 then (sz AND 0xFFFFF000) div 0x1000 else sz)
               in Some (akp sz1, None))"

definition kfree :: "u64 \<Rightarrow> kheap_state \<Rightarrow> kheap_state" where
  "kfree p st = kheap_free p st"

definition kmalloc_a where "kmalloc_a akp sz kheap = kmalloc_int akp sz 1 kheap"
definition kmalloc_p where "kmalloc_p akp sz kheap = kmalloc_int akp sz 0 kheap"
definition kmalloc_ap where "kmalloc_ap akp sz kheap = kmalloc_int akp sz 1 kheap"
definition kmalloc where "kmalloc akp sz kheap = kmalloc_int akp sz 0 kheap"

definition kheap_init :: "(u64 \<Rightarrow> u64) \<Rightarrow> kheap_state \<Rightarrow> kheap_state option" where
  "kheap_init akp st =
     (if KHEAP_INITIAL_SIZE - HEAP_INDEX_SIZE * 8 + HEAP_BLOCK_SIZE < HEAP_MIN_SIZE
      then None
      else let kheap_start = akp (KHEAP_INITIAL_SIZE div HEAP_BLOCK_SIZE);
               kheap_end = kheap_start + KHEAP_INITIAL_SIZE
           in Some (log_msg ''[KHEAP] kernel heap initialized.''
                      (create_heap kheap_start kheap_end 0xd0000000 0 0 st)))"

declare endmost_hole.simps [simp del]

end
