(* ===== verification/KHeapFields.thy ===== *)
theory KHeapFields
  imports KHeap
begin

text \<open>
  Reading the fields of the heap's structs after writing them: a write changes only the 16 bytes
  of its struct, a read depends only on the 16 bytes of its own, and within one struct the
  fields do not overlap. The bundle \<open>fields\<close> decides reads after writes once the
  structs are known to be apart.
\<close>

section \<open>Structs apart\<close>

definition apart :: "u64 \<Rightarrow> u64 \<Rightarrow> bool" where
  "apart a b \<longleftrightarrow> disjoint_ranges a 16 b 16"

lemma apart_sym: "apart a b \<Longrightarrow> apart b a"
  by (auto simp: apart_def disjoint_ranges_def)

lemma apart_of_nat:
  "p + 16 \<le> 2 ^ 64 \<Longrightarrow> q + 16 \<le> 2 ^ 64 \<Longrightarrow> p + 16 \<le> q \<or> q + 16 \<le> p \<Longrightarrow> apart (of_nat p) (of_nat q)"
  unfolding apart_def by (intro disjoint_rangesI) (auto simp: unat_of_nat)

text \<open>A field of \<open>k\<close> bytes at offset \<open>d\<close> lies in the struct.\<close>

lemma field_in_struct:
  assumes "in_range (a + of_nat d) k x" "d + k \<le> n" "n < 2 ^ 64"
  shows "in_range a n x"
proof -
  have k: "unat (x - (a + of_nat d)) < k" using assms(1) by (simp add: in_range_def)
  have d: "unat (of_nat d :: u64) = d" using assms by (simp add: unat_of_nat_small)
  have "unat (x - a) = unat ((x - (a + of_nat d)) + of_nat d)" by simp
  also have "\<dots> = unat (x - (a + of_nat d)) + d"
    using k assms d by (subst unat_add_small) (simp_all add: d)
  finally show ?thesis using k assms(2) by (simp add: in_range_def)
qed

lemma fields_in_struct:
  "in_range a 4 x \<Longrightarrow> in_range a 16 x"
  "x = a + 4 \<Longrightarrow> in_range a 16 x"
  "in_range (a + 8) 8 x \<Longrightarrow> in_range a 16 x"
  using field_in_struct [of a 8 8 x 16] by (auto simp: in_range_def)

text \<open>Two fields of one struct.\<close>

lemma fields_disjoint:
  "disjoint_ranges a 4 (a + 8) 8" "disjoint_ranges (a + 8) 8 a 4"
  "\<not> in_range a 4 (a + 4)" "\<not> in_range (a + 8) 8 (a + 4)"
proof -
  have off: "in_range (a + 8) 8 x \<Longrightarrow> 8 \<le> unat (x - a)" for x
  proof -
    assume r: "in_range (a + 8) 8 x"
    have e: "x - a = (x - (a + 8)) + 8" by simp
    have "unat ((x - (a + 8)) + 8) = unat (x - (a + 8)) + 8"
      using r by (subst unat_add_small) (simp_all add: in_range_def)
    then show ?thesis unfolding e by simp
  qed
  then show "disjoint_ranges a 4 (a + 8) 8" "disjoint_ranges (a + 8) 8 a 4"
    by (fastforce simp: disjoint_ranges_def in_range_def)+
  show "\<not> in_range (a + 8) 8 (a + 4)" using off [of "a + 4"] by auto
  show "\<not> in_range a 4 (a + 4)" by (simp add: in_range_def)
qed

section \<open>Writes and reads\<close>

lemma setters_outside:
  assumes "\<not> in_range a 16 x"
  shows "set_hdr_magic a v32 m x = m x" "set_hdr_is_hole a v8 m x = m x" "set_hdr_size a v m x = m x"
    "set_ftr_magic a v32 m x = m x" "set_ftr_header a v m x = m x"
  using assms fields_in_struct(1,3) [where a = a and x = x] fields_in_struct(2) [where a = a, OF refl]
  by (auto simp: set_hdr_magic_def set_hdr_is_hole_def set_hdr_size_def set_ftr_magic_def
      set_ftr_header_def intro: stores_outside)

lemma getters_cong:
  assumes "\<And>x. in_range a 16 x \<Longrightarrow> m x = m' x"
  shows "hdr_magic m a = hdr_magic m' a" "hdr_is_hole m a = hdr_is_hole m' a" "hdr_size m a = hdr_size m' a"
    "ftr_magic m a = ftr_magic m' a" "ftr_header m a = ftr_header m' a"
  using assms fields_in_struct [where a = a]
  by (auto simp: hdr_magic_def hdr_is_hole_def hdr_size_def ftr_magic_def ftr_header_def intro!: loads_cong)

lemma hdr_other:
  assumes "apart a b"
  shows "hdr_magic (set_hdr_magic a v32 m) b = hdr_magic m b"
    "hdr_magic (set_hdr_is_hole a v8 m) b = hdr_magic m b"
    "hdr_magic (set_hdr_size a v m) b = hdr_magic m b"
    "hdr_magic (set_ftr_magic a v32 m) b = hdr_magic m b"
    "hdr_magic (set_ftr_header a v m) b = hdr_magic m b"
    "hdr_is_hole (set_hdr_magic a v32 m) b = hdr_is_hole m b"
    "hdr_is_hole (set_hdr_is_hole a v8 m) b = hdr_is_hole m b"
    "hdr_is_hole (set_hdr_size a v m) b = hdr_is_hole m b"
    "hdr_is_hole (set_ftr_magic a v32 m) b = hdr_is_hole m b"
    "hdr_is_hole (set_ftr_header a v m) b = hdr_is_hole m b"
    "hdr_size (set_hdr_magic a v32 m) b = hdr_size m b"
    "hdr_size (set_hdr_is_hole a v8 m) b = hdr_size m b"
    "hdr_size (set_hdr_size a v m) b = hdr_size m b"
    "hdr_size (set_ftr_magic a v32 m) b = hdr_size m b"
    "hdr_size (set_ftr_header a v m) b = hdr_size m b"
  using assms by (auto simp: apart_def disjoint_ranges_def intro!: getters_cong setters_outside)

lemma ftr_other:
  assumes "apart a b"
  shows "ftr_magic (set_hdr_magic a v32 m) b = ftr_magic m b"
    "ftr_magic (set_hdr_is_hole a v8 m) b = ftr_magic m b"
    "ftr_magic (set_hdr_size a v m) b = ftr_magic m b"
    "ftr_magic (set_ftr_magic a v32 m) b = ftr_magic m b"
    "ftr_magic (set_ftr_header a v m) b = ftr_magic m b"
    "ftr_header (set_hdr_magic a v32 m) b = ftr_header m b"
    "ftr_header (set_hdr_is_hole a v8 m) b = ftr_header m b"
    "ftr_header (set_hdr_size a v m) b = ftr_header m b"
    "ftr_header (set_ftr_magic a v32 m) b = ftr_header m b"
    "ftr_header (set_ftr_header a v m) b = ftr_header m b"
  using assms by (auto simp: apart_def disjoint_ranges_def intro!: getters_cong setters_outside)

lemma field_same:
  "hdr_magic (set_hdr_magic a v32 m) a = v32" "hdr_magic (set_hdr_is_hole a v8 m) a = hdr_magic m a"
  "hdr_magic (set_hdr_size a v m) a = hdr_magic m a"
  "hdr_is_hole (set_hdr_magic a v32 m) a = hdr_is_hole m a" "hdr_is_hole (set_hdr_is_hole a v8 m) a = v8"
  "hdr_is_hole (set_hdr_size a v m) a = hdr_is_hole m a"
  "hdr_size (set_hdr_magic a v32 m) a = hdr_size m a" "hdr_size (set_hdr_is_hole a v8 m) a = hdr_size m a"
  "hdr_size (set_hdr_size a v m) a = v"
  "ftr_magic (set_ftr_magic a v32 m) a = v32" "ftr_magic (set_ftr_header a v m) a = ftr_magic m a"
  "ftr_header (set_ftr_magic a v32 m) a = ftr_header m a" "ftr_header (set_ftr_header a v m) a = v"
  by (simp_all add: hdr_magic_def hdr_is_hole_def hdr_size_def ftr_magic_def ftr_header_def
      set_hdr_magic_def set_hdr_is_hole_def set_hdr_size_def set_ftr_magic_def set_ftr_header_def
      loads_other stores_outside fields_disjoint)

lemmas fields = hdr_other ftr_other field_same

section \<open>What the state operations leave alone\<close>

lemma kheap_frame [simp, frame_simps]:
  "hmem (log_msg s st) = hmem st" "heap (log_msg s st) = heap st" "page_requests (log_msg s st) = page_requests st"
  "hmem (upd_mem f st) = f (hmem st)" "heap (upd_mem f st) = heap st" "console (upd_mem f st) = console st"
  "page_requests (upd_mem f st) = page_requests st"
  "hmem (index_insert x st) = hmem st" "console (index_insert x st) = console st"
  "hmem (index_remove i st) = hmem st" "console (index_remove i st) = console st"
  "start_address (heap (index_insert x st)) = start_address (heap st)"
  "end_address (heap (index_insert x st)) = end_address (heap st)"
  "max_address (heap (index_insert x st)) = max_address (heap st)"
  "start_address (heap (index_remove i st)) = start_address (heap st)"
  "end_address (heap (index_remove i st)) = end_address (heap st)"
  "max_address (heap (index_remove i st)) = max_address (heap st)"
  "page_requests (index_insert x st) = page_requests st" "page_requests (index_remove i st) = page_requests st"
  by (simp_all add: log_msg_def upd_mem_def index_insert_def index_remove_def)

lemma index_of_insert:
  "index (heap (index_insert x st)) =
     insert_ordered_array (header_t_less_than (hmem st)) x (index (heap st))"
  "index (heap (index_remove i st)) = remove_ordered_array i (index (heap st))"
  by (simp_all add: index_insert_def index_remove_def)

end
