(* ===== verification/KHeapTiles.thy ===== *)
theory KHeapTiles
  imports KHeapFields
begin

text \<open>
  The abstract view of the heap: the list of the blocks from \<open>start_address\<close> to
  \<open>end_address\<close>, each with its size and kind, the claim that memory holds such a list, and
  the heap's invariant that ties it to the index.
\<close>

section \<open>Blocks in memory\<close>

text \<open>
  A block in use, a hole, or a hole whose footer does not point back to its header. The code
  leaves such holes behind: \<open>create_heap\<close> writes no footer, and merging a hole with the one
  to its right does not rewrite the footer.
\<close>

datatype kind = Used | Hole | Bare

type_synonym blocks = "(nat \<times> kind) list"

definition block_at :: "memory \<Rightarrow> nat \<Rightarrow> nat \<Rightarrow> kind \<Rightarrow> bool" where
  "block_at m p n k \<longleftrightarrow> 32 \<le> n \<and> p + n < 2 ^ 64 \<and>
     hdr_magic m (of_nat p) = HEAP_MAGIC \<and> hdr_size m (of_nat p) = of_nat n \<and>
     hdr_is_hole m (of_nat p) = (if k = Used then 0 else 1) \<and>
     (k \<noteq> Bare \<longrightarrow> ftr_magic m (of_nat (p + n - 16)) = HEAP_MAGIC \<and>
                  ftr_header m (of_nat (p + n - 16)) = of_nat p)"

fun tiles :: "memory \<Rightarrow> nat \<Rightarrow> blocks \<Rightarrow> bool" where
  "tiles m p [] = True"
| "tiles m p ((n, k) # bs) = (block_at m p n k \<and> tiles m (p + n) bs)"

fun holes :: "nat \<Rightarrow> blocks \<Rightarrow> nat list" where
  "holes p [] = []"
| "holes p ((n, k) # bs) = (if k = Used then holes (p + n) bs else p # holes (p + n) bs)"

definition span :: "blocks \<Rightarrow> nat" where
  "span bs = sum_list (map fst bs)"

text \<open>
  The invariant: the blocks tile the heap, and the index holds exactly the holes.
\<close>

definition heap_inv :: "kheap_state \<Rightarrow> blocks \<Rightarrow> bool" where
  "heap_inv st bs \<longleftrightarrow>
     tiles (hmem st) (unat (start_address (heap st))) bs \<and>
     unat (start_address (heap st)) + span bs = unat (end_address (heap st)) \<and>
     mset (map unat (oa_list (index (heap st)))) = mset (holes (unat (start_address (heap st))) bs)"

lemma span_simps [simp]: "span [] = 0" "span (b # bs) = fst b + span bs" "span (as @ bs) = span as + span bs"
  by (simp_all add: span_def)

lemma tiles_append [simp]: "tiles m p (as @ bs) \<longleftrightarrow> tiles m p as \<and> tiles m (p + span as) bs"
  by (induction m p as rule: tiles.induct) (auto simp: add.assoc)

lemma holes_append [simp]: "holes p (as @ bs) = holes p as @ holes (p + span as) bs"
  by (induction p as rule: holes.induct) (auto simp: add.assoc)

lemma holes_range: "tiles m p bs \<Longrightarrow> q \<in> set (holes p bs) \<Longrightarrow> p \<le> q \<and> q + 32 \<le> p + span bs"
  by (induction m p bs rule: tiles.induct) (fastforce simp: block_at_def split: if_splits)+

lemma holes_distinct: "tiles m p bs \<Longrightarrow> distinct (holes p bs)"
proof (induction m p bs rule: tiles.induct)
  case (2 m p n k bs)
  then show ?case using holes_range [of m "p + n" bs p] by (auto simp: block_at_def)
qed simp

text \<open>A hole of the list splits it.\<close>

lemma holes_split:
  "q \<in> set (holes p bs) \<Longrightarrow>
     \<exists>as n k bs'. bs = as @ (n, k) # bs' \<and> k \<noteq> Used \<and> q = p + span as"
proof (induction p bs rule: holes.induct)
  case (2 p n k bs)
  show ?case
  proof (cases "k \<noteq> Used \<and> q = p")
    case True
    then show ?thesis by (intro exI [of _ "[]"] exI [of _ n] exI [of _ k] exI [of _ bs]) simp
  next
    case False
    then have "q \<in> set (holes (p + n) bs)" using "2.prems" by (auto split: if_splits)
    then obtain as n' k' bs' where "bs = as @ (n', k') # bs'" "k' \<noteq> Used" "q = p + n + span as"
      using "2.IH" by (cases "k = Used") blast+
    then show ?thesis by (intro exI [of _ "(n, k) # as"]) auto
  qed
qed simp

section \<open>Changes of memory inside one block\<close>

text \<open>The bytes from \<open>a\<close> up to \<open>b\<close> agree.\<close>

definition same_bytes :: "memory \<Rightarrow> memory \<Rightarrow> nat \<Rightarrow> nat \<Rightarrow> bool" where
  "same_bytes m m' a b \<longleftrightarrow> (\<forall>x. a \<le> unat x \<and> unat x < b \<longrightarrow> m' x = m x)"

text \<open>Only the bytes from \<open>a\<close> up to \<open>b\<close> may differ.\<close>

definition same_outside :: "memory \<Rightarrow> memory \<Rightarrow> nat \<Rightarrow> nat \<Rightarrow> bool" where
  "same_outside m m' a b \<longleftrightarrow> (\<forall>x. \<not> (a \<le> unat x \<and> unat x < b) \<longrightarrow> m' x = m x)"

lemma same_outside_refl [simp]: "same_outside m m a b"
  by (simp add: same_outside_def)

lemma same_bytes_sub: "same_bytes m m' a b \<Longrightarrow> a \<le> c \<Longrightarrow> d \<le> b \<Longrightarrow> same_bytes m m' c d"
  unfolding same_bytes_def by (meson le_trans less_le_trans)

lemma same_outside_setters:
  assumes "a \<le> p" "p + 16 \<le> b" "p + 16 \<le> 2 ^ 64" "same_outside m m' a b"
  shows "same_outside m (set_hdr_magic (of_nat p) v32 m') a b"
    "same_outside m (set_hdr_is_hole (of_nat p) v8 m') a b"
    "same_outside m (set_hdr_size (of_nat p) v m') a b"
    "same_outside m (set_ftr_magic (of_nat p) v32 m') a b"
    "same_outside m (set_ftr_header (of_nat p) v m') a b"
proof -
  have u: "unat (of_nat p :: u64) = p" using assms by (simp add: unat_of_nat_small)
  have "\<not> in_range (of_nat p) 16 x" if "\<not> (a \<le> unat x \<and> unat x < b)" for x :: u64
    using that assms by (subst in_range_nowrap) (auto simp: u)
  then show "same_outside m (set_hdr_magic (of_nat p) v32 m') a b"
    "same_outside m (set_hdr_is_hole (of_nat p) v8 m') a b"
    "same_outside m (set_hdr_size (of_nat p) v m') a b"
    "same_outside m (set_ftr_magic (of_nat p) v32 m') a b"
    "same_outside m (set_ftr_header (of_nat p) v m') a b"
    using assms(4) by (auto simp: same_outside_def setters_outside)
qed

lemma same_outside_bytes:
  "same_outside m m' a b \<Longrightarrow> q \<le> a \<or> b \<le> p \<Longrightarrow> same_bytes m m' p q"
  by (auto simp: same_outside_def same_bytes_def)

lemma getters_same_bytes:
  assumes "same_bytes m m' a b" "a \<le> p" "p + 16 \<le> b" "p + 16 \<le> 2 ^ 64"
  shows "hdr_magic m' (of_nat p) = hdr_magic m (of_nat p)"
    "hdr_is_hole m' (of_nat p) = hdr_is_hole m (of_nat p)"
    "hdr_size m' (of_nat p) = hdr_size m (of_nat p)"
    "ftr_magic m' (of_nat p) = ftr_magic m (of_nat p)"
    "ftr_header m' (of_nat p) = ftr_header m (of_nat p)"
proof -
  have u: "unat (of_nat p :: u64) = p" using assms by (simp add: unat_of_nat_small)
  have "m' x = m x" if "in_range (of_nat p) 16 x" for x :: u64
    using that assms by (subst (asm) in_range_nowrap) (auto simp: u same_bytes_def)
  then show "hdr_magic m' (of_nat p) = hdr_magic m (of_nat p)"
    "hdr_is_hole m' (of_nat p) = hdr_is_hole m (of_nat p)"
    "hdr_size m' (of_nat p) = hdr_size m (of_nat p)"
    "ftr_magic m' (of_nat p) = ftr_magic m (of_nat p)"
    "ftr_header m' (of_nat p) = ftr_header m (of_nat p)"
    by (auto intro!: getters_cong)
qed

lemma block_at_same_bytes:
  assumes "same_bytes m m' p (p + n)" "block_at m p n k"
  shows "block_at m' p n k"
  using assms getters_same_bytes [OF assms(1), of p] getters_same_bytes [OF assms(1), of "p + n - 16"]
  by (auto simp: block_at_def)

lemma tiles_same_bytes:
  "tiles m p bs \<Longrightarrow> same_bytes m m' p (p + span bs) \<Longrightarrow> tiles m' p bs"
proof (induction m p bs rule: tiles.induct)
  case (2 m p n k bs)
  then have "same_bytes m m' p (p + n)" "same_bytes m m' (p + n) (p + n + span bs)"
    by (auto simp: same_bytes_def)
  with 2 show ?case by (auto intro: block_at_same_bytes)
qed simp

text \<open>
  Replacing one block by a list of blocks of the same total size, with the changes to memory
  inside it.
\<close>

lemma tiles_replace:
  assumes "tiles m p (as @ b # bs)" "same_outside m m' (p + span as) (p + span as + fst b)"
    and "tiles m' (p + span as) cs" "span cs = fst b"
  shows "tiles m' p (as @ cs @ bs)"
proof -
  have "same_bytes m m' p (p + span as)" "same_bytes m m' (p + span as + fst b) (p + span as + fst b + span bs)"
    using same_outside_bytes [OF assms(2)] by blast+
  then show ?thesis
    using assms(1,3,4) by (cases b) (auto intro: tiles_same_bytes)
qed

section \<open>The index under the invariant\<close>

abbreviation index_set :: "kheap_state \<Rightarrow> nat multiset" where
  "index_set st \<equiv> mset (map unat (oa_list (index (heap st))))"

lemma holes_count: "tiles m p bs \<Longrightarrow> 32 * length (holes p bs) \<le> span bs"
  by (induction m p bs rule: tiles.induct) (auto simp: block_at_def)

lemma heap_inv_room:
  assumes "heap_inv st bs"
  shows "unat (oa_size (index (heap st))) < 2 ^ 60" "oa_room (index (heap st))"
proof -
  have "length (holes (unat (start_address (heap st))) bs) = unat (oa_size (index (heap st)))"
    using assms unfolding heap_inv_def by (metis length_map length_oa_list size_mset)
  moreover have "span bs \<le> unat (end_address (heap st))" using assms by (auto simp: heap_inv_def)
  moreover have "32 * length (holes (unat (start_address (heap st))) bs) \<le> span bs"
    using holes_count assms by (auto simp: heap_inv_def)
  ultimately have "32 * unat (oa_size (index (heap st))) < 18446744073709551616"
    using unat_lt_64 [of "end_address (heap st)"] by linarith
  then show "unat (oa_size (index (heap st))) < 2 ^ 60" by simp
  then show "oa_room (index (heap st))" by (simp add: oa_room_def)
qed

lemma index_insert_set:
  "oa_room (index (heap st)) \<Longrightarrow> index_set (index_insert x st) = add_mset (unat x) (index_set st)"
  using oa.ins_mset [of "index (heap st)" "header_t_less_than (hmem st)" x]
  by (simp add: index_of_insert)

lemma index_remove_set:
  assumes "oa_room (index (heap st))" "i < oa_size (index (heap st))"
  shows "add_mset (unat (lookup_ordered_array i (index (heap st)))) (index_set (index_remove i st)) = index_set st"
  using arg_cong [OF oa.del_mset [of "index (heap st)" i], of "image_mset unat"] assms
  by (simp add: index_of_insert word_less_nat_alt)

lemma index_remove_room:
  assumes "oa_room (index (heap st))" "i < oa_size (index (heap st))"
  shows "oa_room (index (heap (index_remove i st)))"
proof -
  have "oa_size (index (heap st)) \<noteq> 0" using assms(2) by auto
  then have "unat (oa_size (index (heap st)) - 1) = unat (oa_size (index (heap st))) - 1"
    by (simp add: unat_minus_one)
  then show ?thesis using assms(1)
    by (simp add: oa_room_def index_of_insert remove_ordered_array_def)
qed

text \<open>The index holds the addresses of the holes, once each.\<close>

lemma heap_inv_index:
  assumes "heap_inv st bs"
  shows "distinct (oa_list (index (heap st)))"
    "x \<in> set (oa_list (index (heap st))) \<longleftrightarrow> unat x \<in> set (holes (unat (start_address (heap st))) bs)"
proof -
  have "distinct (holes (unat (start_address (heap st))) bs)"
    using assms holes_distinct by (auto simp: heap_inv_def)
  then have "distinct (map unat (oa_list (index (heap st))))"
    using assms by (metis heap_inv_def mset_eq_imp_distinct_iff)
  then show "distinct (oa_list (index (heap st)))" by (simp add: distinct_map)
  have "set (map unat (oa_list (index (heap st)))) = set (holes (unat (start_address (heap st))) bs)"
    using assms by (metis heap_inv_def mset_eq_setD)
  then show "x \<in> set (oa_list (index (heap st))) \<longleftrightarrow> unat x \<in> set (holes (unat (start_address (heap st))) bs)"
    by (metis (no_types, lifting) image_iff list.set_map word_unat_eq_iff)
qed

text \<open>An entry of the index is a hole of the list, with its header in memory.\<close>

lemma heap_inv_entry:
  assumes "heap_inv st bs" "i < oa_size (index (heap st))"
  obtains as n k bs' where "bs = as @ (n, k) # bs'" "k \<noteq> Used"
    "lookup_ordered_array i (index (heap st)) = of_nat (unat (start_address (heap st)) + span as)"
    "block_at (hmem st) (unat (start_address (heap st)) + span as) n k"
proof -
  let ?x = "lookup_ordered_array i (index (heap st))"
  have "?x \<in> set (oa_list (index (heap st)))"
    using assms(2) by (simp add: lookup_oa_list word_less_nat_alt)
  then have "unat ?x \<in> set (holes (unat (start_address (heap st))) bs)"
    using heap_inv_index(2) [OF assms(1)] by simp
  from holes_split [OF this] obtain as n k bs' where
    "bs = as @ (n, k) # bs'" "k \<noteq> Used" "unat ?x = unat (start_address (heap st)) + span as" by blast
  moreover from this have "?x = of_nat (unat (start_address (heap st)) + span as)" by (metis of_nat_unat ucast_id)
  ultimately show ?thesis using that assms(1) by (simp add: heap_inv_def)
qed

end
