(* ===== verification/KHeapAlloc.thy ===== *)
theory KHeapAlloc
  imports KHeapTiles
begin

text \<open>
  What \<open>create_heap\<close> and \<open>alloc\<close> do to the list of blocks.
\<close>

section \<open>Word and natural positions\<close>

lemma unat_pos: "p < 2 ^ 64 \<Longrightarrow> unat (of_nat p :: u64) = p"
  by (simp add: unat_of_nat_small)

lemma of_nat_diff_64: "b \<le> a \<Longrightarrow> (of_nat a - of_nat b :: u64) = of_nat (a - b)"
  by (simp add: of_nat_diff)

section \<open>Carving a block out of a hole\<close>

definition carve :: "nat \<Rightarrow> nat \<Rightarrow> blocks" where
  "carve n need = (if n - need < 32 then [(n, Used)] else [(need, Used), (n - need, Hole)])"

lemma span_carve: "need \<le> n \<Longrightarrow> span (carve n need) = n"
  by (simp add: carve_def)

text \<open>The memory after the block has been written, and after the hole behind it has.\<close>

definition write_block :: "nat \<Rightarrow> nat \<Rightarrow> memory \<Rightarrow> memory" where
  "write_block p n = set_ftr_header (of_nat (p + n - 16)) (of_nat p) \<circ>
     set_ftr_magic (of_nat (p + n - 16)) HEAP_MAGIC \<circ> set_hdr_size (of_nat p) (of_nat n) \<circ>
     set_hdr_is_hole (of_nat p) 0 \<circ> set_hdr_magic (of_nat p) HEAP_MAGIC"

definition write_hole :: "nat \<Rightarrow> nat \<Rightarrow> memory \<Rightarrow> memory" where
  "write_hole p n = set_ftr_header (of_nat (p + n - 16)) (of_nat p) \<circ>
     set_ftr_magic (of_nat (p + n - 16)) HEAP_MAGIC \<circ> set_hdr_size (of_nat p) (of_nat n) \<circ>
     set_hdr_is_hole (of_nat p) 1 \<circ> set_hdr_magic (of_nat p) HEAP_MAGIC"

lemma write_block_at:
  assumes "32 \<le> n" "p + n < 2 ^ 64"
  shows "block_at (write_block p n m) p n Used" "block_at (write_hole p n m) p n Hole"
    "same_outside m (write_block p n m) p (p + n)" "same_outside m (write_hole p n m) p (p + n)"
proof -
  have "apart (of_nat p) (of_nat (p + n - 16))" "apart (of_nat (p + n - 16)) (of_nat p)"
    using assms by (intro apart_of_nat; simp)+
  then show "block_at (write_block p n m) p n Used" "block_at (write_hole p n m) p n Hole"
    using assms by (simp_all add: block_at_def write_block_def write_hole_def fields)
  show "same_outside m (write_block p n m) p (p + n)" "same_outside m (write_hole p n m) p (p + n)"
    using assms unfolding write_block_def write_hole_def o_apply
    by (intro same_outside_setters same_outside_refl; simp)+
qed

lemma same_outside_trans:
  "same_outside m m' a b \<Longrightarrow> same_outside m' m'' c d \<Longrightarrow> a \<le> c \<Longrightarrow> d \<le> b \<Longrightarrow> same_outside m m'' a b"
  unfolding same_outside_def by (metis le_trans order_less_le_trans)

lemma carve_tiles:
  fixes m :: memory
  assumes "32 \<le> need" "need \<le> n" "p + n < 2 ^ 64"
  defines "m' \<equiv> if n - need < 32 then write_block p n m else write_hole (p + need) (n - need) (write_block p need m)"
  shows "tiles m' p (carve n need)" "same_outside m m' p (p + n)"
proof -
  show "tiles m' p (carve n need)"
  proof (cases "n - need < 32")
    case False
    let ?m = "write_block p need m"
    have "same_outside ?m (write_hole (p + need) (n - need) ?m) (p + need) (p + need + (n - need))"
      using assms False by (intro write_block_at) auto
    then have "same_bytes ?m (write_hole (p + need) (n - need) ?m) p (p + need)"
      by (rule same_outside_bytes) simp
    then show ?thesis
      using assms False write_block_at [of need p m] write_block_at(2) [of "n - need" "p + need" ?m]
      by (auto simp: m'_def carve_def intro: block_at_same_bytes)
  qed (use assms write_block_at(1) [of n p m] in \<open>simp add: m'_def carve_def\<close>)
  show "same_outside m m' p (p + n)"
  proof (cases "n - need < 32")
    case False
    then have "same_outside m (write_block p need m) p (p + need)"
      "same_outside (write_block p need m) m' (p + need) (p + n)"
      using assms write_block_at(3) [of need p m]
        write_block_at(4) [of "n - need" "p + need" "write_block p need m"] by (simp_all add: m'_def)
    then show ?thesis using assms(2) by (auto simp: same_outside_def)
  qed (use assms write_block_at(3) [of n p m] in \<open>simp add: m'_def\<close>)
qed

text \<open>What \<open>alloc_from\<close> computes for a request that is not page-aligned.\<close>

lemma alloc_from_plain_eq:
  assumes "lookup_ordered_array i (index (heap st)) = of_nat p" "hdr_size (hmem st) (of_nat p) = of_nat n"
    and "unat sz + 32 \<le> n" "p + n \<le> unat (end_address (heap st))"
  defines "need \<equiv> unat sz + 32" and "st1 \<equiv> index_remove i st"
  shows "alloc_from i sz (sz + 16 + 16) 0 st =
    (of_nat (p + 16),
     if n - need < 32 then upd_mem (write_block p n) st1
     else index_insert (of_nat (p + need)) (upd_mem (write_hole (p + need) (n - need) \<circ> write_block p need) st1))"
proof -
  have E: "unat (end_address (heap st)) < 2 ^ 64" by simp
  have sz: "sz = of_nat (unat sz)" by simp
  have need: "sz + 16 + 16 = of_nat need" by (simp add: need_def add.commute)
  have diff: "of_nat n - of_nat need = (of_nat (n - need) :: u64)"
    using assms(3) by (simp add: need_def of_nat_diff)
  have u: "unat (of_nat (n - need) :: u64) = n - need"
    "unat (of_nat (p + need + (n - need) - 16) :: u64) = p + need + (n - need) - 16"
    using assms(3,4) E by (intro unat_pos; unfold need_def; linarith)+
  have lt: "(of_nat (n - need) :: u64) < 32 \<longleftrightarrow> n - need < 32"
    by (simp add: word_less_nat_alt u del: of_nat_diff)
  have pos: "(of_nat (n - need) :: u64) > 0 \<longleftrightarrow> 0 < n - need"
    by (simp add: word_less_nat_alt u del: of_nat_diff)
  have f1: "of_nat p + 16 + (sz + of_nat (n - need)) = (of_nat (p + n - 16) :: u64)"
  proof -
    have "p + n - 16 = p + 16 + (unat sz + (n - need))" using assms(3) by (simp add: need_def)
    then have "(of_nat (p + n - 16) :: u64) = of_nat (p + 16 + (unat sz + (n - need)))" by simp
    also have "\<dots> = of_nat p + 16 + (sz + of_nat (n - need))" by simp
    finally show ?thesis ..
  qed
  have f2: "of_nat p + 16 + sz = (of_nat (p + need - 16) :: u64)"
    "of_nat p + 16 + sz + 16 = (of_nat (p + need) :: u64)"
  proof -
    have "p + need - 16 = p + 16 + unat sz" by (simp add: need_def)
    then show "of_nat p + 16 + sz = (of_nat (p + need - 16) :: u64)" by (simp del: of_nat_diff)
    show "of_nat p + 16 + sz + 16 = (of_nat (p + need) :: u64)" by (simp add: need_def)
  qed
  have f0: "of_nat (p + 16) = (of_nat p + 16 :: u64)" by simp
  have len: "p + need + (n - need) = p + n" using assms(3) by (simp add: need_def)
  have f3: "of_nat (p + need) + of_nat n - of_nat need - 16 = (of_nat (p + n - 16) :: u64)"
    using assms(3) by (simp add: need_def of_nat_diff)
  have f4: "(of_nat (p + n - 16) :: u64) < end_address (heap st)"
    using assms(3,4) u(2) unfolding len by (simp only: word_less_nat_alt)
  have f5: "of_nat (p + need - 16) + 16 = (of_nat (p + need) :: u64)" using f2 by simp
  note words = f0 f1 f2 f3 f4 f5 diff len
  show ?thesis
  proof (cases "n - need < 32")
    case True
    then show ?thesis
      unfolding alloc_from_def Let_def assms(1,2) need diff lt
      by (simp add: words st1_def write_block_def o_assoc del: of_nat_add of_nat_diff)
  next
    case False
    then have "(0 :: u64) < of_nat (n - need)" using pos by simp
    with False show ?thesis
      unfolding alloc_from_def Let_def assms(1,2) need diff lt
      by (simp add: words st1_def write_block_def write_hole_def upd_mem_def index_insert_def index_remove_def
          del: of_nat_add of_nat_diff)
  qed
qed

text \<open>
  The effect on the heap: the hole becomes the carved blocks, and only its bytes change.
\<close>

lemma alloc_from_plain:
  assumes inv: "heap_inv st (as @ (n, k) # bs)" and k: "k \<noteq> Used"
    and i: "i < oa_size (index (heap st))"
    and look: "lookup_ordered_array i (index (heap st)) = of_nat (unat (start_address (heap st)) + span as)"
    and fit: "unat sz + 32 \<le> n"
    and res: "alloc_from i sz (sz + 16 + 16) 0 st = (a, st')"
  defines "p \<equiv> unat (start_address (heap st)) + span as"
  shows "unat a = p + 16 \<and> heap_inv st' (as @ carve n (unat sz + 32) @ bs) \<and>
    same_outside (hmem st) (hmem st') p (p + n) \<and> console st' = console st \<and>
    start_address (heap st') = start_address (heap st) \<and> end_address (heap st') = end_address (heap st) \<and>
    page_requests st' = page_requests st"
proof -
  let ?S = "unat (start_address (heap st))" and ?need = "unat sz + 32"
  have blk: "block_at (hmem st) p n k" and pE: "p + n \<le> unat (end_address (heap st))"
    using inv by (simp_all add: heap_inv_def p_def)
  have p64: "p + n < 2 ^ 64" "32 \<le> n" using blk by (simp_all add: block_at_def)
  have look': "lookup_ordered_array i (index (heap st)) = of_nat p" by (simp add: look p_def)
  have "hdr_size (hmem st) (of_nat p) = of_nat n" using blk by (simp add: block_at_def)
  note eq = alloc_from_plain_eq [OF look' this fit pE]
  define m' where "m' = (if n - ?need < 32 then write_block p n (hmem st)
    else write_hole (p + ?need) (n - ?need) (write_block p ?need (hmem st)))"
  have m': "tiles m' p (carve n ?need)" "same_outside (hmem st) m' p (p + n)"
    using carve_tiles [OF _ fit p64(1), of "hmem st"] by (simp_all add: m'_def)
  have st': "hmem st' = m'" "console st' = console st" "a = of_nat (p + 16)"
    "start_address (heap st') = start_address (heap st)" "end_address (heap st') = end_address (heap st)"
    "page_requests st' = page_requests st"
    using res unfolding eq by (auto simp: m'_def index_insert_def index_remove_def upd_mem_def split: if_splits)
  have tiles: "tiles m' ?S (as @ carve n ?need @ bs)"
    using inv m' fit by (intro tiles_replace [of "hmem st" _ as "(n, k)"])
      (simp_all add: heap_inv_def p_def span_carve)
  note room = heap_inv_room(2) [OF inv]
  have "add_mset p (index_set (index_remove i st)) = mset (holes ?S (as @ (n, k) # bs))"
    using index_remove_set [OF room i] inv p64 by (simp add: heap_inv_def look' unat_pos)
  then have rem: "index_set (index_remove i st) = mset (holes ?S as) + mset (holes (p + n) bs)"
    using k by (simp add: p_def add.assoc)
  have "index_set st' = mset (holes ?S (as @ carve n ?need @ bs))"
  proof (cases "n - ?need < 32")
    case True
    then have "index_set st' = index_set (index_remove i st)" using res unfolding eq by (auto simp: upd_mem_def)
    then show ?thesis using True fit unfolding rem by (simp add: carve_def p_def add.assoc)
  next
    case False
    let ?st = "upd_mem (write_hole (p + ?need) (n - ?need) \<circ> write_block p ?need) (index_remove i st)"
    have "st' = index_insert (of_nat (p + ?need)) ?st" using res False unfolding eq by simp
    moreover have "oa_room (index (heap ?st))" using index_remove_room [OF room i] by simp
    moreover have "index_set ?st = index_set (index_remove i st)" by simp
    ultimately have "index_set st' = add_mset (p + ?need) (index_set (index_remove i st))"
      using index_insert_set [of ?st "of_nat (p + ?need)"] fit p64(1) False unat_pos [of "p + ?need"]
      by (simp del: of_nat_add)
    then show ?thesis using False fit unfolding rem by (simp add: carve_def p_def add.assoc)
  qed
  moreover have "unat a = p + 16" using st'(3) p64 unat_pos [of "p + 16"] by (simp del: of_nat_add)
  ultimately show ?thesis
    using inv tiles st' m'(2) fit by (simp add: heap_inv_def span_carve)
qed

section \<open>Finding the hole\<close>

text \<open>The search finds an entry that fits, or there is none.\<close>

lemma find_smallest_hole_spec:
  fixes st sz al
  assumes "oa_room (index (heap st))"
  defines "r \<equiv> find_smallest_hole sz al st" and "a \<equiv> index (heap st)" and "fits \<equiv> hole_fits (hmem st) sz al"
  shows "(r = - 1 \<and> (\<forall>x \<in> set (oa_list a). \<not> fits x)) \<or>
    (r \<noteq> - 1 \<and> r < oa_size a \<and> fits (lookup_ordered_array r a) \<and> (\<forall>k < unat r. \<not> fits (oa_list a ! k)))"
proof -
  have "index_search fits a 0 \<le> oa_size a \<Longrightarrow> index_search fits a 0 \<noteq> - 1"
    using assms(1) by (auto simp: oa_room_def a_def word_le_nat_alt unsigned_minus_1_eq_mask mask_eq_exp_minus_1)
  moreover have "index_search fits a 0 < oa_size a \<Longrightarrow> index_search fits a 0 \<noteq> oa_size a" by auto
  moreover have "index_search fits a 0 \<le> oa_size a"
    using index_search_spec [of 0 a fits] by (simp add: word_le_nat_alt)
  ultimately show ?thesis
    using index_search_first [of fits a]
    by (auto simp: r_def find_smallest_hole_def a_def fits_def Let_def)
qed

lemma hole_fits_plain: "hole_fits m sz 0 h \<longleftrightarrow> sz \<le> hdr_size m h"
  by (simp add: hole_fits_def)

end
