(* ===== verification/KHeapGrow.thy ===== *)
theory KHeapGrow
  imports KHeapAlloc
begin

text \<open>
  Growing the heap: \<open>expand\<close> and the branch of \<open>alloc\<close> for when no hole fits.
\<close>

section \<open>Rounding up to pages\<close>

lemma and_page_mask: "unat ((x :: u64) AND 0xFFF) = unat x mod 4096"
proof -
  have "(0xFFF :: u64) = mask 12" by (simp add: mask_eq_exp_minus_1)
  then have "x AND 0xFFF = take_bit 12 x" by (simp only: take_bit_eq_mask)
  then show ?thesis by (simp only: unsigned_take_bit_eq) (simp add: take_bit_eq_mod)
qed

lemma and_shifted_mask:
  "x AND push_bit 12 (mask 20) = push_bit 12 (take_bit 20 (drop_bit 12 x))" for x :: u64
  by (rule bit_word_eqI) (auto simp: bit_simps)

lemma and_page_number_mask:
  assumes "unat (x :: u64) < 2 ^ 32"
  shows "unat (x AND 0xFFFFF000) = unat x - unat x mod 4096"
proof -
  have "(0xFFFFF000 :: u64) = push_bit 12 (mask 20)" by (simp add: mask_eq_exp_minus_1)
  then have "x AND 0xFFFFF000 = push_bit 12 (take_bit 20 (drop_bit 12 x))"
    by (simp only: and_shifted_mask)
  also have "take_bit 20 (drop_bit 12 x) = drop_bit 12 x"
  proof -
    have "unat (drop_bit 12 x) = unat x div 4096" by (simp add: drop_bit_eq_div unat_div)
    moreover have "unat x div 4096 < 2 ^ 20" using assms by (simp add: less_mult_imp_div_less)
    ultimately show ?thesis by (simp add: word_unat_eq_iff unsigned_take_bit_eq take_bit_nat_eq_self)
  qed
  also have "push_bit 12 (drop_bit 12 x) = x div 4096 * 4096"
    by (simp add: push_bit_eq_mult drop_bit_eq_div)
  also have "unat (x div 4096 * 4096) = unat x div 4096 * 4096"
    using assms by (simp add: unat_word_ariths unat_div)
  finally show ?thesis by (simp add: minus_mod_eq_div_mult)
qed

lemma page_round_up_spec:
  assumes "unat x + 4096 \<le> 2 ^ 32"
  shows "unat x \<le> unat (page_round_up x)" "unat (page_round_up x) < unat x + 4096"
    "unat (page_round_up x) mod 4096 = 0"
proof -
  let ?u = "unat x"
  have u: "unat (page_round_up x) = (if ?u mod 4096 = 0 then ?u else ?u - ?u mod 4096 + 4096)"
  proof (cases "?u mod 4096 = 0")
    case True
    then have "x AND 0xFFF = 0" using and_page_mask [of x] by (simp add: unat_eq_zero)
    then show ?thesis using True by (simp add: page_round_up_def)
  next
    case False
    then have nz: "x AND 0xFFF \<noteq> 0" using and_page_mask [of x] by auto
    have "unat (x AND 0xFFFFF000) = ?u - ?u mod 4096"
      using and_page_number_mask [of x] assms by simp
    moreover from this have "unat ((x AND 0xFFFFF000) + 0x1000) = unat (x AND 0xFFFFF000) + 4096"
      using assms by (subst unat_add_small) auto
    ultimately show ?thesis using nz False by (simp add: page_round_up_def)
  qed
  then show "unat x \<le> unat (page_round_up x)" "unat (page_round_up x) < unat x + 4096" by auto
  show "unat (page_round_up x) mod 4096 = 0" using u by (simp add: minus_mod_eq_mult_div)
qed

section \<open>The endmost hole\<close>

lemma endmost_hole_inv:
  assumes "unat it \<le> unat (oa_size a)"
    and "(idx = - 1 \<and> val = 0) \<or> (idx < oa_size a \<and> lookup_ordered_array idx a = val)"
    and "\<forall>k < unat it. oa_list a ! k \<le> val"
  defines "r \<equiv> endmost_hole a it idx val"
  shows "(r = - 1 \<and> (\<forall>x \<in> set (oa_list a). x = 0)) \<or>
    (r < oa_size a \<and> (\<forall>x \<in> set (oa_list a). x \<le> lookup_ordered_array r a))"
  using assms(1-3) unfolding r_def
proof (induction a it idx val rule: endmost_hole.induct)
  case (1 a it idx val)
  show ?case
  proof (cases "it < oa_size a")
    case True
    then have i: "unat (it + 1) = Suc (unat it)" "Suc (unat it) \<le> unat (oa_size a)"
      by (auto simp: word_less_nat_alt intro!: unat_incr [of it "oa_size a"])
    let ?tmp = "lookup_ordered_array it a"
    have tmp: "?tmp = oa_list a ! unat it" using True by (simp add: lookup_oa_list word_less_nat_alt)
    show ?thesis
    proof (cases "?tmp > val")
      case gt: True
      then have "\<forall>k < unat (it + 1). oa_list a ! k \<le> ?tmp"
        using "1.prems"(3) i(1) tmp by (auto simp: less_Suc_eq intro: order_trans less_imp_le)
      then show ?thesis using "1.IH"(1) [OF True refl gt] i True gt by (simp add: endmost_hole.simps [of a it])
    next
      case False
      then have "\<forall>k < unat (it + 1). oa_list a ! k \<le> val"
        using "1.prems"(3) i(1) tmp by (auto simp: less_Suc_eq)
      then show ?thesis using "1.IH"(2) [OF True refl False] i True False "1.prems"(2)
        by (simp add: endmost_hole.simps [of a it])
    qed
  next
    case False
    then have "\<forall>x \<in> set (oa_list a). x \<le> val"
      using "1.prems"(1,3) by (auto simp: in_set_conv_nth word_less_nat_alt)
    then show ?thesis using False "1.prems"(2) by (auto simp: endmost_hole.simps [of a it])
  qed
qed

lemma endmost_hole_spec:
  fixes a
  defines "r \<equiv> endmost_hole a 0 (- 1) 0"
  shows "(r = - 1 \<and> (\<forall>x \<in> set (oa_list a). x = 0)) \<or>
    (r < oa_size a \<and> (\<forall>x \<in> set (oa_list a). x \<le> lookup_ordered_array r a))"
  unfolding r_def by (rule endmost_hole_inv) auto

section \<open>expand\<close>

lemma expand_frame [simp, frame_simps]:
  "hmem (expand n st) = hmem st" "index (heap (expand n st)) = index (heap st)"
  "start_address (heap (expand n st)) = start_address (heap st)"
  "max_address (heap (expand n st)) = max_address (heap st)"
  "end_address (heap (expand n st)) = start_address (heap st) + page_round_up n"
  by (simp_all add: expand_def Let_def)

lemma expand_console:
  assumes "end_address (heap st) - start_address (heap st) \<le> n"
    "start_address (heap st) + page_round_up n \<le> max_address (heap st)"
  shows "console (expand n st) = console st"
  using assms by (simp add: expand_def Let_def not_less [symmetric])

text \<open>
  The room for growing: sizes stay below 4 GB, where the 32-bit mask of the rounding does no
  harm, and the heap's end below the end of the address space.
\<close>

definition can_grow :: "kheap_state \<Rightarrow> nat \<Rightarrow> bool" where
  "can_grow st need \<longleftrightarrow> unat (end_address (heap st)) - unat (start_address (heap st)) + need + 4096 \<le> 2 ^ 32 \<and>
     0 < unat (start_address (heap st)) \<and> unat (start_address (heap st)) + 2 ^ 32 < 2 ^ 64"

definition grown_length :: "kheap_state \<Rightarrow> nat \<Rightarrow> nat" where
  "grown_length st need =
     unat (page_round_up (end_address (heap st) - start_address (heap st) + of_nat need))"

lemma grown:
  assumes "heap_inv st bs" "can_grow st need" "unat new_size = need"
  defines "L \<equiv> unat (end_address (heap st)) - unat (start_address (heap st))"
  shows "L = span bs" "L + need \<le> grown_length st need" "grown_length st need \<le> 2 ^ 32"
    "grown_length st need mod 4096 = 0"
    "unat (end_address (heap (expand (end_address (heap st) - start_address (heap st) + new_size) st)))
       = unat (start_address (heap st)) + grown_length st need"
proof -
  let ?x = "end_address (heap st) - start_address (heap st) + new_size"
  have le: "start_address (heap st) \<le> end_address (heap st)"
    using assms(1) by (simp add: heap_inv_def word_le_nat_alt)
  then have d: "unat (end_address (heap st) - start_address (heap st)) = L" by (simp add: L_def unat_diff_small)
  show "L = span bs" using assms(1) unfolding L_def heap_inv_def by linarith
  have new: "new_size = of_nat need" using assms(3) by auto
  have x: "unat ?x = L + need"
    using d assms(2,3) by (subst unat_add_small) (auto simp: can_grow_def L_def)
  then have "unat ?x + 4096 \<le> 2 ^ 32" using assms(2) by (simp add: can_grow_def L_def)
  note r = page_round_up_spec [OF this]
  have g: "grown_length st need = unat (page_round_up ?x)" by (simp add: grown_length_def new)
  then show "L + need \<le> grown_length st need" "grown_length st need mod 4096 = 0" using r x by simp_all
  show le: "grown_length st need \<le> 2 ^ 32" using r(2) x assms(2) g by (simp add: can_grow_def L_def)
  show "unat (end_address (heap (expand ?x st))) = unat (start_address (heap st)) + grown_length st need"
    using le assms(2) g unfolding can_grow_def
    by (simp only: expand_frame) (subst unat_add_small, auto)
qed

section \<open>alloc_grow\<close>

lemma holes_empty_index:
  assumes "heap_inv st bs" "\<forall>(n, k) \<in> set bs. k = Used"
  shows "oa_list (index (heap st)) = []"
proof -
  have "holes p bs = []" for p using assms(2) by (induction p bs rule: holes.induct) auto
  then show ?thesis using assms(1) by (simp add: heap_inv_def)
qed

text \<open>With no hole at all, a new one is put at the old end.\<close>

lemma alloc_grow_no_hole:
  assumes inv: "heap_inv st bs" and used: "\<forall>(n, k) \<in> set bs. k = Used"
    and room: "can_grow st need" "unat new_size = need" "32 \<le> need"
  defines "d \<equiv> grown_length st need - span bs" and "st' \<equiv> alloc_grow new_size st"
  shows "heap_inv st' (bs @ [(d, Hole)]) \<and> need \<le> d \<and>
    same_outside (hmem st) (hmem st') (unat (end_address (heap st))) (unat (end_address (heap st)) + d) \<and>
    start_address (heap st') = start_address (heap st)"
proof -
  note g = grown [OF inv room(1,2)]
  define E where "E = unat (end_address (heap st))"
  define st1 where "st1 = expand (end_address (heap st) - start_address (heap st) + new_size) st"
  have S: "unat (start_address (heap st)) + span bs = E" using inv by (simp add: heap_inv_def E_def)
  have d: "need \<le> d" "E + d = unat (end_address (heap st1))" using g S by (simp_all add: d_def st1_def E_def)
  have d64: "32 \<le> d" "E + d < 2 ^ 64" using d room(3) by simp_all
  have nl: "end_address (heap st1) - start_address (heap st1) - (end_address (heap st) - start_address (heap st)) = of_nat d"
    and old: "end_address (heap st) = of_nat E"
  proof -
    have "end_address (heap st1) = of_nat (E + d)" unfolding d(2) by simp
    then have "end_address (heap st1) = end_address (heap st) + of_nat d" by (simp add: E_def)
    then show "end_address (heap st1) - start_address (heap st1) - (end_address (heap st) - start_address (heap st)) = of_nat d"
      by (simp add: st1_def)
  qed (simp add: E_def)
  have no: "oa_list (index (heap st)) = []" using holes_empty_index [OF inv used] .
  then have "oa_size (index (heap st)) = 0"
    by (metis length_oa_list list.size(3) no unat_eq_zero)
  then have idx: "endmost_hole (index (heap st1)) 0 (- 1) 0 = - 1"
    by (simp add: endmost_hole.simps st1_def)
  let ?m = "set_hdr_is_hole (of_nat E) 1 (set_hdr_size (of_nat E) (of_nat d) (set_hdr_magic (of_nat E) HEAP_MAGIC (hmem st)))"
  let ?m' = "set_ftr_header (of_nat (E + d - 16)) (of_nat E) (set_ftr_magic (of_nat (E + d - 16)) HEAP_MAGIC ?m)"
  have apart: "apart (of_nat E) (of_nat (E + d - 16))" "apart (of_nat (E + d - 16)) (of_nat E)"
    using d64 by (intro apart_of_nat; simp)+
  have f: "of_nat E + of_nat d - 16 = (of_nat (E + d - 16) :: u64)" using d64 by (simp add: of_nat_diff)
  have "hdr_size ?m (of_nat E) = of_nat d" by (simp add: fields)
  then have st': "st' = index_insert (of_nat E) (upd_mem (\<lambda>_. ?m') st1)"
    unfolding st'_def alloc_grow_def Let_def st1_def [symmetric] idx nl
    by (simp add: f old st1_def upd_mem_def del: of_nat_diff)
  have so: "same_outside (hmem st) ?m' E (E + d)"
    using d64 by (intro same_outside_setters same_outside_refl; simp)
  have blk: "block_at ?m' E d Hole" using d64 apart by (simp add: block_at_def fields)
  have "tiles ?m' (unat (start_address (heap st))) bs"
    using inv same_outside_bytes [OF so, of E] S by (auto simp: heap_inv_def intro: tiles_same_bytes)
  moreover have "index_set st' = add_mset E (index_set st)"
    using index_insert_set [of "upd_mem (\<lambda>_. ?m') st1" "of_nat E"] heap_inv_room(2) [OF inv] d64
    by (simp add: st' st1_def unat_pos)
  ultimately show ?thesis
    using blk so d S inv by (simp add: st' heap_inv_def E_def [symmetric]) (simp add: st1_def)
qed

text \<open>With a hole, the code enlarges the one at the highest address, wherever that is.\<close>

lemma endmost_is:
  assumes inv: "heap_inv st (as @ (n, k) # us)" and k: "k \<noteq> Used" and us: "\<forall>(n, k) \<in> set us. k = Used"
    and S: "0 < unat (start_address (heap st))"
  defines "idx \<equiv> endmost_hole (index (heap st)) 0 (- 1) 0"
  shows "idx \<noteq> - 1" "lookup_ordered_array idx (index (heap st)) = of_nat (unat (start_address (heap st)) + span as)"
proof -
  let ?S = "unat (start_address (heap st))" and ?a = "index (heap st)"
  define p where "p = ?S + span as"
  have none: "holes q us = []" for q using us by (induction q us rule: holes.induct) auto
  have p64: "p < 2 ^ 64" using inv by (simp add: heap_inv_def block_at_def p_def)
  have holes: "set (holes ?S (as @ (n, k) # us)) = insert p (set (holes ?S as))"
    using k none by (simp add: p_def)
  have top: "q \<le> p" if "q \<in> set (holes ?S (as @ (n, k) # us))" for q
    using that holes_range [of "hmem st" ?S as q] inv unfolding holes by (auto simp: heap_inv_def p_def)
  have mem: "of_nat p \<in> set (oa_list ?a)"
    unfolding heap_inv_index(2) [OF inv] holes unat_pos [OF p64] by simp
  have "of_nat p \<noteq> (0 :: u64)" using unat_pos [OF p64] S by (auto simp: p_def)
  then have idx: "idx < oa_size ?a" "\<forall>x \<in> set (oa_list ?a). x \<le> lookup_ordered_array idx ?a"
    using endmost_hole_spec [of ?a] mem by (auto simp: idx_def)
  have "lookup_ordered_array idx ?a \<in> set (oa_list ?a)"
    using idx(1) by (simp add: lookup_oa_list word_less_nat_alt)
  then have "unat (lookup_ordered_array idx ?a) \<le> p"
    using heap_inv_index(2) [OF inv] top by simp
  moreover have "p \<le> unat (lookup_ordered_array idx ?a)"
    using idx(2) mem by (metis p64 unat_pos word_le_nat_alt)
  ultimately show "lookup_ordered_array idx ?a = of_nat (?S + span as)"
    by (metis le_antisym of_nat_unat p_def ucast_id)
  show "idx \<noteq> - 1" using idx(1) heap_inv_room(1) [OF inv] by (auto simp: word_less_nat_alt unsigned_minus_1_eq_mask mask_eq_exp_minus_1)
qed

definition enlarge :: "nat \<Rightarrow> nat \<Rightarrow> memory \<Rightarrow> memory" where
  "enlarge p n = set_ftr_magic (of_nat (p + n - 16)) HEAP_MAGIC \<circ> set_ftr_header (of_nat (p + n - 16)) (of_nat p) \<circ>
     set_hdr_size (of_nat p) (of_nat n)"

lemma alloc_grow_endmost:
  assumes inv: "heap_inv st (as @ (n, k) # us)" and k: "k \<noteq> Used" and us: "\<forall>(n, k) \<in> set us. k = Used"
    and room: "can_grow st need" "unat new_size = need"
  defines "d \<equiv> grown_length st need - span (as @ (n, k) # us)" and "p \<equiv> unat (start_address (heap st)) + span as"
  shows "alloc_grow new_size st = upd_mem (enlarge p (n + d))
      (expand (end_address (heap st) - start_address (heap st) + new_size) st)"
    "need \<le> d" "unat (end_address (heap (alloc_grow new_size st))) = unat (end_address (heap st)) + d"
proof -
  note g = grown [OF inv room]
  let ?S = "unat (start_address (heap st))" and ?E = "unat (end_address (heap st))"
  define st1 where "st1 = expand (end_address (heap st) - start_address (heap st) + new_size) st"
  have S: "?S + span (as @ (n, k) # us) = ?E" using inv by (simp add: heap_inv_def)
  have d: "need \<le> d" "?E + d = unat (end_address (heap st1))"
    using g S by (simp_all add: d_def st1_def)
  have "end_address (heap st1) = of_nat (?E + d)" unfolding d(2) by simp
  then have nl: "end_address (heap st1) - start_address (heap st1) - (end_address (heap st) - start_address (heap st)) = of_nat d"
    by (simp add: st1_def)
  have "0 < ?S" using room(1) by (simp add: can_grow_def)
  note idx = endmost_is [OF inv k us this]
  have idx1: "endmost_hole (index (heap st1)) 0 (- 1) 0 \<noteq> - 1"
    "lookup_ordered_array (endmost_hole (index (heap st1)) 0 (- 1) 0) (index (heap st1)) = of_nat p"
    using idx by (simp_all add: st1_def p_def)
  have blk: "block_at (hmem st) p n k" using inv by (simp add: heap_inv_def p_def)
  then have n: "hdr_size (hmem st1) (of_nat p) = of_nat n" "32 \<le> n" by (simp_all add: block_at_def st1_def)
  have f: "of_nat p + (of_nat n + of_nat d) - 16 = (of_nat (p + (n + d) - 16) :: u64)"
    using n(2) by (simp add: of_nat_diff)
  show eq: "alloc_grow new_size st = upd_mem (enlarge p (n + d)) st1"
    unfolding alloc_grow_def Let_def st1_def [symmetric] nl
    using idx1 by (simp add: n(1) fields f enlarge_def upd_mem_def del: of_nat_diff)
  show "need \<le> d" by fact
  show "unat (end_address (heap (alloc_grow new_size st))) = ?E + d"
    using d(2) unfolding eq by simp
qed

text \<open>When that hole is the last block, the heap grows by it.\<close>

lemma alloc_grow_last_hole:
  assumes inv: "heap_inv st (as @ [(n, k)])" and k: "k \<noteq> Used"
    and room: "can_grow st need" "unat new_size = need"
  defines "d \<equiv> grown_length st need - span (as @ [(n, k)])" and "st' \<equiv> alloc_grow new_size st"
  shows "heap_inv st' (as @ [(n + d, Hole)]) \<and> need \<le> d \<and> start_address (heap st') = start_address (heap st) \<and>
    same_outside (hmem st) (hmem st') (unat (start_address (heap st)) + span as) (unat (end_address (heap st)) + d)"
proof -
  define p where "p = unat (start_address (heap st)) + span as"
  note g = alloc_grow_endmost [OF inv k _ room, folded d_def p_def st'_def, simplified]
  have st': "hmem st' = enlarge p (n + d) (hmem st)" "index (heap st') = index (heap st)"
    "start_address (heap st') = start_address (heap st)" using g(1) by simp_all
  have S: "p + n = unat (end_address (heap st))" using inv by (simp add: heap_inv_def p_def)
  then have p64: "p + (n + d) < 2 ^ 64"
    using g(3) unat_lt_64 [of "end_address (heap st')"] by simp
  have blk: "block_at (hmem st) p n k" using inv by (simp add: heap_inv_def p_def)
  then have n: "32 \<le> n" by (simp add: block_at_def)
  then have so: "same_outside (hmem st) (hmem st') p (p + (n + d))"
    using p64 unfolding st'(1) enlarge_def o_apply by (intro same_outside_setters same_outside_refl; simp)
  have "apart (of_nat p) (of_nat (p + (n + d) - 16))" "apart (of_nat (p + (n + d) - 16)) (of_nat p)"
    using n p64 by (intro apart_of_nat; simp)+
  then have "block_at (hmem st') p (n + d) Hole"
    using blk n p64 k by (simp add: block_at_def st' enlarge_def fields)
  moreover have "tiles (hmem st') (unat (start_address (heap st))) as"
    using inv same_outside_bytes [OF so, of p] by (auto simp: heap_inv_def p_def intro: tiles_same_bytes)
  moreover have "index_set st' = index_set st" by (simp add: st')
  moreover have "same_outside (hmem st) (hmem st') p (unat (end_address (heap st)) + d)"
    using so S by (metis add.assoc)
  ultimately show ?thesis
    using inv g(2,3) S k by (simp add: heap_inv_def st'(3) p_def [symmetric] add.assoc)
qed

end
