(* ===== verification/KHeapProps.thy ===== *)
theory KHeapProps
  imports KHeapGrow
begin

text \<open>
  The properties of \<open>create_heap\<close> and \<open>alloc\<close> over the blocks in use: the
  heap promises disjoint blocks that keep their contents until they are freed.
\<close>

section \<open>The blocks in use\<close>

text \<open>Position (of the header) and size (with header and footer) of each block in use.\<close>

fun allocs :: "nat \<Rightarrow> blocks \<Rightarrow> (nat \<times> nat) list" where
  "allocs p [] = []"
| "allocs p ((n, k) # bs) = (if k = Used then (p, n) # allocs (p + n) bs else allocs (p + n) bs)"

lemma allocs_append [simp]: "allocs p (as @ bs) = allocs p as @ allocs (p + span as) bs"
  by (induction p as rule: allocs.induct) (auto simp: add.assoc)

lemma allocs_range: "(q, l) \<in> set (allocs p bs) \<Longrightarrow> p \<le> q \<and> q + l \<le> p + span bs"
  by (induction p bs rule: allocs.induct) (fastforce split: if_splits)+

text \<open>A block in use of the list splits it.\<close>

lemma allocs_split:
  "(q, l) \<in> set (allocs p bs) \<Longrightarrow> \<exists>as bs'. bs = as @ (l, Used) # bs' \<and> q = p + span as"
proof (induction p bs rule: allocs.induct)
  case (2 p n k bs)
  show ?case
  proof (cases "k = Used \<and> q = p \<and> l = n")
    case True
    then show ?thesis by (intro exI [of _ "[]"] exI [of _ bs]) simp
  next
    case False
    then have "(q, l) \<in> set (allocs (p + n) bs)" using "2.prems" by (auto split: if_splits)
    then obtain as bs' where "bs = as @ (l, Used) # bs'" "q = p + n + span as"
      using "2.IH" by (cases "k = Used") blast+
    then show ?thesis by (intro exI [of _ "(n, k) # as"] exI [of _ bs']) auto
  qed
qed simp

definition carved :: "nat \<Rightarrow> nat \<Rightarrow> nat" where
  "carved n need = (if n - need < 32 then n else need)"

lemma allocs_carve: "allocs p (carve n need) = [(p, carved n need)]"
  by (simp add: carve_def carved_def)

text \<open>
  A step in which a block of \<open>m\<close> bytes at \<open>p\<close> is added and the others stay
  where they are, with their bytes.
\<close>

definition adds_block :: "kheap_state \<Rightarrow> blocks \<Rightarrow> kheap_state \<Rightarrow> blocks \<Rightarrow> nat \<Rightarrow> nat \<Rightarrow> bool" where
  "adds_block st bs st' bs' p m \<longleftrightarrow>
     (let S = unat (start_address (heap st))
      in start_address (heap st') = start_address (heap st) \<and>
         set (allocs S bs') = insert (p, m) (set (allocs S bs)) \<and> p + m \<le> S + span bs' \<and> S \<le> p \<and>
         (\<forall>(q, l) \<in> set (allocs S bs). (q + l \<le> p \<or> p + m \<le> q) \<and> same_bytes (hmem st) (hmem st') q (q + l)))"

lemma adds_block_carve:
  assumes inv: "heap_inv st (as @ (n, k) # bs)" and k: "k \<noteq> Used" and fit: "need \<le> n"
    and so: "same_outside (hmem st) (hmem st') (unat (start_address (heap st)) + span as)
      (unat (start_address (heap st)) + span as + n)"
    and S: "start_address (heap st') = start_address (heap st)"
  shows "adds_block st (as @ (n, k) # bs) st' (as @ carve n need @ bs)
     (unat (start_address (heap st)) + span as) (carved n need)"
proof -
  let ?S = "unat (start_address (heap st))"
  have c: "carved n need \<le> n" using fit by (simp add: carved_def)
  have "(q + l \<le> ?S + span as \<or> ?S + span as + n \<le> q)"
    if "(q, l) \<in> set (allocs ?S (as @ (n, k) # bs))" for q l
    using that k allocs_range [of q l ?S as] allocs_range [of q l "?S + span as + n" bs]
    by (auto simp: add.assoc)
  moreover from this have "same_bytes (hmem st) (hmem st') q (q + l)"
    if "(q, l) \<in> set (allocs ?S (as @ (n, k) # bs))" for q l
    using that same_outside_bytes [OF so] by blast
  ultimately show ?thesis
    using k c fit S unfolding adds_block_def Let_def
    by (fastforce simp: allocs_carve span_carve add.assoc)
qed

section \<open>Allocation when a hole fits\<close>

lemma alloc_fitting:
  assumes inv: "heap_inv st bs" and sz: "unat sz + 32 < 2 ^ 64"
    and hole: "(n0, k0) \<in> set bs" "k0 \<noteq> Used" "unat sz + 32 \<le> n0"
  shows "\<exists>a st' as n k bs'. alloc sz 0 st = Some (a, st') \<and> bs = as @ (n, k) # bs' \<and> k \<noteq> Used \<and>
    unat sz + 32 \<le> n \<and> unat a = unat (start_address (heap st)) + span as + 16 \<and>
    heap_inv st' (as @ carve n (unat sz + 32) @ bs') \<and>
    same_outside (hmem st) (hmem st') (unat a - 16) (unat a - 16 + n) \<and> console st' = console st \<and>
    start_address (heap st') = start_address (heap st) \<and> end_address (heap st') = end_address (heap st) \<and>
    page_requests st' = page_requests st"
proof -
  let ?S = "unat (start_address (heap st))" and ?a = "index (heap st)" and ?need = "sz + 16 + 16"
  have need: "unat ?need = unat sz + 32"
    using sz by (simp add: unat_add_small add.assoc)
  obtain as0 bs0 where split: "bs = as0 @ (n0, k0) # bs0" using hole(1) by (meson split_list)
  have blk0: "block_at (hmem st) (?S + span as0) n0 k0" using inv split by (simp add: heap_inv_def)
  then have p0: "?S + span as0 < 2 ^ 64" "n0 < 2 ^ 64" by (simp_all add: block_at_def)
  have "of_nat (?S + span as0) \<in> set (oa_list ?a)"
    unfolding heap_inv_index(2) [OF inv] unat_pos [OF p0(1)] using split hole(2) by simp
  moreover have "hole_fits (hmem st) ?need 0 (of_nat (?S + span as0))"
    using blk0 hole(3) need p0(2) by (simp add: hole_fits_plain block_at_def word_le_nat_alt unat_pos del: of_nat_add)
  ultimately obtain r where r: "r = find_smallest_hole ?need 0 st" "r \<noteq> - 1" "r < oa_size ?a"
    "hole_fits (hmem st) ?need 0 (lookup_ordered_array r ?a)"
    using find_smallest_hole_spec [OF heap_inv_room(2) [OF inv], of ?need 0] by blast
  obtain as n k bs' where e: "bs = as @ (n, k) # bs'" "k \<noteq> Used"
    "lookup_ordered_array r ?a = of_nat (?S + span as)" "block_at (hmem st) (?S + span as) n k"
    using heap_inv_entry [OF inv r(3)] by blast
  have "n < 2 ^ 64" using e(4) by (simp add: block_at_def)
  then have fit: "unat sz + 32 \<le> n"
    using r(4) e(3,4) need by (simp add: hole_fits_plain block_at_def word_le_nat_alt unat_pos)
  obtain a st' where res: "alloc_from r sz ?need 0 st = (a, st')" by fastforce
  have "alloc sz 0 st = Some (a, st')" using r(1,2) res by (subst alloc.simps) simp
  moreover note alloc_from_plain [OF inv [unfolded e(1)] e(2) r(3) e(3) fit res]
  ultimately show ?thesis using e(1,2) fit by (metis add_diff_cancel_right')
qed

section \<open>A new heap\<close>

lemma create_heap_spec:
  fixes start end_addr mx :: u64 and spv ro :: u8 and st :: kheap_state
  assumes "unat start + 0x8040 + 4096 \<le> 2 ^ 32"
    and "unat (page_round_up (start + 0x8040)) + 32 \<le> unat end_addr"
  defines "S \<equiv> unat (page_round_up (start + 0x8040))"
    and "st' \<equiv> create_heap start end_addr mx spv ro st"
  shows "heap_inv st' [(unat end_addr - S, Bare)] \<and> unat (start_address (heap st')) = S \<and>
    end_address (heap st') = end_addr \<and> S mod 4096 = 0 \<and> unat start + 0x8040 \<le> S"
proof -
  have off: "start + (8 * HEAP_INDEX_SIZE + 64) = start + 0x8040" by simp
  have u: "unat (start + 0x8040) = unat start + 0x8040"
    using assms(1) by (subst unat_add_small) auto
  then have "unat (start + 0x8040) + 4096 \<le> 2 ^ 32" using assms(1) by simp
  note r = page_round_up_spec [OF this]
  define st1 where "st1 = upd_mem (set_hdr_is_hole (of_nat S) 1 \<circ> set_hdr_magic (of_nat S) HEAP_MAGIC \<circ>
      set_hdr_size (of_nat S) (end_addr - of_nat S))
    ((if end_addr AND 0xFFF \<noteq> 0 then log_msg ''End address not page-aligned'' (if start AND 0xFFF \<noteq> 0 then log_msg ''Start address not page-aligned'' st else st)
      else if start AND 0xFFF \<noteq> 0 then log_msg ''Start address not page-aligned'' st else st)
     \<lparr>heap := \<lparr>index = place_ordered_array (\<lambda>i. load_u64 (hmem st) (start + 64 + 8 * i)) HEAP_INDEX_SIZE,
        start_address = of_nat S, end_address = end_addr, max_address = mx, supervisor = spv, readonly = ro\<rparr>\<rparr>)"
  have st': "st' = index_insert (of_nat S) st1"
    unfolding st'_def create_heap_def Let_def off st1_def S_def by simp
  have size0: "oa_size (index (heap st1)) = 0" by (simp add: st1_def place_ordered_array_def)
  then have idx: "oa_room (index (heap st1))" "oa_list (index (heap st1)) = []"
    by (simp_all add: oa_room_def oa_list_def)
  have S64: "unat (of_nat S :: u64) = S" by (simp add: S_def)
  have "of_nat (unat end_addr - S) = end_addr - of_nat S"
    using assms(2) by (simp add: S_def of_nat_diff)
  then have "block_at (hmem st1) S (unat end_addr - S) Bare"
    using assms(2) by (simp add: st1_def block_at_def fields S_def)
  moreover have "index_set st' = {#S#}" using index_insert_set [OF idx(1), of "of_nat S"] idx(2) S64 by (simp add: st')
  moreover have "hmem st' = hmem st1" "start_address (heap st') = of_nat S" "end_address (heap st') = end_addr"
    by (simp_all add: st') (simp_all add: st1_def)
  moreover have "S + (unat end_addr - S) = unat end_addr" using assms(2) by (simp add: S_def)
  ultimately show ?thesis using S64 r(1,3) u by (simp add: heap_inv_def) (simp add: S_def)
qed

text \<open>The kernel's heap after boot, in zeroed memory: 128 KB at \<open>0xC0200000\<close>.\<close>

definition empty_state :: kheap_state where
  "empty_state = \<lparr>hmem = (\<lambda>_. 0),
     heap = \<lparr>index = \<lparr>oa_array = (\<lambda>_. 0), oa_size = 0, oa_max_size = 0\<rparr>, start_address = 0,
             end_address = 0, max_address = 0, supervisor = 0, readonly = 0\<rparr>,
     page_requests = [], console = []\<rparr>"

definition sample_heap :: kheap_state where
  "sample_heap = create_heap 0xC0200000 0xC0220000 0xD0000000 0 0 empty_state"

lemma sample_heap_facts:
  "heap_inv sample_heap [(0x17000, Bare)]" "unat (start_address (heap sample_heap)) = 0xC0209000"
  "end_address (heap sample_heap) = 0xC0220000"
proof -
  have r: "page_round_up (0xC0200000 + 0x8040) = 0xC0209000" by (simp add: page_round_up_def)
  show "heap_inv sample_heap [(0x17000, Bare)]" "unat (start_address (heap sample_heap)) = 0xC0209000"
    "end_address (heap sample_heap) = 0xC0220000"
    using create_heap_spec [of "0xC0200000" "0xC0220000" "0xD0000000" 0 0 empty_state]
    unfolding r by (simp_all add: sample_heap_def)
qed

section \<open>Allocation\<close>

text \<open>
  Enough room for a request: a hole that fits, or a heap that may grow and has its last block
  free (or no hole at all).
\<close>

definition has_room :: "kheap_state \<Rightarrow> blocks \<Rightarrow> nat \<Rightarrow> bool" where
  "has_room st bs need \<longleftrightarrow> (\<exists>(n, k) \<in> set bs. k \<noteq> Used \<and> need \<le> n) \<or>
     (can_grow st need \<and> ((\<forall>(n, k) \<in> set bs. k = Used) \<or> snd (last bs) \<noteq> Used))"

lemma alloc_fitting_adds:
  assumes inv: "heap_inv st bs" and sz: "unat sz + 32 < 2 ^ 64"
    and hole: "(n0, k0) \<in> set bs" "k0 \<noteq> Used" "unat sz + 32 \<le> n0"
  shows "\<exists>a st' bs' m. alloc sz 0 st = Some (a, st') \<and> heap_inv st' bs' \<and> 16 \<le> unat a \<and>
    unat sz + 32 \<le> m \<and> m < unat sz + 64 \<and> adds_block st bs st' bs' (unat a - 16) m"
proof -
  let ?S = "unat (start_address (heap st))"
  obtain a st' as n k bs' where r: "alloc sz 0 st = Some (a, st')" "bs = as @ (n, k) # bs'" "k \<noteq> Used"
    "unat sz + 32 \<le> n" "unat a = ?S + span as + 16" "heap_inv st' (as @ carve n (unat sz + 32) @ bs')"
    "same_outside (hmem st) (hmem st') (unat a - 16) (unat a - 16 + n)"
    "start_address (heap st') = start_address (heap st)"
    using alloc_fitting [OF inv sz hole] by blast
  have "adds_block st bs st' (as @ carve n (unat sz + 32) @ bs') (unat a - 16) (carved n (unat sz + 32))"
    using adds_block_carve [of st as n k bs' "unat sz + 32" st'] inv r by simp
  moreover have "unat sz + 32 \<le> carved n (unat sz + 32)" "carved n (unat sz + 32) < unat sz + 64"
    using r(4) by (auto simp: carved_def)
  moreover have "16 \<le> unat a" using r(5) by simp
  ultimately show ?thesis using r(1,6) by blast
qed

text \<open>Growing keeps every block in use.\<close>

lemma grow_keeps:
  assumes inv: "heap_inv st bs" and last: "(\<forall>(n, k) \<in> set bs. k = Used) \<or> snd (last bs) \<noteq> Used"
    and room: "can_grow st need" "unat new_size = need" "32 \<le> need"
  defines "st' \<equiv> alloc_grow new_size st"
  shows "\<exists>bs' n. heap_inv st' bs' \<and> (n, Hole) \<in> set bs' \<and> need \<le> n \<and>
    start_address (heap st') = start_address (heap st) \<and>
    allocs (unat (start_address (heap st))) bs' = allocs (unat (start_address (heap st))) bs \<and>
    (\<forall>(q, l) \<in> set (allocs (unat (start_address (heap st))) bs). same_bytes (hmem st) (hmem st') q (q + l))"
proof (cases "\<forall>(n, k) \<in> set bs. k = Used")
  case True
  let ?S = "unat (start_address (heap st))"
  define d where "d = grown_length st need - span bs"
  note g = alloc_grow_no_hole [OF inv True room, folded d_def st'_def]
  have "?S + span bs = unat (end_address (heap st))" using inv by (simp add: heap_inv_def)
  then have "\<forall>(q, l) \<in> set (allocs ?S bs). same_bytes (hmem st) (hmem st') q (q + l)"
    using g allocs_range [of _ _ ?S bs] by (auto intro!: same_outside_bytes)
  then show ?thesis using g by (intro exI [of _ "bs @ [(d, Hole)]"] exI [of _ d]) simp
next
  case False
  let ?S = "unat (start_address (heap st))"
  obtain as n k where bs: "bs = as @ [(n, k)]" "k \<noteq> Used"
    using False last by (cases bs rule: rev_cases) auto
  define d where "d = grown_length st need - span (as @ [(n, k)])"
  note g = alloc_grow_last_hole [OF inv [unfolded bs] bs(2) room(1,2), folded d_def st'_def]
  have "\<forall>(q, l) \<in> set (allocs ?S bs). same_bytes (hmem st) (hmem st') q (q + l)"
    using g bs(2) allocs_range [of _ _ ?S as] unfolding bs(1) by (auto intro!: same_outside_bytes)
  then show ?thesis using g bs(2)
    by (intro exI [of _ "as @ [(n + d, Hole)]"] exI [of _ "n + d"]) (simp add: bs(1))
qed

text \<open>When the search finds an entry, a hole of the list fits.\<close>

lemma find_smallest_hole_found:
  assumes inv: "heap_inv st bs" and sz: "unat sz + 32 < 2 ^ 64"
    and found: "find_smallest_hole (sz + 16 + 16) 0 st \<noteq> - 1"
  shows "\<exists>(n, k) \<in> set bs. k \<noteq> Used \<and> unat sz + 32 \<le> n"
proof -
  let ?r = "find_smallest_hole (sz + 16 + 16) 0 st" and ?S = "unat (start_address (heap st))"
  have r: "?r < oa_size (index (heap st))"
    "hole_fits (hmem st) (sz + 16 + 16) 0 (lookup_ordered_array ?r (index (heap st)))"
    using find_smallest_hole_spec [OF heap_inv_room(2) [OF inv], of "sz + 16 + 16" 0] found by blast+
  obtain as n k bs' where e: "bs = as @ (n, k) # bs'" "k \<noteq> Used"
    "lookup_ordered_array ?r (index (heap st)) = of_nat (?S + span as)" "block_at (hmem st) (?S + span as) n k"
    using heap_inv_entry [OF inv r(1)] by blast
  have "unat (sz + 16 + 16) = unat sz + 32" using sz by (simp add: unat_add_small add.assoc)
  moreover have "n < 2 ^ 64" using e(4) by (simp add: block_at_def)
  ultimately have "unat sz + 32 \<le> n"
    using r(2) e(3,4) by (simp add: hole_fits_plain block_at_def word_le_nat_alt unat_pos)
  with e(1,2) show ?thesis by auto
qed

lemma alloc_spec:
  assumes inv: "heap_inv st bs" and sz: "unat sz + 32 < 2 ^ 64" and room: "has_room st bs (unat sz + 32)"
  shows "\<exists>a st' bs' m. alloc sz 0 st = Some (a, st') \<and> heap_inv st' bs' \<and> 16 \<le> unat a \<and>
    unat sz + 32 \<le> m \<and> m < unat sz + 64 \<and> adds_block st bs st' bs' (unat a - 16) m"
proof (cases "\<exists>(n, k) \<in> set bs. k \<noteq> Used \<and> unat sz + 32 \<le> n")
  case True
  then obtain n k where "(n, k) \<in> set bs" "k \<noteq> Used" "unat sz + 32 \<le> n" by blast
  then show ?thesis using alloc_fitting_adds [OF inv sz] by blast
next
  case False
  let ?S = "unat (start_address (heap st))" and ?st = "alloc_grow (sz + 16 + 16) st"
  have "find_smallest_hole (sz + 16 + 16) 0 st = - 1"
    using find_smallest_hole_found [OF inv sz] False by blast
  then have step: "alloc sz 0 st = alloc sz 0 ?st" by (subst alloc.simps) simp
  have need: "unat (sz + 16 + 16) = unat sz + 32" using sz by (simp add: unat_add_small add.assoc)
  have grow: "can_grow st (unat sz + 32)" "(\<forall>(n, k) \<in> set bs. k = Used) \<or> snd (last bs) \<noteq> Used"
    using room False by (auto simp: has_room_def)
  obtain bs1 n where g: "heap_inv ?st bs1" "(n, Hole) \<in> set bs1" "unat sz + 32 \<le> n"
    "start_address (heap ?st) = start_address (heap st)" "allocs ?S bs1 = allocs ?S bs"
    "\<forall>(q, l) \<in> set (allocs ?S bs). same_bytes (hmem st) (hmem ?st) q (q + l)"
    using grow_keeps [OF inv grow(2,1) need] by auto
  obtain a st' bs' m where r: "alloc sz 0 ?st = Some (a, st')" "heap_inv st' bs'" "16 \<le> unat a"
    "unat sz + 32 \<le> m" "m < unat sz + 64" "adds_block ?st bs1 st' bs' (unat a - 16) m"
    using alloc_fitting_adds [OF g(1) sz g(2) _ g(3)] by auto
  have "adds_block st bs st' bs' (unat a - 16) m"
    using r(6) g(4-6) by (fastforce simp: adds_block_def Let_def same_bytes_def)
  then show ?thesis using r step by auto
qed

text \<open>
  The address of a request that fits into some hole: the block is cut from the first hole of the
  index that is large enough; when the index is sorted by size, no hole with room is smaller.
\<close>

lemma alloc_takes_first:
  assumes inv: "heap_inv st bs" and sz: "unat sz + 32 < 2 ^ 64"
    and hole: "(n0, k0) \<in> set bs" "k0 \<noteq> Used" "unat sz + 32 \<le> n0"
  shows "\<exists>i a st' as n k bs'. alloc sz 0 st = Some (a, st') \<and>
    i < length (oa_list (index (heap st))) \<and> oa_list (index (heap st)) ! i = a - 16 \<and>
    (\<forall>j < i. unat (hdr_size (hmem st) (oa_list (index (heap st)) ! j)) < unat sz + 32) \<and>
    bs = as @ (n, k) # bs' \<and> k \<noteq> Used \<and> unat sz + 32 \<le> n \<and> unat (hdr_size (hmem st) (a - 16)) = n \<and>
    unat a = unat (start_address (heap st)) + span as + 16"
proof -
  let ?S = "unat (start_address (heap st))" and ?a = "index (heap st)" and ?need = "sz + 16 + 16"
  define r where "r = find_smallest_hole ?need 0 st"
  have need: "unat ?need = unat sz + 32" using sz by (simp add: unat_add_small add.assoc)
  obtain as0 bs0 where split: "bs = as0 @ (n0, k0) # bs0" using hole(1) by (meson split_list)
  let ?x = "of_nat (?S + span as0) :: u64"
  have blk0: "block_at (hmem st) (?S + span as0) n0 k0" using inv split by (simp add: heap_inv_def)
  then have p0: "?S + span as0 < 2 ^ 64" "n0 < 2 ^ 64" by (simp_all add: block_at_def)
  have x: "?x \<in> set (oa_list ?a)" "hdr_size (hmem st) ?x = of_nat n0"
    unfolding heap_inv_index(2) [OF inv] unat_pos [OF p0(1)] using split hole(2) blk0
    by (simp_all add: block_at_def del: of_nat_add)
  have fits_x: "hole_fits (hmem st) ?need 0 ?x"
    using x(2) hole(3) need p0(2) by (simp add: hole_fits_plain word_le_nat_alt unat_pos del: of_nat_add)
  have r: "r \<noteq> - 1" "r < oa_size ?a" "hole_fits (hmem st) ?need 0 (lookup_ordered_array r ?a)"
    "\<forall>k < unat r. \<not> hole_fits (hmem st) ?need 0 (oa_list ?a ! k)"
    using find_smallest_hole_spec [OF heap_inv_room(2) [OF inv], of ?need 0] x(1) fits_x
    unfolding r_def by blast+
  obtain as n k bs' where e: "bs = as @ (n, k) # bs'" "k \<noteq> Used"
    "lookup_ordered_array r ?a = of_nat (?S + span as)" "block_at (hmem st) (?S + span as) n k"
    using heap_inv_entry [OF inv r(2)] by blast
  have n: "n < 2 ^ 64" "?S + span as < 2 ^ 64" "hdr_size (hmem st) (lookup_ordered_array r ?a) = of_nat n"
    using e(3,4) by (simp_all add: block_at_def)
  have fit: "unat sz + 32 \<le> n"
    using r(3) n need by (simp add: hole_fits_plain word_le_nat_alt unat_pos)
  obtain a st' where res: "alloc_from r sz ?need 0 st = (a, st')" by fastforce
  have al: "alloc sz 0 st = Some (a, st')" using r(1) res by (subst alloc.simps) (simp add: r_def)
  have ua: "unat a = ?S + span as + 16"
    using alloc_from_plain [OF inv [unfolded e(1)] e(2) r(2) e(3) fit res] by blast
  have am: "a - 16 = lookup_ordered_array r ?a" 
  proof -
    have "unat (a - 16) = ?S + span as" using ua by (simp add: unat_sub_if')
    then show ?thesis unfolding e(3) using unat_pos [OF n(2)] by (intro word_unat_eq_iff [THEN iffD2]) simp
  qed
  have before: "\<forall>j < unat r. unat (hdr_size (hmem st) (oa_list ?a ! j)) < unat sz + 32"
    using r(4) need by (simp add: hole_fits_plain word_le_nat_alt not_le)
  have i: "unat r < length (oa_list ?a)" "oa_list ?a ! unat r = a - 16"
    using r(2) am by (simp_all add: lookup_oa_list word_less_nat_alt)
  have "unat (hdr_size (hmem st) (a - 16)) = n" unfolding am n(3) by (rule unat_pos [OF n(1)])
  then show ?thesis using al i before e(1,2) fit ua by blast
qed

text \<open>Every hole of the heap is an entry of the index, with its size in its header.\<close>

lemma hole_in_index:
  assumes inv: "heap_inv st bs" and "(n, k) \<in> set bs" "k \<noteq> Used"
  shows "\<exists>j < length (oa_list (index (heap st))). unat (hdr_size (hmem st) (oa_list (index (heap st)) ! j)) = n"
proof -
  let ?S = "unat (start_address (heap st))" and ?a = "index (heap st)"
  obtain as bs' where split: "bs = as @ (n, k) # bs'" using assms(2) by (meson split_list)
  let ?x = "of_nat (?S + span as) :: u64"
  have blk: "block_at (hmem st) (?S + span as) n k" using inv split by (simp add: heap_inv_def)
  then have p: "?S + span as < 2 ^ 64" "n < 2 ^ 64" by (simp_all add: block_at_def)
  have x: "?x \<in> set (oa_list ?a)" "hdr_size (hmem st) ?x = of_nat n"
    unfolding heap_inv_index(2) [OF inv] unat_pos [OF p(1)] using split assms(3) blk
    by (simp_all add: block_at_def del: of_nat_add)
  then obtain j where "j < length (oa_list ?a)" "oa_list ?a ! j = ?x" by (meson in_set_conv_nth)
  then show ?thesis using x(2) unat_pos [OF p(2)] by (metis)
qed

lemma first_is_smallest:
  assumes inv: "heap_inv st bs"
    and sorted: "sorted (map (hdr_size (hmem st)) (oa_list (index (heap st))))"
    and i: "i < length (oa_list (index (heap st)))"
      "\<forall>j < i. unat (hdr_size (hmem st) (oa_list (index (heap st)) ! j)) < need"
    and hole: "(n, k) \<in> set bs" "k \<noteq> Used" "need \<le> n"
  shows "unat (hdr_size (hmem st) (oa_list (index (heap st)) ! i)) \<le> n"
proof -
  let ?l = "oa_list (index (heap st))"
  obtain j where j: "j < length ?l" "unat (hdr_size (hmem st) (?l ! j)) = n"
    using hole_in_index [OF inv hole(1,2)] by blast
  then have "i \<le> j" using i(2) hole(3) by (metis not_le)
  then have "hdr_size (hmem st) (?l ! i) \<le> hdr_size (hmem st) (?l ! j)"
    using sorted_nth_mono [OF sorted, of i j] j(1) by simp
  then show ?thesis using j(2) by (simp add: word_le_nat_alt)
qed

end
