(* ===== verification/KHeapFree.thy ===== *)
theory KHeapFree
  imports KHeapProps
begin

text \<open>
  What \<open>free\<close> does to the list of blocks: merging with the neighbours, and shrinking the
  heap when the last block becomes free.
\<close>

section \<open>Unify left\<close>

text \<open>The list to the left and the size of the hole, after the merge with a hole on the left.\<close>

definition merge_left :: "blocks \<Rightarrow> nat \<Rightarrow> blocks \<times> nat" where
  "merge_left as n = (if as \<noteq> [] \<and> snd (last as) = Hole then (butlast as, fst (last as) + n) else (as, n))"

text \<open>
  The footer in front of the block can be read: either a block in use or a hole with a proper
  footer lies there, or the block is the first one and what is before the heap is no footer.
\<close>

definition left_readable :: "kheap_state \<Rightarrow> blocks \<Rightarrow> bool" where
  "left_readable st as \<longleftrightarrow>
     (if as = [] then 16 \<le> start_address (heap st) \<and>
        ftr_magic (hmem st) (start_address (heap st) - 16) \<noteq> HEAP_MAGIC
      else snd (last as) \<noteq> Bare)"

lemma of_nat_minus_16: "16 \<le> p \<Longrightarrow> of_nat p - 16 = (of_nat (p - 16) :: u64)"
  by (simp add: of_nat_diff)

lemma block_at_mark_hole:
  assumes "block_at m p n Used"
  shows "block_at (set_hdr_is_hole (of_nat p) 1 m) p n Hole"
proof -
  have "apart (of_nat p) (of_nat (p + n - 16))"
    using assms by (intro apart_of_nat) (auto simp: block_at_def)
  then show ?thesis using assms by (simp add: block_at_def fields del: of_nat_add of_nat_diff)
qed

text \<open>Marking a block in use as a hole, and the list it gives.\<close>

lemma mark_hole_tiles:
  assumes "tiles m S (as @ (n, Used) # us)"
  shows "tiles (set_hdr_is_hole (of_nat (S + span as)) 1 m) S (as @ (n, Hole) # us)"
    "same_outside m (set_hdr_is_hole (of_nat (S + span as)) 1 m) (S + span as) (S + span as + n)"
proof -
  have b: "block_at m (S + span as) n Used" using assms by simp
  then show so: "same_outside m (set_hdr_is_hole (of_nat (S + span as)) 1 m) (S + span as) (S + span as + n)"
    by (intro same_outside_setters) (simp_all add: block_at_def)
  show "tiles (set_hdr_is_hole (of_nat (S + span as)) 1 m) S (as @ (n, Hole) # us)"
    using tiles_replace [OF assms _ _, of _ "[(n, Hole)]"] so block_at_mark_hole [OF b] by simp
qed

text \<open>Two adjacent holes become one when size and footer are rewritten.\<close>

lemma merge_tiles:
  assumes t: "tiles m S (as @ (l, Hole) # (n, Hole) # us)"
  defines "h \<equiv> S + span as"
  defines "m' \<equiv> set_hdr_size (of_nat h) (of_nat (l + n)) (set_ftr_header (of_nat (h + l + n - 16)) (of_nat h) m)"
  shows "tiles m' S (as @ (l + n, Hole) # us)" "same_outside m m' h (h + l + n)"
proof -
  have b: "block_at m h l Hole" "block_at m (h + l) n Hole" using t by (simp_all add: h_def)
  then have len: "32 \<le> l" "32 \<le> n" "h + l + n < 2 ^ 64" by (simp_all add: block_at_def)
  show so: "same_outside m m' h (h + l + n)"
    using len unfolding m'_def by (intro same_outside_setters same_outside_refl; simp)
  have "apart (of_nat h) (of_nat (h + l + n - 16))" "apart (of_nat (h + l + n - 16)) (of_nat h)"
    using len by (intro apart_of_nat; simp)+
  then have "block_at m' h (l + n) Hole"
    using b len by (simp add: block_at_def m'_def fields add.assoc)
  moreover have "tiles m' S as" using t same_outside_bytes [OF so, of h] by (auto simp: h_def intro: tiles_same_bytes)
  moreover have "tiles m' (h + l + n) us"
    using t same_outside_bytes [OF so, of _ "h + l + n"] by (auto simp: h_def add.assoc intro: tiles_same_bytes)
  ultimately show "tiles m' S (as @ (l + n, Hole) # us)" by (simp add: h_def add.assoc)
qed

lemma unify_left_step:
  assumes t: "tiles (hmem st) S (as @ (n, Hole) # us)" and S: "S = unat (start_address (heap st))"
    and left: "left_readable st as"
  defines "p \<equiv> S + span as" and "as' \<equiv> fst (merge_left as n)" and "s \<equiv> snd (merge_left as n)"
  shows "\<exists>f. unify_left (of_nat p) (of_nat (p + n - 16)) st =
      (of_nat (S + span as'), as' = as, upd_mem f st) \<and>
      tiles (f (hmem st)) S (as' @ (s, Hole) # us) \<and> S + span as' + s = p + n \<and>
      same_outside (hmem st) (f (hmem st)) (S + span as') (p + n) \<and> (as' = as \<longrightarrow> f = id)"
proof (cases "as \<noteq> [] \<and> snd (last as) = Hole")
  case True
  then obtain bs l where as: "as = bs @ [(l, Hole)]" by (metis append_butlast_last_id prod.collapse)
  define h where "h = S + span bs"
  have p: "p = h + l" by (simp add: p_def h_def as)
  have ml: "as' = bs" "s = l + n" by (simp_all add: as'_def s_def merge_left_def as)
  have b: "block_at (hmem st) h l Hole" "block_at (hmem st) p n Hole" using t by (simp_all add: as p h_def add.assoc)
  then have len: "32 \<le> l" "32 \<le> n" "h + l + n < 2 ^ 64" by (simp_all add: block_at_def p)
  have f16: "of_nat p - 16 = (of_nat (h + l - 16) :: u64)" using len by (simp add: p of_nat_minus_16)
  have foot: "ftr_magic (hmem st) (of_nat p - 16) = HEAP_MAGIC" "ftr_header (hmem st) (of_nat p - 16) = of_nat h"
    "hdr_is_hole (hmem st) (of_nat h) = 1" "hdr_size (hmem st) (of_nat h) = of_nat l" "hdr_size (hmem st) (of_nat p) = of_nat n"
    using b unfolding f16 by (simp_all add: block_at_def del: of_nat_add of_nat_diff)
  define f where "f = (\<lambda>m. set_hdr_size (of_nat h) (hdr_size m (of_nat h) + of_nat n) m) \<circ>
      set_ftr_header (of_nat (p + n - 16)) (of_nat h)"
  have "apart (of_nat (p + n - 16)) (of_nat h)" using len by (intro apart_of_nat) (simp_all add: p)
  then have "hdr_size (set_ftr_header (of_nat (p + n - 16)) (of_nat h) (hmem st)) (of_nat h) = of_nat l"
    by (simp add: fields foot)
  then have fm: "f (hmem st) = set_hdr_size (of_nat h) (of_nat (l + n)) (set_ftr_header (of_nat (h + l + n - 16)) (of_nat h) (hmem st))"
    by (simp add: f_def p)
  have "tiles (hmem st) S (bs @ (l, Hole) # (n, Hole) # us)" using t by (simp add: as add.assoc)
  note mt = merge_tiles [OF this, folded h_def]
  have "unify_left (of_nat p) (of_nat (p + n - 16)) st = (of_nat h, as' = as, upd_mem f st)"
    using foot by (simp add: unify_left_def Let_def f_def ml as)
  then show ?thesis using mt fm by (intro exI [of _ f]) (simp add: ml h_def p as)
next
  case False
  then have ml: "as' = as" "s = n" by (auto simp: as'_def s_def merge_left_def)
  have b: "block_at (hmem st) p n Hole" using t by (simp add: p_def)
  have "\<not> (ftr_magic (hmem st) (of_nat p - 16) = HEAP_MAGIC \<and> hdr_is_hole (hmem st) (ftr_header (hmem st) (of_nat p - 16)) = 1)"
  proof (cases "as = []")
    case True
    then show ?thesis using left S by (simp add: left_readable_def p_def)
  next
    case as: False
    then have "snd (last as) = Used" using False left by (metis (full_types) kind.exhaust left_readable_def)
    then obtain bs l where as: "as = bs @ [(l, Used)]" using as by (metis append_butlast_last_id prod.collapse)
    then have bl: "block_at (hmem st) (S + span bs) l Used" "p = S + span bs + l" using t by (simp_all add: p_def)
    then have "of_nat p - 16 = (of_nat (S + span bs + l - 16) :: u64)"
      using of_nat_minus_16 [of p] by (simp add: block_at_def)
    then show ?thesis using bl by (simp add: block_at_def del: of_nat_add of_nat_diff)
  qed
  then have "unify_left (of_nat p) (of_nat (p + n - 16)) st = (of_nat p, True, upd_mem id st)"
    by (simp add: unify_left_def Let_def upd_mem_def)
  then show ?thesis using t by (intro exI [of _ id]) (simp add: ml p_def)
qed

section \<open>Unify right\<close>

text \<open>The size and kind of the hole, and the list to the right, after the merge.\<close>

fun merge_right :: "nat \<Rightarrow> blocks \<Rightarrow> nat \<times> kind \<times> blocks" where
  "merge_right s ((r, k) # us) = (if k = Used then (s, Hole, (r, k) # us) else (s + r, Bare, us))"
| "merge_right s [] = (s, Hole, [])"

definition hole_right :: "blocks \<Rightarrow> bool" where
  "hole_right us \<longleftrightarrow> us \<noteq> [] \<and> snd (hd us) \<noteq> Used"

lemma unify_right_step:
  assumes t: "tiles (hmem st) S (as @ (s, Hole) # us)"
  defines "h \<equiv> S + span as"
  assumes end_ok: "us = [] \<longrightarrow> hdr_magic (hmem st) (of_nat (h + s)) \<noteq> HEAP_MAGIC"
    and idx: "hole_right us \<longrightarrow> of_nat (h + s) \<in> set (oa_list (index (heap st)))"
    and room: "oa_room (index (heap st))" and mr: "merge_right s us = (s', k', us')"
  shows "\<exists>st'. unify_right (of_nat h) (of_nat (h + s - 16)) st = (of_nat (h + s' - 16), st') \<and>
    tiles (hmem st') S (as @ (s', k') # us') \<and> s' + span us' = s + span us \<and>
    same_outside (hmem st) (hmem st') h (h + s) \<and> console st' = console st \<and>
    start_address (heap st') = start_address (heap st) \<and> end_address (heap st') = end_address (heap st) \<and>
    index_set st = (if hole_right us then add_mset (h + s) (index_set st') else index_set st') \<and>
    oa_room (index (heap st')) \<and>
    hmem st' = (if hole_right us then set_hdr_size (of_nat h) (of_nat s') (hmem st) else hmem st)"
proof (cases "hole_right us")
  case True
  then obtain r k vs where us: "us = (r, k) # vs" "k \<noteq> Used" by (cases us) (auto simp: hole_right_def)
  then have m: "s' = s + r" "k' = Bare" "us' = vs" using mr by simp_all
  have b: "block_at (hmem st) h s Hole" "block_at (hmem st) (h + s) r k" "tiles (hmem st) (h + s + r) vs"
    using t by (simp_all add: h_def us add.assoc)
  then have len: "32 \<le> s" "32 \<le> r" "h + s + r < 2 ^ 64" by (simp_all add: block_at_def)
  have th: "of_nat (h + s - 16) + 16 = (of_nat (h + s) :: u64)" using len(1) by (simp add: of_nat_diff)
  have hs: "hdr_size (hmem st) (of_nat h) = of_nat s" "hdr_size (hmem st) (of_nat (h + s)) = of_nat r"
    "hdr_magic (hmem st) (of_nat (h + s)) = HEAP_MAGIC" "hdr_is_hole (hmem st) (of_nat (h + s)) = 1"
    using b us(2) by (simp_all add: block_at_def del: of_nat_add)
  define m where "m = set_hdr_size (of_nat h) (of_nat s + of_nat r) (hmem st)"
  define st1 where "st1 = upd_mem (\<lambda>_. m) st"
  have "apart (of_nat h) (of_nat (h + s))" using len by (intro apart_of_nat) simp_all
  then have hs1: "hdr_size m (of_nat (h + s)) = of_nat r" using hs(2) by (simp add: m_def fields del: of_nat_add)
  let ?i = "index_search (\<lambda>x. x = of_nat (h + s)) (index (heap st)) 0"
  have found: "?i < oa_size (index (heap st))" "lookup_ordered_array ?i (index (heap st)) = of_nat (h + s)"
    using index_search_mem [of "of_nat (h + s)" "index (heap st)"] idx True by simp_all
  have f: "of_nat (h + s) + of_nat r - 16 = (of_nat (h + s' - 16) :: u64)"
    using len by (simp add: m of_nat_diff)
  have ur: "unify_right (of_nat h) (of_nat (h + s - 16)) st = (of_nat (h + s' - 16), index_remove ?i st1)"
    unfolding unify_right_def Let_def th
    using hs hs1 found(1) f
    by (simp add: st1_def m_def [symmetric] upd_mem_def not_le [symmetric] del: of_nat_add of_nat_diff)
  have so: "same_outside (hmem st) m h (h + s)"
    using len unfolding m_def by (intro same_outside_setters same_outside_refl; simp)
  have "block_at m h (s + r) Bare" using b(1) len by (simp add: block_at_def m_def fields)
  moreover have "tiles m S as" using t same_outside_bytes [OF so, of h] by (auto simp: h_def intro: tiles_same_bytes)
  moreover have "tiles m (h + s + r) vs"
    using b(3) same_outside_bytes [OF so, of _ "h + s + r"] by (auto intro: tiles_same_bytes)
  moreover have "index_set st = add_mset (h + s) (index_set (index_remove ?i st1))"
    using index_remove_set [of st1 ?i] room found len by (simp add: st1_def unat_pos del: of_nat_add)
  moreover have "oa_room (index (heap (index_remove ?i st1)))"
    using index_remove_room [of st1 ?i] room found by (simp add: st1_def)
  moreover have "m = set_hdr_size (of_nat h) (of_nat s + of_nat r) (hmem st)" by (simp add: m_def)
  ultimately show ?thesis
    using ur so True by (intro exI [of _ "index_remove ?i st1"]) (simp add: st1_def m us h_def [symmetric] add.assoc)
next
  case False
  then have m: "s' = s" "k' = Hole" "us' = us" using mr by (cases us; auto simp: hole_right_def)+
  have b: "block_at (hmem st) h s Hole" using t by (simp add: h_def)
  then have len: "32 \<le> s" by (simp add: block_at_def)
  have th: "of_nat (h + s - 16) + 16 = (of_nat (h + s) :: u64)" using len(1) by (simp add: of_nat_diff)
  have no: "\<not> (hdr_magic (hmem st) (of_nat (h + s)) = HEAP_MAGIC \<and> hdr_is_hole (hmem st) (of_nat (h + s)) \<noteq> 0)"
  proof (cases us)
    case Nil
    then show ?thesis using end_ok by simp
  next
    case (Cons u vs)
    then have "block_at (hmem st) (h + s) (fst u) Used" using t False
      by (cases u) (auto simp: hole_right_def h_def add.assoc)
    then show ?thesis by (simp add: block_at_def del: of_nat_add)
  qed
  have "unify_right (of_nat h) (of_nat (h + s - 16)) st = (of_nat (h + s' - 16), st)"
    unfolding unify_right_def Let_def th by (simp only: if_not_P [OF no] m)
  then show ?thesis using t m False room by auto
qed

section \<open>Contraction\<close>

text \<open>The length of the heap after its last hole, behind blocks of \<open>len\<close> bytes, is cut.\<close>

definition shrunk_length :: "nat \<Rightarrow> nat" where
  "shrunk_length len = max 0x10000 (unat (page_round_up (of_nat len)))"

definition whole_pages :: "nat \<Rightarrow> bool" where
  "whole_pages len \<longleftrightarrow> len mod 4096 = 0 \<and> 0x10000 \<le> len \<and> len + 4096 \<le> 2 ^ 32"

lemma shrunk_length_le:
  assumes "whole_pages L" "len < L"
  shows "shrunk_length len \<le> L" "whole_pages (shrunk_length len)" "len \<le> shrunk_length len"
proof -
  have u: "unat (of_nat len :: u64) = len" using assms by (simp add: unat_pos whole_pages_def)
  then have "unat (of_nat len :: u64) + 4096 \<le> 2 ^ 32" using assms by (simp add: whole_pages_def)
  note r = page_round_up_spec [OF this, unfolded u]
  let ?r = "unat (page_round_up (of_nat len))"
  have "?r \<le> L"
  proof -
    obtain a b where ab: "?r = 4096 * a" "L = 4096 * b"
      using r(3) assms(1) unfolding whole_pages_def by (metis dvd_def mod_0_imp_dvd)
    then have "4096 * a < 4096 * b + 4096" using r(2) assms(2) by simp
    then have "a < b + 1" by simp
    then show ?thesis using ab by simp
  qed
  then show "shrunk_length len \<le> L" using assms(1) by (simp add: shrunk_length_def whole_pages_def)
  then show "whole_pages (shrunk_length len)"
    using assms(1) r(3) by (auto simp: shrunk_length_def whole_pages_def max_def)
  show "len \<le> shrunk_length len" using r(1) by (simp add: shrunk_length_def)
qed

lemma free_contract_inner:
  "footer + 16 \<noteq> end_address (heap st) \<Longrightarrow> free_contract header footer test_header st = st"
  by (simp add: free_contract_def)

lemma free_contract_last:
  fixes x :: u64
  assumes t: "tiles (hmem st) S (as @ [(s, k)])" and k: "k \<noteq> Used" and S: "S = unat (start_address (heap st))"
    and E: "S + span as + s = unat (end_address (heap st))" and pages: "whole_pages (span as + s)"
    and rest: "span as + 32 \<le> shrunk_length (span as)"
  defines "h \<equiv> S + span as" and "s' \<equiv> shrunk_length (span as) - span as"
  defines "st' \<equiv> free_contract (of_nat h) (of_nat (h + s - 16)) x st"
  shows "tiles (hmem st') S (as @ [(s', Hole)]) \<and> unat (end_address (heap st')) = h + s' \<and> s' \<le> s \<and>
    start_address (heap st') = start_address (heap st) \<and> index (heap st') = index (heap st) \<and>
    console st' = console st @ [''contracting''] \<and> same_outside (hmem st) (hmem st') h (h + s)"
proof -
  have b: "block_at (hmem st) h s k" using t by (simp add: h_def)
  then have len: "32 \<le> s" "h + s < 2 ^ 64" by (simp_all add: block_at_def)
  let ?NL = "shrunk_length (span as)" and ?L = "span as + s"
  have NL: "?NL \<le> ?L" "span as \<le> ?NL" "?L + 4096 \<le> 2 ^ 32" using shrunk_length_le [OF pages] len pages
    by (simp_all add: whole_pages_def)
  have foot: "of_nat (h + s - 16) + 16 = end_address (heap st)"
  proof -
    have "of_nat (h + s - 16) + 16 = (of_nat (h + s) :: u64)" using len by (simp add: of_nat_diff)
    also have "\<dots> = end_address (heap st)" by (simp add: h_def E)
    finally show ?thesis .
  qed
  have st: "start_address (heap st) = of_nat S" by (simp add: S)
  have en: "end_address (heap st) = of_nat (S + ?L)" using E by (metis add.assoc of_nat_unat ucast_id)
  have old: "end_address (heap st) - start_address (heap st) = of_nat ?L" unfolding st en by simp
  have off: "of_nat h - start_address (heap st) = of_nat (span as)" unfolding st by (simp add: h_def)
  have u: "unat (of_nat (span as) :: u64) = span as" "unat (of_nat ?L :: u64) = ?L"
    "unat (of_nat ?NL :: u64) = ?NL"
    using NL by (intro unat_pos; simp)+
  have nlt: "\<not> of_nat (span as) \<ge> (of_nat ?L :: u64)" unfolding word_le_nat_alt u using len by simp
  have new: "(if page_round_up (of_nat (span as)) < HEAP_MIN_SIZE then HEAP_MIN_SIZE
      else page_round_up (of_nat (span as))) = of_nat ?NL"
    by (auto simp: shrunk_length_def word_less_nat_alt max_def)
  define st1 where "st1 = (log_msg ''contracting'' st)\<lparr>heap := (heap st)\<lparr>end_address := start_address (heap st) + of_nat ?NL\<rparr>\<rparr>"
  have con: "contract (of_nat h - start_address (heap st)) st = (of_nat ?NL, st1)"
    unfolding contract_def Let_def off old using nlt new by (simp add: st1_def)
  have s': "of_nat s - (of_nat ?L - of_nat ?NL) = (of_nat s' :: u64)" "32 \<le> s'" "s' \<le> s" "h + s' < 2 ^ 64"
    using NL rest len by (simp_all add: s'_def of_nat_diff algebra_simps)
  have pos: "(of_nat s' :: u64) > 0"
    using s' len unat_pos [of s'] by (simp add: word_less_nat_alt)
  have hs: "hdr_size (hmem st1) (of_nat h) = of_nat s" using b by (simp add: st1_def block_at_def)
  define m' where "m' = set_ftr_header (of_nat (h + s' - 16)) (of_nat h) (set_ftr_magic (of_nat (h + s' - 16)) HEAP_MAGIC
    (set_hdr_size (of_nat h) (of_nat s') (hmem st)))"
  have f: "of_nat h + of_nat s' - 16 = (of_nat (h + s' - 16) :: u64)" using s'(2) by (simp add: of_nat_diff)
  have st': "st' = upd_mem (\<lambda>_. m') st1"
    unfolding st'_def free_contract_def Let_def con
    using foot pos hs by (simp add: old s'(1) f fields m'_def upd_mem_def st1_def del: of_nat_diff of_nat_add)
  have so: "same_outside (hmem st) m' h (h + s)"
    using s' len unfolding m'_def by (intro same_outside_setters same_outside_refl; simp)
  have "apart (of_nat h) (of_nat (h + s' - 16))" "apart (of_nat (h + s' - 16)) (of_nat h)"
    using s' len by (intro apart_of_nat; simp)+
  then have "block_at m' h s' Hole" using b k s' len by (simp add: block_at_def m'_def fields del: of_nat_add of_nat_diff)
  moreover have "tiles m' S as" using t same_outside_bytes [OF so, of h] by (auto simp: h_def intro: tiles_same_bytes)
  moreover have "unat (end_address (heap st')) = h + s'"
  proof -
    have "end_address (heap st') = of_nat (S + ?NL)" by (simp add: st' st1_def st)
    moreover have "S + ?NL = h + s'" using NL(2) by (simp add: h_def s'_def)
    ultimately show ?thesis using unat_pos [OF s'(4)] by simp
  qed
  moreover have "start_address (heap st') = start_address (heap st)" "index (heap st') = index (heap st)"
    "console st' = console st @ [''contracting'']" "hmem st' = m'"
    by (simp_all add: st') (simp_all add: st1_def log_msg_def)
  ultimately show ?thesis using so s'(3) by (simp add: h_def)
qed

section \<open>free\<close>

text \<open>
  A step in which the block of \<open>n\<close> bytes at \<open>p\<close> goes and the other blocks in use stay
  where they are, with their bytes.
\<close>

definition removes_block :: "kheap_state \<Rightarrow> blocks \<Rightarrow> kheap_state \<Rightarrow> blocks \<Rightarrow> nat \<Rightarrow> nat \<Rightarrow> bool" where
  "removes_block st bs st' bs' p n \<longleftrightarrow>
     (let S = unat (start_address (heap st))
      in start_address (heap st') = start_address (heap st) \<and>
         set (allocs S bs') = set (allocs S bs) - {(p, n)} \<and>
         (\<forall>(q, l) \<in> set (allocs S bs'). same_bytes (hmem st) (hmem st') q (q + l)))"

text \<open>The list after a block between \<open>as\<close> and \<open>us\<close> has been freed.\<close>

definition freed :: "blocks \<Rightarrow> nat \<Rightarrow> blocks \<Rightarrow> blocks" where
  "freed as n us =
     (let (as', s) = merge_left as n; (s', k', us') = merge_right s us
      in if us' = [] then as' @ [(shrunk_length (span as') - span as', Hole)] else as' @ (s', k') # us')"

text \<open>
  When the last block becomes free the heap shrinks to whole pages; the rest of the hole must
  have room for a header and a footer.
\<close>

definition shrink_ok :: "blocks \<Rightarrow> nat \<Rightarrow> blocks \<Rightarrow> bool" where
  "shrink_ok as n us \<longleftrightarrow>
     (let (as', s) = merge_left as n; (s', k', us') = merge_right s us
      in us' = [] \<longrightarrow> whole_pages (span as' + s') \<and> span as' + 32 \<le> shrunk_length (span as'))"

lemma merge_left_facts:
  assumes "merge_left as n = (as', s)"
  shows "span as' + s = span as + n" "allocs S as' = allocs S as" "span as' \<le> span as"
    "(if as' = as then add_mset (S + span as') (mset (holes S as)) else mset (holes S as)) =
       add_mset (S + span as') (mset (holes S as'))"
proof -
  have "as' = as \<and> s = n \<or> (\<exists>l. as = as' @ [(l, Hole)] \<and> s = l + n)"
  proof (cases "as \<noteq> [] \<and> snd (last as) = Hole")
    case True
    then obtain bs l where "as = bs @ [(l, Hole)]" by (metis append_butlast_last_id prod.collapse)
    then show ?thesis using assms by (simp add: merge_left_def)
  qed (use assms in \<open>auto simp: merge_left_def split: if_splits\<close>)
  then show "span as' + s = span as + n" "allocs S as' = allocs S as" "span as' \<le> span as"
    "(if as' = as then add_mset (S + span as') (mset (holes S as)) else mset (holes S as)) =
       add_mset (S + span as') (mset (holes S as'))" by auto
qed

lemma merge_right_facts:
  assumes "merge_right s us = (s', k', us')"
  shows "k' \<noteq> Used" "s \<le> s'" "allocs (h + s) us = allocs (h + s') us'" "s' + span us' = s + span us"
    "mset (holes (h + s) us) = (if hole_right us then add_mset (h + s) (mset (holes (h + s') us')) else mset (holes (h + s') us'))"
  using assms by (cases us; auto simp: hole_right_def add.assoc split: if_splits)+

lemma index_insert_inv:
  assumes "tiles (hmem st) S bs" "S = unat (start_address (heap st))" "S + span bs = unat (end_address (heap st))"
    and "(if add then add_mset (unat x) (index_set st) else index_set st) = mset (holes S bs)"
    and "oa_room (index (heap st))"
  shows "heap_inv (if add then index_insert x st else st) bs"
  using assms index_insert_set [of st x] by (auto simp: heap_inv_def)

lemma left_readable_mark:
  assumes inv: "heap_inv st (as @ (n, Used) # us)" and left: "left_readable st as"
  shows "left_readable (upd_mem (set_hdr_is_hole (of_nat (unat (start_address (heap st)) + span as)) 1) st) as"
proof (cases "as = []")
  case True
  then have S: "16 \<le> unat (start_address (heap st))" using left by (simp add: left_readable_def word_le_nat_alt)
  have "block_at (hmem st) (unat (start_address (heap st))) n Used" using inv True by (simp add: heap_inv_def)
  then have "apart (of_nat (unat (start_address (heap st)))) (of_nat (unat (start_address (heap st)) - 16))"
    using S by (intro apart_of_nat) (auto simp: block_at_def)
  moreover have "of_nat (unat (start_address (heap st)) - 16) = start_address (heap st) - 16"
    using of_nat_minus_16 [OF S] by simp
  ultimately have "apart (start_address (heap st)) (start_address (heap st) - 16)" by simp
  then show ?thesis using left True by (simp add: left_readable_def fields)
qed (use left in \<open>simp add: left_readable_def\<close>)

lemma kheap_free_eq:
  assumes inv: "heap_inv st (as @ (n, Used) # us)"
  defines "p \<equiv> unat (start_address (heap st)) + span as"
  defines "st3 \<equiv> upd_mem (set_hdr_is_hole (of_nat p) 1) st"
  assumes ul: "unify_left (of_nat p) (of_nat (p + n - 16)) st3 = (hd', add, st4)"
    and ur: "unify_right hd' (of_nat (p + n - 16)) st4 = (ft', st5)"
  shows "kheap_free (of_nat (p + 16)) st =
    (if add then index_insert hd' (free_contract hd' ft' (of_nat (p + n)) st5)
     else free_contract hd' ft' (of_nat (p + n)) st5)"
proof -
  have b: "block_at (hmem st) p n Used" using inv by (simp add: heap_inv_def p_def)
  then have len: "32 \<le> n" "p + n < 2 ^ 64" by (simp_all add: block_at_def)
  have "p + 16 < 2 ^ 64" using len by simp
  then have nz: "(of_nat (p + 16) :: u64) \<noteq> 0"
    using unat_pos [of "p + 16"] by (metis add_is_0 unat_0 zero_neq_numeral)
  have hd: "of_nat (p + 16) - 16 = (of_nat p :: u64)" by simp
  have ft: "of_nat p + hdr_size (hmem st) (of_nat p) - 16 = of_nat (p + n - 16)"
    using b len by (simp add: block_at_def of_nat_diff)
  have th: "of_nat (p + n - 16) + 16 = (of_nat (p + n) :: u64)" using len by (simp add: of_nat_diff)
  have mg: "hdr_magic (hmem st) (of_nat p) = HEAP_MAGIC" "ftr_magic (hmem st) (of_nat (p + n - 16)) = HEAP_MAGIC"
    using b by (simp_all add: block_at_def del: of_nat_add of_nat_diff)
  show ?thesis
    unfolding kheap_free_def Let_def if_not_P [OF nz] hd ft
    using mg ul ur by (simp add: st3_def th del: of_nat_add of_nat_diff)
qed

lemma kheap_free_spec:
  assumes inv: "heap_inv st (as @ (n, Used) # us)" and left: "left_readable st as"
    and right: "us = [] \<longrightarrow> hdr_magic (hmem st) (end_address (heap st)) \<noteq> HEAP_MAGIC \<and>
      unat (end_address (heap st)) + 16 \<le> 2 ^ 64"
    and shrink: "shrink_ok as n us"
  defines "p \<equiv> unat (start_address (heap st)) + span as"
  defines "st' \<equiv> kheap_free (of_nat (p + 16)) st"
  shows "heap_inv st' (freed as n us) \<and>
    removes_block st (as @ (n, Used) # us) st' (freed as n us) p n \<and>
    (console st' = console st \<or> console st' = console st @ [''contracting''])"
proof -
  define S where "S = unat (start_address (heap st))"
  obtain as' s where ml: "merge_left as n = (as', s)" by fastforce
  obtain s' k' us' where mr: "merge_right s us = (s', k', us')" by (metis prod_cases3)
  note mlf = merge_left_facts [OF ml] and mrf = merge_right_facts [OF mr]
  define h where "h = S + span as'"
  have hs: "h + s = p + n" using mlf(1) by (simp add: h_def p_def S_def)
  have t: "tiles (hmem st) S (as @ (n, Used) # us)" using inv by (simp add: heap_inv_def S_def)
  have b: "block_at (hmem st) p n Used" using t by (simp add: p_def S_def)
  then have p64: "p + n < 2 ^ 64" by (simp add: block_at_def)
  define st3 where "st3 = upd_mem (set_hdr_is_hole (of_nat p) 1) st"
  note mark = mark_hole_tiles [OF t, unfolded S_def, folded p_def]
  have t3: "tiles (hmem st3) S (as @ (n, Hole) # us)" "same_outside (hmem st) (hmem st3) p (p + n)"
    using mark by (simp_all add: st3_def S_def)
  have left3: "left_readable st3 as" using left_readable_mark [OF inv left] by (simp add: st3_def p_def)
  have "S = unat (start_address (heap st3))" by (simp add: st3_def S_def)
  from unify_left_step [OF t3(1) this left3] obtain f where
    ul: "unify_left (of_nat p) (of_nat (p + n - 16)) st3 = (of_nat h, as' = as, upd_mem f st3)"
    and t4: "tiles (f (hmem st3)) S (as' @ (s, Hole) # us)" "same_outside (hmem st3) (f (hmem st3)) h (p + n)"
    by (auto simp: ml h_def p_def S_def)
  define st4 where "st4 = upd_mem f st3"
  have hp: "h \<le> p" using mlf(3) by (simp add: h_def p_def S_def)
  have so4: "same_outside (hmem st) (hmem st4) h (p + n)"
    using t3(2) t4(2) hp by (auto simp: same_outside_def st4_def)
  define E where "E = unat (end_address (heap st))"
  have E: "p + n + span us = E" using inv by (simp add: heap_inv_def p_def E_def add.assoc)
  have ix4: "index (heap st4) = index (heap st)" by (simp add: st4_def st3_def)
  have end_ok: "us = [] \<longrightarrow> hdr_magic (hmem st4) (of_nat (h + s)) \<noteq> HEAP_MAGIC"
  proof
    assume "us = []"
    then have e: "h + s = E" "of_nat E = end_address (heap st)" using E hs by (simp_all add: E_def)
    have "same_bytes (hmem st) (hmem st4) E (E + 16)" using same_outside_bytes [OF so4] e hs by simp
    then have "hdr_magic (hmem st4) (of_nat E) = hdr_magic (hmem st) (of_nat E)"
      using getters_same_bytes(1) [of "hmem st" "hmem st4" E "E + 16" E] right \<open>us = []\<close>
      by (simp add: E_def)
    then show "hdr_magic (hmem st4) (of_nat (h + s)) \<noteq> HEAP_MAGIC"
      using right \<open>us = []\<close> e by simp
  qed
  have idx: "hole_right us \<longrightarrow> of_nat (h + s) \<in> set (oa_list (index (heap st4)))"
  proof
    assume r: "hole_right us"
    then obtain r k vs where us: "us = (r, k) # vs" "k \<noteq> Used" by (cases us) (auto simp: hole_right_def)
    have "h + s \<in> set (holes S (as @ (n, Used) # us))" using us hs by (simp add: p_def S_def add.assoc)
    then show "of_nat (h + s) \<in> set (oa_list (index (heap st4)))"
      unfolding ix4 heap_inv_index(2) [OF inv] hs unat_pos [OF p64] S_def .
  qed
  have room4: "oa_room (index (heap st4))" using heap_inv_room(2) [OF inv] by (simp add: ix4)
  have t4': "tiles (hmem st4) S (as' @ (s, Hole) # us)" using t4(1) by (simp add: st4_def)
  obtain st5 where ur: "unify_right (of_nat h) (of_nat (p + n - 16)) st4 = (of_nat (h + s' - 16), st5)"
    and t5: "tiles (hmem st5) S (as' @ (s', k') # us')" "same_outside (hmem st4) (hmem st5) h (p + n)"
    and fr5: "console st5 = console st4" "start_address (heap st5) = start_address (heap st4)"
      "end_address (heap st5) = end_address (heap st4)" "oa_room (index (heap st5))"
    and ix5: "index_set st4 = (if hole_right us then add_mset (h + s) (index_set st5) else index_set st5)"
    using unify_right_step [OF t4', folded h_def, OF end_ok idx room4 mr] by (auto simp: hs)
  have fr: "console st5 = console st" "start_address (heap st5) = start_address (heap st)"
    "end_address (heap st5) = end_address (heap st)" using fr5 by (simp_all add: st4_def st3_def)
  have so5: "same_outside (hmem st) (hmem st5) h (p + n)" using so4 t5(2) by (auto simp: same_outside_def)
  have E5: "h + s' + span us' = E" using mrf(4) hs E by simp
  have ixs: "(if as' = as then add_mset h (index_set st5) else index_set st5) =
      mset (holes S as') + {#h#} + mset (holes (h + s') us')"
  proof -
    have "index_set st = mset (holes S as) + mset (holes (h + s) us)"
      using inv by (simp add: heap_inv_def S_def hs p_def add.assoc)
    then have "index_set st5 = mset (holes S as) + mset (holes (h + s') us')"
      using ix5 mrf(5) [of h] by (simp add: ix4 split: if_splits)
    then show ?thesis using mlf(4) [of S] by (auto simp: h_def split: if_splits)
  qed
  have st': "st' = (if as' = as then index_insert (of_nat h) (free_contract (of_nat h) (of_nat (h + s' - 16)) (of_nat (p + n)) st5)
      else free_contract (of_nat h) (of_nat (h + s' - 16)) (of_nat (p + n)) st5)"
    unfolding st'_def p_def
    by (rule kheap_free_eq [OF inv]) (use ul ur in \<open>simp_all add: p_def st3_def st4_def\<close>)
  have unat_h: "unat (of_nat h :: u64) = h" using hp p64 by (intro unat_pos) simp
  define st6 where "st6 = free_contract (of_nat h) (of_nat (h + s' - 16)) (of_nat (p + n)) st5"
  have "tiles (hmem st6) S (freed as n us) \<and> S + span (freed as n us) = unat (end_address (heap st6)) \<and>
    start_address (heap st6) = start_address (heap st) \<and> index (heap st6) = index (heap st5) \<and>
    same_outside (hmem st) (hmem st6) h (h + s') \<and>
    (console st6 = console st \<or> console st6 = console st @ [''contracting'']) \<and>
    holes S (freed as n us) = holes S as' @ [h] @ holes (h + s') us' \<and>
    allocs S (freed as n us) = allocs S as' @ allocs (h + s') us'"
  proof (cases "us' = []")
    case True
    have so: "same_outside (hmem st) (hmem st5) h (h + s')" using so5 hs mrf(2) by (auto simp: same_outside_def)
    have ok: "whole_pages (span as' + s')" "span as' + 32 \<le> shrunk_length (span as')"
      using shrink True by (simp_all add: shrink_ok_def ml mr)
    have "S = unat (start_address (heap st5))" "S + span as' + s' = unat (end_address (heap st5))"
      using fr E5 True by (simp_all add: S_def h_def E_def)
    note last = free_contract_last [OF t5(1) [unfolded True] mrf(1) this ok, of "of_nat (p + n)",
        folded h_def, folded st6_def]
    have fd: "freed as n us = as' @ [(shrunk_length (span as') - span as', Hole)]"
      using True by (simp add: freed_def ml mr)
    have "same_outside (hmem st) (hmem st6) h (h + s')" using so last by (auto simp: same_outside_def)
    then show ?thesis using last fr True unfolding fd by (simp add: h_def add.assoc)
  next
    case False
    have "0 < span us'"
    proof (cases us')
      case (Cons u vs)
      then show ?thesis using t5(1) by (cases u) (auto simp: block_at_def)
    qed (use False in simp)
    then have lt: "h + s' < E" using E5 by simp
    have "16 \<le> s'" using t5(1) by (auto simp: block_at_def)
    then have ft: "of_nat (h + s' - 16) + 16 = (of_nat (h + s') :: u64)" by (simp add: of_nat_diff)
    have "h + s' < 18446744073709551616" using lt unat_lt_64 [of "end_address (heap st)"] by (simp only: E_def)
    then have "unat (of_nat (h + s') :: u64) = h + s'" by (intro unat_pos) simp
    then have "of_nat (h + s' - 16) + 16 \<noteq> end_address (heap st5)"
      using lt fr(3) unfolding ft by (auto simp: E_def)
    then have "st6 = st5" unfolding st6_def by (rule free_contract_inner)
    moreover have "same_outside (hmem st) (hmem st5) h (h + s')" using so5 hs mrf(2) by (auto simp: same_outside_def)
    ultimately show ?thesis using t5(1) False fr E5 mrf(1)
      by (simp add: freed_def ml mr h_def E_def S_def add.assoc)
  qed
  note st6 = this
  have inv': "heap_inv st' (freed as n us)"
    unfolding st' st6_def [symmetric]
  proof (rule index_insert_inv [where S = S])
    show "(if as' = as then add_mset (unat (of_nat h :: u64)) (index_set st6) else index_set st6)
        = mset (holes S (freed as n us))"
      using st6 ixs unat_h by (cases "as' = as") auto
  qed (use st6 fr5(4) in \<open>simp_all add: S_def\<close>)
  have mem': "hmem st' = hmem st6" "start_address (heap st') = start_address (heap st)" "console st' = console st6"
    using st6 by (simp_all add: st' [folded st6_def])
  have "allocs S (as @ (n, Used) # us) = allocs S as' @ (p, n) # allocs (h + s') us'"
    using mlf(2) [of S] mrf(3) [of h] hs by (simp add: p_def S_def add.assoc)
  moreover have "(p, n) \<notin> set (allocs S as')" "(p, n) \<notin> set (allocs (h + s') us')"
    using allocs_range [of p n S as'] allocs_range [of p n "h + s'" us'] hs mrf(2) b hp
    by (auto simp: h_def block_at_def)
  moreover have "\<forall>(q, l) \<in> set (allocs S as' @ allocs (h + s') us'). same_bytes (hmem st) (hmem st6) q (q + l)"
  proof (intro ballI case_prodI2)
    fix x q l assume "x \<in> set (allocs S as' @ allocs (h + s') us')" "x = (q, l)"
    then have "q + l \<le> h \<or> h + s' \<le> q"
      using allocs_range [of q l S as'] allocs_range [of q l "h + s'" us'] by (auto simp: h_def)
    then show "same_bytes (hmem st) (hmem st6) q (q + l)" using st6 same_outside_bytes by blast
  qed
  ultimately have "removes_block st (as @ (n, Used) # us) st' (freed as n us) p n"
    using st6 mem' unfolding removes_block_def Let_def S_def [symmetric] by auto
  then show ?thesis using inv' st6 mem' by simp
qed

end
