(* ===== verification/KHeapContract.thy ===== *)
theory KHeapContract
  imports KHeapFree
begin

text \<open>
  What the clients of the kernel heap rely on, as a locale: blocks that are disjoint and keep
  their contents until they are freed. It is interpreted on \<open>alloc\<close> and \<open>free\<close> of
  \<open>kernel/kheap.c\<close>.
\<close>

section \<open>The contract\<close>

text \<open>
  \<open>rep s U\<close>: the state is good and \<open>U\<close> are the blocks in use, as position and size with 16
  bytes of overhead at either end. \<open>fits\<close> and \<open>freeable\<close> are the conditions under which the
  heap serves a request or takes a block back; \<open>poke\<close> is a client writing a byte.
\<close>

locale block_heap =
  fixes rep :: "'s \<Rightarrow> (nat \<times> nat) set \<Rightarrow> bool"
    and fits :: "'s \<Rightarrow> u64 \<Rightarrow> bool"
    and freeable :: "'s \<Rightarrow> nat \<Rightarrow> bool"
    and alloc :: "u64 \<Rightarrow> 's \<Rightarrow> (u64 \<times> 's) option"
    and release :: "u64 \<Rightarrow> 's \<Rightarrow> 's"
    and content :: "'s \<Rightarrow> memory"
    and poke :: "u64 \<Rightarrow> u8 \<Rightarrow> 's \<Rightarrow> 's"
  assumes alloc_block: "rep s U \<Longrightarrow> fits s sz \<Longrightarrow> \<exists>a s' m. alloc sz s = Some (a, s') \<and>
      rep s' (insert (unat a - 16, m) U) \<and> 16 \<le> unat a \<and> unat sz + 32 \<le> m \<and>
      (\<forall>(q, l) \<in> U. (q + l \<le> unat a - 16 \<or> unat a - 16 + m \<le> q) \<and> same_bytes (content s) (content s') q (q + l))"
    and release_block: "rep s U \<Longrightarrow> (q, l) \<in> U \<Longrightarrow> freeable s q \<Longrightarrow>
      rep (release (of_nat (q + 16)) s) (U - {(q, l)}) \<and>
      (\<forall>(q', l') \<in> U - {(q, l)}. same_bytes (content s) (content (release (of_nat (q + 16)) s)) q' (q' + l'))"
    and poke_block: "rep s U \<Longrightarrow> (q, l) \<in> U \<Longrightarrow> q + 16 \<le> unat x \<Longrightarrow> unat x < q + l - 16 \<Longrightarrow>
      rep (poke x v s) U \<and> content (poke x v s) = (content s)(x := v)"
    and blocks_apart: "rep s U \<Longrightarrow> (q, l) \<in> U \<Longrightarrow> (q', l') \<in> U \<Longrightarrow> (q, l) \<noteq> (q', l') \<Longrightarrow>
      q + l \<le> q' \<or> q' + l' \<le> q"

text \<open>
  Runs of clients that allocate when the heap can serve them, write into the areas they hold and
  give them back. \<open>own\<close> are the areas held, as address and size asked for, and \<open>g\<close> is
  what was written there last since the area was allocated (\<open>None\<close>: nothing).
\<close>

inductive heap_run ::
  "('s \<Rightarrow> u64 \<Rightarrow> bool) \<Rightarrow> ('s \<Rightarrow> nat \<Rightarrow> bool) \<Rightarrow>
   (u64 \<Rightarrow> 's \<Rightarrow> (u64 \<times> 's) option) \<Rightarrow> (u64 \<Rightarrow> 's \<Rightarrow> 's) \<Rightarrow> (u64 \<Rightarrow> u8 \<Rightarrow> 's \<Rightarrow> 's) \<Rightarrow> 's \<Rightarrow>
   's \<Rightarrow> (nat \<times> nat) set \<Rightarrow> (u64 \<rightharpoonup> u8) \<Rightarrow> bool"
  for fits freeable alloc release poke s0 where
  heap_run_start: "heap_run fits freeable alloc release poke s0 s0 {} Map.empty"
| heap_run_alloc: "heap_run fits freeable alloc release poke s0 s own g \<Longrightarrow> fits s sz \<Longrightarrow>
    alloc sz s = Some (a, s') \<Longrightarrow>
    heap_run fits freeable alloc release poke s0 s' (insert (unat a, unat sz) own)
      (\<lambda>x. if unat a \<le> unat x \<and> unat x < unat a + unat sz then None else g x)"
| heap_run_write: "heap_run fits freeable alloc release poke s0 s own g \<Longrightarrow> (a, n) \<in> own \<Longrightarrow>
    a \<le> unat x \<Longrightarrow> unat x < a + n \<Longrightarrow>
    heap_run fits freeable alloc release poke s0 (poke x v s) own (g(x \<mapsto> v))"
| heap_run_free: "heap_run fits freeable alloc release poke s0 s own g \<Longrightarrow> (a, n) \<in> own \<Longrightarrow>
    freeable s (a - 16) \<Longrightarrow>
    heap_run fits freeable alloc release poke s0 (release (of_nat a) s) (own - {(a, n)}) g"

text \<open>The areas held lie in different blocks in use and hold what was written.\<close>

definition areas_in :: "(nat \<times> nat) set \<Rightarrow> (nat \<times> nat) set \<Rightarrow> bool" where
  "areas_in own U \<longleftrightarrow>
     (\<forall>(a, n) \<in> own. 16 \<le> a \<and> (\<exists>m. (a - 16, m) \<in> U \<and> n + 32 \<le> m)) \<and> inj_on fst own"

definition holds_written :: "(nat \<times> nat) set \<Rightarrow> (u64 \<rightharpoonup> u8) \<Rightarrow> memory \<Rightarrow> bool" where
  "holds_written own g m \<longleftrightarrow>
     (\<forall>(a, n) \<in> own. \<forall>x v. a \<le> unat x \<and> unat x < a + n \<and> g x = Some v \<longrightarrow> m x = v)"

lemma areas_inD:
  "areas_in own U \<Longrightarrow> (a, n) \<in> own \<Longrightarrow> \<exists>m. 16 \<le> a \<and> (a - 16, m) \<in> U \<and> n + 32 \<le> m"
  by (auto simp: areas_in_def)

context block_heap
begin

lemma run_inv:
  assumes "heap_run fits freeable alloc release poke s0 s own g" "rep s0 U0"
  shows "\<exists>U. rep s U \<and> areas_in own U \<and> holds_written own g (content s)"
  using assms
proof (induction rule: heap_run.induct)
  case heap_run_start
  then show ?case by (auto simp: areas_in_def holds_written_def)
next
  case (heap_run_alloc s own g sz a s')
  then obtain U where U: "rep s U" "areas_in own U" "holds_written own g (content s)" by blast
  from alloc_block [OF U(1) heap_run_alloc.hyps(2)] heap_run_alloc.hyps(3) obtain m where
    m: "rep s' (insert (unat a - 16, m) U)" "16 \<le> unat a" "unat sz + 32 \<le> m"
    "\<forall>(q, l) \<in> U. (q + l \<le> unat a - 16 \<or> unat a - 16 + m \<le> q) \<and> same_bytes (content s) (content s') q (q + l)"
    by auto
  have apart: "b \<noteq> unat a \<and> same_bytes (content s) (content s') b (b + n)" if b: "(b, n) \<in> own" for b n
  proof -
    from U(2) b obtain k where k: "16 \<le> b" "(b - 16, k) \<in> U" "n + 32 \<le> k" by (auto simp: areas_in_def)
    with m(4) have d: "b - 16 + k \<le> unat a - 16 \<or> unat a - 16 + m \<le> b - 16"
      and s: "same_bytes (content s) (content s') (b - 16) (b - 16 + k)" by auto
    have "same_bytes (content s) (content s') b (b + n)"
      using k by (intro same_bytes_sub [OF s]) simp_all
    with d k m(2,3) show ?thesis by auto
  qed
  then have "areas_in (insert (unat a, unat sz) own) (insert (unat a - 16, m) U)"
    using U(2) m(2,3) by (fastforce simp: areas_in_def)
  moreover have "holds_written (insert (unat a, unat sz) own)
      (\<lambda>x. if unat a \<le> unat x \<and> unat x < unat a + unat sz then None else g x) (content s')"
    using U(3) apart by (fastforce simp: holds_written_def same_bytes_def)
  ultimately show ?case using m(1) by blast
next
  case (heap_run_write s own g a n x v)
  then obtain U where U: "rep s U" "areas_in own U" "holds_written own g (content s)" by blast
  from U(2) heap_run_write.hyps(2) obtain k where k: "16 \<le> a" "(a - 16, k) \<in> U" "n + 32 \<le> k"
    by (auto simp: areas_in_def)
  have "rep (poke x v s) U \<and> content (poke x v s) = (content s)(x := v)"
    using k heap_run_write.hyps(3,4) by (intro poke_block [OF U(1) k(2)]) auto
  moreover have "holds_written own (g(x \<mapsto> v)) ((content s)(x := v))"
    using U(3) unfolding holds_written_def by fastforce
  ultimately show ?case using U(2) by metis
next
  case (heap_run_free s own g a n)
  then obtain U where U: "rep s U" "areas_in own U" "holds_written own g (content s)" by blast
  from U(2) heap_run_free.hyps(2) obtain k where k: "16 \<le> a" "(a - 16, k) \<in> U" "n + 32 \<le> k"
    by (auto simp: areas_in_def)
  let ?s = "release (of_nat a) s"
  have r: "rep ?s (U - {(a - 16, k)})"
    "\<forall>(q', l') \<in> U - {(a - 16, k)}. same_bytes (content s) (content ?s) q' (q' + l')"
    using release_block [OF U(1) k(2) heap_run_free.hyps(3)] k(1) by simp_all
  have other: "\<exists>l. (b - 16, l) \<in> U - {(a - 16, k)} \<and> i + 32 \<le> l \<and> 16 \<le> b"
    if b: "(b, i) \<in> own - {(a, n)}" for b i
  proof -
    from U(2) b obtain l where l: "16 \<le> b" "(b - 16, l) \<in> U" "i + 32 \<le> l" by (auto simp: areas_in_def)
    have "b \<noteq> a" using U(2) b heap_run_free.hyps(2) inj_onD [of fst own "(a, n)" "(b, i)"]
      by (auto simp: areas_in_def)
    with l k(1) show ?thesis by auto
  qed
  have "areas_in (own - {(a, n)}) (U - {(a - 16, k)})"
    using U(2) other unfolding areas_in_def by (fastforce intro: inj_on_diff)
  moreover have "holds_written (own - {(a, n)}) g (content ?s)"
    unfolding holds_written_def
  proof (intro ballI case_prodI2 allI impI)
    fix y b i x v
    assume y: "y \<in> own - {(a, n)}" "y = (b, i)" and x: "b \<le> unat x \<and> unat x < b + i \<and> g x = Some v"
    obtain l where l: "(b - 16, l) \<in> U - {(a - 16, k)}" "i + 32 \<le> l" "16 \<le> b" using other y by blast
    then have "same_bytes (content s) (content ?s) (b - 16) (b - 16 + l)" using r(2) by blast
    then have "same_bytes (content s) (content ?s) b (b + i)"
      using l(2,3) by (elim same_bytes_sub) simp_all
    then have "content ?s x = content s x" using x by (simp add: same_bytes_def)
    moreover have "content s x = v" using U(3) y x by (auto simp: holds_written_def)
    ultimately show "content ?s x = v" by simp
  qed
  ultimately show ?case using r(1) by blast
qed

text \<open>So no two areas held overlap, and each byte written is read back.\<close>

lemma run_safe:
  assumes "heap_run fits freeable alloc release poke s0 s own g" "rep s0 U0"
  shows "(\<forall>(a, n) \<in> own. \<forall>(b, k) \<in> own. (a, n) \<noteq> (b, k) \<longrightarrow> a + n \<le> b \<or> b + k \<le> a) \<and>
    (\<forall>(a, n) \<in> own. \<forall>x v. a \<le> unat x \<and> unat x < a + n \<and> g x = Some v \<longrightarrow> content s x = v)"
proof -
  obtain U where U: "rep s U" "areas_in own U" "holds_written own g (content s)"
    using run_inv [OF assms] by blast
  have "a + n \<le> b \<or> b + k \<le> a" if own: "(a, n) \<in> own" "(b, k) \<in> own" "(a, n) \<noteq> (b, k)" for a n b k
  proof -
    obtain l where a: "16 \<le> a" "(a - 16, l) \<in> U" "n + 32 \<le> l" using areas_inD [OF U(2) own(1)] by blast
    obtain l' where b: "16 \<le> b" "(b - 16, l') \<in> U" "k + 32 \<le> l'" using areas_inD [OF U(2) own(2)] by blast
    have "a \<noteq> b" using U(2) own inj_onD [of fst own "(a, n)" "(b, k)"] by (auto simp: areas_in_def)
    then have "a - 16 + l \<le> b - 16 \<or> b - 16 + l' \<le> a - 16"
      using blocks_apart [OF U(1) a(2) b(2)] a(1) b(1) by (metis diff_is_0_eq eq_diff_iff prod.inject)
    then show ?thesis using a b by auto
  qed
  then show ?thesis using U(3) by (fastforce simp: holds_written_def)
qed

end

section \<open>The code's heap meets the contract\<close>

definition kheap_rep :: "kheap_state \<Rightarrow> (nat \<times> nat) set \<Rightarrow> bool" where
  "kheap_rep st U \<longleftrightarrow> (\<exists>bs. heap_inv st bs \<and> U = set (allocs (unat (start_address (heap st))) bs))"

definition kheap_fits :: "kheap_state \<Rightarrow> u64 \<Rightarrow> bool" where
  "kheap_fits st sz \<longleftrightarrow> unat sz + 32 < 2 ^ 64 \<and> (\<exists>bs. heap_inv st bs \<and> has_room st bs (unat sz + 32))"

text \<open>
  The conditions under which \<open>free\<close> works: what is left and right of the block can be read as
  intended, and a heap that shrinks keeps room for the last hole's header and footer.
\<close>

definition free_ok :: "kheap_state \<Rightarrow> blocks \<Rightarrow> nat \<Rightarrow> blocks \<Rightarrow> bool" where
  "free_ok st as n us \<longleftrightarrow> left_readable st as \<and>
     (us = [] \<longrightarrow> hdr_magic (hmem st) (end_address (heap st)) \<noteq> HEAP_MAGIC \<and>
        unat (end_address (heap st)) + 16 \<le> 2 ^ 64) \<and> shrink_ok as n us"

definition kheap_freeable :: "kheap_state \<Rightarrow> nat \<Rightarrow> bool" where
  "kheap_freeable st q \<longleftrightarrow> (\<exists>as n us. heap_inv st (as @ (n, Used) # us) \<and>
     q = unat (start_address (heap st)) + span as \<and> free_ok st as n us)"

definition kheap_poke :: "u64 \<Rightarrow> u8 \<Rightarrow> kheap_state \<Rightarrow> kheap_state" where
  "kheap_poke x v st = upd_mem (\<lambda>m. m(x := v)) st"

text \<open>Memory determines the blocks in use.\<close>

lemma tiles_unique:
  "tiles m p bs \<Longrightarrow> tiles m p cs \<Longrightarrow> span bs = span cs \<Longrightarrow> allocs p bs = allocs p cs"
proof (induction m p bs arbitrary: cs rule: tiles.induct)
  case (1 m p)
  then show ?case by (cases cs) (auto simp: block_at_def)
next
  case (2 m p n k bs)
  show ?case
  proof (cases cs)
    case Nil
    then show ?thesis using "2.prems" by (auto simp: block_at_def)
  next
    case (Cons c ds)
    obtain n' k' where c: "c = (n', k')" by fastforce
    have b: "block_at m p n k" "block_at m p n' k'" using "2.prems" Cons c by auto
    then have "(of_nat n :: u64) = of_nat n'" "n < 2 ^ 64" "n' < 2 ^ 64" by (auto simp: block_at_def)
    then have n: "n = n'" by (metis unat_pos)
    have "(k = Used) = (k' = Used)" using b by (auto simp: block_at_def split: if_splits)
    moreover have "allocs (p + n) bs = allocs (p + n) ds" using "2.IH" [of ds] "2.prems" Cons c n by simp
    ultimately show ?thesis using Cons c n by simp
  qed
qed

lemma heap_inv_unique:
  "heap_inv st bs \<Longrightarrow> heap_inv st cs \<Longrightarrow>
     allocs (unat (start_address (heap st))) bs = allocs (unat (start_address (heap st))) cs"
  unfolding heap_inv_def by (metis tiles_unique add_left_cancel)

text \<open>Blocks in use do not overlap.\<close>

lemma allocs_apart:
  "tiles m p bs \<Longrightarrow> (q, l) \<in> set (allocs p bs) \<Longrightarrow> (q', l') \<in> set (allocs p bs) \<Longrightarrow>
     (q, l) = (q', l') \<or> q + l \<le> q' \<or> q' + l' \<le> q"
proof (induction m p bs rule: tiles.induct)
  case (2 m p n k bs)
  then show ?case
    using allocs_range [of q l "p + n" bs] allocs_range [of q' l' "p + n" bs] by (auto split: if_splits)
qed simp

lemma allocs_size_unique:
  assumes "tiles m p bs" "(q, l) \<in> set (allocs p bs)" "(q, n) \<in> set (allocs p bs)"
  shows "l = n"
proof -
  have pos: "0 < i" if "(q, i) \<in> set (allocs p bs)" for i
    using allocs_split [OF that] assms(1) by (auto simp: block_at_def)
  have "0 < l" "0 < n" using pos assms(2,3) by blast+
  then show ?thesis using allocs_apart [OF assms] by auto
qed

lemma tiles_within:
  assumes "tiles m p bs" "(q, l) \<in> set (allocs p bs)" "same_outside m m' (q + 16) (q + l - 16)"
  shows "tiles m' p bs"
proof -
  from allocs_split [OF assms(2)] obtain as us where s: "bs = as @ (l, Used) # us" "q = p + span as" by blast
  have so: "same_outside m m' q (q + l)" using assms(3) by (auto simp: same_outside_def less_diff_conv)
  have b: "block_at m q l Used" using assms(1) s by simp
  have "same_bytes m m' q (q + 16)" "same_bytes m m' (q + l - 16) (q + l)"
    using same_outside_bytes [OF assms(3)] by simp_all
  note g = getters_same_bytes [OF this(1), of q] getters_same_bytes [OF this(2), of "q + l - 16"]
  have "block_at m' q l Used" using b g by (simp add: block_at_def del: of_nat_add of_nat_diff)
  then show ?thesis
    using tiles_replace [of m p as "(l, Used)" us m' "[(l, Used)]"] assms(1) so s by simp
qed

lemma heap_inv_within:
  assumes "heap_inv st bs" "(q, l) \<in> set (allocs (unat (start_address (heap st))) bs)"
    "same_outside (hmem st) m' (q + 16) (q + l - 16)"
  shows "heap_inv (st\<lparr>hmem := m'\<rparr>) bs"
  using assms tiles_within by (auto simp: heap_inv_def)

lemma heap_inv_poke:
  assumes "heap_inv st bs" "(q, l) \<in> set (allocs (unat (start_address (heap st))) bs)" "q + 16 \<le> unat x" "unat x < q + l - 16"
  shows "heap_inv (kheap_poke x v st) bs"
proof -
  have "same_outside (hmem st) ((hmem st)(x := v)) (q + 16) (q + l - 16)" using assms(3,4) by (auto simp: same_outside_def)
  from heap_inv_within [OF assms(1,2) this] show ?thesis by (simp add: kheap_poke_def upd_mem_def)
qed

interpretation kh: block_heap kheap_rep kheap_fits kheap_freeable "\<lambda>sz. alloc sz 0" kheap_free hmem kheap_poke
proof (unfold_locales, goal_cases)
  case (1 st U sz)
  then obtain bs cs where r: "heap_inv st bs" "U = set (allocs (unat (start_address (heap st))) bs)"
    "unat sz + 32 < 2 ^ 64" "heap_inv st cs" "has_room st cs (unat sz + 32)"
    by (auto simp: kheap_rep_def kheap_fits_def)
  have U: "U = set (allocs (unat (start_address (heap st))) cs)"
    using heap_inv_unique [OF r(1,4)] r(2) by simp
  obtain a st' bs' m where a: "alloc sz 0 st = Some (a, st')" "heap_inv st' bs'" "16 \<le> unat a"
    "unat sz + 32 \<le> m" "adds_block st cs st' bs' (unat a - 16) m"
    using alloc_spec [OF r(4,3,5)] by blast
  then have "kheap_rep st' (insert (unat a - 16, m) U)"
    unfolding kheap_rep_def U by (auto simp: adds_block_def Let_def intro!: exI [of _ bs'])
  then show ?case using a U by (auto simp: adds_block_def Let_def)
next
  case (2 st U q l)
  then obtain bs as n us where r: "heap_inv st bs" "U = set (allocs (unat (start_address (heap st))) bs)"
    "heap_inv st (as @ (n, Used) # us)" "q = unat (start_address (heap st)) + span as" "free_ok st as n us"
    by (auto simp: kheap_rep_def kheap_freeable_def)
  have U: "U = set (allocs (unat (start_address (heap st))) (as @ (n, Used) # us))"
    using heap_inv_unique [OF r(1,3)] r(2) by simp
  have tiles: "tiles (hmem st) (unat (start_address (heap st))) (as @ (n, Used) # us)"
    using r(3) by (simp add: heap_inv_def)
  have l: "l = n" using allocs_size_unique [OF tiles, of q l n] 2(2) r(4) unfolding U by simp
  have "heap_inv (kheap_free (of_nat (q + 16)) st) (freed as n us)"
    "removes_block st (as @ (n, Used) # us) (kheap_free (of_nat (q + 16)) st) (freed as n us) q n"
    using kheap_free_spec [OF r(3)] r(4,5) by (simp_all add: free_ok_def)
  then show ?case unfolding kheap_rep_def U l
    by (auto simp: removes_block_def Let_def intro!: exI [of _ "freed as n us"])
next
  case (3 st U q l x v)
  then obtain bs where r: "heap_inv st bs" "U = set (allocs (unat (start_address (heap st))) bs)"
    by (auto simp: kheap_rep_def)
  then have "heap_inv (kheap_poke x v st) bs" using 3 by (intro heap_inv_poke) auto
  then show ?case using r(2) by (auto simp: kheap_rep_def kheap_poke_def intro!: exI [of _ bs])
next
  case (4 st U q l q' l')
  then obtain bs where "heap_inv st bs" "U = set (allocs (unat (start_address (heap st))) bs)"
    by (auto simp: kheap_rep_def)
  then show ?case using 4 allocs_apart unfolding heap_inv_def by blast
qed

end
