(* ===== verification/KHeapCorrect.thy ===== *)
theory KHeapCorrect
  imports KHeapContract
begin

text \<open>
  The properties of the kernel heap: what each operation does, that no sequence of calls within
  the contract breaks it, and the situations in which the code leaves it.
\<close>

section \<open>Heaps built from a list of blocks\<close>

text \<open>A heap in memory for a list of blocks, to apply the properties to.\<close>

fun build :: "nat \<Rightarrow> blocks \<Rightarrow> memory \<Rightarrow> memory" where
  "build p [] m = m"
| "build p ((n, k) # bs) m = build (p + n) bs (if k = Used then write_block p n m else write_hole p n m)"

definition mk_heap :: "nat \<Rightarrow> blocks \<Rightarrow> kheap_state" where
  "mk_heap S bs = \<lparr>hmem = build S bs (\<lambda>_. 0),
     heap = \<lparr>index = \<lparr>oa_array = (\<lambda>i. of_nat (holes S bs ! unat i)), oa_size = of_nat (length (holes S bs)),
                        oa_max_size = HEAP_INDEX_SIZE\<rparr>,
             start_address = of_nat S, end_address = of_nat (S + span bs), max_address = 0xD0000000,
             supervisor = 0, readonly = 0\<rparr>,
     page_requests = [], console = []\<rparr>"

definition buildable :: "nat \<Rightarrow> blocks \<Rightarrow> bool" where
  "buildable S bs \<longleftrightarrow> S + span bs < 2 ^ 64 \<and> list_all (\<lambda>(n, k). 32 \<le> n \<and> k \<noteq> Bare) bs"

lemma build_tiles:
  "buildable p bs \<Longrightarrow> tiles (build p bs m) p bs \<and> same_outside m (build p bs m) p (p + span bs)"
proof (induction p bs m rule: build.induct)
  case (2 p n k bs m)
  let ?m = "if k = Used then write_block p n m else write_hole p n m"
  have len: "32 \<le> n" "p + n < 2 ^ 64" "buildable (p + n) bs" using "2.prems" by (auto simp: buildable_def)
  have w: "block_at ?m p n k" "same_outside m ?m p (p + n)"
    using write_block_at [OF len(1,2), of m] "2.prems" by (cases k; auto simp: buildable_def)+
  have ih: "tiles (build (p + n) bs ?m) (p + n) bs" "same_outside ?m (build (p + n) bs ?m) (p + n) (p + n + span bs)"
    using "2.IH" [OF len(3)] by blast+
  have "block_at (build (p + n) bs ?m) p n k"
    using block_at_same_bytes [OF same_outside_bytes [OF ih(2)] w(1)] by simp
  then show ?case using ih w(2) by (auto simp: same_outside_def)
qed simp

lemma mk_heap_inv:
  assumes "buildable S bs"
  shows "heap_inv (mk_heap S bs) bs" "unat (start_address (heap (mk_heap S bs))) = S"
    "unat (end_address (heap (mk_heap S bs))) = S + span bs"
    "16 \<le> S \<Longrightarrow> left_readable (mk_heap S bs) []"
proof -
  have len: "S + span bs < 2 ^ 64" using assms by (simp add: buildable_def)
  note t = build_tiles [OF assms, of "\<lambda>_. 0"]
  show st: "unat (start_address (heap (mk_heap S bs))) = S" "unat (end_address (heap (mk_heap S bs))) = S + span bs"
    using len unat_pos [of "S + span bs"] by (simp_all add: mk_heap_def unat_pos del: of_nat_add)
  have cnt: "32 * length (holes S bs) \<le> span bs" using holes_count t by blast
  have oa: "oa_list (index (heap (mk_heap S bs))) = map of_nat (holes S bs)"
  proof (intro nth_equalityI)
    have l: "length (holes S bs) < 2 ^ 64" using cnt len by simp
    show "length (oa_list (index (heap (mk_heap S bs)))) = length (map of_nat (holes S bs))"
      using unat_pos [OF l] by (simp add: mk_heap_def)
    fix i assume "i < length (oa_list (index (heap (mk_heap S bs))))"
    then have i: "i < length (holes S bs)" using unat_pos [OF l] by (simp add: mk_heap_def)
    then have "unat (of_nat i :: u64) = i" using l by (intro unat_pos) simp
    then show "oa_list (index (heap (mk_heap S bs))) ! i = map of_nat (holes S bs) ! i"
      using i unat_pos [OF l] by (simp add: oa_list_def mk_heap_def)
  qed
  have map: "map unat (map (of_nat :: nat \<Rightarrow> u64) (holes S bs)) = holes S bs"
    unfolding map_map
  proof (rule map_idI)
    fix q assume "q \<in> set (holes S bs)"
    then have "q < 2 ^ 64" using holes_range [of "build S bs (\<lambda>_. 0)" S bs q] t len by simp
    then show "(unat \<circ> (of_nat :: nat \<Rightarrow> u64)) q = q" using unat_pos by simp
  qed
  have hm: "hmem (mk_heap S bs) = build S bs (\<lambda>_. 0)" by (simp add: mk_heap_def)
  show "heap_inv (mk_heap S bs) bs"
    unfolding heap_inv_def st oa map hm using t by blast
  show "left_readable (mk_heap S bs) []" if S: "16 \<le> S"
  proof -
    have sb: "same_bytes (\<lambda>_. 0) (build S bs (\<lambda>_. 0)) (S - 16) S" using t same_outside_bytes by blast
    have "S - 16 + 16 \<le> S" "S - 16 + 16 \<le> 2 ^ 64" using S len by linarith+
    from getters_same_bytes(4) [OF sb order_refl this]
    have "ftr_magic (hmem (mk_heap S bs)) (of_nat (S - 16)) = 0"
      unfolding hm by (simp only:) (simp add: ftr_magic_def load_u32_def)
    moreover have "start_address (heap (mk_heap S bs)) - 16 = of_nat (S - 16)"
      unfolding of_nat_minus_16 [OF S, symmetric] by (simp add: mk_heap_def)
    moreover have "16 \<le> start_address (heap (mk_heap S bs))"
      using S st(1) by (simp add: word_le_nat_alt)
    ultimately show ?thesis unfolding left_readable_def by (simp only: simp_thms if_True) simp
  qed
qed

text \<open>A hole of a list whose last hole is known is that one or lies before it.\<close>

lemma last_hole_split:
  assumes "as @ (n, k) # us = as' @ (n', k') # bs'" and "k' \<noteq> Used" and "\<forall>(n, k) \<in> set us. k = Used"
  shows "as' = as \<or> (\<exists>vs. as = as' @ (n', k') # vs)"
proof -
  consider ws where "as = as' @ ws" "ws @ (n, k) # us = (n', k') # bs'"
    | ws where "as' = as @ ws" "(n, k) # us = ws @ (n', k') # bs'"
    using assms(1) by (auto simp: append_eq_append_conv2)
  then show ?thesis
  proof cases
    case 1
    then show ?thesis by (cases ws) auto
  next
    case 2
    have "ws = []"
    proof (rule ccontr)
      assume "ws \<noteq> []"
      then have "(n', k') \<in> set us" using 2(2) by (cases ws) auto
      then show False using assms(2,3) by auto
    qed
    then show ?thesis using 2 by simp
  qed
qed

text \<open>
  Freeing a block with a block in use (or nothing) on its left and a hole with more behind it on its
  right, in full: only the header of the freed block changes, and the merged hole is indexed.
\<close>

lemma kheap_free_right:
  assumes inv: "heap_inv st (as @ (n, Used) # (r, k) # us)" and k: "k \<noteq> Used" and us: "us \<noteq> []"
    and left: "left_readable st as" "as = [] \<or> snd (last as) = Used"
  defines "p \<equiv> unat (start_address (heap st)) + span as"
  shows "hmem (kheap_free (of_nat (p + 16)) st) =
    set_hdr_size (of_nat p) (of_nat (n + r)) (set_hdr_is_hole (of_nat p) 1 (hmem st))"
proof -
  let ?S = "unat (start_address (heap st))"
  have t: "tiles (hmem st) ?S (as @ (n, Used) # (r, k) # us)" using inv by (simp add: heap_inv_def)
  then have b: "block_at (hmem st) p n Used" "block_at (hmem st) (p + n) r k" by (simp_all add: p_def add.assoc)
  then have len: "32 \<le> n" "32 \<le> r" "p + n + r < 2 ^ 64" by (simp_all add: block_at_def)
  define st3 where "st3 = upd_mem (set_hdr_is_hole (of_nat p) 1) st"
  have t3: "tiles (hmem st3) ?S (as @ (n, Hole) # (r, k) # us)"
    using mark_hole_tiles(1) [OF t] by (simp add: st3_def p_def)
  have left3: "left_readable st3 as" using left_readable_mark [OF inv left(1)] by (simp add: st3_def p_def)
  have ml: "merge_left as n = (as, n)" using left(2) by (auto simp: merge_left_def)
  have "?S = unat (start_address (heap st3))" by (simp add: st3_def)
  from unify_left_step [OF t3 this left3] have
    ul: "unify_left (of_nat p) (of_nat (p + n - 16)) st3 = (of_nat p, True, upd_mem id st3)"
    by (auto simp: ml p_def)
  have id: "upd_mem id st3 = st3" by (simp add: upd_mem_def)
  have hr: "hole_right ((r, k) # us)" using k by (simp add: hole_right_def)
  have "of_nat (p + n) \<in> set (oa_list (index (heap st3)))"
    using heap_inv_index(2) [OF inv, of "of_nat (p + n)"] unat_pos [of "p + n"] len k
    by (simp add: st3_def p_def add.assoc)
  moreover have "oa_room (index (heap st3))" using heap_inv_room(2) [OF inv] by (simp add: st3_def)
  moreover have "merge_right n ((r, k) # us) = (n + r, Bare, us)" using k by simp
  ultimately obtain st5 where
    ur: "unify_right (of_nat p) (of_nat (p + n - 16)) st3 = (of_nat (p + (n + r) - 16), st5)"
    and m5: "hmem st5 = set_hdr_size (of_nat p) (of_nat (n + r)) (hmem st3)" "end_address (heap st5) = end_address (heap st)"
    using unify_right_step [OF t3, of "n + r" Bare us] hr by (auto simp: p_def st3_def)
  have "0 < span us" using t us by (cases us) (auto simp: block_at_def)
  then have lt: "p + (n + r) < unat (end_address (heap st))" using inv by (simp add: heap_inv_def p_def add.assoc)
  then have "p + (n + r) < 18446744073709551616" using unat_lt_64 [of "end_address (heap st)"] by (simp only:)
  then have "unat (of_nat (p + (n + r)) :: u64) = p + (n + r)" by (intro unat_pos) simp
  moreover have "of_nat (p + (n + r) - 16) + 16 = (of_nat (p + (n + r)) :: u64)" using len by (simp add: of_nat_diff)
  ultimately have "of_nat (p + (n + r) - 16) + 16 \<noteq> end_address (heap st5)" using lt m5(2) by (metis less_irrefl)
  then have "free_contract (of_nat p) (of_nat (p + (n + r) - 16)) (of_nat (p + n)) st5 = st5"
    by (rule free_contract_inner)
  moreover note kheap_free_eq [OF inv, folded p_def, folded st3_def, OF ul [unfolded id] ur]
  ultimately show ?thesis using m5(1) by (simp add: p_def [symmetric] st3_def del: of_nat_add)
qed

section \<open>Properties\<close>

text \<open>
  C5: \<open>alloc\<close> without page alignment always returns when some hole fits, or the heap may
  grow and its last block is free (or no block is). The result is a new block with room for the
  request, at most 31 bytes too large, apart from all blocks in use; these stay where they are
  with all their bytes, and the heap's invariant holds again.
\<close>

theorem alloc_correct:
  assumes "heap_inv st bs" and "unat sz + 32 < 2 ^ 64" and "has_room st bs (unat sz + 32)"
  shows "\<exists>a st' bs' m. alloc sz 0 st = Some (a, st') \<and> heap_inv st' bs' \<and> 16 \<le> unat a \<and>
    unat sz + 32 \<le> m \<and> m < unat sz + 64 \<and> adds_block st bs st' bs' (unat a - 16) m"
  by (rule alloc_spec [OF assms])

theorem alloc_correct_witness:
  "\<exists>a st' bs' m. alloc 100 0 sample_heap = Some (a, st') \<and> heap_inv st' bs' \<and> 132 \<le> m \<and> m < 164 \<and>
     adds_block sample_heap [(0x17000, Bare)] st' bs' (unat a - 16) m"
proof -
  have "has_room sample_heap [(0x17000, Bare)] (unat (100 :: u64) + 32)" by (simp add: has_room_def)
  then show ?thesis using alloc_correct [OF sample_heap_facts(1), of 100] by auto
qed

text \<open>
  C35: When some hole fits, \<open>alloc\<close> without page alignment cuts the block from the first
  hole of the index that is large enough: the entries before it are all too small. If moreover the
  index is sorted by size, which the merging done by \<open>free\<close> inside a hole does not
  guarantee, no hole with room for the request is smaller than the one taken.
\<close>

theorem alloc_takes_smallest_hole:
  assumes "heap_inv st bs" and "unat sz + 32 < 2 ^ 64"
    and "(n0, k0) \<in> set bs" and "k0 \<noteq> Used" and "unat sz + 32 \<le> n0"
  defines "l \<equiv> oa_list (index (heap st))"
  shows "\<exists>i a st' as n k bs'. alloc sz 0 st = Some (a, st') \<and> i < length l \<and> l ! i = a - 16 \<and>
    (\<forall>j < i. unat (hdr_size (hmem st) (l ! j)) < unat sz + 32) \<and>
    bs = as @ (n, k) # bs' \<and> k \<noteq> Used \<and> unat sz + 32 \<le> n \<and>
    unat a = unat (start_address (heap st)) + span as + 16 \<and>
    (sorted (map (hdr_size (hmem st)) l) \<longrightarrow>
      (\<forall>(n', k') \<in> set bs. k' \<noteq> Used \<and> unat sz + 32 \<le> n' \<longrightarrow> n \<le> n'))"
proof -
  obtain i a st' as n k bs' where f: "alloc sz 0 st = Some (a, st')" "i < length l" "l ! i = a - 16"
    "\<forall>j < i. unat (hdr_size (hmem st) (l ! j)) < unat sz + 32" "bs = as @ (n, k) # bs'" "k \<noteq> Used"
    "unat sz + 32 \<le> n" "unat (hdr_size (hmem st) (a - 16)) = n"
    "unat a = unat (start_address (heap st)) + span as + 16"
    using alloc_takes_first [OF assms(1-5)] unfolding l_def by blast
  have "sorted (map (hdr_size (hmem st)) l) \<longrightarrow>
      (\<forall>(n', k') \<in> set bs. k' \<noteq> Used \<and> unat sz + 32 \<le> n' \<longrightarrow> n \<le> n')"
    using first_is_smallest [OF assms(1) _ f(2) [unfolded l_def] f(4) [unfolded l_def]] f(3,8)
    unfolding l_def by (metis (mono_tags, lifting) case_prodI2)
  with f show ?thesis by blast
qed

theorem alloc_takes_smallest_hole_witness:
  "\<exists>a st'. alloc 100 0 (mk_heap 0xC0209000 [(4096, Used), (4096, Hole), (4096, Used)]) = Some (a, st') \<and>
     unat a = 0xC020A010"
proof -
  let ?bs = "[(4096, Used), (4096, Hole), (4096, Used)] :: blocks"
  let ?st = "mk_heap 0xC0209000 ?bs"
  have b: "buildable 0xC0209000 ?bs" by (simp add: buildable_def)
  note inv = mk_heap_inv(1,2) [OF b]
  from alloc_takes_smallest_hole [OF inv(1), of 100 4096 Hole] obtain a st' as n k bs' where
    "alloc 100 0 ?st = Some (a, st')" "?bs = as @ (n, k) # bs'" "k \<noteq> Used"
    "unat a = 0xC0209000 + span as + 16" using inv(2) by auto
  moreover from this(2,3) have "span as = 4096"
    by (auto simp: append_eq_Cons_conv Cons_eq_append_conv)
  ultimately show ?thesis by auto
qed

text \<open>
  C6: \<open>free\<close> of a block in use, when the neighbours can be read and a shrinking heap keeps room
  for the last hole: the block goes, merged with the holes next to it; all other blocks in use stay
  where they are with all their bytes, the invariant holds again (every hole in the index, once)
  and no complaint is printed.
\<close>

theorem free_correct:
  assumes "heap_inv st (as @ (n, Used) # us)" and "free_ok st as n us"
  defines "p \<equiv> unat (start_address (heap st)) + span as"
  shows "heap_inv (kheap_free (of_nat (p + 16)) st) (freed as n us) \<and>
    removes_block st (as @ (n, Used) # us) (kheap_free (of_nat (p + 16)) st) (freed as n us) p n \<and>
    (console (kheap_free (of_nat (p + 16)) st) = console st \<or>
     console (kheap_free (of_nat (p + 16)) st) = console st @ [''contracting''])"
  using kheap_free_spec [OF assms(1)] assms(2) by (simp add: free_ok_def p_def)

theorem free_correct_witness:
  "heap_inv (kheap_free 0xC0209050 (mk_heap 0xC0209000 [(64, Used), (64, Used), (64, Hole), (64, Used)]))
     [(64, Used), (128, Bare), (64, Used)]"
proof -
  let ?bs = "[(64, Used), (64, Used), (64, Hole), (64, Used)] :: blocks"
  let ?st = "mk_heap 0xC0209000 ?bs"
  have b: "buildable 0xC0209000 ?bs" by (simp add: buildable_def)
  note m = mk_heap_inv(1-3) [OF b]
  have "free_ok ?st [(64, Used)] 64 [(64, Hole), (64, Used)]"
    using m(3) by (simp add: free_ok_def left_readable_def shrink_ok_def merge_left_def)
  from free_correct [of ?st "[(64, Used)]" 64 "[(64, Hole), (64, Used)]", OF _ this]
  show ?thesis using m(1,2) by (simp add: freed_def merge_left_def)
qed

text \<open>
  C4: Runs of \<open>alloc\<close> without page alignment, writes inside the areas held and
  \<open>free\<close>, in which every request fits (its size with header and footer is below
  \<open>2 ^ 64\<close>, and some hole is large enough or the heap may grow and has no hole or ends with
  one: \<open>kheap_fits\<close>) and every release is of an area held whose block can be released
  (what lies left of the block reads as a footer that tells the truth or as none, a last block has
  no header behind the heap's end, and a heap that shrinks keeps room for its last hole:
  \<open>kheap_freeable\<close>): no two areas held overlap, and every byte written is read back
  until its area is freed. Requests outside \<open>kheap_fits\<close> can overlap areas in use
  (\<open>alloc_overlaps_used_block\<close>).
\<close>

theorem kheap_runs_safe:
  assumes "heap_run kheap_fits kheap_freeable (\<lambda>sz. alloc sz 0) kheap_free kheap_poke st0 st own g"
    and "heap_inv st0 bs0"
  shows "(\<forall>(a, n) \<in> own. \<forall>(b, k) \<in> own. (a, n) \<noteq> (b, k) \<longrightarrow> a + n \<le> b \<or> b + k \<le> a) \<and>
    (\<forall>(a, n) \<in> own. \<forall>x v. a \<le> unat x \<and> unat x < a + n \<and> g x = Some v \<longrightarrow> hmem st x = v)"
proof -
  have "kheap_rep st0 (set (allocs (unat (start_address (heap st0))) bs0))"
    using assms(2) by (auto simp: kheap_rep_def)
  then show ?thesis using kh.run_safe [OF assms(1)] by blast
qed

theorem kheap_runs_safe_witness:
  "\<exists>st a. heap_run kheap_fits kheap_freeable (\<lambda>sz. alloc sz 0) kheap_free kheap_poke sample_heap
     (kheap_poke a 7 st) {(unat a, 100)} ((\<lambda>x. None)(a \<mapsto> 7)) \<and> hmem (kheap_poke a 7 st) a = 7"
proof -
  have "has_room sample_heap [(0x17000, Bare)] (unat (100 :: u64) + 32)" by (simp add: has_room_def)
  then have fits: "kheap_fits sample_heap 100" using sample_heap_facts(1) by (auto simp: kheap_fits_def)
  obtain a st where a: "alloc 100 0 sample_heap = Some (a, st)"
    using alloc_spec [OF sample_heap_facts(1), of 100] \<open>has_room _ _ _\<close> by auto
  have "heap_run kheap_fits kheap_freeable (\<lambda>sz. alloc sz 0) kheap_free kheap_poke sample_heap sample_heap {} Map.empty"
    by (rule heap_run_start)
  then have r: "heap_run kheap_fits kheap_freeable (\<lambda>sz. alloc sz 0) kheap_free kheap_poke sample_heap st
      {(unat a, 100)} (\<lambda>x. None)"
    using heap_run_alloc [where fits = kheap_fits and alloc = "\<lambda>sz. alloc sz 0" and freeable = kheap_freeable
        and release = kheap_free and poke = kheap_poke and g = Map.empty and own = "{}" and s = sample_heap
        and sz = 100 and a = a and s' = st and ?s0.0 = sample_heap] fits a
    by (simp cong: if_cong)
  have w: "heap_run kheap_fits kheap_freeable (\<lambda>sz. alloc sz 0) kheap_free kheap_poke sample_heap
      (kheap_poke a 7 st) {(unat a, 100)} ((\<lambda>x. None)(a \<mapsto> 7))"
    using heap_run_write [OF r, of "unat a" 100 a 7] by simp
  have "hmem (kheap_poke a 7 st) a = 7"
    using kheap_runs_safe [OF w sample_heap_facts(1)] by auto
  with w show ?thesis by blast
qed

text \<open>
  C36: \<open>alloc\<close> enlarges the hole at the highest address when no hole fits, also when a block in
  use lies behind it: it then returns an area that runs into that block.
\<close>

theorem alloc_overlaps_used_block:
  assumes "heap_inv st (as @ (n, k) # (u, Used) # us)" and "k \<noteq> Used" and "\<forall>(n, k) \<in> set us. k = Used"
    and "\<forall>(n', k') \<in> set as. k' \<noteq> Used \<longrightarrow> n' < unat sz + 32" and "n < unat sz + 32"
    and "can_grow st (unat sz + 32)"
  defines "p \<equiv> unat (start_address (heap st)) + span as"
  shows "\<exists>a st'. alloc sz 0 st = Some (a, st') \<and> unat a = p + 16 \<and>
    (p + n, u) \<in> set (allocs (unat (start_address (heap st))) (as @ (n, k) # (u, Used) # us)) \<and>
    p < p + n \<and> p + n < unat a + unat sz + 16"
proof -
  let ?S = "unat (start_address (heap st))" and ?need = "sz + 16 + 16" and ?bs = "as @ (n, k) # (u, Used) # us"
  have sz: "unat sz + 32 < 2 ^ 64" using assms(6) by (simp add: can_grow_def)
  have need: "unat ?need = unat sz + 32" using sz by (simp add: unat_add_small add.assoc)
  have used: "\<forall>(n, k) \<in> set ((u, Used) # us). k = Used" using assms(3) by simp
  define d where "d = grown_length st (unat sz + 32) - span ?bs"
  define st1 where "st1 = alloc_grow ?need st"
  note g = alloc_grow_endmost [OF assms(1,2) used assms(6) need, folded d_def p_def st1_def]
  have b: "block_at (hmem st) p n k" "block_at (hmem st) (p + n) u Used" using assms(1)
    by (simp_all add: heap_inv_def p_def add.assoc)
  then have len: "32 \<le> n" "32 \<le> u" "p + n + u < 2 ^ 64" by (simp_all add: block_at_def)
  have "\<not> (\<exists>(n, k) \<in> set ?bs. k \<noteq> Used \<and> unat sz + 32 \<le> n)" using assms(3,4,5) by auto
  then have "find_smallest_hole ?need 0 st = - 1" using find_smallest_hole_found [OF assms(1) sz] by blast
  then have step: "alloc sz 0 st = alloc sz 0 st1" by (subst alloc.simps) (simp add: st1_def)
  have ix: "index (heap st1) = index (heap st)" and mem: "hmem st1 = enlarge p (n + d) (hmem st)"
    using g(1) by simp_all
  have "p + n + u + span us = unat (end_address (heap st))" using assms(1) by (simp add: heap_inv_def p_def)
  then have top: "p + (n + d) + 32 < 2 ^ 64" using g(3) len(2) unat_lt_64 [of "end_address (heap st1)"] by simp
  have "apart (of_nat (p + (n + d) - 16)) (of_nat p)" using len top by (intro apart_of_nat) simp_all
  then have hp: "hdr_size (hmem st1) (of_nat p) = of_nat (n + d)" by (simp add: mem enlarge_def fields del: of_nat_add of_nat_diff)
  have so: "same_outside (hmem st) (hmem st1) p (p + (n + d))"
    using len top unfolding mem enlarge_def o_apply by (intro same_outside_setters same_outside_refl; simp)
  have room: "oa_room (index (heap st1))" using heap_inv_room(2) [OF assms(1)] by (simp add: ix)
  have "p < 2 ^ 64" using len by simp
  have mem_p: "of_nat p \<in> set (oa_list (index (heap st1)))"
    unfolding ix heap_inv_index(2) [OF assms(1)] unat_pos [OF \<open>p < 2 ^ 64\<close>] using assms(2) by (simp add: p_def)
  have fits_p: "hole_fits (hmem st1) ?need 0 (of_nat p)"
    using need g(2) top hp unat_pos [of "n + d"] by (simp add: hole_fits_plain word_le_nat_alt del: of_nat_add)
  define r where "r = find_smallest_hole ?need 0 st1"
  have r: "r \<noteq> - 1" "r < oa_size (index (heap st))" "hole_fits (hmem st1) ?need 0 (lookup_ordered_array r (index (heap st)))"
    using find_smallest_hole_spec [OF room, of ?need 0] mem_p fits_p unfolding r_def ix by blast+
  obtain as' n' k' bs' where e: "?bs = as' @ (n', k') # bs'" "k' \<noteq> Used"
    "lookup_ordered_array r (index (heap st)) = of_nat (?S + span as')" "block_at (hmem st) (?S + span as') n' k'"
    using heap_inv_entry [OF assms(1) r(2)] by blast
  have "as' = as"
  proof (rule ccontr)
    assume ne: "as' \<noteq> as"
    then obtain vs where vs: "as = as' @ (n', k') # vs"
      using last_hole_split [OF e(1) e(2) used] by blast
    then have le: "?S + span as' + n' \<le> p" by (simp add: p_def)
    have "same_bytes (hmem st) (hmem st1) (?S + span as') (?S + span as' + n')"
      using so by (rule same_outside_bytes) (rule disjI1 [OF le])
    from block_at_same_bytes [OF this e(4)] have "block_at (hmem st1) (?S + span as') n' k'" .
    then have "unat sz + 32 \<le> n'"
      using r(3) need unfolding e(3) by (simp add: hole_fits_plain block_at_def word_le_nat_alt unat_pos)
    then show False using assms(4) vs e(2) by auto
  qed
  then have "fst (alloc_from r sz ?need 0 st1) = of_nat (p + 16)"
    using e(3) by (simp add: alloc_from_def Let_def ix p_def split: prod.split)
  moreover have "alloc sz 0 st1 = Some (alloc_from r sz ?need 0 st1)"
    using r(1) by (subst alloc.simps) (simp add: r_def)
  moreover have "unat (of_nat (p + 16) :: u64) = p + 16" using len by (intro unat_pos) simp
  ultimately show ?thesis using step assms(5) len by (cases "alloc_from r sz ?need 0 st1") (auto simp: p_def add.assoc)
qed

theorem alloc_overlaps_used_block_witness:
  "\<exists>a st'. alloc 100 0 (mk_heap 0xC0209000 [(64, Hole), (64, Used)]) = Some (a, st') \<and> unat a = 0xC0209010 \<and>
     0xC0209040 < unat a + 116"
proof -
  have b: "buildable 0xC0209000 [(64, Hole), (64, Used)]" by (simp add: buildable_def)
  note m = mk_heap_inv(1-3) [OF b]
  have "can_grow (mk_heap 0xC0209000 [(64, Hole), (64, Used)]) (unat (100 :: u64) + 32)"
    using m(2,3) by (simp add: can_grow_def)
  then show ?thesis
    using alloc_overlaps_used_block [of "mk_heap 0xC0209000 [(64, Hole), (64, Used)]" "[]" 64 Hole 64 "[]" 100] m
    by simp
qed

text \<open>Some hole of the index covers the address \<open>p\<close>.\<close>

definition hole_covers :: "kheap_state \<Rightarrow> nat \<Rightarrow> bool" where
  "hole_covers st p \<longleftrightarrow>
     (\<exists>x \<in> set (oa_list (index (heap st))). unat x \<le> p \<and> p < unat x + unat (hdr_size (hmem st) x))"

text \<open>
  C37: After \<open>free\<close> has merged a block with the hole on its right, the hole's footer still points
  to the header inside the hole. When the block behind is freed next, its memory is lost: it is marked
  as a hole, but no hole of the index covers it.
\<close>

theorem free_stale_footer_leaks:
  assumes inv: "heap_inv st (as @ (n1, Used) # (n2, Hole) # (n3, Used) # (n4, Used) # us)"
    and left: "left_readable st as" "as = [] \<or> snd (last as) = Used"
  defines "p1 \<equiv> unat (start_address (heap st)) + span as"
  defines "p3 \<equiv> p1 + n1 + n2"
  defines "st' \<equiv> kheap_free (of_nat (p3 + 16)) (kheap_free (of_nat (p1 + 16)) st)"
  shows "hdr_is_hole (hmem st') (of_nat p3) = 1 \<and> \<not> hole_covers st' p3"
proof -
  let ?S = "unat (start_address (heap st))"
  define st1 where "st1 = kheap_free (of_nat (p1 + 16)) st"
  define p2 where "p2 = p1 + n1"
  have b: "block_at (hmem st) p1 n1 Used" "block_at (hmem st) p2 n2 Hole" "block_at (hmem st) p3 n3 Used"
    "block_at (hmem st) (p3 + n3) n4 Used"
    using inv by (simp_all add: heap_inv_def p1_def p2_def p3_def add.assoc)
  then have len: "32 \<le> n1" "32 \<le> n2" "32 \<le> n3" "p3 + n3 + n4 < 2 ^ 64" "32 \<le> n4" by (simp_all add: block_at_def)
  have ml: "merge_left as n1 = (as, n1)" using left(2) by (auto simp: merge_left_def)
  have st1: "heap_inv st1 (as @ (n1 + n2, Bare) # (n3, Used) # (n4, Used) # us)"
    "start_address (heap st1) = start_address (heap st)"
    using kheap_free_spec [OF inv left(1)]
    by (simp_all add: st1_def p1_def freed_def shrink_ok_def ml removes_block_def Let_def)
  have m1: "hmem st1 = set_hdr_size (of_nat p1) (of_nat (n1 + n2)) (set_hdr_is_hole (of_nat p1) 1 (hmem st))"
    using kheap_free_right [OF inv _ _ left] by (simp add: st1_def p1_def)
  define st3 where "st3 = upd_mem (set_hdr_is_hole (of_nat p3) 1) st1"
  have ap: "apart (of_nat p1) (of_nat p2)" "apart (of_nat p1) (of_nat (p3 - 16))" "apart (of_nat p3) (of_nat p2)"
    "apart (of_nat p3) (of_nat (p3 - 16))" "apart (of_nat p1) (of_nat p3)" "apart (of_nat p2) (of_nat p3)"
    "apart (of_nat (p3 + n3 - 16)) (of_nat p3)" "apart (of_nat (p3 + n3 - 16)) (of_nat p2)"
    "apart (of_nat p1) (of_nat (p3 + n3))" "apart (of_nat p2) (of_nat (p3 + n3))" "apart (of_nat p3) (of_nat (p3 + n3))"
    "apart (of_nat (p3 + n3 - 16)) (of_nat (p3 + n3))" "apart (of_nat p2) (of_nat p1)" "apart (of_nat p3) (of_nat p1)"
    "apart (of_nat (p3 + n3 - 16)) (of_nat p1)"
    using len by (intro apart_of_nat; simp add: p2_def p3_def)+
  have f16: "of_nat p3 - 16 = (of_nat (p3 - 16) :: u64)" using len by (intro of_nat_minus_16) (simp add: p3_def)
  have ftr: "ftr_magic (hmem st3) (of_nat (p3 - 16)) = HEAP_MAGIC" "ftr_header (hmem st3) (of_nat (p3 - 16)) = of_nat p2"
    using b(2) ap by (simp_all add: st3_def m1 fields block_at_def p2_def p3_def del: of_nat_add of_nat_diff)
  have hd2: "hdr_is_hole (hmem st3) (of_nat p2) = 1" "hdr_size (hmem st3) (of_nat p3) = of_nat n3"
    using b(2,3) ap by (simp_all add: st3_def m1 fields block_at_def del: of_nat_add of_nat_diff)
  define F where "F = (\<lambda>m. set_hdr_size (of_nat p2) (hdr_size m (of_nat p2) + of_nat n3) m) \<circ>
    set_ftr_header (of_nat (p3 + n3 - 16)) (of_nat p2)"
  define st4 where "st4 = upd_mem F st3"
  have ul: "unify_left (of_nat p3) (of_nat (p3 + n3 - 16)) st3 = (of_nat p2, False, st4)"
    unfolding unify_left_def Let_def f16 using ftr hd2 by (simp add: st4_def F_def)
  have th: "of_nat (p3 + n3 - 16) + 16 = (of_nat (p3 + n3) :: u64)" using len by (simp add: of_nat_diff)
  have "hdr_is_hole (hmem st4) (of_nat (p3 + n3)) = 0"
    using b(4) ap by (simp add: st4_def F_def st3_def m1 fields block_at_def del: of_nat_add of_nat_diff)
  then have ur: "unify_right (of_nat p2) (of_nat (p3 + n3 - 16)) st4 = (of_nat (p3 + n3 - 16), st4)"
    unfolding unify_right_def Let_def th by simp
  have E: "p3 + n3 + n4 + span us = unat (end_address (heap st1))"
    using st1 by (simp add: heap_inv_def p1_def p3_def add.assoc)
  have "unat (of_nat (p3 + n3) :: u64) = p3 + n3" using len by (intro unat_pos) simp
  then have "of_nat (p3 + n3 - 16) + 16 \<noteq> end_address (heap st4)"
    unfolding th using E len(5) by (auto simp: st4_def st3_def)
  then have "free_contract (of_nat p2) (of_nat (p3 + n3 - 16)) (of_nat (p3 + n3)) st4 = st4"
    by (rule free_contract_inner)
  moreover have "heap_inv st1 ((as @ [(n1 + n2, Bare)]) @ (n3, Used) # (n4, Used) # us)" using st1(1) by simp
  moreover have p3': "unat (start_address (heap st1)) + span (as @ [(n1 + n2, Bare)]) = p3"
    by (simp add: st1 p1_def p3_def)
  ultimately have st': "st' = st4"
    using kheap_free_eq [of st1 "as @ [(n1 + n2, Bare)]" n3 "(n4, Used) # us" "of_nat p2" False st4 "of_nat (p3 + n3 - 16)" st4,
        unfolded p3', folded st3_def, OF _ ul ur]
    by (simp add: st'_def st1_def)
  have lost: "hdr_is_hole (hmem st') (of_nat p3) = 1"
    using ap by (simp add: st' st4_def F_def st3_def fields del: of_nat_add of_nat_diff)
  have size1: "hdr_size (hmem st') (of_nat p1) = of_nat (n1 + n2)"
    using ap by (simp add: st' st4_def F_def st3_def m1 fields del: of_nat_add of_nat_diff)
  have so: "same_outside (hmem st) (hmem st') p1 (p3 + n3)"
    unfolding st' st4_def F_def st3_def m1 kheap_frame o_apply
    using len by (intro same_outside_setters same_outside_refl; simp add: p2_def p3_def)
  have "\<not> (unat x \<le> p3 \<and> p3 < unat x + unat (hdr_size (hmem st') x))" if x: "x \<in> set (oa_list (index (heap st')))" for x
  proof -
    have "x \<in> set (oa_list (index (heap st1)))" using x by (simp add: st' st4_def st3_def)
    then have "unat x \<in> set (holes ?S (as @ (n1 + n2, Bare) # (n3, Used) # (n4, Used) # us))"
      using heap_inv_index(2) [OF st1(1)] by (simp add: st1(2))
    then consider "unat x \<in> set (holes ?S as)" | "unat x = p1" | "unat x \<in> set (holes (p3 + n3 + n4) us)"
      by (auto simp: p1_def p3_def add.assoc)
    then show ?thesis
    proof cases
      case 1
      then obtain as0 l k bs0 where s: "as = as0 @ (l, k) # bs0" "unat x = ?S + span as0" using holes_split by blast
      then have le: "?S + span as0 + l \<le> p1" by (simp add: p1_def)
      have blk: "block_at (hmem st) (?S + span as0) l k" using inv s(1) by (simp add: heap_inv_def)
      have "same_bytes (hmem st) (hmem st') (?S + span as0) (?S + span as0 + l)"
        using so by (rule same_outside_bytes) (rule disjI1 [OF le])
      from block_at_same_bytes [OF this blk] have blk': "block_at (hmem st') (unat x) l k" by (simp add: s(2))
      then have "hdr_size (hmem st') x = of_nat l" "l < 2 ^ 64" by (simp_all add: block_at_def)
      then have "unat (hdr_size (hmem st') x) = l" using unat_pos by simp
      then show ?thesis using le s(2) len by (simp add: p3_def)
    next
      case 2
      then have "x = of_nat p1" by (metis of_nat_unat ucast_id)
      moreover have "unat (of_nat (n1 + n2) :: u64) = n1 + n2" using len by (intro unat_pos) (simp add: p3_def)
      ultimately show ?thesis using 2 size1 by (simp add: p3_def)
    next
      case 3
      have "tiles (hmem st1) (p3 + n3 + n4) us" using st1 by (simp add: heap_inv_def p1_def p3_def add.assoc)
      from holes_range [OF this 3] show ?thesis using len(5) by simp
    qed
  qed
  with lost show ?thesis unfolding hole_covers_def by blast
qed

theorem free_stale_footer_leaks_witness:
  "\<not> hole_covers (kheap_free 0xC0209090
      (kheap_free 0xC0209010 (mk_heap 0xC0209000 [(64, Used), (64, Hole), (64, Used), (64, Used)]))) 0xC0209080"
proof -
  let ?bs = "[(64, Used), (64, Hole), (64, Used), (64, Used)] :: blocks"
  have b: "buildable 0xC0209000 ?bs" by (simp add: buildable_def)
  note m = mk_heap_inv(1,2) [OF b] mk_heap_inv(4) [OF b]
  show ?thesis
    using free_stale_footer_leaks [of "mk_heap 0xC0209000 ?bs" "[]" 64 64 64 64 "[]"] m by simp
qed

text \<open>
  Before the heap exists, \<open>kmalloc\<close> passes a size that is not a multiple of the page size
  on as a number of pages rounded down, too few for the request, and a multiple of the page size as
  it is, a number of bytes where pages are meant.
\<close>

lemma early_kmalloc_pages:
  assumes "sz \<noteq> 0" and "unat sz < 2 ^ 32"
  shows "\<exists>pages. kmalloc_int akp sz al None = Some (akp pages, None) \<and>
    (if unat sz mod 4096 = 0 then pages = sz else unat pages = unat sz div 4096 \<and> unat pages * 4096 < unat sz)"
proof (cases "unat sz mod 4096 = 0")
  case True
  then have "sz AND 0xFFF = 0" using and_page_mask [of sz] by (simp add: unat_eq_zero)
  then show ?thesis using assms(1) True by (simp add: kmalloc_int_def)
next
  case False
  then have nz: "sz AND 0xFFF \<noteq> 0" using and_page_mask [of sz] by auto
  have "unat ((sz AND 0xFFFFF000) div 0x1000) = (unat sz - unat sz mod 4096) div 4096"
    using and_page_number_mask [OF assms(2)] by (simp add: unat_div)
  also have "\<dots> = unat sz div 4096" by (simp add: minus_mod_eq_mult_div)
  finally have "unat ((sz AND 0xFFFFF000) div 0x1000) = unat sz div 4096" .
  moreover have "unat sz div 4096 * 4096 < unat sz"
    using False div_mult_mod_eq [of "unat sz" 4096] by linarith
  ultimately show ?thesis using nz assms(1) False
    by (intro exI [of _ "(sz AND 0xFFFFF000) div 0x1000"]) (simp add: kmalloc_int_def Let_def)
qed

lemma early_kmalloc_of_100_bytes:
  "kmalloc_int (\<lambda>n. 0xC0300000 + 0x1000 * n) 100 0 None = Some (0xC0300000, None)"
proof -
  obtain pages where "kmalloc_int (\<lambda>n. 0xC0300000 + 0x1000 * n) 100 0 None = Some (0xC0300000 + 0x1000 * pages, None)"
    "unat pages = 0"
    using early_kmalloc_pages [of 100 "\<lambda>n. 0xC0300000 + 0x1000 * n" 0] by auto
  then show ?thesis by (simp add: unat_eq_zero)
qed

end
