(* ===== verification/Links.thy ===== *)
theory Links
  imports Prelude
begin

text \<open>
  Singly linked lists in a store: the kernel keeps its tasks and the processes that wait for a lock in
  lists of nodes linked by address, ended by the null pointer. \<open>list_path\<close> says that the nodes
  at the addresses \<open>xs\<close>, in this order, are the list that starts at \<open>p\<close>; \<open>nxt\<close> reads
  the link of a node.
\<close>

fun list_path :: "('a \<Rightarrow> u64) \<Rightarrow> (u64 \<rightharpoonup> 'a) \<Rightarrow> u64 \<Rightarrow> u64 list \<Rightarrow> bool" where
  "list_path nxt m p [] \<longleftrightarrow> p = 0"
| "list_path nxt m p (x # xs) \<longleftrightarrow> p = x \<and> x \<noteq> 0 \<and> (\<exists>t. m x = Some t \<and> list_path nxt m (nxt t) xs)"

lemma path_Some: "list_path nxt m p xs \<Longrightarrow> x \<in> set xs \<Longrightarrow> \<exists>t. m x = Some t"
  by (induction nxt m p xs rule: list_path.induct) auto

lemma path_nonzero: "list_path nxt m p xs \<Longrightarrow> x \<in> set xs \<Longrightarrow> x \<noteq> 0"
  by (induction nxt m p xs rule: list_path.induct) auto

lemma path_append: "list_path nxt m p (xs @ y # ys) \<Longrightarrow> list_path nxt m y (y # ys)"
  by (induction xs arbitrary: p) auto

lemma path_unique: "list_path nxt m p xs \<Longrightarrow> list_path nxt m p ys \<Longrightarrow> xs = ys"
proof (induction nxt m p xs arbitrary: ys rule: list_path.induct)
  case (1 nxt m p)
  then show ?case by (cases ys) auto
next
  case (2 nxt m p x xs)
  then show ?case by (cases ys) auto
qed

lemma path_distinct: "list_path nxt m p xs \<Longrightarrow> distinct xs"
proof (induction nxt m p xs rule: list_path.induct)
  case (2 nxt m p x xs)
  have "x \<notin> set xs"
  proof
    assume "x \<in> set xs"
    then obtain ys zs where xs: "xs = ys @ x # zs" by (meson split_list)
    then have "list_path nxt m x (x # zs)" using "2.prems" path_append [of nxt m p "x # ys" x zs] by simp
    moreover have "list_path nxt m x (x # xs)" using "2.prems" by simp
    ultimately show False using path_unique [of nxt m x "x # zs" "x # xs"] xs by simp
  qed
  with 2 show ?case by auto
qed simp

text \<open>A change of nodes off the path, or one that keeps the links.\<close>

lemma path_cong:
  "list_path nxt m p xs \<Longrightarrow> (\<And>x. x \<in> set xs \<Longrightarrow> map_option nxt (m' x) = map_option nxt (m x)) \<Longrightarrow>
     list_path nxt m' p xs"
proof (induction nxt m p xs rule: list_path.induct)
  case (2 nxt m p x xs)
  then obtain t where t: "m x = Some t" "list_path nxt m (nxt t) xs" by auto
  moreover obtain t' where "m' x = Some t'" "nxt t' = nxt t" using "2.prems"(2) [of x] t by auto
  ultimately show ?case using 2 by auto
qed simp

text \<open>A node linked behind the last one.\<close>

lemma path_snoc:
  "list_path nxt m p xs \<Longrightarrow> xs \<noteq> [] \<Longrightarrow> a \<noteq> 0 \<Longrightarrow> m' (last xs) = Some u \<Longrightarrow> nxt u = a \<Longrightarrow>
     m' a = Some t \<Longrightarrow> nxt t = 0 \<Longrightarrow>
     (\<And>x. x \<in> set xs \<Longrightarrow> x \<noteq> last xs \<Longrightarrow> map_option nxt (m' x) = map_option nxt (m x)) \<Longrightarrow>
     list_path nxt m' p (xs @ [a])"
proof (induction nxt m p xs rule: list_path.induct)
  case (2 nxt m p x xs)
  have d: "distinct (x # xs)" using "2.prems"(1) by (rule path_distinct)
  obtain v where v: "m x = Some v" "list_path nxt m (nxt v) xs" "p = x" "x \<noteq> 0" using "2.prems"(1) by auto
  show ?case
  proof (cases "xs = []")
    case True
    then show ?thesis using "2.prems" v by auto
  next
    case False
    then have l: "last (x # xs) = last xs" "x \<noteq> last xs" using d by (simp, metis distinct.simps(2) last_in_set)
    have "list_path nxt m' (nxt v) (xs @ [a])"
      by (rule "2.IH" [OF v(2) False]) (use "2.prems" l False in auto)
    moreover have "\<exists>v'. m' x = Some v' \<and> nxt v' = nxt v" using "2.prems"(8) [of x] l v(1) by auto
    ultimately show ?thesis unfolding append_Cons list_path.simps using v(3,4) by metis
  qed
qed simp

end
