(* ===== verification/Sched.thy ===== *)
theory Sched
  imports Links
begin

text \<open>
  The scheduler of \<open>kernel/scheduler.c\<close> with the process operations of \<open>kernel/fork.c\<close>
  and \<open>kernel/exit.c\<close>: tasks in a store by address, the list they form, round robin.
  A task pointer that points to no task is undefined behaviour in C, here \<open>None\<close>; so is
  a loop that does not end.
\<close>

section \<open>State\<close>

record task =
  t_pid :: u64
  t_rsp :: u64
  t_rbp :: u64
  t_rip :: u64
  t_pml4 :: u64
  t_status :: u8
  t_next :: u64

text \<open>
  The globals, the tasks by the addresses \<open>kmalloc\<close> returned for them, and the interrupt flag.
\<close>

record sched =
  current_task :: u64
  task_list :: u64
  next_pid :: u64
  tasks :: "u64 \<rightharpoonup> task"
  interrupts :: bool

text \<open>The registers a context switch loads: \<open>rip\<close>, \<open>rsp\<close>, \<open>rbp\<close> and \<open>cr3\<close>.\<close>

record cpu_context =
  c_rip :: u64
  c_rsp :: u64
  c_rbp :: u64
  c_cr3 :: u64

section \<open>Operations\<close>

definition upd_task :: "u64 \<Rightarrow> (task \<Rightarrow> task) \<Rightarrow> sched \<Rightarrow> sched" where
  "upd_task a f s = s\<lparr>tasks := (tasks s)(a := map_option f (tasks s a))\<rparr>"

definition new_pid :: "sched \<Rightarrow> u64 \<times> sched" where
  "new_pid s = (next_pid s, s\<lparr>next_pid := next_pid s + 1\<rparr>)"

text \<open>\<open>scheduler_init\<close>: \<open>a\<close> is the address \<open>kmalloc\<close> returns, \<open>cr3\<close> the current PML4.\<close>

definition scheduler_init :: "u64 \<Rightarrow> u64 \<Rightarrow> sched \<Rightarrow> sched" where
  "scheduler_init a cr3 s =
     (let (pid, s1) = new_pid s
      in s1\<lparr>current_task := a, task_list := a, interrupts := True,
            tasks := (tasks s1)(a \<mapsto> \<lparr>t_pid = pid, t_rsp = 0, t_rbp = 0, t_rip = 0, t_pml4 = cr3,
                                     t_status = 0, t_next = 0\<rparr>)\<rparr>)"

text \<open>\<open>while (tmp->next) tmp = tmp->next;\<close>\<close>

partial_function (option) last_task :: "(u64 \<rightharpoonup> task) \<Rightarrow> u64 \<Rightarrow> u64 option" where
  "last_task m tmp =
     (if m tmp = None then None
      else if t_next (the (m tmp)) \<noteq> 0 then last_task m (t_next (the (m tmp)))
      else Some tmp)"

definition add_task :: "u64 \<Rightarrow> sched \<Rightarrow> sched option" where
  "add_task new_task s =
     (if tasks s new_task = None then None
      else let (pid, s1) = new_pid s;
               s2 = upd_task new_task (\<lambda>t. t\<lparr>t_pid := pid, t_status := 0\<rparr>) s1
           in case last_task (tasks s2) (task_list s2) of
                None \<Rightarrow> None
              | Some tmp \<Rightarrow> Some (upd_task tmp (\<lambda>t. t\<lparr>t_next := new_task\<rparr>) s2))"

text \<open>\<open>do { ... } while (current_task->status != 0);\<close> from the task \<open>cur\<close>.\<close>

definition next_task :: "sched \<Rightarrow> u64 \<Rightarrow> u64 option" where
  "next_task s cur = map_option (\<lambda>t. if t_next t = 0 then task_list s else t_next t) (tasks s cur)"

partial_function (option) next_ready :: "sched \<Rightarrow> u64 \<Rightarrow> u64 option" where
  "next_ready s cur =
     (if next_task s cur = None then None
      else if tasks s (the (next_task s cur)) = None then None
      else if t_status (the (tasks s (the (next_task s cur)))) \<noteq> 0 then next_ready s (the (next_task s cur))
      else next_task s cur)"

text \<open>
  \<open>switch_task\<close>, called with the registers as it reads them. \<open>rip\<close> is the result of
  \<open>read_rip\<close>, which returns twice: \<open>0x12345\<close> is what the code puts into \<open>rax\<close>
  when it resumes a task. The result is the new state and the context loaded, or no context when the
  function returns.
\<close>

definition switch_task :: "u64 \<Rightarrow> u64 \<Rightarrow> u64 \<Rightarrow> sched \<Rightarrow> (sched \<times> cpu_context option) option" where
  "switch_task rip rsp rbp s =
     (if current_task s = 0 then Some (s, None)
      else if rip = 0x12345 then Some (s, None)
      else if tasks s (current_task s) = None then None
      else let s1 = upd_task (current_task s) (\<lambda>t. t\<lparr>t_rip := rip, t_rsp := rsp, t_rbp := rbp\<rparr>) s
           in case next_ready s1 (current_task s1) of
                None \<Rightarrow> None
              | Some a \<Rightarrow>
                  (case tasks s1 a of
                     None \<Rightarrow> None
                   | Some t \<Rightarrow> Some (s1\<lparr>current_task := a, interrupts := True\<rparr>,
                       Some \<lparr>c_rip = t_rip t, c_rsp = t_rsp t, c_rbp = t_rbp t, c_cr3 = t_pml4 t\<rparr>)))"

definition get_current_pid :: "sched \<Rightarrow> u64 option" where
  "get_current_pid s = map_option t_pid (tasks s (current_task s))"

definition get_current_task :: "sched \<Rightarrow> u64" where
  "get_current_task s = current_task s"

partial_function (option) change_status_from :: "u64 \<Rightarrow> u8 \<Rightarrow> u64 \<Rightarrow> sched \<Rightarrow> sched option" where
  "change_status_from pid status tmp s =
     (if tmp = 0 then Some s
      else if tasks s tmp = None then None
      else change_status_from pid status
             (t_next (the (tasks s tmp)))
             (if t_pid (the (tasks s tmp)) = pid then upd_task tmp (\<lambda>t. t\<lparr>t_status := status\<rparr>) s else s))"

definition change_task_status :: "u64 \<Rightarrow> u8 \<Rightarrow> sched \<Rightarrow> sched option" where
  "change_task_status pid status s = change_status_from pid status (task_list s) s"

section \<open>fork and exit\<close>

text \<open>
  \<open>fork\<close> as the parent runs it: \<open>a\<close> is the address \<open>kmalloc\<close> returns, \<open>pml4\<close> the
  result of \<open>clone_pml4t\<close>, \<open>rip\<close>, \<open>rsp\<close> and \<open>rbp\<close> the registers it reads. The
  child is resumed at \<open>rip\<close> and returns 0 there.
\<close>

definition fork :: "u64 \<Rightarrow> u64 \<Rightarrow> u64 \<Rightarrow> u64 \<Rightarrow> u64 \<Rightarrow> sched \<Rightarrow> (u64 \<times> sched) option" where
  "fork a pml4 rip rsp rbp s =
     (let parent_task = get_current_task s;
          s1 = s\<lparr>interrupts := False,
                tasks := (tasks s)(a \<mapsto> \<lparr>t_pid = 0, t_rsp = 0, t_rbp = 0, t_rip = 0, t_pml4 = pml4,
                                        t_status = 0, t_next = 0\<rparr>)\<rparr>
      in case add_task a s1 of
           None \<Rightarrow> None
         | Some s2 \<Rightarrow>
             if parent_task = get_current_task s2
             then let s3 = upd_task a (\<lambda>t. t\<lparr>t_rsp := rsp, t_rbp := rbp, t_rip := rip\<rparr>) s2
                  in map_option (\<lambda>t. (t_pid t, s3\<lparr>interrupts := True\<rparr>)) (tasks s3 a)
             else Some (0, s2))"

text \<open>
  \<open>fork_kernel\<close>: the child starts on the new stack whose top \<open>sp\<close> is the address
  \<open>alloc_page\<close> returned plus a page.
\<close>

definition fork_kernel :: "u64 \<Rightarrow> u64 \<Rightarrow> u64 \<Rightarrow> u64 \<Rightarrow> sched \<Rightarrow> (u64 \<times> sched) option" where
  "fork_kernel a sp pml4 rip s =
     (let parent_task = get_current_task s;
          s1 = s\<lparr>interrupts := False,
                tasks := (tasks s)(a \<mapsto> \<lparr>t_pid = 0, t_rsp = sp, t_rbp = sp, t_rip = 0, t_pml4 = pml4,
                                        t_status = 0, t_next = 0\<rparr>)\<rparr>
      in case add_task a s1 of
           None \<Rightarrow> None
         | Some s2 \<Rightarrow>
             if parent_task = get_current_task s2
             then let s3 = upd_task a (\<lambda>t. t\<lparr>t_rip := rip\<rparr>) s2
                  in map_option (\<lambda>t. (t_pid t, s3\<lparr>interrupts := True\<rparr>)) (tasks s3 a)
             else Some (0, s2))"

text \<open>\<open>exit\<close>: status 2, then the timer interrupt's handler with the registers at that point.\<close>

definition exit_task :: "u64 \<Rightarrow> u64 \<Rightarrow> u64 \<Rightarrow> sched \<Rightarrow> (sched \<times> cpu_context option) option" where
  "exit_task rip rsp rbp s =
     (case get_current_pid s of
        None \<Rightarrow> None
      | Some pid \<Rightarrow>
          (case change_task_status pid 2 s of
             None \<Rightarrow> None
           | Some s1 \<Rightarrow> switch_task rip rsp rbp (s1\<lparr>interrupts := True\<rparr>)))"

text \<open>\<open>sleep\<close> waits with interrupts on for one of them, whose effect is an argument.\<close>

definition sleep :: "(sched \<Rightarrow> sched option) \<Rightarrow> sched \<Rightarrow> sched option" where
  "sleep interrupt s = map_option (\<lambda>s. s\<lparr>interrupts := False\<rparr>) (interrupt (s\<lparr>interrupts := True\<rparr>))"

section \<open>The list of tasks\<close>

abbreviation task_path :: "(u64 \<rightharpoonup> task) \<Rightarrow> u64 \<Rightarrow> u64 list \<Rightarrow> bool" where
  "task_path \<equiv> list_path t_next"

text \<open>
  The invariant: the tasks form a list from \<open>task_list\<close> without repetition, the current task is
  in it, and the pids are all different and below \<open>next_pid\<close>.
\<close>

definition pid_of :: "sched \<Rightarrow> u64 \<Rightarrow> u64" where
  "pid_of s a = t_pid (the (tasks s a))"

definition ready :: "sched \<Rightarrow> u64 \<Rightarrow> bool" where
  "ready s a \<longleftrightarrow> (\<exists>t. tasks s a = Some t \<and> t_status t = 0)"

definition sched_inv :: "sched \<Rightarrow> u64 list \<Rightarrow> bool" where
  "sched_inv s ts \<longleftrightarrow> task_path (tasks s) (task_list s) ts \<and> current_task s \<in> set ts \<and>
     inj_on (pid_of s) (set ts) \<and> (\<forall>a \<in> set ts. pid_of s a < next_pid s)"

section \<open>Round robin\<close>

lemma next_task_nth:
  assumes "task_path (tasks s) (task_list s) ts" "i < length ts"
  shows "next_task s (ts ! i) = Some (ts ! (Suc i mod length ts))"
proof -
  obtain t where t: "tasks s (ts ! i) = Some t" using path_Some [OF assms(1)] assms(2) by (meson nth_mem)
  have "task_path (tasks s) (ts ! i) (ts ! i # drop (Suc i) ts)"
    using assms path_append [of t_next "tasks s" "task_list s" "take i ts" "ts ! i" "drop (Suc i) ts"]
    by (simp add: id_take_nth_drop [symmetric])
  then have rest: "task_path (tasks s) (t_next t) (drop (Suc i) ts)" using t by simp
  show ?thesis
  proof (cases "Suc i < length ts")
    case True
    then have "drop (Suc i) ts = ts ! Suc i # drop (Suc (Suc i)) ts" by (simp add: Cons_nth_drop_Suc)
    then show ?thesis using rest t True by (simp add: next_task_def)
  next
    case False
    then have "Suc i = length ts" using assms(2) by simp
    moreover from this have "t_next t = 0" using rest by simp
    moreover have "task_list s = ts ! 0" using assms by (cases ts) auto
    ultimately show ?thesis using t by (simp add: next_task_def)
  qed
qed

lemma next_ready_step:
  assumes "task_path (tasks s) (task_list s) ts" "i < length ts"
  shows "next_ready s (ts ! i) = (if ready s (ts ! (Suc i mod length ts)) then Some (ts ! (Suc i mod length ts))
     else next_ready s (ts ! (Suc i mod length ts)))"
proof -
  have "ts ! (Suc i mod length ts) \<in> set ts" using assms(2) by (intro nth_mem mod_less_divisor) linarith
  then obtain t where "tasks s (ts ! (Suc i mod length ts)) = Some t" using path_Some [OF assms(1)] by blast
  then show ?thesis using next_task_nth [OF assms] by (subst next_ready.simps) (simp add: ready_def)
qed

text \<open>The first ready task in the next \<open>d\<close> positions is found.\<close>

lemma next_ready_at:
  assumes "task_path (tasks s) (task_list s) ts" "i < length ts" "0 < d"
    and "ready s (ts ! ((i + d) mod length ts))"
    and "\<forall>e. 0 < e \<and> e < d \<longrightarrow> \<not> ready s (ts ! ((i + e) mod length ts))"
  shows "next_ready s (ts ! i) = Some (ts ! ((i + d) mod length ts))"
  using assms(2-)
proof (induction d arbitrary: i)
  case (Suc d)
  let ?n = "length ts"
  show ?case
  proof (cases "d = 0")
    case True
    then show ?thesis using Suc.prems next_ready_step [OF assms(1) Suc.prems(1)] by simp
  next
    case False
    let ?j = "Suc i mod ?n"
    have j: "?j < ?n" using Suc.prems(1) by (intro mod_less_divisor) linarith
    have shift: "(?j + e) mod ?n = (i + Suc e) mod ?n" for e by (simp add: mod_simps)
    have "\<not> ready s (ts ! ?j)" using Suc.prems(4) False by (metis One_nat_def Suc_eq_plus1 Suc_less_eq neq0_conv zero_less_one)
    moreover have "\<forall>e. 0 < e \<and> e < d \<longrightarrow> \<not> ready s (ts ! ((?j + e) mod ?n))"
    proof (intro allI impI)
      fix e assume "0 < e \<and> e < d"
      then show "\<not> ready s (ts ! ((?j + e) mod ?n))"
        unfolding shift using Suc.prems(4) by (elim allE [of _ "Suc e"]) simp
    qed
    then have "next_ready s (ts ! ?j) = Some (ts ! ((?j + d) mod ?n))"
      using Suc.IH [OF j] Suc.prems(3) False unfolding shift by blast
    ultimately show ?thesis
      using next_ready_step [OF assms(1) Suc.prems(1)] shift [of d] by simp
  qed
qed simp

text \<open>A task that the loop stops at is ready.\<close>

lemma next_ready_ready:
  assumes "next_ready s cur = Some a"
  shows "ready s a"
  using _ assms
proof (rule next_ready.raw_induct [where P = "\<lambda>s cur a. ready s a"])
  fix f s cur a
  assume "\<And>s cur a. f s cur = Some a \<Longrightarrow> ready s a"
    and "(if next_task s cur = None then None
      else if tasks s (the (next_task s cur)) = None then None
      else if t_status (the (tasks s (the (next_task s cur)))) \<noteq> 0 then f s (the (next_task s cur))
      else next_task s cur) = Some a"
  then show "ready s a" by (auto simp: ready_def split: if_splits)
qed

lemma next_ready_mem:
  assumes "task_path (tasks s) (task_list s) ts" "next_ready s cur = Some a" "cur \<in> set ts"
  shows "a \<in> set ts"
proof -
  have step: "next_task s c = Some b \<Longrightarrow> c \<in> set ts \<Longrightarrow> b \<in> set ts" for b c
    using next_task_nth [OF assms(1)] by (metis in_set_conv_nth length_pos_if_in_set mod_less_divisor option.inject)
  have "s = s \<and> cur \<in> set ts \<longrightarrow> a \<in> set ts"
    using _ assms(2)
  proof (rule next_ready.raw_induct [where P = "\<lambda>s' cur a. s' = s \<and> cur \<in> set ts \<longrightarrow> a \<in> set ts"])
    fix f s' cur a
    assume "\<And>s' cur a. f s' cur = Some a \<Longrightarrow> s' = s \<and> cur \<in> set ts \<longrightarrow> a \<in> set ts"
      and "(if next_task s' cur = None then None
        else if tasks s' (the (next_task s' cur)) = None then None
        else if t_status (the (tasks s' (the (next_task s' cur)))) \<noteq> 0 then f s' (the (next_task s' cur))
        else next_task s' cur) = Some a"
    then show "s' = s \<and> cur \<in> set ts \<longrightarrow> a \<in> set ts"
      using step [of cur] by (auto split: if_splits)
  qed
  then show ?thesis using assms by blast
qed

text \<open>In short: the loop finds the first ready task in the list rotated behind the current one.\<close>

lemma next_ready_find:
  assumes "task_path (tasks s) (task_list s) ts" "i < length ts"
  shows "next_ready s (ts ! i) = find (ready s) (rotate (Suc i) ts)"
proof (cases "find (ready s) (rotate (Suc i) ts)")
  case None
  then have none: "\<forall>a \<in> set ts. \<not> ready s a" by (simp add: find_None_iff)
  have "next_ready s (ts ! i) \<noteq> Some a" for a
    using next_ready_ready [of s "ts ! i" a] next_ready_mem [OF assms(1), of "ts ! i" a] none assms(2)
    by (metis nth_mem)
  then show ?thesis using None by (cases "next_ready s (ts ! i)") auto
next
  case (Some a)
  then obtain k where k: "k < length ts" "ready s (rotate (Suc i) ts ! k)" "a = rotate (Suc i) ts ! k"
    "\<forall>j < k. \<not> ready s (rotate (Suc i) ts ! j)" by (auto simp: find_Some_iff)
  have at: "rotate (Suc i) ts ! j = ts ! ((i + Suc j) mod length ts)" if "j < length ts" for j
    using nth_rotate [OF that, of "Suc i"] by (simp only: add_Suc add_Suc_right)
  have "\<forall>e. 0 < e \<and> e < Suc k \<longrightarrow> \<not> ready s (ts ! ((i + e) mod length ts))"
  proof (intro allI impI)
    fix e assume e: "0 < e \<and> e < Suc k"
    then obtain j where j: "e = Suc j" "j < k" by (cases e) auto
    then show "\<not> ready s (ts ! ((i + e) mod length ts))" using k(1,4) at [of j] by auto
  qed
  then have "next_ready s (ts ! i) = Some (ts ! ((i + Suc k) mod length ts))"
    using k at [of k] by (intro next_ready_at [OF assms]) auto
  then show ?thesis using Some k at [of k] by simp
qed

section \<open>What the operations do to the list\<close>

lemma upd_task_frame [simp, frame_simps]:
  "current_task (upd_task a f s) = current_task s" "task_list (upd_task a f s) = task_list s"
  "next_pid (upd_task a f s) = next_pid s" "interrupts (upd_task a f s) = interrupts s"
  "tasks (upd_task a f s) = (tasks s)(a := map_option f (tasks s a))"
  by (simp_all add: upd_task_def)

lemma last_task_path:
  "task_path m p xs \<Longrightarrow> xs \<noteq> [] \<Longrightarrow> last_task m p = Some (last xs)"
proof (induction xs arbitrary: p)
  case (Cons x xs)
  then obtain t where t: "m x = Some t" "task_path m (t_next t) xs" by auto
  show ?case
  proof (cases "xs = []")
    case True
    then show ?thesis using t Cons.prems by (subst last_task.simps) simp
  next
    case False
    then have "t_next t \<noteq> 0" using t(2) by (cases xs) auto
    then show ?thesis using Cons.IH [OF t(2) False] t Cons.prems False by (subst last_task.simps) simp
  qed
qed simp

text \<open>Every task of the list with the pid gets the status; the rest stays.\<close>

lemma change_status_from_path:
  "task_path (tasks s) tmp xs \<Longrightarrow>
     change_status_from pid st tmp s = Some (s\<lparr>tasks := (\<lambda>a. if a \<in> set xs \<and> pid_of s a = pid
       then map_option (\<lambda>t. t\<lparr>t_status := st\<rparr>) (tasks s a) else tasks s a)\<rparr>)"
proof (induction xs arbitrary: tmp s)
  case Nil
  then show ?case by (subst change_status_from.simps) simp
next
  case (Cons x xs)
  obtain t where t: "tasks s x = Some t" "task_path (tasks s) (t_next t) xs" "tmp = x" "x \<noteq> 0"
    using Cons.prems by auto
  have d: "x \<notin> set xs" using path_distinct [OF Cons.prems] by simp
  let ?s = "if t_pid t = pid then upd_task x (\<lambda>t. t\<lparr>t_status := st\<rparr>) s else s"
  have keep: "tasks ?s a = tasks s a" if "a \<in> set xs" for a using that d by auto
  then have path: "task_path (tasks ?s) (t_next t) xs" using t(2) by (intro path_cong [OF t(2)]) simp
  have "change_status_from pid st tmp s = change_status_from pid st (t_next t) ?s"
    using t by (subst change_status_from.simps) simp
  also have "\<dots> = Some (?s\<lparr>tasks := (\<lambda>a. if a \<in> set xs \<and> pid_of ?s a = pid
       then map_option (\<lambda>t. t\<lparr>t_status := st\<rparr>) (tasks ?s a) else tasks ?s a)\<rparr>)"
    by (rule Cons.IH [OF path])
  also have "\<dots> = Some (s\<lparr>tasks := (\<lambda>a. if a \<in> set (x # xs) \<and> pid_of s a = pid
       then map_option (\<lambda>t. t\<lparr>t_status := st\<rparr>) (tasks s a) else tasks s a)\<rparr>)"
  proof -
    have "(\<lambda>a. if a \<in> set xs \<and> pid_of ?s a = pid
       then map_option (\<lambda>t. t\<lparr>t_status := st\<rparr>) (tasks ?s a) else tasks ?s a) =
      (\<lambda>a. if a \<in> set (x # xs) \<and> pid_of s a = pid
       then map_option (\<lambda>t. t\<lparr>t_status := st\<rparr>) (tasks s a) else tasks s a)"
      by (rule ext) (use t(1) d in \<open>auto simp: pid_of_def\<close>)
    then show ?thesis by (simp add: upd_task_def)
  qed
  finally show ?case .
qed

lemma change_task_status_path:
  "task_path (tasks s) (task_list s) ts \<Longrightarrow>
     change_task_status pid st s = Some (s\<lparr>tasks := (\<lambda>a. if a \<in> set ts \<and> pid_of s a = pid
       then map_option (\<lambda>t. t\<lparr>t_status := st\<rparr>) (tasks s a) else tasks s a)\<rparr>)"
  unfolding change_task_status_def by (rule change_status_from_path)

text \<open>A change that keeps links and pids keeps the invariant.\<close>

lemma sched_inv_cong:
  assumes "sched_inv s ts" "current_task s' \<in> set ts" "task_list s' = task_list s" "next_pid s' = next_pid s"
    and "\<And>a. a \<in> set ts \<Longrightarrow> map_option t_next (tasks s' a) = map_option t_next (tasks s a) \<and>
      map_option t_pid (tasks s' a) = map_option t_pid (tasks s a)"
  shows "sched_inv s' ts"
proof -
  have path: "task_path (tasks s) (task_list s) ts" using assms(1) by (simp add: sched_inv_def)
  have pid: "pid_of s' a = pid_of s a" if "a \<in> set ts" for a
    using assms(5) [OF that] path_Some [OF path that] by (auto simp: pid_of_def)
  have "inj_on (pid_of s') (set ts)" using assms(1) pid inj_on_cong [of "set ts" "pid_of s'" "pid_of s"]
    by (simp add: sched_inv_def)
  moreover have "task_path (tasks s') (task_list s') ts"
    unfolding assms(3) by (rule path_cong [OF path]) (simp add: assms(5))
  ultimately show ?thesis using assms(1,2,4) pid by (simp add: sched_inv_def)
qed

lemma find_mem: "find P xs = Some a \<Longrightarrow> P a \<and> a \<in> set xs"
  by (auto simp: find_Some_iff)

lemma find_rotate_mem: "find P (rotate i xs) = Some a \<Longrightarrow> P a \<and> a \<in> set xs"
  using find_mem [of P "rotate i xs" a] by simp

text \<open>A context switch in full.\<close>

lemma ready_save [simp]:
  "ready (upd_task c (\<lambda>t. t\<lparr>t_rip := rip, t_rsp := rsp, t_rbp := rbp\<rparr>) s) a = ready s a"
  by (auto simp: ready_def)

lemma switch_task_eq:
  fixes rip rsp rbp :: u64
  assumes "sched_inv s ts" "current_task s = ts ! i" "i < length ts" "rip \<noteq> 0x12345"
  defines "s1 \<equiv> upd_task (current_task s) (\<lambda>t. t\<lparr>t_rip := rip, t_rsp := rsp, t_rbp := rbp\<rparr>) s"
  shows "switch_task rip rsp rbp s =
    (case find (ready s) (rotate (Suc i) ts) of
       None \<Rightarrow> None
     | Some a \<Rightarrow> (let t = the (tasks s1 a) in
         Some (s1\<lparr>current_task := a, interrupts := True\<rparr>,
               Some \<lparr>c_rip = t_rip t, c_rsp = t_rsp t, c_rbp = t_rbp t, c_cr3 = t_pml4 t\<rparr>)))"
proof -
  have path: "task_path (tasks s) (task_list s) ts" using assms(1) by (simp add: sched_inv_def)
  have cur: "current_task s \<noteq> 0" "\<exists>t. tasks s (current_task s) = Some t"
    using path_nonzero [OF path] path_Some [OF path] assms(2,3) by simp_all
  have path1: "task_path (tasks s1) (task_list s1) ts"
    unfolding s1_def upd_task_frame by (rule path_cong [OF path]) (use cur(2) in auto)
  have "next_ready s1 (current_task s1) = find (ready s1) (rotate (Suc i) ts)"
    using next_ready_find [OF path1 assms(3)] assms(2) by (simp add: s1_def)
  moreover have "ready s1 = ready s" by (rule ext) (simp add: s1_def)
  ultimately have nr: "next_ready s1 (current_task s1) = find (ready s) (rotate (Suc i) ts)" by simp
  have mem: "tasks s1 a \<noteq> None" if "find (ready s) (rotate (Suc i) ts) = Some a" for a
  proof -
    have "a \<in> set ts" using find_rotate_mem [OF that] by simp
    then show ?thesis using path_Some [OF path1] by auto
  qed
  have "switch_task rip rsp rbp s = (case next_ready s1 (current_task s1) of None \<Rightarrow> None
      | Some a \<Rightarrow> (case tasks s1 a of None \<Rightarrow> None
         | Some t \<Rightarrow> Some (s1\<lparr>current_task := a, interrupts := True\<rparr>,
             Some \<lparr>c_rip = t_rip t, c_rsp = t_rsp t, c_rbp = t_rbp t, c_cr3 = t_pml4 t\<rparr>)))"
    unfolding switch_task_def s1_def [symmetric] Let_def using cur assms(4) by auto
  then show ?thesis using mem unfolding nr by (auto simp: Let_def split: option.split)
qed

lemma sched_inv_save:
  assumes "sched_inv s ts" "a \<in> set ts"
  shows "sched_inv ((upd_task (current_task s) (\<lambda>t. t\<lparr>t_rip := rip, t_rsp := rsp, t_rbp := rbp\<rparr>) s)
    \<lparr>current_task := a, interrupts := True\<rparr>) ts"
  by (rule sched_inv_cong [OF assms(1)]) (use assms(2) in \<open>auto simp: option.map_comp o_def\<close>)

lemma sched_inv_current:
  assumes "sched_inv s ts"
  obtains i where "i < length ts" "current_task s = ts ! i"
  using assms by (metis in_set_conv_nth sched_inv_def)

section \<open>Properties\<close>

text \<open>Three tasks, the second one blocked, the first one running.\<close>

definition sample_task :: "u64 \<Rightarrow> u8 \<Rightarrow> u64 \<Rightarrow> task" where
  "sample_task pid st nxt = \<lparr>t_pid = pid, t_rsp = 0x8000 + pid, t_rbp = 0x8000, t_rip = 0x400000,
     t_pml4 = 0x1000 * pid, t_status = st, t_next = nxt\<rparr>"

definition sample_sched :: sched where
  "sample_sched = \<lparr>current_task = 0x100, task_list = 0x100, next_pid = 3,
     tasks = [0x100 \<mapsto> sample_task 0 0 0x200, 0x200 \<mapsto> sample_task 1 1 0x300, 0x300 \<mapsto> sample_task 2 0 0],
     interrupts = True\<rparr>"

lemma sample_sched_inv: "sched_inv sample_sched [0x100, 0x200, 0x300]"
  by (auto simp: sched_inv_def sample_sched_def sample_task_def pid_of_def inj_on_def)

text \<open>
  C20: A context switch saves the registers in the running task, picks the first ready task behind it
  in the circular list (itself last) and loads the registers saved there; nothing else changes and the
  invariant holds again. Only when no task is ready does the loop not end.
\<close>

theorem switch_task_round_robin:
  assumes "sched_inv s ts" and "i < length ts" and "current_task s = ts ! i" and "rip \<noteq> 0x12345"
  shows "(case find (ready s) (rotate (Suc i) ts) of
      None \<Rightarrow> switch_task rip rsp rbp s = None \<and> (\<forall>a \<in> set ts. \<not> ready s a)
    | Some a \<Rightarrow> \<exists>s' t. switch_task rip rsp rbp s = Some (s', Some \<lparr>c_rip = t_rip t, c_rsp = t_rsp t,
          c_rbp = t_rbp t, c_cr3 = t_pml4 t\<rparr>) \<and> tasks s' a = Some t \<and> current_task s' = a \<and> ready s a \<and>
        tasks s' = (tasks s)(ts ! i := map_option (\<lambda>t. t\<lparr>t_rip := rip, t_rsp := rsp, t_rbp := rbp\<rparr>) (tasks s (ts ! i))) \<and>
        sched_inv s' ts)"
proof (cases "find (ready s) (rotate (Suc i) ts)")
  case None
  then have "\<forall>a \<in> set ts. \<not> ready s a" by (auto simp: find_None_iff)
  then show ?thesis using None switch_task_eq [OF assms(1,3,2,4)] by simp
next
  case (Some a)
  then have a: "ready s a" "a \<in> set ts" using find_rotate_mem [OF Some] by simp_all
  obtain t where "tasks (upd_task (current_task s) (\<lambda>t. t\<lparr>t_rip := rip, t_rsp := rsp, t_rbp := rbp\<rparr>) s) a = Some t"
    using a(1) by (cases "a = current_task s") (auto simp: ready_def)
  then show ?thesis
    using Some a sched_inv_save [OF assms(1) a(2), where rip = rip and rsp = rsp and rbp = rbp]
    by (simp add: switch_task_eq [OF assms(1,3,2,4)] assms(3) Let_def)
qed

theorem switch_task_round_robin_witness:
  "\<exists>s' ctx. switch_task 0x401000 0x9000 0x9010 sample_sched = Some (s', Some ctx) \<and> current_task s' = 0x300 \<and>
     c_cr3 ctx = 0x2000"
proof -
  have "find (ready sample_sched) (rotate (Suc 0) [0x100, 0x200, 0x300]) = Some 0x300"
    by (simp add: ready_def sample_sched_def sample_task_def)
  then obtain s' t where "switch_task 0x401000 0x9000 0x9010 sample_sched = Some (s', Some \<lparr>c_rip = t_rip t, c_rsp = t_rsp t,
      c_rbp = t_rbp t, c_cr3 = t_pml4 t\<rparr>)" "tasks s' 0x300 = Some t" "current_task s' = 0x300"
    "tasks s' = (tasks sample_sched)([0x100, 0x200, 0x300] ! 0 := map_option
       (\<lambda>t. t\<lparr>t_rip := 0x401000, t_rsp := 0x9000, t_rbp := 0x9010\<rparr>) (tasks sample_sched ([0x100, 0x200, 0x300] ! 0)))"
    using switch_task_round_robin [OF sample_sched_inv, of 0 "0x401000" "0x9000" "0x9010"]
    by (auto simp: sample_sched_def)
  moreover from this(2,4) have "t_pml4 t = 0x2000" by (auto simp: sample_sched_def sample_task_def)
  ultimately show ?thesis by simp
qed

text \<open>Switches in a row, each with the registers of the task that runs.\<close>

fun switches :: "(u64 \<times> u64 \<times> u64) list \<Rightarrow> sched \<Rightarrow> sched option" where
  "switches [] s = Some s"
| "switches ((rip, rsp, rbp) # rs) s =
     (case switch_task rip rsp rbp s of None \<Rightarrow> None | Some (s', _) \<Rightarrow> switches rs s')"

text \<open>
  C21: No ready task starves: a task that is ready runs after at most as many context switches as
  its distance behind the running task in the circular list, whatever the registers saved.
\<close>

theorem switch_task_no_starvation:
  assumes "sched_inv s ts" and "i < length ts" and "current_task s = ts ! i"
    and "0 < d" and "ready s (ts ! ((i + d) mod length ts))"
    and "d \<le> length rs" and "\<forall>(rip, rsp, rbp) \<in> set rs. rip \<noteq> 0x12345"
  shows "\<exists>k s'. 0 < k \<and> k \<le> d \<and> switches (take k rs) s = Some s' \<and>
    current_task s' = ts ! ((i + d) mod length ts)"
  using assms
proof (induction d arbitrary: s i rs rule: less_induct)
  case (less d)
  let ?n = "length ts" and ?y = "ts ! ((i + d) mod length ts)"
  obtain rip rsp rbp rs' where rs: "rs = (rip, rsp, rbp) # rs'" using less.prems(4,6) by (cases rs) auto
  have mem: "?y \<in> set ts" using less.prems(2) by (intro nth_mem mod_less_divisor) linarith
  have ok: "rip \<noteq> 0x12345" using less.prems(7) rs by simp
  have path: "task_path (tasks s) (task_list s) ts" using less.prems(1) by (simp add: sched_inv_def)
  let ?R = "\<lambda>e. 0 < e \<and> ready s (ts ! ((i + e) mod ?n))"
  define e where "e = (LEAST e. ?R e)"
  have "?R d" using less.prems(4,5) by simp
  then have e: "?R e" "e \<le> d" "\<forall>k. 0 < k \<and> k < e \<longrightarrow> \<not> ready s (ts ! ((i + k) mod ?n))"
    unfolding e_def by (rule LeastI, rule Least_le) (use not_less_Least [where P = ?R] in blast)
  let ?a = "ts ! ((i + e) mod ?n)"
  have "next_ready s (ts ! i) = Some ?a" using next_ready_at [OF path less.prems(2)] e by blast
  then have find: "find (ready s) (rotate (Suc i) ts) = Some ?a"
    using next_ready_find [OF path less.prems(2)] by simp
  have amem: "?a \<in> set ts" using less.prems(2) by (intro nth_mem mod_less_divisor) linarith
  define s1 where "s1 = (upd_task (current_task s) (\<lambda>t. t\<lparr>t_rip := rip, t_rsp := rsp, t_rbp := rbp\<rparr>) s)
    \<lparr>current_task := ?a, interrupts := True\<rparr>"
  have sw: "\<exists>c. switch_task rip rsp rbp s = Some (s1, c)"
    using switch_task_eq [OF less.prems(1,3,2) ok, of rsp rbp] find by (simp add: Let_def s1_def)
  have inv: "sched_inv s1 ts" using sched_inv_save [OF less.prems(1) amem] by (simp add: s1_def)
  have r1: "ready s1 b = ready s b" for b
    using ready_save [where c = "current_task s" and rip = rip and rsp = rsp and rbp = rbp and s = s and a = b]
    unfolding s1_def ready_def by simp
  have c1: "current_task s1 = ?a" by (simp add: s1_def)
  show ?case
  proof (cases "e = d")
    case True
    then show ?thesis using sw c1 less.prems(4) by (intro exI [of _ 1] exI [of _ s1]) (auto simp: rs)
  next
    case False
    then have lt: "d - e < d" "0 < d - e" "e < d" using e(1,2) by auto
    let ?j = "(i + e) mod ?n"
    have j: "?j < ?n" using less.prems(2) by (intro mod_less_divisor) linarith
    have "i + e + (d - e) = i + d" using e(2) by linarith
    then have y: "(?j + (d - e)) mod ?n = (i + d) mod ?n"
      using mod_add_left_eq [of "i + e" ?n "d - e"] by (simp only:)
    have "d - e \<le> length rs'" using less.prems(6) conjunct1 [OF e(1)] by (simp add: rs)
    then obtain k s' where k: "0 < k" "k \<le> d - e" "switches (take k rs') s1 = Some s'" "current_task s' = ?y"
      using less.IH [OF lt(1) inv j c1 lt(2), of rs'] r1 less.prems(5,6,7) e(1) lt(3) unfolding y by (auto simp: rs)
    then show ?thesis using sw e(1) lt(3) by (intro exI [of _ "Suc k"] exI [of _ s']) (auto simp: rs)
  qed
qed

theorem switch_task_no_starvation_witness:
  "\<exists>k s'. k \<le> 2 \<and> switches (take k [(1, 2, 3), (4, 5, 6)]) sample_sched = Some s' \<and> current_task s' = 0x300"
proof -
  have "ready sample_sched ([0x100, 0x200, 0x300] ! ((0 + 2) mod length [0x100, 0x200, 0x300]))"
    by (simp add: ready_def sample_sched_def sample_task_def)
  from switch_task_no_starvation [OF sample_sched_inv _ _ _ this, of "[(1, 2, 3), (4, 5, 6)]"]
  show ?thesis by (auto simp: sample_sched_def)
qed

section \<open>New tasks\<close>

text \<open>What an operation on other tasks leaves alone.\<close>

definition keeps_tasks :: "u64 list \<Rightarrow> sched \<Rightarrow> sched \<Rightarrow> bool" where
  "keeps_tasks ts s s' \<longleftrightarrow> (\<forall>b \<in> set ts. pid_of s' b = pid_of s b \<and> ready s' b = ready s b \<and>
     map_option t_pml4 (tasks s' b) = map_option t_pml4 (tasks s b))"

lemma add_task_spec:
  assumes inv: "sched_inv s ts" and a: "a \<notin> set ts" "a \<noteq> 0" "tasks s a = Some t" "t_next t = 0"
    and room: "next_pid s < next_pid s + 1"
  shows "\<exists>s'. add_task a s = Some s' \<and> sched_inv s' (ts @ [a]) \<and>
    tasks s' a = Some (t\<lparr>t_pid := next_pid s, t_status := 0\<rparr>) \<and> next_pid s' = next_pid s + 1 \<and>
    current_task s' = current_task s \<and> task_list s' = task_list s \<and> interrupts s' = interrupts s \<and>
    keeps_tasks ts s s'"
proof -
  have path: "task_path (tasks s) (task_list s) ts" using inv by (simp add: sched_inv_def)
  have ne: "ts \<noteq> []" using inv by (auto simp: sched_inv_def)
  let ?s = "upd_task a (\<lambda>t. t\<lparr>t_pid := next_pid s, t_status := 0\<rparr>) (s\<lparr>next_pid := next_pid s + 1\<rparr>)"
  let ?s' = "upd_task (last ts) (\<lambda>t. t\<lparr>t_next := a\<rparr>) ?s"
  have path1: "task_path (tasks ?s) (task_list s) ts"
    by (rule path_cong [OF path]) (use a(1) in auto)
  have lt: "last ts \<noteq> a" using a(1) ne last_in_set by metis
  have run: "add_task a s = Some ?s'"
    using a(3) last_task_path [OF path1 ne] by (simp add: add_task_def new_pid_def Let_def)
  have path2: "task_path (tasks ?s') (task_list s) (ts @ [a])"
  proof (rule path_snoc [OF path1 ne a(2)])
    show "tasks ?s' a = Some (t\<lparr>t_pid := next_pid s, t_status := 0\<rparr>)" using lt a(3) by simp
    show "tasks ?s' (last ts) = Some (the (tasks s (last ts))\<lparr>t_next := a\<rparr>)"
      using lt path_Some [OF path last_in_set [OF ne]] by auto
  qed (use a(1,4) lt in auto)
  have ta: "tasks ?s' a = Some (t\<lparr>t_pid := next_pid s, t_status := 0\<rparr>)" using lt a(3) by simp
  have old: "pid_of ?s' b = pid_of s b \<and> ready ?s' b = ready s b" if "b \<in> set ts" for b
    using path_Some [OF path that] that a(1) by (auto simp: pid_of_def ready_def)
  have pa: "pid_of ?s' a = next_pid s" using ta by (simp add: pid_of_def)
  have low: "pid_of s b < next_pid s" if "b \<in> set ts" for b using inv that by (simp add: sched_inv_def)
  have "inj_on (pid_of ?s') (set ts)"
    using inv old inj_on_cong [of "set ts" "pid_of ?s'" "pid_of s"] by (simp add: sched_inv_def)
  moreover have "pid_of ?s' a \<notin> pid_of ?s' ` set ts"
  proof
    assume "pid_of ?s' a \<in> pid_of ?s' ` set ts"
    then show False
    proof (rule imageE)
      fix b assume b: "pid_of ?s' a = pid_of ?s' b" "b \<in> set ts"
      have "next_pid s = pid_of s b" by (rule trans [OF trans [OF pa [symmetric] b(1)] conjunct1 [OF old [OF b(2)]]])
      then show False using low [OF b(2)] by simp
    qed
  qed
  ultimately have inj: "inj_on (pid_of ?s') (set (ts @ [a]))" using a(1) by (simp del: upd_task_frame)
  have bound: "pid_of ?s' b < next_pid ?s'" if "b \<in> set (ts @ [a])" for b
  proof (cases "b = a")
    case True
    then show ?thesis using pa room by (simp del: upd_task_frame(5))
  next
    case False
    then have b: "b \<in> set ts" using that by simp
    have "pid_of ?s' b < next_pid s" by (rule ord_eq_less_trans [OF conjunct1 [OF old [OF b]] low [OF b]])
    then have "pid_of ?s' b < next_pid s + 1" using room by (rule order.strict_trans)
    then show ?thesis by (simp del: upd_task_frame(5))
  qed
  have inv': "sched_inv ?s' (ts @ [a])"
    using path2 inj bound inv unfolding sched_inv_def by simp
  have rest: "next_pid ?s' = next_pid s + 1" "current_task ?s' = current_task s"
    "task_list ?s' = task_list s" "interrupts ?s' = interrupts s" by simp_all
  have "map_option t_pml4 (tasks ?s' b) = map_option t_pml4 (tasks s b)" if "b \<in> set ts" for b
    using path_Some [OF path that] that a(1) by auto
  then have "keeps_tasks ts s ?s'" using old unfolding keeps_tasks_def by blast
  then show ?thesis using run inv' ta rest by blast
qed

text \<open>A child whose structure is \<open>t\<close> at first, and is changed by \<open>f\<close> after it has its pid.\<close>

lemma child_added:
  assumes inv: "sched_inv s ts" and a: "a \<notin> set ts" "a \<noteq> 0" and room: "next_pid s < next_pid s + 1" and t: "t_next t = 0"
    and f: "\<And>t. t_next (f t) = t_next t" "\<And>t. t_pid (f t) = t_pid t" "\<And>t. t_status (f t) = t_status t"
  defines "s1 \<equiv> s\<lparr>interrupts := False, tasks := (tasks s)(a \<mapsto> t)\<rparr>"
  obtains s2 s3 where "add_task a s1 = Some s2" "current_task s2 = current_task s" "upd_task a f s2 = s3"
    "tasks s3 a = Some (f (t\<lparr>t_pid := next_pid s, t_status := 0\<rparr>))" "sched_inv (s3\<lparr>interrupts := True\<rparr>) (ts @ [a])"
    "ready (s3\<lparr>interrupts := True\<rparr>) a" "keeps_tasks ts s (s3\<lparr>interrupts := True\<rparr>)" "current_task s3 = current_task s"
proof -
  have "sched_inv s1 ts"
    unfolding s1_def by (rule sched_inv_cong [OF inv]) (use inv a(1) in \<open>auto simp: sched_inv_def\<close>)
  then obtain s2 where s2: "add_task a s1 = Some s2" "sched_inv s2 (ts @ [a])"
    "tasks s2 a = Some (t\<lparr>t_pid := next_pid s, t_status := 0\<rparr>)" "current_task s2 = current_task s" "keeps_tasks ts s1 s2"
    using add_task_spec [of s1 ts a t] a t room by (auto simp: s1_def)
  let ?s3 = "upd_task a f s2"
  have "sched_inv (?s3\<lparr>interrupts := True\<rparr>) (ts @ [a])"
    by (rule sched_inv_cong [OF s2(2)]) (use s2(2) f in \<open>auto simp: sched_inv_def option.map_comp o_def\<close>)
  moreover have "keeps_tasks ts s (?s3\<lparr>interrupts := True\<rparr>)"
    using s2(5) a(1) by (auto simp: keeps_tasks_def pid_of_def ready_def s1_def)
  moreover have "tasks ?s3 a = Some (f (t\<lparr>t_pid := next_pid s, t_status := 0\<rparr>))" using s2(3) by simp
  moreover have "ready (?s3\<lparr>interrupts := True\<rparr>) a" unfolding ready_def using s2(3) f(3) by simp
  ultimately show thesis using that [OF s2(1) s2(4) refl] s2(4) by simp
qed

section \<open>Status changes, fork and exit\<close>

lemma change_task_status_spec:
  assumes "sched_inv s ts" "a \<in> set ts"
  shows "\<exists>s'. change_task_status (pid_of s a) st s = Some s' \<and> sched_inv s' ts \<and>
    tasks s' = (tasks s)(a := map_option (\<lambda>t. t\<lparr>t_status := st\<rparr>) (tasks s a)) \<and>
    current_task s' = current_task s \<and> task_list s' = task_list s \<and> next_pid s' = next_pid s \<and>
    interrupts s' = interrupts s"
proof -
  have path: "task_path (tasks s) (task_list s) ts" and inj: "inj_on (pid_of s) (set ts)"
    using assms(1) by (simp_all add: sched_inv_def)
  let ?m = "(tasks s)(a := map_option (\<lambda>t. t\<lparr>t_status := st\<rparr>) (tasks s a))"
  have "(\<lambda>b. if b \<in> set ts \<and> pid_of s b = pid_of s a then map_option (\<lambda>t. t\<lparr>t_status := st\<rparr>) (tasks s b) else tasks s b) = ?m"
    using assms(2) inj by (auto simp: inj_on_def)
  then have "change_task_status (pid_of s a) st s = Some (s\<lparr>tasks := ?m\<rparr>)"
    by (simp add: change_task_status_path [OF path])
  moreover have "sched_inv (s\<lparr>tasks := ?m\<rparr>) ts"
    by (rule sched_inv_cong [OF assms(1)]) (use assms(1) in \<open>auto simp: sched_inv_def option.map_comp o_def\<close>)
  ultimately show ?thesis by simp
qed

lemma fork_spec:
  assumes "sched_inv s ts" "a \<notin> set ts" "a \<noteq> 0" "next_pid s < next_pid s + 1"
  obtains s' where "fork a pml4 rip rsp rbp s = Some (next_pid s, s')" "sched_inv s' (ts @ [a])"
    "tasks s' a = Some \<lparr>t_pid = next_pid s, t_rsp = rsp, t_rbp = rbp, t_rip = rip, t_pml4 = pml4, t_status = 0, t_next = 0\<rparr>"
    "current_task s' = current_task s" "interrupts s'" "ready s' a" "keeps_tasks ts s s'"
  by (rule child_added [OF assms, of "\<lparr>t_pid = 0, t_rsp = 0, t_rbp = 0, t_rip = 0, t_pml4 = pml4, t_status = 0, t_next = 0\<rparr>"
        "\<lambda>t. t\<lparr>t_rsp := rsp, t_rbp := rbp, t_rip := rip\<rparr>"])
    (use that in \<open>simp_all add: fork_def get_current_task_def Let_def\<close>)

lemma fork_kernel_spec:
  assumes "sched_inv s ts" "a \<notin> set ts" "a \<noteq> 0" "next_pid s < next_pid s + 1"
  obtains s' where "fork_kernel a sp pml4 rip s = Some (next_pid s, s')" "sched_inv s' (ts @ [a])"
    "tasks s' a = Some \<lparr>t_pid = next_pid s, t_rsp = sp, t_rbp = sp, t_rip = rip, t_pml4 = pml4, t_status = 0, t_next = 0\<rparr>"
    "current_task s' = current_task s" "interrupts s'" "ready s' a" "keeps_tasks ts s s'"
  by (rule child_added [OF assms, of "\<lparr>t_pid = 0, t_rsp = sp, t_rbp = sp, t_rip = 0, t_pml4 = pml4, t_status = 0, t_next = 0\<rparr>"
        "\<lambda>t. t\<lparr>t_rip := rip\<rparr>"])
    (use that in \<open>simp_all add: fork_kernel_def get_current_task_def Let_def\<close>)

text \<open>
  C24: \<open>exit\<close> gives the processor to the first ready task behind the one that exits, and that
  task stays in the list with status 2, so that no later switch chooses it; if no other task is ready
  it does not return (the loop in \<open>switch_task\<close> does not end).
\<close>

theorem exit_task_retires:
  assumes "sched_inv s ts" and "i < length ts" and "current_task s = ts ! i" and "rip \<noteq> 0x12345"
  shows "(case find (\<lambda>a. a \<noteq> ts ! i \<and> ready s a) (rotate (Suc i) ts) of
      None \<Rightarrow> exit_task rip rsp rbp s = None
    | Some a \<Rightarrow> \<exists>s' c. exit_task rip rsp rbp s = Some (s', Some c) \<and> current_task s' = a \<and> a \<noteq> ts ! i \<and>
        sched_inv s' ts \<and> \<not> ready s' (ts ! i) \<and> (\<forall>b. b \<noteq> ts ! i \<longrightarrow> ready s' b = ready s b))"
proof -
  have path: "task_path (tasks s) (task_list s) ts" and mem: "ts ! i \<in> set ts"
    using assms by (simp_all add: sched_inv_def)
  obtain t where t: "tasks s (ts ! i) = Some t" using path_Some [OF path mem] by blast
  obtain s1 where s1: "change_task_status (pid_of s (ts ! i)) 2 s = Some s1" "sched_inv s1 ts"
    "tasks s1 = (tasks s)(ts ! i := map_option (\<lambda>t. t\<lparr>t_status := 2\<rparr>) (tasks s (ts ! i)))"
    "current_task s1 = current_task s"
    using change_task_status_spec [OF assms(1) mem] by blast
  let ?s = "s1\<lparr>interrupts := True\<rparr>"
  have inv: "sched_inv ?s ts" by (rule sched_inv_cong [OF s1(2)]) (use s1(2) in \<open>auto simp: sched_inv_def\<close>)
  have run: "exit_task rip rsp rbp s = switch_task rip rsp rbp ?s"
    using t s1(1) assms(3) by (simp add: exit_task_def get_current_pid_def pid_of_def)
  have rdy: "ready ?s = (\<lambda>a. a \<noteq> ts ! i \<and> ready s a)" by (rule ext) (use t in \<open>auto simp: ready_def s1(3)\<close>)
  have cur: "current_task ?s = ts ! i" using s1(4) assms(3) by simp
  note eq = switch_task_eq [OF inv cur assms(2,4), of rsp rbp, unfolded rdy]
  show ?thesis
  proof (cases "find (\<lambda>a. a \<noteq> ts ! i \<and> ready s a) (rotate (Suc i) ts)")
    case None
    then show ?thesis using eq run by simp
  next
    case (Some a)
    then have a: "a \<noteq> ts ! i" "a \<in> set ts" using find_rotate_mem [OF Some] by simp_all
    let ?s' = "(upd_task (current_task ?s) (\<lambda>t. t\<lparr>t_rip := rip, t_rsp := rsp, t_rbp := rbp\<rparr>) ?s)
      \<lparr>current_task := a, interrupts := True\<rparr>"
    have "sched_inv ?s' ts" by (rule sched_inv_save [OF inv a(2)])
    moreover have "ready ?s' b = ready ?s b" for b
      using ready_save [where c = "current_task ?s" and rip = rip and rsp = rsp and rbp = rbp and s = ?s and a = b]
      by (simp add: ready_def)
    ultimately show ?thesis using Some a eq run unfolding rdy Let_def by simp
  qed
qed

theorem exit_task_retires_witness:
  "\<exists>s' c. exit_task 0x401000 0x9000 0x9010 sample_sched = Some (s', Some c) \<and> current_task s' = 0x300 \<and>
     \<not> ready s' 0x100"
proof -
  have "find (\<lambda>a. a \<noteq> [0x100, 0x200, 0x300] ! 0 \<and> ready sample_sched a) (rotate (Suc 0) [0x100, 0x200, 0x300]) = Some 0x300"
    by (simp add: ready_def sample_sched_def sample_task_def)
  then show ?thesis
    using exit_task_retires [OF sample_sched_inv, of 0 "0x401000" "0x9000" "0x9010"] by (auto simp: sample_sched_def)
qed

section \<open>What the clients of the scheduler rely on\<close>

text \<open>
  Processes by pid: \<open>pids\<close> are those of the list, \<open>runnable\<close> those a context switch may choose.
\<close>

definition pids :: "u64 list \<Rightarrow> sched \<Rightarrow> u64 set" where
  "pids ts s = pid_of s ` set ts"

definition runnable :: "u64 list \<Rightarrow> sched \<Rightarrow> u64 \<Rightarrow> bool" where
  "runnable ts s p \<longleftrightarrow> (\<exists>a \<in> set ts. pid_of s a = p \<and> ready s a)"

locale task_status =
  fixes inv :: "'s \<Rightarrow> bool"
    and known :: "'s \<Rightarrow> u64 set"
    and may_run :: "'s \<Rightarrow> u64 \<Rightarrow> bool"
    and set_status :: "u64 \<Rightarrow> u8 \<Rightarrow> 's \<Rightarrow> 's option"
  assumes set_status_returns: "inv s \<Longrightarrow> \<exists>s'. set_status p st s = Some s'"
    and set_status_inv: "inv s \<Longrightarrow> set_status p st s = Some s' \<Longrightarrow> inv s'"
    and set_status_known: "inv s \<Longrightarrow> set_status p st s = Some s' \<Longrightarrow> known s' = known s"
    and set_status_may_run: "inv s \<Longrightarrow> set_status p st s = Some s' \<Longrightarrow>
      may_run s' q \<longleftrightarrow> (if q = p then p \<in> known s \<and> st = 0 else may_run s q)"
begin

lemma wake: "inv s \<Longrightarrow> p \<in> known s \<Longrightarrow> set_status p 0 s = Some s' \<Longrightarrow> may_run s' p"
  using set_status_may_run by simp

lemma block: "inv s \<Longrightarrow> set_status p 1 s = Some s' \<Longrightarrow> \<not> may_run s' p"
  using set_status_may_run by simp

lemma others: "inv s \<Longrightarrow> set_status p st s = Some s' \<Longrightarrow> q \<noteq> p \<Longrightarrow> may_run s' q = may_run s q"
  using set_status_may_run by simp

text \<open>The last change wins: a wake-up that comes before the block is lost.\<close>

lemma wake_before_block_lost:
  assumes "inv s" "set_status p 0 s = Some s1" "set_status p 1 s1 = Some s2"
  shows "\<not> may_run s2 p"
  using block [OF set_status_inv [OF assms(1,2)] assms(3)] .

lemma wake_after_block:
  assumes "inv s" "p \<in> known s" "set_status p 1 s = Some s1" "set_status p 0 s1 = Some s2"
  shows "may_run s2 p"
  using wake [OF set_status_inv [OF assms(1,3)] _ assms(4)] assms(2) set_status_known [OF assms(1,3)] by simp

end

lemma change_task_status_any:
  assumes "sched_inv s ts"
  shows "\<exists>s'. change_task_status p st s = Some s' \<and> sched_inv s' ts \<and> current_task s' = current_task s \<and>
    (\<forall>a \<in> set ts. pid_of s' a = pid_of s a \<and>
       (ready s' a \<longleftrightarrow> (if pid_of s a = p then st = 0 else ready s a)))"
proof -
  have path: "task_path (tasks s) (task_list s) ts" using assms by (simp add: sched_inv_def)
  let ?s = "s\<lparr>tasks := (\<lambda>a. if a \<in> set ts \<and> pid_of s a = p
    then map_option (\<lambda>t. t\<lparr>t_status := st\<rparr>) (tasks s a) else tasks s a)\<rparr>"
  have "sched_inv ?s ts"
    by (rule sched_inv_cong [OF assms]) (use assms in \<open>auto simp: sched_inv_def option.map_comp o_def\<close>)
  moreover have "pid_of ?s a = pid_of s a \<and> (ready ?s a \<longleftrightarrow> (if pid_of s a = p then st = 0 else ready s a))"
    if "a \<in> set ts" for a
    using path_Some [OF path that] that by (auto simp: pid_of_def ready_def)
  ultimately show ?thesis using change_task_status_path [OF path, of p st] by auto
qed

interpretation status: task_status "\<lambda>s. sched_inv s ts" "pids ts" "runnable ts" change_task_status for ts
proof (unfold_locales, goal_cases)
  case (1 s p st)
  then show ?case using change_task_status_any by blast
next
  case (2 s p st s')
  then show ?case using change_task_status_any [OF 2(1), of p st] by auto
next
  case (3 s p st s')
  then show ?case using change_task_status_any [OF 3(1), of p st] by (auto simp: pids_def)
next
  case (4 s p st s' q)
  then have "\<forall>a \<in> set ts. pid_of s' a = pid_of s a \<and>
      (ready s' a \<longleftrightarrow> (if pid_of s a = p then st = 0 else ready s a))"
    using change_task_status_any [OF 4(1), of p st] by auto
  then show ?case by (auto simp: runnable_def pids_def)
qed

text \<open>A context switch changes no status and no pid, and gives the processor to a runnable task.\<close>

lemma switch_task_runnable:
  assumes "sched_inv s ts" "rip \<noteq> 0x12345" "switch_task rip rsp rbp s = Some (s', c)"
  shows "sched_inv s' ts" "runnable ts s' = runnable ts s" "pids ts s' = pids ts s"
    "runnable ts s' (pid_of s' (current_task s'))"
proof -
  obtain i where i: "i < length ts" "current_task s = ts ! i" by (rule sched_inv_current [OF assms(1)])
  have path: "task_path (tasks s) (task_list s) ts" using assms(1) by (simp add: sched_inv_def)
  obtain a where a: "find (ready s) (rotate (Suc i) ts) = Some a"
    using switch_task_eq [OF assms(1) i(2,1) assms(2), of rsp rbp] assms(3)
    by (cases "find (ready s) (rotate (Suc i) ts)") auto
  have mem: "a \<in> set ts" "ready s a" using find_rotate_mem [OF a] by simp_all
  have s': "s' = (upd_task (current_task s) (\<lambda>t. t\<lparr>t_rip := rip, t_rsp := rsp, t_rbp := rbp\<rparr>) s)
      \<lparr>current_task := a, interrupts := True\<rparr>"
    using switch_task_eq [OF assms(1) i(2,1) assms(2), of rsp rbp] assms(3) a by (simp add: Let_def)
  show "sched_inv s' ts" unfolding s' by (rule sched_inv_save [OF assms(1) mem(1)])
  have r: "ready s' b = ready s b" for b
    using ready_save [where c = "current_task s" and rip = rip and rsp = rsp and rbp = rbp and s = s and a = b]
    unfolding s' ready_def by simp
  have p: "pid_of s' b = pid_of s b" if "b \<in> set ts" for b
    using path_Some [OF path that] by (auto simp: s' pid_of_def)
  show "runnable ts s' = runnable ts s" by (rule ext) (auto simp: runnable_def r p)
  show "pids ts s' = pids ts s" by (auto simp: pids_def p)
  show "runnable ts s' (pid_of s' (current_task s'))" using mem r by (auto simp: runnable_def s')
qed

end
