(* ===== verification/Locking.thy ===== *)
theory Locking
  imports Sched
begin

text \<open>
  The locks of \<open>kernel/b_locking.c\<close>: a queue of waiting processes per lock, the owner at its head,
  all queues behind one spin lock. The code between a spin lock and its release is one function here; the
  step relation of the theory LockingCorrect interleaves them by processes the scheduler preempts anywhere.
\<close>

section \<open>State\<close>

record lock =
  l_pid :: u64
  l_next :: u64

record lock_queue =
  head :: u64
  tail :: u64

text \<open>The globals; the nodes that \<open>kmalloc\<close> returned and \<open>kfree\<close> has not taken back.\<close>

record locking =
  locks :: "lock_queue list"
  master_lock :: u64
  next_lockid :: u64
  lock_nodes :: "u64 \<rightharpoonup> lock"

abbreviation LOCKING_MAX :: nat where "LOCKING_MAX \<equiv> 0x10"

definition locking_init :: locking where
  "locking_init = \<lparr>locks = replicate LOCKING_MAX \<lparr>head = 0, tail = 0\<rparr>, master_lock = 0, next_lockid = 0,
     lock_nodes = Map.empty\<rparr>"

section \<open>Operations\<close>

text \<open>An access to \<open>locks[lockid]\<close> outside the array is undefined behaviour, here \<open>None\<close>.\<close>

definition queue_at :: "int \<Rightarrow> locking \<Rightarrow> lock_queue option" where
  "queue_at lockid s = (if 0 \<le> lockid \<and> nat lockid < length (locks s) then Some (locks s ! nat lockid) else None)"

definition set_queue :: "int \<Rightarrow> lock_queue \<Rightarrow> locking \<Rightarrow> locking" where
  "set_queue lockid q s = s\<lparr>locks := (locks s)[nat lockid := q]\<rparr>"

definition register_lock :: "locking \<Rightarrow> (u64 \<times> locking) option" where
  "register_lock s =
     (if unat (next_lockid s) < length (locks s)
      then Some (next_lockid s, (set_queue (uint (next_lockid s)) \<lparr>head = 0, tail = 0\<rparr> s)
                                \<lparr>next_lockid := next_lockid s + 1\<rparr>)
      else None)"

text \<open>One round of the loop of \<open>spin_lock\<close>: the exchange, and whether the loop ends.\<close>

definition spin_round :: "locking \<Rightarrow> bool \<times> locking" where
  "spin_round s = (master_lock s = 0, s\<lparr>master_lock := 1\<rparr>)"

text \<open>
  \<open>lock\<close> from the first \<open>spin_lock\<close> to the release of the master lock: whether the caller has
  the lock. \<open>pid\<close> is the current process and \<open>a\<close> the address \<open>kmalloc\<close> returns.
\<close>

definition lock_section :: "u64 \<Rightarrow> u64 \<Rightarrow> int \<Rightarrow> locking \<Rightarrow> (bool \<times> locking) option" where
  "lock_section a pid lockid s =
     (case queue_at lockid s of
        None \<Rightarrow> None
      | Some q \<Rightarrow>
          if head q = 0
          then Some (True, (set_queue lockid (q\<lparr>head := a, tail := a\<rparr>) s)
                 \<lparr>lock_nodes := (lock_nodes s)(a \<mapsto> \<lparr>l_pid = pid, l_next = 0\<rparr>), master_lock := 0\<rparr>)
          else case lock_nodes s (head q) of
            None \<Rightarrow> None
          | Some h \<Rightarrow>
              if l_pid h = pid then Some (True, s\<lparr>master_lock := 0\<rparr>)
              else let m = (lock_nodes s)(a \<mapsto> \<lparr>l_pid = pid, l_next = 0\<rparr>)
                   in case m (tail q) of
                        None \<Rightarrow> None
                      | Some t \<Rightarrow> Some (False, (set_queue lockid (q\<lparr>tail := a\<rparr>) s)
                          \<lparr>lock_nodes := m(tail q \<mapsto> t\<lparr>l_next := a\<rparr>), master_lock := 0\<rparr>))"

definition get_lock_owner :: "int \<Rightarrow> locking \<Rightarrow> u64 option" where
  "get_lock_owner lockid s =
     (case queue_at lockid s of None \<Rightarrow> None | Some q \<Rightarrow> map_option l_pid (lock_nodes s (head q)))"

text \<open>The waiting loop of \<open>lock\<close>, its critical section: whether it is the caller's turn.\<close>

definition lock_check :: "u64 \<Rightarrow> int \<Rightarrow> locking \<Rightarrow> (bool \<times> locking) option" where
  "lock_check pid lockid s =
     map_option (\<lambda>owner. (owner = pid, s\<lparr>master_lock := 0\<rparr>)) (get_lock_owner lockid s)"

text \<open>\<open>unlock\<close> from \<open>spin_lock\<close> on; it may wake the next process up.\<close>

definition unlock_section :: "u64 \<Rightarrow> int \<Rightarrow> locking \<Rightarrow> sched \<Rightarrow> (locking \<times> sched) option" where
  "unlock_section pid lockid s sch =
     (case queue_at lockid s of
        None \<Rightarrow> None
      | Some q \<Rightarrow>
          if head q = 0 then Some (s\<lparr>master_lock := 0\<rparr>, sch)
          else if head q = tail q
          then Some ((set_queue lockid (q\<lparr>head := 0, tail := 0\<rparr>) s)
                 \<lparr>master_lock := 0, lock_nodes := (lock_nodes s)(head q := None)\<rparr>, sch)
          else case lock_nodes s (head q) of
            None \<Rightarrow> None
          | Some h \<Rightarrow>
              let s1 = (if l_pid h = pid
                        then (set_queue lockid (q\<lparr>head := l_next h\<rparr>) s)
                               \<lparr>lock_nodes := (lock_nodes s)(head q := None)\<rparr>
                        else s)
              in case get_lock_owner lockid s1 of
                   None \<Rightarrow> None
                 | Some owner \<Rightarrow>
                     map_option (\<lambda>sch'. (s1\<lparr>master_lock := 0\<rparr>, sch')) (change_task_status owner 0 sch))"

section \<open>The queue of a lock\<close>

text \<open>The pids in the queue, the owner first.\<close>

definition in_queue :: "int \<Rightarrow> locking \<Rightarrow> u64 list \<Rightarrow> bool" where
  "in_queue lockid s ps \<longleftrightarrow> (\<exists>q xs. queue_at lockid s = Some q \<and> list_path l_next (lock_nodes s) (head q) xs \<and>
     tail q = (if xs = [] then 0 else last xs) \<and> ps = map (\<lambda>a. l_pid (the (lock_nodes s a))) xs)"

lemma queue_at_set [simp]: "queue_at i s \<noteq> None \<Longrightarrow> queue_at i (set_queue i q s) = Some q"
  by (auto simp: queue_at_def set_queue_def split: if_splits)

lemma queue_at_frame [simp, frame_simps]:
  "queue_at i (s\<lparr>master_lock := v\<rparr>) = queue_at i s" "queue_at i (s\<lparr>lock_nodes := m\<rparr>) = queue_at i s"
  by (simp_all add: queue_at_def)

lemma set_queue_frame [simp, frame_simps]:
  "lock_nodes (set_queue i q s) = lock_nodes s" "master_lock (set_queue i q s) = master_lock s"
  by (simp_all add: set_queue_def)

lemma in_queue_master [simp]: "in_queue i (s\<lparr>master_lock := v\<rparr>) ps = in_queue i s ps"
  by (simp add: in_queue_def)

lemma in_queueE:
  assumes "in_queue i s ps"
  obtains q xs where "queue_at i s = Some q" "list_path l_next (lock_nodes s) (head q) xs"
    "tail q = (if xs = [] then 0 else last xs)" "ps = map (\<lambda>a. l_pid (the (lock_nodes s a))) xs"
  using assms by (auto simp: in_queue_def)

lemma in_queue_unique: "in_queue i s ps \<Longrightarrow> in_queue i s qs \<Longrightarrow> ps = qs"
  unfolding in_queue_def using path_unique by (metis option.inject)

lemma in_queue_Cons:
  assumes "in_queue i s (p # ps)"
  obtains q xs h where "queue_at i s = Some q" "head q \<noteq> 0" "lock_nodes s (head q) = Some h" "l_pid h = p"
    "list_path l_next (lock_nodes s) (head q) (head q # xs)" "tail q = last (head q # xs)"
    "ps = map (\<lambda>a. l_pid (the (lock_nodes s a))) xs"
proof -
  obtain q xs where q: "queue_at i s = Some q" "list_path l_next (lock_nodes s) (head q) xs"
    "tail q = (if xs = [] then 0 else last xs)" "p # ps = map (\<lambda>a. l_pid (the (lock_nodes s a))) xs"
    by (rule in_queueE [OF assms])
  then obtain xs' where xs: "xs = head q # xs'" by (cases xs) auto
  then show thesis using q that [of q _ xs'] by auto
qed

text \<open>The queue as the operations see it: these three functions are their specification.\<close>

definition queue_lock :: "u64 \<Rightarrow> u64 list \<Rightarrow> bool \<times> u64 list" where
  "queue_lock p ps = (if ps = [] then (True, [p]) else if hd ps = p then (True, ps) else (False, ps @ [p]))"

definition queue_unlock :: "u64 \<Rightarrow> u64 list \<Rightarrow> u64 list" where
  "queue_unlock p ps = (if length ps \<le> 1 then [] else if hd ps = p then tl ps else ps)"

definition queue_wakes :: "u64 \<Rightarrow> u64 list \<Rightarrow> u64 option" where
  "queue_wakes p ps = (if length ps \<le> 1 then None else Some (hd (queue_unlock p ps)))"

section \<open>The operations on the queue\<close>

lemma lock_section_refines:
  assumes q: "in_queue i s ps" and a: "a \<noteq> 0" "lock_nodes s a = None"
  shows "\<exists>s'. lock_section a p i s = Some (fst (queue_lock p ps), s') \<and>
    in_queue i s' (snd (queue_lock p ps)) \<and> master_lock s' = 0"
proof (cases ps)
  case Nil
  obtain q where q: "queue_at i s = Some q" "head q = 0" "tail q = 0"
    using q unfolding Nil by (auto elim!: in_queueE)
  let ?s = "(set_queue i (q\<lparr>head := a, tail := a\<rparr>) s)
    \<lparr>lock_nodes := (lock_nodes s)(a \<mapsto> \<lparr>l_pid = p, l_next = 0\<rparr>), master_lock := 0\<rparr>"
  have "in_queue i ?s [p]"
    unfolding in_queue_def using q a(1)
    by (intro exI [of _ "q\<lparr>head := a, tail := a\<rparr>"] exI [of _ "[a]"]) simp
  then show ?thesis using q by (auto simp: lock_section_def queue_lock_def Nil)
next
  case (Cons h hs)
  obtain q xs n where x: "queue_at i s = Some q" "head q \<noteq> 0" "lock_nodes s (head q) = Some n" "l_pid n = h"
    "list_path l_next (lock_nodes s) (head q) (head q # xs)" "tail q = last (head q # xs)"
    "hs = map (\<lambda>a. l_pid (the (lock_nodes s a))) xs"
    using in_queue_Cons [OF q [unfolded Cons]] by blast
  show ?thesis
  proof (cases "h = p")
    case True
    then show ?thesis using x(1-4) q by (simp add: lock_section_def queue_lock_def Cons)
  next
    case False
    let ?xs = "head q # xs"
    have mem: "tail q \<in> set ?xs" unfolding x(6) by (rule last_in_set) simp
    obtain t where t: "lock_nodes s (tail q) = Some t" using path_Some [OF x(5) mem] by blast
    have off: "a \<notin> set ?xs"
    proof
      assume "a \<in> set ?xs"
      then show False using path_Some [OF x(5)] a(2) by fastforce
    qed
    let ?m = "(lock_nodes s)(a \<mapsto> \<lparr>l_pid = p, l_next = 0\<rparr>, tail q \<mapsto> t\<lparr>l_next := a\<rparr>)"
    let ?s = "(set_queue i (q\<lparr>tail := a\<rparr>) s)\<lparr>lock_nodes := ?m, master_lock := 0\<rparr>"
    have at: "a \<noteq> tail q" using off mem by metis
    have path: "list_path l_next ?m (head q) (?xs @ [a])"
      by (rule path_snoc [OF x(5) _ a(1), where u = "t\<lparr>l_next := a\<rparr>" and t = "\<lparr>l_pid = p, l_next = 0\<rparr>"])
        (use off at x(6) in auto)
    have pids: "map (\<lambda>b. l_pid (the (?m b))) (?xs @ [a]) = ps @ [p]"
      using off at t x(3,4,7) by (auto simp: Cons)
    have "in_queue i ?s (ps @ [p])"
      unfolding in_queue_def using x(1) path pids
      by (intro exI [of _ "q\<lparr>tail := a\<rparr>"] exI [of _ "?xs @ [a]"]) simp
    moreover have "lock_section a p i s = Some (False, ?s)"
      using x(1-4) t at False by (simp add: lock_section_def Let_def)
    ultimately show ?thesis using False by (simp add: queue_lock_def Cons)
  qed
qed

lemma get_lock_owner_hd: "in_queue i s (h # hs) \<Longrightarrow> get_lock_owner i s = Some h"
  by (auto elim!: in_queue_Cons simp: get_lock_owner_def)

lemma lock_check_hd:
  "in_queue i s (h # hs) \<Longrightarrow> lock_check p i s = Some (h = p, s\<lparr>master_lock := 0\<rparr>)"
  by (simp add: lock_check_def get_lock_owner_hd)

lemma unlock_section_refines:
  assumes q: "in_queue i s ps" and inv: "sched_inv sch ts"
  shows "\<exists>s' sch'. unlock_section p i s sch = Some (s', sch') \<and> in_queue i s' (queue_unlock p ps) \<and>
    master_lock s' = 0 \<and>
    (case queue_wakes p ps of None \<Rightarrow> sch' = sch | Some w \<Rightarrow> change_task_status w 0 sch = Some sch')"
proof (cases ps)
  case Nil
  obtain q where "queue_at i s = Some q" "head q = 0" "tail q = 0"
    using q unfolding Nil by (auto elim!: in_queueE)
  then show ?thesis using q by (simp add: unlock_section_def queue_unlock_def queue_wakes_def Nil)
next
  case (Cons h hs)
  obtain q xs n where x: "queue_at i s = Some q" "head q \<noteq> 0" "lock_nodes s (head q) = Some n" "l_pid n = h"
    "list_path l_next (lock_nodes s) (head q) (head q # xs)" "tail q = last (head q # xs)"
    "hs = map (\<lambda>a. l_pid (the (lock_nodes s a))) xs"
    using in_queue_Cons [OF q [unfolded Cons]] by blast
  have d: "distinct (head q # xs)" by (rule path_distinct [OF x(5)])
  show ?thesis
  proof (cases "xs = []")
    case True
    let ?s = "(set_queue i (q\<lparr>head := 0, tail := 0\<rparr>) s)
      \<lparr>master_lock := 0, lock_nodes := (lock_nodes s)(head q := None)\<rparr>"
    have "in_queue i ?s []"
      unfolding in_queue_def using x(1)
      by (intro exI [of _ "q\<lparr>head := 0, tail := 0\<rparr>"] exI [of _ "[]"]) simp
    then show ?thesis using x True
      by (simp add: unlock_section_def queue_unlock_def queue_wakes_def Cons)
  next
    case False
    then obtain b ys where b: "xs = b # ys" by (cases xs) auto
    have ne: "head q \<noteq> tail q" using d False last_in_set [OF False] unfolding x(6) by auto
    have len: "\<not> length ps \<le> 1" using x(7) b by (simp add: Cons)
    show ?thesis
    proof (cases "h = p")
      case True
      let ?m = "(lock_nodes s)(head q := None)"
      let ?s1 = "(set_queue i (q\<lparr>head := l_next n\<rparr>) s)\<lparr>lock_nodes := ?m\<rparr>"
      have "list_path l_next (lock_nodes s) (l_next n) xs" using x(3,5) by simp
      then have path: "list_path l_next ?m (l_next n) xs" by (rule path_cong) (use d in auto)
      have pids: "map (\<lambda>c. l_pid (the (?m c))) xs = hs" using d x(7) by auto
      have q1: "in_queue i ?s1 hs"
        unfolding in_queue_def using x(1,6) path pids False
        by (intro exI [of _ "q\<lparr>head := l_next n\<rparr>"] exI [of _ xs]) simp
      obtain w hs' where w: "hs = w # hs'" using x(7) b by auto
      obtain sch' where sch: "change_task_status w 0 sch = Some sch'"
        using status.set_status_returns [OF inv] by blast
      have "unlock_section p i s sch = Some (?s1\<lparr>master_lock := 0\<rparr>, sch')"
        using x(1-4) ne True get_lock_owner_hd [OF q1 [unfolded w]] sch by (simp add: unlock_section_def Let_def)
      moreover have "queue_wakes p ps = Some w" "queue_unlock p ps = hs"
        using len True w by (simp_all add: queue_wakes_def queue_unlock_def Cons)
      moreover have "in_queue i (?s1\<lparr>master_lock := 0\<rparr>) hs" "master_lock (?s1\<lparr>master_lock := 0\<rparr>) = 0"
        using q1 by (simp only: in_queue_master, simp)
      ultimately show ?thesis using sch by auto
    next
      case other: False
      obtain sch' where sch: "change_task_status h 0 sch = Some sch'"
        using status.set_status_returns [OF inv] by blast
      have "unlock_section p i s sch = Some (s\<lparr>master_lock := 0\<rparr>, sch')"
        using x(1-4) ne other get_lock_owner_hd [OF q [unfolded Cons]] sch by (simp add: unlock_section_def Let_def)
      moreover have "queue_wakes p ps = Some h" "queue_unlock p ps = ps"
        using len other by (simp_all add: queue_wakes_def queue_unlock_def Cons)
      ultimately show ?thesis using sch q by auto
    qed
  qed
qed

end
