(* ===== verification/LockingCorrect.thy ===== *)
theory LockingCorrect
  imports Locking
begin

text \<open>
  Processes that use one lock, interleaved by the scheduler: the step relation with its events, runs and their
  traces, the invariants, and the properties of the locks.
\<close>

section \<open>Interleaving\<close>

text \<open>
  Where a process is: outside; spinning before and inside the critical sections of \<open>lock\<close>
  (\<open>AtLock\<close>, \<open>InLock\<close>), of its waiting loop (\<open>AtCheck\<close>, \<open>InCheck\<close>) and of
  \<open>unlock\<close> (\<open>AtUnlock\<close>, \<open>InUnlock\<close>); before the status change and before
  \<open>int $0x20\<close> of the waiting loop (\<open>Blocking\<close>, \<open>Yielding\<close>); in the region the
  lock protects (\<open>Inside\<close>). The depth of a process counts the calls of \<open>lock\<close> that have returned and whose
  \<open>unlock\<close> has not begun: as the functions of \<open>monitor.c\<close> do, a process may lock again what it has locked.
\<close>

datatype pc = Outside | AtLock | InLock | AtCheck | InCheck | Blocking | Yielding | Inside | AtUnlock | InUnlock

record lsys =
  lk :: locking
  sch :: sched
  pc :: "u64 \<Rightarrow> pc"
  depth :: "u64 \<Rightarrow> nat"

fun after_spin :: "pc \<Rightarrow> pc option" where
  "after_spin AtLock = Some InLock"
| "after_spin AtCheck = Some InCheck"
| "after_spin AtUnlock = Some InUnlock"
| "after_spin _ = None"

definition in_section :: "pc \<Rightarrow> bool" where
  "in_section c \<longleftrightarrow> c = InLock \<or> c = InCheck \<or> c = InUnlock"

definition waiting :: "pc \<Rightarrow> bool" where
  "waiting c \<longleftrightarrow> c = AtCheck \<or> c = InCheck \<or> c = Blocking \<or> c = Yielding"

definition owning :: "pc \<Rightarrow> bool" where
  "owning c \<longleftrightarrow> c = Inside \<or> c = AtUnlock \<or> c = InUnlock"

definition moves :: "u64 \<Rightarrow> pc \<Rightarrow> nat \<Rightarrow> lsys \<Rightarrow> lsys" where
  "moves p c d s = s\<lparr>pc := (pc s)(p := c), depth := (depth s)(p := d)\<rparr>"

definition goto :: "u64 \<Rightarrow> pc \<Rightarrow> lsys \<Rightarrow> lsys" where
  "goto p c s = moves p c (depth s p) s"

text \<open>\<open>lock\<close> returns, \<open>unlock\<close> begins (without an effect for a lock of the number -1) and returns.\<close>

definition lock_returns :: "u64 \<Rightarrow> lsys \<Rightarrow> lsys" where
  "lock_returns p s = moves p Inside (Suc (depth s p)) s"

definition unlock_returns :: "u64 \<Rightarrow> lsys \<Rightarrow> lsys" where
  "unlock_returns p s = goto p (if depth s p = 0 then Outside else Inside) s"

definition unlock_begins :: "int \<Rightarrow> u64 \<Rightarrow> lsys \<Rightarrow> lsys" where
  "unlock_begins i p s =
     (let s' = moves p AtUnlock (depth s p - 1) s in if i = - 1 then unlock_returns p s' else s')"

text \<open>
  What a step tells: that a process locks again inside the region (\<open>Nested\<close>) or unlocks outside of it
  (\<open>Surplus\<close>), that it has passed the first critical section of \<open>lock\<close>, at once with the lock or not
  (\<open>Arrived\<close>), that it finds its turn has come (\<open>Granted\<close>), that it has passed the critical section of
  \<open>unlock\<close> (\<open>Released\<close>), or that something else makes it ready (\<open>Woken\<close>).
\<close>

datatype lock_event = Nested u64 | Surplus u64 | Arrived u64 bool | Granted u64 | Released u64 | Woken u64 | Quiet

text \<open>
  The steps of the current process are those of \<open>lock\<close> and \<open>unlock\<close>, and \<open>client\<close>: outside of the
  two it may set its own status (it waits for a key, or exits). The timer interrupt may switch to another process
  anywhere (\<open>timer\<close>), and the interrupt of the keyboard may make any process ready (\<open>outside\<close>). A process
  that spins in vain makes no step.
\<close>

inductive lstep :: "int \<Rightarrow> lsys \<Rightarrow> lock_event \<Rightarrow> lsys \<Rightarrow> bool" for i where
  call: "get_current_pid (sch s) = Some p \<Longrightarrow> pc s p = Outside \<or> pc s p = Inside \<Longrightarrow>
    lstep i s (if pc s p = Inside then Nested p else Quiet) (if i = - 1 then lock_returns p s else goto p AtLock s)"
| spin: "get_current_pid (sch s) = Some p \<Longrightarrow> after_spin (pc s p) = Some c \<Longrightarrow> spin_round (lk s) = (True, l) \<Longrightarrow>
    lstep i s Quiet (goto p c (s\<lparr>lk := l\<rparr>))"
| enter: "get_current_pid (sch s) = Some p \<Longrightarrow> pc s p = InLock \<Longrightarrow> a \<noteq> 0 \<Longrightarrow> lock_nodes (lk s) a = None \<Longrightarrow>
    lock_section a p i (lk s) = Some (granted, l) \<Longrightarrow>
    lstep i s (Arrived p granted) ((if granted then lock_returns p else goto p AtCheck) (s\<lparr>lk := l\<rparr>))"
| check: "get_current_pid (sch s) = Some p \<Longrightarrow> pc s p = InCheck \<Longrightarrow> lock_check p i (lk s) = Some (mine, l) \<Longrightarrow>
    lstep i s (if mine then Granted p else Quiet) ((if mine then lock_returns p else goto p Blocking) (s\<lparr>lk := l\<rparr>))"
| block: "get_current_pid (sch s) = Some p \<Longrightarrow> pc s p = Blocking \<Longrightarrow> change_task_status p 1 (sch s) = Some sc \<Longrightarrow>
    lstep i s Quiet (goto p Yielding (s\<lparr>sch := sc\<rparr>))"
| yielding: "get_current_pid (sch s) = Some p \<Longrightarrow> pc s p = Yielding \<Longrightarrow> rip \<noteq> 0x12345 \<Longrightarrow>
    switch_task rip rsp rbp (sch s) = Some (sc, c) \<Longrightarrow>
    lstep i s Quiet (goto p AtCheck (s\<lparr>sch := sc\<rparr>))"
| leave: "get_current_pid (sch s) = Some p \<Longrightarrow> pc s p = Inside \<or> pc s p = Outside \<Longrightarrow>
    lstep i s (if pc s p = Outside then Surplus p else Quiet) (unlock_begins i p s)"
| unlock: "get_current_pid (sch s) = Some p \<Longrightarrow> pc s p = InUnlock \<Longrightarrow>
    unlock_section p i (lk s) (sch s) = Some (l, sc) \<Longrightarrow>
    lstep i s (Released p) (unlock_returns p (s\<lparr>lk := l, sch := sc\<rparr>))"
| client: "get_current_pid (sch s) = Some p \<Longrightarrow> pc s p = Inside \<or> pc s p = Outside \<Longrightarrow>
    change_task_status p v (sch s) = Some sc \<Longrightarrow> lstep i s Quiet (s\<lparr>sch := sc\<rparr>)"
| timer: "rip \<noteq> 0x12345 \<Longrightarrow> switch_task rip rsp rbp (sch s) = Some (sc, c) \<Longrightarrow> lstep i s Quiet (s\<lparr>sch := sc\<rparr>)"
| outside: "change_task_status q 0 (sch s) = Some sc \<Longrightarrow> lstep i s (Woken q) (s\<lparr>sch := sc\<rparr>)"

text \<open>Runs with the list of their events.\<close>

inductive lrun :: "int \<Rightarrow> lsys \<Rightarrow> lock_event list \<Rightarrow> lsys \<Rightarrow> bool" for i s where
  start: "lrun i s [] s"
| step: "lrun i s es t \<Longrightarrow> lstep i t e u \<Longrightarrow> lrun i s (es @ [e]) u"

lemma moves_simps [simp, frame_simps]:
  "lk (moves p c d s) = lk s" "sch (moves p c d s) = sch s" "pc (moves p c d s) = (pc s)(p := c)"
  "depth (moves p c d s) = (depth s)(p := d)"
  "moves p c d (moves p c' d' s) = moves p c d s"
  by (simp_all add: moves_def)

lemma goto_simps [simp, frame_simps]:
  "lk (goto p c s) = lk s" "sch (goto p c s) = sch s" "pc (goto p c s) = (pc s)(p := c)" "depth (goto p c s) = depth s"
  by (simp_all add: goto_def)

lemma returns_simps [simp, frame_simps]:
  "lk (lock_returns p s) = lk s" "sch (lock_returns p s) = sch s" "pc (lock_returns p s) = (pc s)(p := Inside)"
  "lk (unlock_returns p s) = lk s" "sch (unlock_returns p s) = sch s" "lk (unlock_begins i p s) = lk s"
  "sch (unlock_begins i p s) = sch s"
  "pc (unlock_returns p s) = (pc s)(p := if depth s p = 0 then Outside else Inside)"
  "i \<noteq> - 1 \<Longrightarrow> pc (unlock_begins i p s) = (pc s)(p := AtUnlock)"
  by (simp_all add: lock_returns_def unlock_returns_def unlock_begins_def Let_def)

section \<open>The critical sections\<close>

text \<open>Whatever the processes do, at most one is between the spin lock and its release.\<close>

definition section_inv :: "lsys \<Rightarrow> bool" where
  "section_inv s \<longleftrightarrow> (\<forall>p. in_section (pc s p) \<longrightarrow> master_lock (lk s) \<noteq> 0) \<and>
     (\<forall>p q. in_section (pc s p) \<longrightarrow> in_section (pc s q) \<longrightarrow> p = q)"

lemma sections_release:
  "lock_section a p i l = Some (g, l') \<Longrightarrow> master_lock l' = 0"
  "lock_check p i l = Some (g, l') \<Longrightarrow> master_lock l' = 0"
  "unlock_section p i l sc = Some (l', sc') \<Longrightarrow> master_lock l' = 0"
  by (auto simp: lock_section_def lock_check_def unlock_section_def Let_def split: option.splits if_splits)

text \<open>A step of process \<open>p\<close> out of its section, and one of a process that is in none and stays so.\<close>

lemma section_inv_leaves:
  assumes "section_inv s" "in_section (pc s p)" "pc t = (pc s)(p := c)" "\<not> in_section c"
  shows "section_inv t"
  using assms unfolding section_inv_def by (auto split: if_splits)

lemma section_inv_outside:
  assumes "section_inv s" "master_lock (lk t) = master_lock (lk s)" "pc t = (pc s)(p := c)" "\<not> in_section c"
  shows "section_inv t"
  using assms unfolding section_inv_def by (auto split: if_splits)

lemma lstep_section_inv:
  assumes "lstep i s e t" "section_inv s"
  shows "section_inv t"
  using assms
proof (induction rule: lstep.induct)
  case (call s p)
  then show ?case
    by (cases "i = - 1") (auto intro!: section_inv_outside [of s _ p] simp: in_section_def)
next
  case (spin s p c l)
  then have "master_lock (lk s) = 0" "master_lock l \<noteq> 0" by (auto simp: spin_round_def)
  then show ?case using spin(4) by (auto simp: section_inv_def split: if_splits)
next
  case (enter s p a granted l)
  then show ?case
    by (cases granted) (auto intro!: section_inv_leaves [of s p] simp: in_section_def)
next
  case (check s p mine l)
  then show ?case
    by (cases mine) (auto intro!: section_inv_leaves [of s p] simp: in_section_def)
next
  case (leave s p)
  then show ?case
    by (cases "i = - 1") (auto intro!: section_inv_outside [of s _ p] simp: in_section_def unlock_begins_def Let_def
      split: if_splits)
next
  case (unlock s p l sc)
  then show ?case by (auto intro!: section_inv_leaves [of s p] simp: in_section_def split: if_splits)
qed (auto simp: section_inv_def in_section_def split: if_splits)

section \<open>The invariant of disciplined runs\<close>

text \<open>No process locks again what it has locked, and none unlocks what it has not.\<close>

fun disciplined :: "lock_event \<Rightarrow> bool" where
  "disciplined (Nested p) = False"
| "disciplined (Surplus p) = False"
| "disciplined _ = True"

definition lock_inv :: "int \<Rightarrow> u64 list \<Rightarrow> lsys \<Rightarrow> u64 list \<Rightarrow> bool" where
  "lock_inv i ts s ps \<longleftrightarrow> sched_inv (sch s) ts \<and> in_queue i (lk s) ps \<and> distinct ps \<and>
     (\<forall>p. p \<in> set ps \<longleftrightarrow> waiting (pc s p) \<or> owning (pc s p)) \<and>
     (\<forall>p. owning (pc s p) \<longrightarrow> hd ps = p) \<and>
     (\<forall>p. depth s p = (if pc s p = Inside then 1 else 0))"

definition lsys_init :: "int \<Rightarrow> u64 list \<Rightarrow> lsys \<Rightarrow> bool" where
  "lsys_init i ts s \<longleftrightarrow> sched_inv (sch s) ts \<and> in_queue i (lk s) [] \<and> pc s = (\<lambda>_. Outside) \<and> depth s = (\<lambda>_. 0)"

lemma lsys_init_inv: "lsys_init i ts s \<Longrightarrow> lock_inv i ts s []" "lsys_init i ts s \<Longrightarrow> section_inv s"
  by (simp_all add: lsys_init_def lock_inv_def waiting_def owning_def section_inv_def in_section_def)

text \<open>How an event changes the queue, and which events it allows: this is the order of service.\<close>

fun queue_after :: "lock_event \<Rightarrow> u64 list \<Rightarrow> u64 list" where
  "queue_after (Arrived p g) ps = ps @ [p]"
| "queue_after (Released p) ps = tl ps"
| "queue_after _ ps = ps"

fun serves :: "lock_event \<Rightarrow> u64 list \<Rightarrow> bool" where
  "serves (Arrived p g) ps = (g = (ps = []))"
| "serves (Granted p) ps = (ps \<noteq> [] \<and> p = hd ps)"
| "serves (Released p) ps = (ps \<noteq> [] \<and> p = hd ps)"
| "serves _ ps = True"

text \<open>A step of process \<open>p\<close> that leaves the others where they are.\<close>

lemma lock_inv_moves:
  assumes "lock_inv i ts s ps" "in_queue i l ps'" "sched_inv sc ts" "distinct ps'"
    and "waiting c \<or> owning c \<longleftrightarrow> p \<in> set ps'" "owning c \<longrightarrow> hd ps' = p"
    and "\<And>q. q \<noteq> p \<Longrightarrow> (q \<in> set ps' \<longleftrightarrow> q \<in> set ps) \<and> (owning (pc s q) \<longrightarrow> hd ps' = q)"
    and "d = (if c = Inside then 1 else 0)"
  shows "lock_inv i ts (moves p c d (s\<lparr>lk := l, sch := sc\<rparr>)) ps'"
  using assms unfolding lock_inv_def by (auto split: if_splits)

lemma lock_invD:
  assumes "lock_inv i ts s ps"
  shows "sched_inv (sch s) ts" "in_queue i (lk s) ps" "distinct ps"
    "p \<in> set ps \<longleftrightarrow> waiting (pc s p) \<or> owning (pc s p)" "owning (pc s p) \<Longrightarrow> hd ps = p"
    "depth s p = (if pc s p = Inside then 1 else 0)"
  using assms unfolding lock_inv_def by blast+

lemmas pc_kinds = waiting_def owning_def in_section_def

lemma after_spin_kinds:
  assumes "after_spin c = Some c'"
  shows "waiting c' = waiting c" "owning c' = owning c" "in_section c'" "c \<noteq> Inside \<and> c' \<noteq> Inside"
  using assms by (cases c; auto simp: pc_kinds)+

text \<open>Steps that only change the scheduler.\<close>

lemma lock_inv_sched: "lock_inv i ts s ps \<Longrightarrow> sched_inv sc ts \<Longrightarrow> lock_inv i ts (s\<lparr>sch := sc\<rparr>) ps"
  by (simp add: lock_inv_def)

lemma lstep_inv:
  assumes "lstep i s e s'" "i \<noteq> - 1" "lock_inv i ts s ps" "disciplined e"
  shows "lock_inv i ts s' (queue_after e ps) \<and> serves e ps"
  using assms
proof (induction rule: lstep.induct)
  case (call s p)
  note inv = lock_invD [OF call(4)]
  have out: "pc s p = Outside" using call(2,5) by (auto split: if_splits)
  have "lock_inv i ts (moves p AtLock (depth s p) (s\<lparr>lk := lk s, sch := sch s\<rparr>)) ps"
    by (rule lock_inv_moves [OF call(4) inv(2,1,3)]) (use inv out in \<open>auto simp: pc_kinds\<close>)
  then show ?case using call(3) out by (simp add: goto_def)
next
  case (spin s p c l)
  note inv = lock_invD [OF spin(5)] and k = after_spin_kinds [OF spin(2)]
  have l: "l = (lk s)\<lparr>master_lock := 1\<rparr>" using spin(3) by (auto simp: spin_round_def)
  have "lock_inv i ts (moves p c (depth s p) (s\<lparr>lk := l, sch := sch s\<rparr>)) ps"
    by (rule lock_inv_moves [OF spin(5) _ inv(1,3)]) (use inv k l in auto)
  then show ?case by (simp add: goto_def)
next
  case (enter s p a granted l)
  note inv = lock_invD [OF enter(7)]
  have p: "p \<notin> set ps" using inv(4) [of p] enter(2) by (simp add: pc_kinds)
  let ?ps = "ps @ [p]" and ?c = "if granted then Inside else AtCheck"
  have l: "granted = (ps = [])" "in_queue i l ?ps"
    using lock_section_refines [OF inv(2) enter(3,4), of p] enter(5) p hd_in_set [of ps]
    by (auto simp: queue_lock_def split: if_splits)
  have d: "depth s p = 0" using inv(6) [of p] enter(2) by simp
  have "lock_inv i ts (moves p ?c (if ?c = Inside then 1 else 0) (s\<lparr>lk := l, sch := sch s\<rparr>)) ?ps"
    by (rule lock_inv_moves [OF enter(7) l(2) inv(1)])
      (use inv(3,4,5) p l(1) in \<open>auto simp: pc_kinds hd_append\<close>)
  then show ?case using l(1) d by (cases granted) (simp_all add: goto_def lock_returns_def)
next
  case (check s p mine l)
  note inv = lock_invD [OF check(5)]
  have p: "p \<in> set ps" using inv(4) [of p] check(2) by (simp add: pc_kinds)
  then obtain h hs where ps: "ps = h # hs" by (cases ps) auto
  have l: "mine = (h = p)" "l = (lk s)\<lparr>master_lock := 0\<rparr>"
    using lock_check_hd [OF inv(2) [unfolded ps], of p] check(3) by auto
  let ?c = "if mine then Inside else Blocking"
  have d: "depth s p = 0" using inv(6) [of p] check(2) by simp
  have "lock_inv i ts (moves p ?c (if ?c = Inside then 1 else 0) (s\<lparr>lk := l, sch := sch s\<rparr>)) ps"
    by (rule lock_inv_moves [OF check(5) _ inv(1,3)])
      (use inv(2,3,4,5) p l ps in \<open>auto simp: pc_kinds\<close>)
  then show ?case using l(1) ps d by (cases mine) (simp_all add: goto_def lock_returns_def)
next
  case (block s p sc)
  note inv = lock_invD [OF block(5)]
  have "lock_inv i ts (moves p Yielding (depth s p) (s\<lparr>lk := lk s, sch := sc\<rparr>)) ps"
    by (rule lock_inv_moves [OF block(5) inv(2) status.set_status_inv [OF inv(1) block(3)] inv(3)])
      (use inv block(2) in \<open>auto simp: pc_kinds\<close>)
  then show ?case by (simp add: goto_def)
next
  case (yielding s p rip rsp rbp sc c)
  note inv = lock_invD [OF yielding(6)]
  have "lock_inv i ts (moves p AtCheck (depth s p) (s\<lparr>lk := lk s, sch := sc\<rparr>)) ps"
    by (rule lock_inv_moves [OF yielding(6) inv(2) switch_task_runnable(1) [OF inv(1) yielding(3,4)] inv(3)])
      (use inv yielding(2) in \<open>auto simp: pc_kinds\<close>)
  then show ?case by (simp add: goto_def)
next
  case (leave s p)
  note inv = lock_invD [OF leave(4)]
  have ins: "pc s p = Inside" using leave(2,5) by (auto split: if_splits)
  have "lock_inv i ts (moves p AtUnlock (depth s p - 1) (s\<lparr>lk := lk s, sch := sch s\<rparr>)) ps"
    by (rule lock_inv_moves [OF leave(4) inv(2,1,3)]) (use inv ins in \<open>auto simp: pc_kinds\<close>)
  then show ?case using leave(3) ins by (simp add: unlock_begins_def)
next
  case (unlock s p l sc)
  note inv = lock_invD [OF unlock(5)]
  have own: "owning (pc s p)" using unlock(2) by (simp add: pc_kinds)
  then have p: "p \<in> set ps" "hd ps = p" using inv(4,5) by blast+
  have q: "queue_unlock p ps = tl ps" using p by (cases ps rule: list.exhaust) (auto simp: queue_unlock_def)
  obtain s1 sch1 where "unlock_section p i (lk s) (sch s) = Some (s1, sch1)" "in_queue i s1 (tl ps)"
    "case queue_wakes p ps of None \<Rightarrow> sch1 = sch s | Some w \<Rightarrow> change_task_status w 0 (sch s) = Some sch1"
    using unlock_section_refines [OF inv(2,1), of p] q by auto
  then have l: "in_queue i l (tl ps)" "sched_inv sc ts"
    using unlock(3) inv(1) status.set_status_inv [OF inv(1)] by (auto split: option.splits)
  obtain hs where ps: "ps = p # hs" using p by (cases ps) auto
  have d: "depth s p = 0" using inv(6) [of p] unlock(2) by simp
  have "lock_inv i ts (moves p Outside 0 (s\<lparr>lk := l, sch := sc\<rparr>)) (tl ps)"
    by (rule lock_inv_moves [OF unlock(5) l]) (use inv(3,5) ps in \<open>auto simp: pc_kinds\<close>)
  then show ?case using ps d by (simp add: unlock_returns_def goto_def)
next
  case (client s p v sc)
  note inv = lock_invD [OF client(5)]
  then show ?case using lock_inv_sched [OF client(5) status.set_status_inv [OF inv(1) client(3)]] by simp
next
  case (timer rip rsp rbp s sc c)
  note inv = lock_invD [OF timer(4)]
  then show ?case using lock_inv_sched [OF timer(4) switch_task_runnable(1) [OF inv(1) timer(1,2)]] by simp
next
  case (outside q s sc)
  note inv = lock_invD [OF outside(3)]
  then show ?case using lock_inv_sched [OF outside(3) status.set_status_inv [OF inv(1) outside(1)]] by simp
qed

text \<open>Along a run: the sections, and in a disciplined one the invariant and the order of service.\<close>

lemma lrun_section_inv: "lrun i s es t \<Longrightarrow> section_inv s \<Longrightarrow> section_inv t"
  by (induction rule: lrun.induct) (auto intro: lstep_section_inv)

definition arrivals :: "lock_event list \<Rightarrow> u64 list" where
  "arrivals es = concat (map (\<lambda>e. case e of Arrived p g \<Rightarrow> [p] | _ \<Rightarrow> []) es)"

definition entries :: "lock_event list \<Rightarrow> u64 list" where
  "entries es = concat (map (\<lambda>e. case e of Arrived p True \<Rightarrow> [p] | Granted p \<Rightarrow> [p] | _ \<Rightarrow> []) es)"

definition releases :: "lock_event list \<Rightarrow> u64 list" where
  "releases es = concat (map (\<lambda>e. case e of Released p \<Rightarrow> [p] | _ \<Rightarrow> []) es)"

text \<open>
  The processes that have arrived are those that have released the lock and then the queue; those that have entered
  are those that have released it and then the owner.
\<close>

definition in_order :: "lock_event list \<Rightarrow> lsys \<Rightarrow> u64 list \<Rightarrow> bool" where
  "in_order es s ps \<longleftrightarrow> arrivals es = releases es @ ps \<and>
     entries es = releases es @ (if ps \<noteq> [] \<and> owning (pc s (hd ps)) then [hd ps] else [])"

lemma traces_snoc [simp]:
  "arrivals (es @ [e]) = arrivals es @ (case e of Arrived p g \<Rightarrow> [p] | _ \<Rightarrow> [])"
  "entries (es @ [e]) = entries es @ (case e of Arrived p True \<Rightarrow> [p] | Granted p \<Rightarrow> [p] | _ \<Rightarrow> [])"
  "releases (es @ [e]) = releases es @ (case e of Released p \<Rightarrow> [p] | _ \<Rightarrow> [])"
  "arrivals [] = []" "entries [] = []" "releases [] = []"
  by (simp_all add: arrivals_def entries_def releases_def)

text \<open>Which processes own the lock before and after a step.\<close>

lemma lstep_owning:
  assumes "lstep i s e t" "i \<noteq> - 1" "lock_inv i ts s ps" "disciplined e"
  shows "owning (pc t q) \<longleftrightarrow>
    (case e of Arrived p g \<Rightarrow> owning (pc s q) \<or> g \<and> q = p | Granted p \<Rightarrow> owning (pc s q) \<or> q = p
     | Released p \<Rightarrow> owning (pc s q) \<and> q \<noteq> p | _ \<Rightarrow> owning (pc s q))"
  using assms
proof (induction rule: lstep.induct)
  case (call s p)
  then have "pc s p = Outside" by (auto split: if_splits)
  then show ?case using call(3) by (simp add: owning_def)
next
  case (spin s p c l)
  then show ?case using after_spin_kinds(2) by simp
next
  case (enter s p a granted l)
  then show ?case by (cases granted) (simp_all add: owning_def)
next
  case (check s p mine l)
  then show ?case by (cases mine) (simp_all add: owning_def)
next
  case (leave s p)
  then have "pc s p = Inside" by (auto split: if_splits)
  then show ?case using leave(3) by (simp add: owning_def)
next
  case (unlock s p l sc)
  then have "depth s p = 0" using lock_invD(6) [OF unlock(5), of p] by simp
  then show ?case by (simp add: owning_def)
qed (simp_all add: owning_def)

inductive_cases grantedE: "lstep i s (Granted p) t"
inductive_cases releasedE: "lstep i s (Released p) t"
inductive_cases nestedE: "lstep i s (Nested p) t"

lemma event_places:
  "lstep i s (Granted p) t \<Longrightarrow> pc s p = InCheck" "lstep i s (Released p) t \<Longrightarrow> pc s p = InUnlock"
  "lstep i s (Nested p) t \<Longrightarrow> pc s p = Inside"
  by (erule grantedE, simp_all split: if_splits) (erule releasedE, simp_all split: if_splits,
    erule nestedE, auto split: if_splits)

lemma lstep_in_order:
  assumes st: "lstep i s e t" and "i \<noteq> - 1" and inv: "lock_inv i ts s ps" and "disciplined e"
    and ord: "in_order es s ps"
  shows "in_order (es @ [e]) t (queue_after e ps)"
proof -
  note own = lstep_owning [OF assms(1-4)] and serve = lstep_inv [OF assms(1-4)]
  note o = ord [unfolded in_order_def]
  have hd_owns: "owning (pc s q) \<Longrightarrow> ps \<noteq> [] \<and> q = hd ps" for q
    using lock_invD(4,5) [OF inv, of q] by auto
  show ?thesis
  proof (cases e)
    case (Arrived p g)
    then have g: "g = (ps = [])" using serve by simp
    show ?thesis
    proof (cases "ps = []")
      case True
      then show ?thesis using o own [of p] g Arrived by (simp add: in_order_def)
    next
      case False
      then have "hd (ps @ [p]) = hd ps" by simp
      then show ?thesis using o own [of "hd ps"] g Arrived False by (simp add: in_order_def)
    qed
  next
    case (Granted p)
    have "\<not> owning (pc s p)" using event_places(1) [OF st [unfolded Granted]] by (simp add: owning_def)
    moreover have "ps \<noteq> []" "p = hd ps" using serve Granted by simp_all
    moreover have "owning (pc t p)" using own [of p] Granted by simp
    ultimately show ?thesis using o Granted by (simp add: in_order_def)
  next
    case (Released p)
    have p: "owning (pc s p)" using event_places(2) [OF st [unfolded Released]] by (simp add: owning_def)
    have "\<not> owning (pc t q)" for q using own [of q] hd_owns [of q] hd_owns [OF p] Released by auto
    moreover obtain qs where "ps = p # qs" using hd_owns [OF p] by (cases ps) auto
    ultimately show ?thesis using o p Released by (simp add: in_order_def)
  qed (use assms(4) o own [of "hd ps"] in \<open>simp_all add: in_order_def\<close>)
qed

lemma lrun_inv:
  assumes "lrun i s es t" "i \<noteq> - 1" "lock_inv i ts s ps" "in_order [] s ps" "list_all disciplined es"
  shows "\<exists>qs. lock_inv i ts t qs \<and> in_order es t qs"
  using assms
proof (induction rule: lrun.induct)
  case (step es t e u)
  then obtain qs where qs: "lock_inv i ts t qs" "in_order es t qs" by auto
  have e: "disciplined e" using step.prems(4) by simp
  show ?case using lstep_inv [OF step.hyps(2) step.prems(1) qs(1) e] lstep_in_order [OF step.hyps(2) step.prems(1) qs(1) e qs(2)]
    by blast
qed auto

lemma lsys_init_order: "lsys_init i ts s \<Longrightarrow> in_order [] s []"
  by (simp add: in_order_def)

section \<open>A run of two processes\<close>

text \<open>Two tasks with pids 0 and 1; \<open>c\<close> runs, the second one has status \<open>st\<close>.\<close>

definition two_task :: "u64 \<Rightarrow> u8 \<Rightarrow> u64 \<Rightarrow> task" where
  "two_task pid st nxt = \<lparr>t_pid = pid, t_rsp = 2, t_rbp = 3, t_rip = 1, t_pml4 = 0x1000, t_status = st, t_next = nxt\<rparr>"

definition two_sched :: "u64 \<Rightarrow> u8 \<Rightarrow> sched" where
  "two_sched c st = \<lparr>current_task = c, task_list = 0x100, next_pid = 2,
     tasks = [0x100 \<mapsto> two_task 0 0 0x200, 0x200 \<mapsto> two_task 1 st 0], interrupts = True\<rparr>"

lemma two_sched_inv: "c = 0x100 \<or> c = 0x200 \<Longrightarrow> sched_inv (two_sched c st) [0x100, 0x200]"
  by (auto simp: sched_inv_def two_sched_def two_task_def pid_of_def inj_on_def)

lemma two_pid: "get_current_pid (two_sched 0x100 st) = Some 0" "get_current_pid (two_sched 0x200 st) = Some 1"
  by (simp_all add: get_current_pid_def two_sched_def two_task_def)

lemma two_save:
  "c = 0x100 \<or> c = 0x200 \<Longrightarrow>
     (upd_task c (\<lambda>t. t\<lparr>t_rip := 1, t_rsp := 2, t_rbp := 3\<rparr>) (two_sched c st))\<lparr>current_task := a, interrupts := True\<rparr> =
     two_sched a st"
  by (auto simp: upd_task_def two_sched_def two_task_def)

lemma two_current [simp]: "current_task (two_sched c st) = c"
  by (simp add: two_sched_def)

lemma two_switch:
  "\<exists>c. switch_task 1 2 3 (two_sched 0x100 0) = Some (two_sched 0x200 0, Some c)"
  "\<exists>c. switch_task 1 2 3 (two_sched 0x200 st) = Some (two_sched 0x100 st, Some c)"
proof -
  have "find (ready (two_sched 0x100 0)) (rotate (Suc 0) [0x100, 0x200]) = Some 0x200"
    by (simp add: ready_def two_sched_def two_task_def)
  then show "\<exists>c. switch_task 1 2 3 (two_sched 0x100 0) = Some (two_sched 0x200 0, Some c)"
    using switch_task_eq [OF two_sched_inv, of "0x100" 0 0 1 2 3] two_save [where c = "0x100" and st = 0 and a = "0x200"]
    by (simp add: Let_def)
  have "find (ready (two_sched 0x200 st)) (rotate (Suc 1) [0x100, 0x200]) = Some 0x100"
    by (simp add: ready_def two_sched_def two_task_def rotate_def)
  then show "\<exists>c. switch_task 1 2 3 (two_sched 0x200 st) = Some (two_sched 0x100 st, Some c)"
    using switch_task_eq [OF two_sched_inv, of "0x200" st 1 1 2 3] two_save [where c = "0x200" and st = st and a = "0x100"]
    by (simp add: Let_def)
qed

lemma two_status:
  assumes "c = 0x100 \<or> c = 0x200"
  shows "change_task_status 1 v (two_sched c st) = Some (two_sched c v)"
proof -
  have "task_path (tasks (two_sched c st)) (task_list (two_sched c st)) [0x100, 0x200]"
    using two_sched_inv [OF assms] by (simp add: sched_inv_def)
  from change_task_status_path [OF this, of 1 v] show ?thesis
    by (auto simp: two_sched_def two_task_def pid_of_def intro!: ext)
qed

definition two_locks :: "u64 \<Rightarrow> u64 \<Rightarrow> u64 \<Rightarrow> (u64 \<rightharpoonup> lock) \<Rightarrow> locking" where
  "two_locks m h t nodes = \<lparr>locks = \<lparr>head = h, tail = t\<rparr> # replicate 15 \<lparr>head = 0, tail = 0\<rparr>,
     master_lock = m, next_lockid = 0, lock_nodes = nodes\<rparr>"

lemma two_locks_init: "locking_init = two_locks 0 0 0 Map.empty"
  by (simp add: locking_init_def two_locks_def numeral_eq_Suc)

definition two_sys :: "locking \<Rightarrow> sched \<Rightarrow> pc \<Rightarrow> pc \<Rightarrow> nat \<Rightarrow> lsys" where
  "two_sys l sc c0 c1 d = \<lparr>lk = l, sch = sc, pc = (\<lambda>_. Outside)(0 := c0, 1 := c1), depth = (\<lambda>_. 0)(0 := d)\<rparr>"

lemma two_sys_simps [simp]:
  "lk (two_sys l sc c0 c1 d) = l" "sch (two_sys l sc c0 c1 d) = sc"
  "pc (two_sys l sc c0 c1 d) 0 = c0" "pc (two_sys l sc c0 c1 d) 1 = c1" "depth (two_sys l sc c0 c1 d) 0 = d"
  "moves 0 c d' (two_sys l sc c0 c1 d) = two_sys l sc c c1 d'"
  "goto 0 c (two_sys l sc c0 c1 d) = two_sys l sc c c1 d" "goto 1 c (two_sys l sc c0 c1 d) = two_sys l sc c0 c d"
  "(two_sys l sc c0 c1 d)\<lparr>lk := l'\<rparr> = two_sys l' sc c0 c1 d" "(two_sys l sc c0 c1 d)\<lparr>sch := sc'\<rparr> = two_sys l sc' c0 c1 d"
  "lock_returns 0 (two_sys l sc c0 c1 d) = two_sys l sc Inside c1 (Suc d)"
  "unlock_returns 0 (two_sys l sc c0 c1 d) = two_sys l sc (if d = 0 then Outside else Inside) c1 d"
  "i \<noteq> - 1 \<Longrightarrow> unlock_begins i 0 (two_sys l sc c0 c1 d) = two_sys l sc AtUnlock c1 (d - 1)"
  by (simp_all add: two_sys_def goto_def moves_def lock_returns_def unlock_returns_def unlock_begins_def fun_eq_iff)

lemma two_init: "lsys_init 0 [0x100, 0x200] (two_sys (two_locks 0 0 0 Map.empty) (two_sched 0x100 0) Outside Outside 0)"
proof -
  have "in_queue 0 (two_locks 0 0 0 Map.empty) []"
    by (auto simp: in_queue_def queue_at_def two_locks_def)
  then show ?thesis using two_sched_inv [of "0x100" 0]
    by (auto simp: lsys_init_def two_sys_def)
qed

text \<open>
  Process 0 takes the lock; process 1 queues up, finds the lock taken and is preempted before it blocks;
  process 0 unlocks and wakes process 1 up, which then blocks itself.
\<close>

abbreviation n0 :: lock where "n0 \<equiv> \<lparr>l_pid = 0, l_next = 0\<rparr>"
abbreviation n01 :: lock where "n01 \<equiv> \<lparr>l_pid = 0, l_next = 0x2000\<rparr>"
abbreviation n1 :: lock where "n1 \<equiv> \<lparr>l_pid = 1, l_next = 0\<rparr>"

lemma two_enter:
  "lock_section 0x1000 0 0 (two_locks 1 0 0 Map.empty) = Some (True, two_locks 0 0x1000 0x1000 [0x1000 \<mapsto> n0])"
  "lock_section 0x2000 1 0 (two_locks 1 0x1000 0x1000 [0x1000 \<mapsto> n0]) =
     Some (False, two_locks 0 0x1000 0x2000 [0x1000 \<mapsto> n01, 0x2000 \<mapsto> n1])"
  by (simp_all add: lock_section_def queue_at_def set_queue_def two_locks_def Let_def fun_upd_twist)

lemma two_check:
  "lock_check 1 0 (two_locks 1 0x1000 0x2000 [0x1000 \<mapsto> n01, 0x2000 \<mapsto> n1]) =
     Some (False, two_locks 0 0x1000 0x2000 [0x1000 \<mapsto> n01, 0x2000 \<mapsto> n1])"
  by (simp add: lock_check_def get_lock_owner_def queue_at_def two_locks_def)

lemma two_unlock:
  "unlock_section 0 0 (two_locks 1 0x1000 0x2000 [0x1000 \<mapsto> n01, 0x2000 \<mapsto> n1]) (two_sched 0x100 0) =
     Some (two_locks 0 0x2000 0x2000 [0x2000 \<mapsto> n1], two_sched 0x100 0)"
  using two_status [of "0x100" 0 0]
  by (simp add: unlock_section_def get_lock_owner_def queue_at_def set_queue_def two_locks_def fun_upd_twist)

lemma two_spin: "spin_round (two_locks 0 h t m) = (True, two_locks 1 h t m)"
  by (simp add: spin_round_def two_locks_def)

lemma two_nodes: "lock_nodes (two_locks m h t n) = n"
  by (simp add: two_locks_def)

text \<open>The steps of the two processes, with their conditions evaluated.\<close>

lemma two_steps:
  "lstep 0 (two_sys l (two_sched 0x100 st) Outside c1 d) Quiet (two_sys l (two_sched 0x100 st) AtLock c1 d)"
  "lstep 0 (two_sys l (two_sched 0x200 st) c0 Outside d) Quiet (two_sys l (two_sched 0x200 st) c0 AtLock d)"
  "after_spin c0 = Some c \<Longrightarrow>
     lstep 0 (two_sys (two_locks 0 h t m) (two_sched 0x100 st) c0 c1 d) Quiet (two_sys (two_locks 1 h t m) (two_sched 0x100 st) c c1 d)"
  "after_spin c1 = Some c \<Longrightarrow>
     lstep 0 (two_sys (two_locks 0 h t m) (two_sched 0x200 st) c0 c1 d) Quiet (two_sys (two_locks 1 h t m) (two_sched 0x200 st) c0 c d)"
  "lstep 0 (two_sys l (two_sched 0x100 0) c0 c1 d) Quiet (two_sys l (two_sched 0x200 0) c0 c1 d)"
  "lstep 0 (two_sys l (two_sched 0x200 st) c0 c1 d) Quiet (two_sys l (two_sched 0x100 st) c0 c1 d)"
  "lstep 0 (two_sys l (two_sched 0x100 st) Inside c1 d) Quiet (two_sys l (two_sched 0x100 st) AtUnlock c1 (d - 1))"
  "lstep 0 (two_sys l (two_sched 0x200 st) c0 Blocking d) Quiet (two_sys l (two_sched 0x200 1) c0 Yielding d)"
proof goal_cases
  case 1
  show ?case using lstep.call [of "two_sys l (two_sched 0x100 st) Outside c1 d" 0 0] by (simp add: two_pid)
next
  case 2
  show ?case using lstep.call [of "two_sys l (two_sched 0x200 st) c0 Outside d" 1 0] by (simp add: two_pid)
next
  case 3
  then show ?case using lstep.spin [where s = "two_sys (two_locks 0 h t m) (two_sched 0x100 st) c0 c1 d" and p = 0 and c = c and l = "two_locks 1 h t m" and i = 0]
    by (simp add: two_pid two_spin)
next
  case 4
  then show ?case using lstep.spin [where s = "two_sys (two_locks 0 h t m) (two_sched 0x200 st) c0 c1 d" and p = 1 and c = c and l = "two_locks 1 h t m" and i = 0]
    by (simp add: two_pid two_spin)
next
  case 5
  obtain c where "switch_task 1 2 3 (two_sched 0x100 0) = Some (two_sched 0x200 0, Some c)" using two_switch by blast
  then show ?case using lstep.timer [of 1 2 3 "two_sys l (two_sched 0x100 0) c0 c1 d"] by simp
next
  case 6
  obtain c where "switch_task 1 2 3 (two_sched 0x200 st) = Some (two_sched 0x100 st, Some c)" using two_switch by blast
  then show ?case using lstep.timer [of 1 2 3 "two_sys l (two_sched 0x200 st) c0 c1 d"] by simp
next
  case 7
  show ?case using lstep.leave [of "two_sys l (two_sched 0x100 st) Inside c1 d" 0 0] by (simp add: two_pid)
next
  case 8
  show ?case using lstep.block [of "two_sys l (two_sched 0x200 st) c0 Blocking d" 1 "two_sched 0x200 1" 0] two_status [of "0x200" 1 st]
    by (simp add: two_pid)
qed

lemma two_sections:
  "lstep 0 (two_sys (two_locks 1 0 0 Map.empty) (two_sched 0x100 0) InLock Outside 0) (Arrived 0 True)
     (two_sys (two_locks 0 0x1000 0x1000 [0x1000 \<mapsto> n0]) (two_sched 0x100 0) Inside Outside 1)"
  "lstep 0 (two_sys (two_locks 1 0x1000 0x1000 [0x1000 \<mapsto> n0]) (two_sched 0x200 0) Inside InLock 1) (Arrived 1 False)
     (two_sys (two_locks 0 0x1000 0x2000 [0x1000 \<mapsto> n01, 0x2000 \<mapsto> n1]) (two_sched 0x200 0) Inside AtCheck 1)"
  "lstep 0 (two_sys (two_locks 1 0x1000 0x2000 [0x1000 \<mapsto> n01, 0x2000 \<mapsto> n1]) (two_sched 0x200 0) Inside InCheck 1) Quiet
     (two_sys (two_locks 0 0x1000 0x2000 [0x1000 \<mapsto> n01, 0x2000 \<mapsto> n1]) (two_sched 0x200 0) Inside Blocking 1)"
  "lstep 0 (two_sys (two_locks 1 0x1000 0x2000 [0x1000 \<mapsto> n01, 0x2000 \<mapsto> n1]) (two_sched 0x100 0) InUnlock Blocking 0) (Released 0)
     (two_sys (two_locks 0 0x2000 0x2000 [0x2000 \<mapsto> n1]) (two_sched 0x100 0) Outside Blocking 0)"
  using lstep.enter [where s = "two_sys (two_locks 1 0 0 Map.empty) (two_sched 0x100 0) InLock Outside 0" and i = 0
      and p = 0 and a = "0x1000" and granted = True]
    lstep.enter [where s = "two_sys (two_locks 1 0x1000 0x1000 [0x1000 \<mapsto> n0]) (two_sched 0x200 0) Inside InLock 1" and i = 0
      and p = 1 and a = "0x2000" and granted = False]
    lstep.check [where s = "two_sys (two_locks 1 0x1000 0x2000 [0x1000 \<mapsto> n01, 0x2000 \<mapsto> n1]) (two_sched 0x200 0) Inside InCheck 1"
      and p = 1 and i = 0 and mine = False]
    lstep.unlock [where s = "two_sys (two_locks 1 0x1000 0x2000 [0x1000 \<mapsto> n01, 0x2000 \<mapsto> n1]) (two_sched 0x100 0) InUnlock Blocking 0"
      and p = 0 and i = 0]
  by (simp_all add: two_pid two_nodes two_enter two_check two_unlock)

abbreviation two_start :: lsys where
  "two_start \<equiv> two_sys (two_locks 0 0 0 Map.empty) (two_sched 0x100 0) Outside Outside 0"

text \<open>The three stages of the run, with their events.\<close>

lemma lrun_step: "lrun i s es t \<Longrightarrow> lstep i t e u \<Longrightarrow> es' = es @ [e] \<Longrightarrow> lrun i s es' u"
  by (simp add: lrun.step)

abbreviation taken_events :: "lock_event list" where "taken_events \<equiv> [Quiet, Quiet, Arrived 0 True]"
abbreviation queued_events :: "lock_event list" where
  "queued_events \<equiv> taken_events @ [Quiet, Quiet, Quiet, Arrived 1 False]"
abbreviation lost_events :: "lock_event list" where
  "lost_events \<equiv> queued_events @ [Quiet, Quiet, Quiet, Quiet, Quiet, Released 0, Quiet, Quiet]"

lemma two_run_taken:
  "lrun 0 two_start taken_events
     (two_sys (two_locks 0 0x1000 0x1000 [0x1000 \<mapsto> n0]) (two_sched 0x100 0) Inside Outside 1)"
proof -
  note r = lrun.start
  note r = lrun.step [OF r two_steps(1)]
  note r = lrun.step [OF r two_steps(3) [OF after_spin.simps(1)]]
  note r = lrun.step [OF r two_sections(1)]
  then show ?thesis by simp
qed

lemma two_run_queued:
  "lrun 0 two_start queued_events
     (two_sys (two_locks 0 0x1000 0x2000 [0x1000 \<mapsto> n01, 0x2000 \<mapsto> n1]) (two_sched 0x200 0) Inside AtCheck 1)"
proof -
  note r = lrun.step [OF two_run_taken two_steps(5)]
  note r = lrun.step [OF r two_steps(2)]
  note r = lrun.step [OF r two_steps(4) [OF after_spin.simps(1)]]
  note r = lrun.step [OF r two_sections(2)]
  then show ?thesis by simp
qed

lemma two_run_lost:
  "lrun 0 two_start lost_events
     (two_sys (two_locks 0 0x2000 0x2000 [0x2000 \<mapsto> n1]) (two_sched 0x200 1) Outside Yielding 0)"
proof -
  note r = lrun.step [OF two_run_queued two_steps(4) [OF after_spin.simps(2)]]
  note r = lrun.step [OF r two_sections(3)]
  note r = lrun.step [OF r two_steps(6)]
  note r = lrun.step [OF r two_steps(7)]
  note r = lrun.step [OF r [simplified] two_steps(3) [OF after_spin.simps(3)]]
  note r = lrun.step [OF r two_sections(4)]
  note r = lrun.step [OF r two_steps(5)]
  note r = lrun.step [OF r two_steps(8)]
  then show ?thesis by simp
qed

section \<open>A wake-up that comes too early\<close>

text \<open>
  The lock is free for process \<open>p\<close>, which has blocked itself after the wake-up. Nobody owns the
  lock, so nobody has an \<open>unlock\<close> to do.
\<close>

definition stuck :: "int \<Rightarrow> u64 list \<Rightarrow> u64 \<Rightarrow> lsys \<Rightarrow> bool" where
  "stuck i ts p s \<longleftrightarrow> (\<exists>qs. lock_inv i ts s (p # qs)) \<and> (pc s p = Yielding \<or> pc s p = AtCheck) \<and>
     \<not> runnable ts (sch s) p \<and> (get_current_pid (sch s) = Some p \<longrightarrow> pc s p = Yielding)"

text \<open>The steps that could help: a call of \<open>unlock\<close> by a process that does not own the lock, or a wake-up of \<open>p\<close>.\<close>

fun helps :: "u64 \<Rightarrow> lock_event \<Rightarrow> bool" where
  "helps p (Surplus q) = True"
| "helps p (Woken q) = (q = p)"
| "helps p _ = False"

lemma stuck_nobody: "stuck i ts p s \<Longrightarrow> \<not> owning (pc s q)"
proof
  assume s: "stuck i ts p s" and q: "owning (pc s q)"
  then obtain qs where "lock_inv i ts s (p # qs)" by (auto simp: stuck_def)
  then have "p = q" using lock_invD(5) q by fastforce
  then show False using s q by (auto simp: stuck_def owning_def)
qed

lemma switched_pid:
  assumes "sched_inv s ts" "rip \<noteq> 0x12345" "switch_task rip rsp rbp s = Some (s', c)"
  shows "\<exists>q. get_current_pid s' = Some q \<and> runnable ts s q"
proof -
  note sw = switch_task_runnable [OF assms]
  have "current_task s' \<in> set ts" "task_path (tasks s') (task_list s') ts" using sw(1) by (simp_all add: sched_inv_def)
  then obtain t where "tasks s' (current_task s') = Some t" using path_Some by meson
  then show ?thesis using sw(2,4) by (auto simp: get_current_pid_def pid_of_def)
qed

text \<open>A change of the status of another process leaves \<open>p\<close> and the current process as they are.\<close>

lemma status_of_other:
  assumes inv: "sched_inv s ts" and st: "change_task_status q v s = Some s'"
  shows "q \<noteq> p \<Longrightarrow> runnable ts s' p = runnable ts s p" "get_current_pid s' = get_current_pid s"
proof -
  show "q \<noteq> p \<Longrightarrow> runnable ts s' p = runnable ts s p" using status.others [OF inv st] by auto
  have f: "current_task s' = current_task s" "\<forall>a \<in> set ts. pid_of s' a = pid_of s a" "sched_inv s' ts"
    using change_task_status_any [OF inv, of q v] st by auto
  have c: "current_task s \<in> set ts" using inv by (simp add: sched_inv_def)
  obtain t t' where "tasks s (current_task s) = Some t" "tasks s' (current_task s) = Some t'"
    using c f(1,3) inv path_Some by (fastforce simp: sched_inv_def)
  moreover have "pid_of s' (current_task s) = pid_of s (current_task s)" using f(2) c by blast
  ultimately show "get_current_pid s' = get_current_pid s" using f(1) by (simp add: get_current_pid_def pid_of_def)
qed

lemma lstep_stuck:
  assumes "lstep i s e s'" "i \<noteq> - 1" "stuck i ts p s" "\<not> helps p e"
  shows "stuck i ts p s'"
proof -
  obtain qs where inv: "lock_inv i ts s (p # qs)" using assms(3) by (auto simp: stuck_def)
  note at = lock_invD [OF inv] and nobody = stuck_nobody [OF assms(3)]
  have "disciplined e"
  proof (cases e)
    case (Nested q)
    then have "pc s q = Inside" using event_places(3) assms(1) by blast
    then show ?thesis using nobody [of q] by (simp add: owning_def)
  qed (use assms(4) in auto)
  from lstep_inv [OF assms(1,2) inv this] have inv': "lock_inv i ts s' (queue_after e (p # qs))" by blast
  have st: "pc s p = Yielding \<or> pc s p = AtCheck" "\<not> runnable ts (sch s) p"
    "get_current_pid (sch s) = Some p \<longrightarrow> pc s p = Yielding" using assms(3) by (auto simp: stuck_def)
  have rest: "(pc s' p = Yielding \<or> pc s' p = AtCheck) \<and> \<not> runnable ts (sch s') p \<and>
      (get_current_pid (sch s') = Some p \<longrightarrow> pc s' p = Yielding)"
    using assms(1)
  proof cases
    case (call q)
    then have "q \<noteq> p" using st by auto
    then show ?thesis using call st by (simp add: lock_returns_def)
  next
    case (spin q c l)
    then show ?thesis using st by (cases "q = p") auto
  next
    case (enter q a granted l)
    then show ?thesis using st by (cases "q = p"; cases granted) auto
  next
    case (check q mine l)
    then show ?thesis using st by (cases "q = p"; cases mine) auto
  next
    case (block q sc)
    then have "q \<noteq> p" using st by auto
    then show ?thesis using block st status_of_other [OF at(1) block(5)] by auto
  next
    case (yielding q rip rsp rbp sc c)
    obtain r where "get_current_pid sc = Some r" "runnable ts (sch s) r" using switched_pid [OF at(1) yielding(5,6)] by blast
    then show ?thesis using yielding(2) st switch_task_runnable(2) [OF at(1) yielding(5,6)] by (cases "q = p") auto
  next
    case (leave q)
    then show ?thesis using nobody [of q] assms(4) by (auto simp: owning_def)
  next
    case (unlock q l sc)
    then show ?thesis using nobody [of q] by (simp add: owning_def)
  next
    case (client q v sc)
    then have "q \<noteq> p" using st by auto
    then show ?thesis using client st status_of_other [OF at(1) client(5)] by auto
  next
    case (timer rip rsp rbp sc c)
    obtain r where "get_current_pid sc = Some r" "runnable ts (sch s) r" using switched_pid [OF at(1) timer(3,4)] by blast
    then show ?thesis using timer(2) st switch_task_runnable(2) [OF at(1) timer(3,4)] by auto
  next
    case (outside q sc)
    then have "q \<noteq> p" using assms(4) by simp
    then show ?thesis using outside st status_of_other [OF at(1) outside(3)] by auto
  qed
  have "e \<noteq> Released q" for q
  proof
    assume "e = Released q"
    then have "pc s q = InUnlock" using event_places(2) assms(1) by blast
    then show False using nobody [of q] by (simp add: owning_def)
  qed
  then have "\<forall>q. e \<noteq> Released q" by blast
  then have "\<exists>qs'. queue_after e (p # qs) = p # qs'" by (cases e) auto
  then show ?thesis using inv' rest by (auto simp: stuck_def)
qed

section \<open>Properties\<close>

lemma two_queues:
  "in_queue 0 (two_locks m 0x1000 0x1000 [0x1000 \<mapsto> n0]) [0]"
  "in_queue 0 (two_locks m 0x1000 0x2000 [0x1000 \<mapsto> n01, 0x2000 \<mapsto> n1]) [0, 1]"
  "in_queue 0 (two_locks m 0x2000 0x2000 [0x2000 \<mapsto> n1]) [1]"
proof -
  have q: "queue_at 0 (two_locks m h t n) = Some \<lparr>head = h, tail = t\<rparr>" for h t n
    by (simp add: queue_at_def two_locks_def)
  show "in_queue 0 (two_locks m 0x1000 0x1000 [0x1000 \<mapsto> n0]) [0]"
    unfolding in_queue_def q two_nodes by (intro exI [of _ "\<lparr>head = 0x1000, tail = 0x1000\<rparr>"] exI [of _ "[0x1000]"]) simp
  show "in_queue 0 (two_locks m 0x1000 0x2000 [0x1000 \<mapsto> n01, 0x2000 \<mapsto> n1]) [0, 1]"
    unfolding in_queue_def q two_nodes
    by (intro exI [of _ "\<lparr>head = 0x1000, tail = 0x2000\<rparr>"] exI [of _ "[0x1000, 0x2000]"]) simp
  show "in_queue 0 (two_locks m 0x2000 0x2000 [0x2000 \<mapsto> n1]) [1]"
    unfolding in_queue_def q two_nodes by (intro exI [of _ "\<lparr>head = 0x2000, tail = 0x2000\<rparr>"] exI [of _ "[0x2000]"]) simp
qed

text \<open>
  C13: In any interleaving of processes that use a lock, with timer interrupts, wake-ups from outside, locks taken
  again inside the region and surplus unlocks, at most one process is between the spin lock and its release. In runs in
  which no process locks again inside the region and none unlocks outside of it, at most one process is in the region,
  and it is the owner the queue names. (What nested use does to the region is \<open>nested_unlock_releases\<close>.)
\<close>

theorem lock_mutual_exclusion:
  assumes "lsys_init i ts s" and "i \<noteq> - 1" and "lrun i s es s'"
  shows "(in_section (pc s' p) \<longrightarrow> master_lock (lk s') \<noteq> 0 \<and> (in_section (pc s' q) \<longrightarrow> q = p)) \<and>
    (list_all disciplined es \<longrightarrow> pc s' p = Inside \<longrightarrow>
       get_lock_owner i (lk s') = Some p \<and> (pc s' q = Inside \<longrightarrow> q = p))"
proof -
  have "section_inv s'" by (rule lrun_section_inv [OF assms(3) lsys_init_inv(2) [OF assms(1)]])
  then have sec: "in_section (pc s' p) \<longrightarrow> master_lock (lk s') \<noteq> 0 \<and> (in_section (pc s' q) \<longrightarrow> q = p)"
    by (auto simp: section_inv_def)
  have own: "get_lock_owner i (lk s') = Some r" if r: "list_all disciplined es" "pc s' r = Inside" for r
  proof -
    obtain ps where inv: "lock_inv i ts s' ps"
      using lrun_inv [OF assms(3,2) lsys_init_inv(1) [OF assms(1)] lsys_init_order [OF assms(1)] r(1)] by blast
    have o: "owning (pc s' r)" using r(2) by (simp add: owning_def)
    then have "r \<in> set ps" "hd ps = r" using lock_invD(4,5) [OF inv] by blast+
    then obtain qs where "ps = r # qs" by (cases ps) auto
    then show ?thesis using get_lock_owner_hd lock_invD(2) [OF inv] by blast
  qed
  then show ?thesis using sec by (metis option.inject)
qed

theorem lock_mutual_exclusion_witness:
  "get_lock_owner 0 (two_locks 0 0x1000 0x2000 [0x1000 \<mapsto> n01, 0x2000 \<mapsto> n1]) = Some 0"
  using lock_mutual_exclusion [OF two_init _ two_run_queued, of 0 0] by simp

text \<open>
  C14: On the list of waiting pids, \<open>lock\<close> takes a free lock, returns at once for the owner and
  otherwise queues the caller up at the end; \<open>unlock\<close> removes the owner and wakes the next process
  up. The master lock is free after each.
\<close>

theorem lock_unlock_refine_queue:
  assumes "in_queue i s ps" and "a \<noteq> 0" and "lock_nodes s a = None" and "sched_inv sc ts"
  shows "(\<exists>s'. lock_section a p i s = Some (fst (queue_lock p ps), s') \<and>
      in_queue i s' (snd (queue_lock p ps)) \<and> master_lock s' = 0) \<and>
    (\<exists>s' sc'. unlock_section p i s sc = Some (s', sc') \<and> in_queue i s' (queue_unlock p ps) \<and> master_lock s' = 0 \<and>
      (case queue_wakes p ps of None \<Rightarrow> sc' = sc | Some w \<Rightarrow> change_task_status w 0 sc = Some sc'))"
  using lock_section_refines [OF assms(1-3)] unlock_section_refines [OF assms(1,4)] by blast

theorem lock_unlock_refine_queue_witness:
  "\<exists>s' sc'. unlock_section 0 0 (two_locks 1 0x1000 0x2000 [0x1000 \<mapsto> n01, 0x2000 \<mapsto> n1]) (two_sched 0x100 1) = Some (s', sc') \<and>
     in_queue 0 s' [1] \<and> change_task_status 1 0 (two_sched 0x100 1) = Some sc'"
  using lock_unlock_refine_queue [OF two_queues(2) [of 1] _ _ two_sched_inv [of "0x100" 1], where a = "0x3000" and p = 0]
  by (auto simp: queue_wakes_def queue_unlock_def two_nodes)

text \<open>
  C15: The lock is granted in the order of arrival. In a run from the start in which no process locks again inside the
  region or unlocks outside of it, those that have arrived at the lock are, in this order, those that have released
  it and then the queue; those that have entered the region are, in this order, those that have released it and
  then possibly the first of the queue. So no process enters before one that has arrived earlier.
\<close>

theorem lock_is_fifo:
  assumes "lsys_init i ts s" and "i \<noteq> - 1" and "lrun i s es s'" and "list_all disciplined es"
  shows "\<exists>ps. in_queue i (lk s') ps \<and> arrivals es = releases es @ ps \<and>
    (entries es = releases es \<or> ps \<noteq> [] \<and> entries es = releases es @ [hd ps]) \<and>
    (pc s' p = Inside \<longrightarrow> ps \<noteq> [] \<and> p = hd ps \<and> entries es = releases es @ [p])"
proof -
  obtain ps where inv: "lock_inv i ts s' ps" "in_order es s' ps"
    using lrun_inv [OF assms(3,2) lsys_init_inv(1) [OF assms(1)] lsys_init_order [OF assms(1)] assms(4)] by blast
  have "ps \<noteq> [] \<and> p = hd ps" if "owning (pc s' p)" using lock_invD(4,5) [OF inv(1), of p] that by auto
  then show ?thesis using lock_invD(2) [OF inv(1)] inv(2) unfolding in_order_def owning_def
    by (intro exI [of _ ps]) auto
qed

theorem lock_is_fifo_witness:
  "\<exists>ps. in_queue 0 (two_locks 0 0x2000 0x2000 [0x2000 \<mapsto> n1]) ps \<and> [0, 1] = [0] @ ps"
  using lock_is_fifo [OF two_init _ two_run_lost, of 0] by (auto simp: arrivals_def releases_def)

text \<open>
  C16: A wake-up can be lost. The waiting loop releases the master lock before it blocks the process;
  if the owner unlocks in between, the process blocks itself when the lock is already its own. From then on nobody is
  in the region and the process cannot run, for as long as nothing else makes it ready (the interrupt of the keyboard
  does so for a process that waits for a key) and no process calls \<open>unlock\<close> without having the lock.
\<close>

theorem lost_wakeup_is_permanent:
  assumes "stuck i ts p s" and "i \<noteq> - 1" and "lrun i s es s'" and "list_all (\<lambda>e. \<not> helps p e) es"
  shows "\<not> runnable ts (sch s') p \<and> pc s' q \<noteq> Inside \<and> get_lock_owner i (lk s') = Some p"
proof -
  have "stuck i ts p s'"
    using assms(3,1,4) by (induction rule: lrun.induct) (use lstep_stuck assms(2) in auto)
  then show ?thesis using stuck_nobody [of i ts p s' q] get_lock_owner_hd lock_invD(2)
    by (fastforce simp: stuck_def owning_def)
qed

lemma two_stuck: "stuck 0 [0x100, 0x200] 1 (two_sys (two_locks 0 0x2000 0x2000 [0x2000 \<mapsto> n1]) (two_sched 0x200 1) Outside Yielding 0)"
proof -
  let ?s = "two_sys (two_locks 0 0x2000 0x2000 [0x2000 \<mapsto> n1]) (two_sched 0x200 1) Outside Yielding 0"
  obtain ps where inv: "lock_inv 0 [0x100, 0x200] ?s ps"
    using lrun_inv [OF two_run_lost _ lsys_init_inv(1) [OF two_init] lsys_init_order [OF two_init]] by auto
  moreover have "ps = [1]" using in_queue_unique [OF lock_invD(2) [OF inv]] two_queues(3) by simp
  moreover have "\<not> runnable [0x100, 0x200] (two_sched 0x200 1) 1"
    by (simp add: runnable_def pid_of_def ready_def two_sched_def two_task_def)
  ultimately show ?thesis by (auto simp: stuck_def)
qed

theorem lost_wakeup_is_permanent_witness:
  "\<exists>s. lrun 0 two_start lost_events s \<and> in_queue 0 (lk s) [1] \<and> \<not> runnable [0x100, 0x200] (sch s) 1 \<and> pc s 0 \<noteq> Inside"
proof -
  let ?s = "two_sys (two_locks 0 0x2000 0x2000 [0x2000 \<mapsto> n1]) (two_sched 0x200 1) Outside Yielding 0"
  have "\<not> runnable [0x100, 0x200] (sch ?s) 1 \<and> pc ?s 0 \<noteq> Inside"
    using lost_wakeup_is_permanent [OF two_stuck _ lrun.start, of 0] by simp
  then show ?thesis using two_run_lost two_queues(3) by (intro exI [of _ ?s]) simp
qed

text \<open>
  C17: Locks do not nest: when the owner locks again and unlocks once, or when any other process
  unlocks, the lock is free and the next process gets it while the owner is still in its outer region.
\<close>

theorem nested_unlock_releases:
  assumes "in_queue i s [p]" and "a \<noteq> 0" and "lock_nodes s a = None" and "b \<noteq> 0"
  shows "\<exists>s1 s2 s3. lock_section a p i s = Some (True, s1) \<and> unlock_section r i s1 sc = Some (s2, sc) \<and>
    in_queue i s2 [] \<and> (lock_nodes s2 b = None \<longrightarrow> lock_section b q i s2 = Some (True, s3) \<and> in_queue i s3 [q])"
proof -
  obtain s1 where s1: "lock_section a p i s = Some (True, s1)" "in_queue i s1 [p]"
    using lock_section_refines [OF assms(1-3), of p] by (auto simp: queue_lock_def)
  obtain lq xs where q: "queue_at i s1 = Some lq" "list_path l_next (lock_nodes s1) (head lq) xs"
    "tail lq = (if xs = [] then 0 else last xs)" "[p] = map (\<lambda>a. l_pid (the (lock_nodes s1 a))) xs"
    by (rule in_queueE [OF s1(2)])
  then have one: "head lq \<noteq> 0" "head lq = tail lq" by (cases xs; auto)+
  let ?s2 = "(set_queue i (lq\<lparr>head := 0, tail := 0\<rparr>) s1)
    \<lparr>master_lock := 0, lock_nodes := (lock_nodes s1)(head lq := None)\<rparr>"
  have u: "unlock_section r i s1 sc = Some (?s2, sc)" using q(1) one by (simp add: unlock_section_def)
  have e: "in_queue i ?s2 []"
    unfolding in_queue_def using q(1) by (intro exI [of _ "lq\<lparr>head := 0, tail := 0\<rparr>"] exI [of _ "[]"]) simp
  obtain s3 where "lock_nodes ?s2 b = None \<longrightarrow> lock_section b q i ?s2 = Some (True, s3) \<and> in_queue i s3 [q]"
    using lock_section_refines [OF e assms(4), of q] by (fastforce simp: queue_lock_def)
  then show ?thesis using s1(1) u e by (intro exI [of _ s1] exI [of _ ?s2] exI [of _ s3]) simp
qed

theorem nested_unlock_releases_witness:
  "\<exists>s1 s2. lock_section 0x3000 0 0 (two_locks 1 0x1000 0x1000 [0x1000 \<mapsto> n0]) = Some (True, s1) \<and>
     unlock_section 0 0 s1 (two_sched 0x100 0) = Some (s2, two_sched 0x100 0) \<and> in_queue 0 s2 []"
  using nested_unlock_releases [OF two_queues(1) [of 1], where a = "0x3000" and b = "0x4000" and r = 0 and q = 1 and sc = "two_sched 0x100 0"]
  by (auto simp: two_nodes)

end
