(* ===== verification/Fat32.thy ===== *)
theory Fat32
  imports KHeap CLib "HOL-Library.Monad_Syntax"
begin

text \<open>
  The FAT32 reader of \<open>kernel/fat32.c\<close> over the kernel heap and byte-addressed memory. The disk is
  an argument: the bytes of a sector by the 32 bits in the LBA and drive registers of the controller.
  \<open>None\<close> is a call that does not return.
\<close>

section \<open>Reading sectors\<close>

type_synonym disk = "u32 \<Rightarrow> nat \<Rightarrow> u8"

text \<open>
  \<open>read\<close> in \<open>read_sectors.asm\<close>: the low 32 bits of the LBA go to the registers, the upper
  ones with \<open>0xe0\<close>. Whatever the sector count, \<open>rep insw\<close> transfers 256 words; the carry flag
  is the one of \<open>test\<close>, clear, so that the result is 1.
\<close>

definition lba_registers :: "u64 \<Rightarrow> u32" where
  "lba_registers lba = ucast lba OR 0xE0000000"

definition read_sectors :: "disk \<Rightarrow> u64 \<Rightarrow> u64 \<Rightarrow> u64 \<Rightarrow> memory \<Rightarrow> u64 \<times> memory" where
  "read_sectors disk lba address sz m =
     (1, \<lambda>x. if unat (x - address) < 512 then disk (lba_registers lba) (unat (x - address)) else m x)"

definition read_sector :: "disk \<Rightarrow> u64 \<Rightarrow> u64 \<Rightarrow> memory \<Rightarrow> u64 \<times> memory" where
  "read_sector disk lba address m = read_sectors disk lba address 1 m"

section \<open>The structures on the disk\<close>

definition load_u16 :: "memory \<Rightarrow> u64 \<Rightarrow> u16" where
  "load_u16 m a = of_nat (load_le 2 m a)"

text \<open>Fields of \<open>fat32_volume_id\<close>.\<close>

definition bytes_per_sector :: "memory \<Rightarrow> u64 \<Rightarrow> u16" where "bytes_per_sector m v = load_u16 m (v + 11)"
definition sectors_per_cluster :: "memory \<Rightarrow> u64 \<Rightarrow> u8" where "sectors_per_cluster m v = m (v + 13)"
definition reserved_sectors :: "memory \<Rightarrow> u64 \<Rightarrow> u16" where "reserved_sectors m v = load_u16 m (v + 14)"
definition number_of_fats :: "memory \<Rightarrow> u64 \<Rightarrow> u8" where "number_of_fats m v = m (v + 16)"
definition sectors_per_fat2 :: "memory \<Rightarrow> u64 \<Rightarrow> u32" where "sectors_per_fat2 m v = load_u32 m (v + 36)"
definition root_cluster :: "memory \<Rightarrow> u64 \<Rightarrow> u32" where "root_cluster m v = load_u32 m (v + 44)"

text \<open>\<open>partition_table\<close>: the first entry and the magic number.\<close>

definition partition_lba :: "memory \<Rightarrow> u64 \<Rightarrow> u32" where "partition_lba m t = load_u32 m (t + 446 + 8)"
definition table_magic :: "memory \<Rightarrow> u64 \<Rightarrow> u16" where "table_magic m t = load_u16 m (t + 510)"

text \<open>Fields of \<open>dir_entry\<close>, which starts with the name.\<close>

definition cluster_high :: "memory \<Rightarrow> u64 \<Rightarrow> u16" where "cluster_high m d = load_u16 m (d + 20)"
definition cluster_low :: "memory \<Rightarrow> u64 \<Rightarrow> u16" where "cluster_low m d = load_u16 m (d + 26)"
definition file_size :: "memory \<Rightarrow> u64 \<Rightarrow> u32" where "file_size m d = load_u32 m (d + 28)"

section \<open>State\<close>

text \<open>The heap with the memory, and the four variables of the file; \<open>partition\<close> points to the volume id.\<close>

record fat32 =
  fheap :: kheap_state
  partition :: u64
  partition_begin_lba :: u64
  cluster_begin_lba :: u64
  fat_begin_lba :: u64

abbreviation fmem :: "fat32 \<Rightarrow> memory" where "fmem s \<equiv> hmem (fheap s)"

definition set_mem :: "memory \<Rightarrow> fat32 \<Rightarrow> fat32" where
  "set_mem m s = s\<lparr>fheap := (fheap s)\<lparr>hmem := m\<rparr>\<rparr>"

text \<open>\<open>kmalloc\<close> and \<open>kfree\<close> of the heap that \<open>kheap_init\<close> has set up.\<close>

definition fs_kmalloc :: "u64 \<Rightarrow> fat32 \<Rightarrow> (u64 \<times> fat32) option" where
  "fs_kmalloc sz s = do {
     (a, h) \<leftarrow> kmalloc (\<lambda>_. 0) sz (Some (fheap s));
     h' \<leftarrow> h;
     Some (a, s\<lparr>fheap := h'\<rparr>)
   }"

definition fs_kfree :: "u64 \<Rightarrow> fat32 \<Rightarrow> fat32" where
  "fs_kfree p s = s\<lparr>fheap := kfree p (fheap s)\<rparr>"

definition cluster_bytes :: "fat32 \<Rightarrow> u64" where
  "cluster_bytes s = ucast (sectors_per_cluster (fmem s) (partition s)) * ucast (bytes_per_sector (fmem s) (partition s))"

section \<open>Mounting\<close>

text \<open>The messages are left out. The product of the two fields is 32 bits wide.\<close>

definition fat32_init :: "disk \<Rightarrow> fat32 \<Rightarrow> fat32 option" where
  "fat32_init disk s = do {
     (table, s) \<leftarrow> fs_kmalloc 512 s;
     (volume, s) \<leftarrow> fs_kmalloc 512 s;
     if table = 0 \<or> volume = 0 then Some s
     else let (ok, m) = read_sector disk 0 table (fmem s); s = set_mem m s
       in if ok = 0 then Some s
       else let lba = ucast (partition_lba (fmem s) table);
                s = s\<lparr>partition_begin_lba := lba\<rparr>;
                (ok, m) = read_sector disk lba volume (fmem s);
                s = set_mem m s
         in if ok = 0 then Some s
         else let m = (fmem s)(volume + 81 := 0);
                  s = (set_mem m s)\<lparr>partition := volume\<rparr>;
                  fats = ucast (ucast (number_of_fats m volume) * sectors_per_fat2 m volume);
                  reserved = ucast (reserved_sectors m volume)
           in Some (s\<lparr>cluster_begin_lba := partition_begin_lba s + reserved + fats,
                      fat_begin_lba := partition_begin_lba s + reserved\<rparr>)
   }"

section \<open>Clusters\<close>

definition cluster2lba :: "u64 \<Rightarrow> fat32 \<Rightarrow> u64" where
  "cluster2lba cluster s =
     cluster_begin_lba s + ((cluster - 2) * ucast (sectors_per_cluster (fmem s) (partition s)))"

definition read_cluster :: "disk \<Rightarrow> u64 \<Rightarrow> u64 \<Rightarrow> fat32 \<Rightarrow> u64 \<times> fat32" where
  "read_cluster disk cluster address s =
     (let (ok, m) = read_sectors disk (cluster2lba cluster s) address
                      (ucast (sectors_per_cluster (fmem s) (partition s))) (fmem s)
      in (ok, set_mem m s))"

definition sector_bytes :: "fat32 \<Rightarrow> u64" where
  "sector_bytes s = ucast (bytes_per_sector (fmem s) (partition s))"

text \<open>A division by zero is an exception, here \<open>None\<close>.\<close>

definition find_next_cluster :: "disk \<Rightarrow> u64 \<Rightarrow> fat32 \<Rightarrow> (u64 \<times> fat32) option" where
  "find_next_cluster disk cluster s =
     (if cluster \<ge> 0x0ffffff8 then Some (0x0fffffff, s)
      else do {
        (fat, s) \<leftarrow> fs_kmalloc (sector_bytes s) s;
        if sector_bytes s = 0 then None
        else let (ok, m) = read_sector disk (fat_begin_lba s + (cluster div sector_bytes s div 4)) fat (fmem s);
                 s = set_mem m s
          in if ok = 0 then Some (0, fs_kfree fat s)
          else if sector_bytes s = 0 then None
          else Some (ucast (load_u32 (fmem s) (fat + 4 * (cluster mod sector_bytes s))), fs_kfree fat s)
      })"

partial_function (option) read_file_loop :: "disk \<Rightarrow> u64 \<Rightarrow> u64 \<Rightarrow> fat32 \<Rightarrow> fat32 option" where
  "read_file_loop disk cluster address s =
     Option.bind (find_next_cluster disk cluster s) (\<lambda>(cluster', s').
       if cluster' < 0x0ffffff8
       then read_file_loop disk cluster' (address + cluster_bytes s')
              (snd (read_cluster disk cluster' (address + cluster_bytes s') s'))
       else Some s')"

definition read_file :: "disk \<Rightarrow> u64 \<Rightarrow> u64 \<Rightarrow> fat32 \<Rightarrow> fat32 option" where
  "read_file disk cluster address s =
     read_file_loop disk cluster address (snd (read_cluster disk cluster address s))"

section \<open>Finding a file\<close>

text \<open>
  The loop over the entries of one cluster, with the number of entries left; the result is the index
  of the entry found. Every entry looked at gets a zero as its eleventh character.
\<close>

fun find_in_cluster :: "nat \<Rightarrow> nat \<Rightarrow> u64 \<Rightarrow> u64 \<Rightarrow> memory \<Rightarrow> (nat option \<times> memory) option" where
  "find_in_cluster 0 i entries name m = Some (None, m)"
| "find_in_cluster (Suc k) i entries name m =
     (let entry = entries + 32 * of_nat i;
          m' = m(entry + 10 := 0)
      in case strlen m' name of
           None \<Rightarrow> None
         | Some len \<Rightarrow>
             if strncmp m' entry name (unat (len - 1)) \<noteq> 0 then Some (Some i, m')
             else find_in_cluster k (Suc i) entries name m')"

partial_function (option) find_file_loop ::
  "disk \<Rightarrow> u64 \<Rightarrow> u64 \<Rightarrow> u64 \<Rightarrow> nat \<Rightarrow> fat32 \<Rightarrow> (u64 \<times> fat32) option" where
  "find_file_loop disk cluster entries name n s =
     (let s1 = snd (read_cluster disk cluster entries s)
      in Option.bind (find_in_cluster n 0 entries name (fmem s1)) (\<lambda>(found, m).
        case found of
          Some i \<Rightarrow>
            Option.bind (fs_kmalloc 32 (set_mem m s1)) (\<lambda>(file, s2).
              Some (file, fs_kfree entries (set_mem (memcpy file (entries + 32 * of_nat i) 32 (fmem s2)) s2)))
        | None \<Rightarrow>
            Option.bind (find_next_cluster disk cluster (set_mem m s1)) (\<lambda>(cluster', s2).
              if cluster' < 0x0ffffff8 then find_file_loop disk cluster' entries name n s2
              else Some (0, fs_kfree entries s2))))"

definition find_file :: "disk \<Rightarrow> u64 \<Rightarrow> fat32 \<Rightarrow> (u64 \<times> fat32) option" where
  "find_file disk name s = do {
     (entries, s) \<leftarrow> fs_kmalloc (cluster_bytes s) s;
     if entries = 0 then Some (0, s)
     else find_file_loop disk (ucast (root_cluster (fmem s) (partition s))) entries name
            (unat (cluster_bytes s) div 32) s
   }"

end
