(* ===== verification/Bitfields.thy ===== *)
theory Bitfields
  imports Prelude
begin

text \<open>
  Bit-fields of the C structures the hardware reads: the field of \<open>n\<close> bits from bit \<open>lo\<close>
  on of a word. An assignment to a bit-field keeps the low \<open>n\<close> bits of the value and the other
  bits of the word.
\<close>

definition get_field :: "nat \<Rightarrow> nat \<Rightarrow> 'a::len word \<Rightarrow> 'a word" where
  "get_field lo n w = take_bit n (drop_bit lo w)"

definition set_field :: "nat \<Rightarrow> nat \<Rightarrow> 'a::len word \<Rightarrow> 'a word \<Rightarrow> 'a word" where
  "set_field lo n v w = (w AND NOT (push_bit lo (mask n))) OR push_bit lo (take_bit n v)"

lemma bit_get_field: "bit (get_field lo n w) k \<longleftrightarrow> k < n \<and> bit w (lo + k)" for w :: "'a::len word"
  by (auto simp: get_field_def bit_simps)

lemma bit_set_field:
  "bit (set_field lo n v w) k \<longleftrightarrow> k < LENGTH('a) \<and> (if lo \<le> k \<and> k < lo + n then bit v (k - lo) else bit w k)"
  for w :: "'a::len word"
  by (auto simp: set_field_def bit_simps)

lemma get_set_field [simp]:
  "lo + n \<le> LENGTH('a) \<Longrightarrow> get_field lo n (set_field lo n v w) = take_bit n v" for w :: "'a::len word"
  by (rule bit_word_eqI) (auto simp: bit_get_field bit_set_field bit_simps)

lemma get_set_other [simp]:
  "lo + n \<le> lo' \<or> lo' + n' \<le> lo \<Longrightarrow> get_field lo n (set_field lo' n' v w) = get_field lo n w" for w :: "'a::len word"
proof (rule bit_word_eqI)
  fix k assume "lo + n \<le> lo' \<or> lo' + n' \<le> lo" "k < LENGTH('a)"
  then show "bit (get_field lo n (set_field lo' n' v w)) k = bit (get_field lo n w) k"
    using bit_imp_le_length [of w "lo + k"] by (auto simp: bit_get_field bit_set_field)
qed

lemma get_field_0 [simp]: "get_field lo n 0 = 0"
  by (simp add: get_field_def)

lemma unat_get_field: "unat (get_field lo n w) = unat w div 2 ^ lo mod 2 ^ n" for w :: "'a::len word"
proof -
  have "unat (get_field lo n w) = take_bit n (drop_bit lo (unat w))"
    by (rule bit_eqI) (auto simp: get_field_def bit_simps dest: bit_imp_le_length)
  then show ?thesis by (simp only: take_bit_eq_mod drop_bit_eq_div)
qed

lemma get_field_bound: "unat (get_field lo n w) < 2 ^ n" for w :: "'a::len word"
  by (simp add: unat_get_field)

end
