(* ===== verification/Paging.thy ===== *)
theory Paging
  imports FrameAlloc Bitfields
begin

text \<open>
  The page tables of \<open>kernel/memman.c\<close> (lines 285-711): the four-level walk of the processor, the
  tables reached through the last entry of the PML4, and the operations that create, map and free
  pages. An access to an address that is not mapped is a page fault, here \<open>None\<close>. The TLB is not
  modelled: every access walks the tables as they are.
\<close>

section \<open>Entries and addresses\<close>

text \<open>The fields of \<open>pml4_entry\<close>, \<open>pdp_entry\<close>, \<open>pd_entry\<close> and \<open>page_entry\<close> the code uses.\<close>

definition entry_present :: "u64 \<Rightarrow> u64" where "entry_present e = get_field 0 1 e"
definition entry_user :: "u64 \<Rightarrow> u64" where "entry_user e = get_field 2 1 e"
definition entry_frame :: "u64 \<Rightarrow> u64" where "entry_frame e = get_field 12 40 e"
definition set_entry_present :: "u64 \<Rightarrow> u64 \<Rightarrow> u64" where "set_entry_present v = set_field 0 1 v"
definition set_entry_rw :: "u64 \<Rightarrow> u64 \<Rightarrow> u64" where "set_entry_rw v = set_field 1 1 v"
definition set_entry_user :: "u64 \<Rightarrow> u64 \<Rightarrow> u64" where "set_entry_user v = set_field 2 1 v"
definition set_entry_frame :: "u64 \<Rightarrow> u64 \<Rightarrow> u64" where "set_entry_frame v = set_field 12 40 v"

text \<open>The union \<open>address\<close>.\<close>

definition addr_pt :: "u64 \<Rightarrow> u64" where "addr_pt a = get_field 12 9 a"
definition addr_pd :: "u64 \<Rightarrow> u64" where "addr_pd a = get_field 21 9 a"
definition addr_pdp :: "u64 \<Rightarrow> u64" where "addr_pdp a = get_field 30 9 a"
definition addr_pml4 :: "u64 \<Rightarrow> u64" where "addr_pml4 a = get_field 39 9 a"
definition addr_frame :: "u64 \<Rightarrow> u64" where "addr_frame a = get_field 12 36 a"

section \<open>State and the walk\<close>

text \<open>
  Physical memory as the 8-byte entries of each frame of 4096 bytes, by frame number and index.
  \<open>cr3\<close> is the physical address of the current PML4.
\<close>

type_synonym pmem = "u64 \<Rightarrow> u64 \<Rightarrow> u64"

record vm =
  mm :: memman
  mem :: pmem
  cr3 :: u64
  video_memory :: u64

fun walk :: "pmem \<Rightarrow> u64 \<Rightarrow> u64 list \<Rightarrow> u64 option" where
  "walk m f [] = Some f"
| "walk m f (i # is) = (if entry_present (m f i) \<noteq> 0 then walk m (entry_frame (m f i)) is else None)"

definition va_path :: "u64 \<Rightarrow> u64 list" where
  "va_path va = [addr_pml4 va, addr_pdp va, addr_pd va, addr_pt va]"

definition translate :: "vm \<Rightarrow> u64 \<Rightarrow> u64 option" where
  "translate s va = walk (mem s) (entry_frame (cr3 s)) (va_path va)"

definition put_entry :: "u64 \<Rightarrow> u64 \<Rightarrow> (u64 \<Rightarrow> u64) \<Rightarrow> vm \<Rightarrow> vm" where
  "put_entry f i g s = s\<lparr>mem := (mem s)(f := (mem s f)(i := g (mem s f i)))\<rparr>"

text \<open>The 8 bytes at a virtual address that is a multiple of 8: read, and read-modify-write.\<close>

definition load_entry :: "u64 \<Rightarrow> vm \<Rightarrow> u64 option" where
  "load_entry va s = map_option (\<lambda>f. mem s f (get_field 3 9 va)) (translate s va)"

definition upd_entry :: "u64 \<Rightarrow> (u64 \<Rightarrow> u64) \<Rightarrow> vm \<Rightarrow> vm option" where
  "upd_entry va g s = map_option (\<lambda>f. put_entry f (get_field 3 9 va) g s) (translate s va)"

section \<open>The current tables\<close>

abbreviation current_pml4 :: u64 where "current_pml4 \<equiv> 0xFFFFFFFFFFFFF000"
abbreviation current_pdp :: u64 where "current_pdp \<equiv> 0xFFFFFFFFFFE00000"
abbreviation current_pd :: u64 where "current_pd \<equiv> 0xFFFFFFFFC0000000"
abbreviation current_pt :: u64 where "current_pt \<equiv> 0xFFFFFF8000000000"

definition get_pml4_entry :: "u64 \<Rightarrow> u64" where
  "get_pml4_entry i = current_pml4 + 8 * i"
definition get_pdp_entry :: "u64 \<Rightarrow> u64 \<Rightarrow> u64" where
  "get_pdp_entry a b = current_pdp + 8 * (a * 512 + b)"
definition get_pd_entry :: "u64 \<Rightarrow> u64 \<Rightarrow> u64 \<Rightarrow> u64" where
  "get_pd_entry a b c = current_pd + 8 * ((a * 512 + b) * 512 + c)"
definition get_page_entry :: "u64 \<Rightarrow> u64 \<Rightarrow> u64 \<Rightarrow> u64 \<Rightarrow> u64" where
  "get_page_entry a b c d = current_pt + 8 * (((a * 512 + b) * 512 + c) * 512 + d)"

definition get_physical_address :: "u64 \<Rightarrow> vm \<Rightarrow> u64 option" where
  "get_physical_address a s =
     map_option (\<lambda>e. entry_frame e * 0x1000) (load_entry (current_pt + 8 * addr_frame a) s)"

definition switch_paging :: "u64 \<Rightarrow> vm \<Rightarrow> vm" where
  "switch_paging addr s = s\<lparr>cr3 := addr\<rparr>"

definition get_current_pml4 :: "vm \<Rightarrow> u64" where
  "get_current_pml4 s = cr3 s"

section \<open>Creating pages\<close>

text \<open>One \<open>if (entry.present == 0) ...\<close> of \<open>create_page_for_current\<close>, the entry being at \<open>va\<close>.\<close>

definition ensure_entry :: "u64 \<Rightarrow> u64 \<Rightarrow> vm \<Rightarrow> vm option" where
  "ensure_entry va user s =
     (case load_entry va s of
        None \<Rightarrow> None
      | Some e \<Rightarrow>
          if entry_present e = 0
          then let (blk, mm') = mem_alloc_block (mm s)
               in upd_entry va (set_entry_user user \<circ> set_entry_rw 1 \<circ> set_entry_present 1 \<circ>
                                set_entry_frame (blk div 0x1000)) (s\<lparr>mm := mm'\<rparr>)
          else Some s)"

definition create_page_for_current :: "u64 \<Rightarrow> u64 \<Rightarrow> vm \<Rightarrow> (u64 \<times> vm) option" where
  "create_page_for_current a user s =
     (case ensure_entry (get_pml4_entry (addr_pml4 a)) user s of
        None \<Rightarrow> None
      | Some s1 \<Rightarrow>
          (case ensure_entry (get_pdp_entry (addr_pml4 a) (addr_pdp a)) user s1 of
             None \<Rightarrow> None
           | Some s2 \<Rightarrow>
               (case ensure_entry (get_pd_entry (addr_pml4 a) (addr_pdp a) (addr_pd a)) user s2 of
                  None \<Rightarrow> None
                | Some s3 \<Rightarrow> Some (current_pt + 8 * addr_frame a, s3))))"

section \<open>Mapping pages\<close>

text \<open>
  The body of the loops of \<open>alloc_page\<close> and \<open>alloc_kernel_page\<close>: a fresh frame is mapped at
  \<open>va\<close>. \<open>False\<close> is the early return of 0.
\<close>

definition map_fresh :: "u64 \<Rightarrow> u64 \<Rightarrow> vm \<Rightarrow> (bool \<times> vm) option" where
  "map_fresh va user s =
     (let (phys_frame, mm') = mem_alloc_block (mm s);
          s1 = s\<lparr>mm := mm'\<rparr>
      in if phys_frame = 0 then Some (False, s1)
         else case create_page_for_current va user s1 of
                None \<Rightarrow> None
              | Some (page, s2) \<Rightarrow>
                  if page = 0 then Some (False, s2)
                  else map_option (\<lambda>s3. (True, s3))
                         (upd_entry page (set_entry_frame (phys_frame div 0x1000) \<circ> set_entry_rw 1 \<circ>
                            set_entry_user user \<circ> set_entry_present 1) s2))"

function map_loop :: "(u64 \<Rightarrow> u64) \<Rightarrow> u64 \<Rightarrow> u64 \<Rightarrow> u64 \<Rightarrow> vm \<Rightarrow> (bool \<times> vm) option" where
  "map_loop va_of user sz i s =
     (if i < sz
      then case map_fresh (va_of i) user s of
             None \<Rightarrow> None
           | Some (ok, s') \<Rightarrow> if ok then map_loop va_of user sz (i + 1) s' else Some (False, s')
      else Some (True, s))"
  by pat_completeness auto
termination
  by (relation "measure (\<lambda>(_, _, sz, i, _). unat sz - unat i)") (auto simp: unat_incr word_less_nat_alt)

definition alloc_page :: "u64 \<Rightarrow> u64 \<Rightarrow> vm \<Rightarrow> (u64 \<times> vm) option" where
  "alloc_page vaddr sz0 s =
     (let sz = (if sz0 = 0 then 1 else sz0)
      in map_option (\<lambda>(ok, s'). (if ok then vaddr else 0, s')) (map_loop (\<lambda>i. vaddr + i * 0x1000) 1 sz 0 s))"

definition alloc_kernel_page :: "u64 \<Rightarrow> vm \<Rightarrow> (u64 \<times> vm) option" where
  "alloc_kernel_page sz s =
     map_option (\<lambda>(ok, s').
        if ok
        then let next_block = kernel_next_block (mm s') + sz
             in ((next_block - sz) * 0x1000, s'\<lparr>mm := (mm s')\<lparr>kernel_next_block := next_block\<rparr>\<rparr>)
        else (0, s'))
       (map_loop (\<lambda>i. (kernel_next_block (mm s) + 1 * i) * 0x1000) 0 sz 0 s)"

text \<open>\<open>free_kernel_page\<close> increments its two arguments and returns.\<close>

definition free_kernel_page :: "u64 \<Rightarrow> u64 \<Rightarrow> vm \<Rightarrow> vm" where
  "free_kernel_page address sz s = s"

text \<open>
  \<open>brute_create_page\<close>: pages for given frames. The loop returns \<open>i\<close>; the test of the pointer
  after its use never fails.
\<close>

function brute_loop :: "u64 \<Rightarrow> u64 \<Rightarrow> u64 \<Rightarrow> u64 \<Rightarrow> u64 \<Rightarrow> vm \<Rightarrow> (u64 \<times> vm) option" where
  "brute_loop physical_addr virtual_addr sz user i s =
     (if i < sz
      then case create_page_for_current (virtual_addr + i * MEM_BLOCK_SIZE) 0 s of
             None \<Rightarrow> None
           | Some (page, s1) \<Rightarrow>
               (case upd_entry page (set_entry_frame (physical_addr div 0x1000 + i) \<circ> set_entry_rw 1 \<circ>
                        set_entry_user user \<circ> set_entry_present 1) s1 of
                  None \<Rightarrow> None
                | Some s2 \<Rightarrow> brute_loop physical_addr virtual_addr sz user (i + 1) s2)
      else Some (i, s))"
  by pat_completeness auto
termination
  by (relation "measure (\<lambda>(_, _, sz, _, i, _). unat sz - unat i)") (auto simp: unat_incr word_less_nat_alt)

definition brute_create_page :: "u64 \<Rightarrow> u64 \<Rightarrow> u64 \<Rightarrow> u64 \<Rightarrow> vm \<Rightarrow> (u32 \<times> vm) option" where
  "brute_create_page physical_addr virtual_addr sz user s =
     (if sz div 512 > mem_free_block_count (mm s) then Some (0, s)
      else map_option (\<lambda>(i, s'). (ucast i, s')) (brute_loop physical_addr virtual_addr sz user 0 s))"

declare map_loop.simps [simp del] brute_loop.simps [simp del]

end
