(* ===== verification/PagingTables.thy ===== *)
theory PagingTables
  imports Paging "HOL-Library.Sublist"
begin

text \<open>
  Lemmas on the page tables: where the addresses of \<open>get_pml4_entry\<close>, \<open>get_pdp_entry\<close>,
  \<open>get_pd_entry\<close> and \<open>get_page_entry\<close> lead, the invariant of the tables, and what one
  changed entry does to the walks.
\<close>

section \<open>Entries\<close>

lemmas entry_defs = entry_present_def entry_user_def entry_frame_def
  set_entry_present_def set_entry_rw_def set_entry_user_def set_entry_frame_def

lemma entry_fields [simp]:
  "entry_present (set_entry_present v e) = take_bit 1 v" "entry_present (set_entry_rw v e) = entry_present e"
  "entry_present (set_entry_user v e) = entry_present e" "entry_present (set_entry_frame v e) = entry_present e"
  "entry_user (set_entry_present v e) = entry_user e" "entry_user (set_entry_rw v e) = entry_user e"
  "entry_user (set_entry_user v e) = take_bit 1 v" "entry_user (set_entry_frame v e) = entry_user e"
  "entry_frame (set_entry_present v e) = entry_frame e" "entry_frame (set_entry_rw v e) = entry_frame e"
  "entry_frame (set_entry_user v e) = entry_frame e" "entry_frame (set_entry_frame v e) = take_bit 40 v"
  "entry_present 0 = 0" "entry_frame 0 = 0"
  by (simp_all add: entry_defs)

section \<open>Where the table addresses lead\<close>

lemma field_of_multiple:
  assumes "0 < d"
  shows "(d * (512 * q) + 8 * y) div d mod 512 = 8 * y div d mod (512 :: nat)"
proof -
  have "(d * (512 * q) + 8 * y) div d = 512 * q + 8 * y div d" using assms by simp
  then show ?thesis by (simp only: mod_mult_self4)
qed

lemma field_of_slot:
  assumes "unat va = 0xFFFFFF8000000000 + 8 * y"
  shows "unat (get_field 30 9 (va::u64)) = y div 2 ^ 27 mod 512" "unat (get_field 21 9 va) = y div 2 ^ 18 mod 512"
    "unat (get_field 12 9 va) = y div 2 ^ 9 mod 512" "unat (get_field 3 9 va) = y mod 512"
proof -
  have "unat (get_field 30 9 va) = (2 ^ 30 * (512 * 0x1FFFFFF) + 8 * y) div 2 ^ 30 mod 512"
    unfolding unat_get_field assms by simp
  also have "\<dots> = 8 * y div (8 * 2 ^ 27) mod 512" by (subst field_of_multiple) simp_all
  also have "\<dots> = y div 2 ^ 27 mod 512" by simp
  finally show "unat (get_field 30 9 va) = y div 2 ^ 27 mod 512" .
  have "unat (get_field 21 9 va) = (2 ^ 21 * (512 * 0x3FFFFFE00) + 8 * y) div 2 ^ 21 mod 512"
    unfolding unat_get_field assms by simp
  also have "\<dots> = 8 * y div (8 * 2 ^ 18) mod 512" by (subst field_of_multiple) simp_all
  also have "\<dots> = y div 2 ^ 18 mod 512" by simp
  finally show "unat (get_field 21 9 va) = y div 2 ^ 18 mod 512" .
  have "unat (get_field 12 9 va) = (2 ^ 12 * (512 * 0x7FFFFFC0000) + 8 * y) div 2 ^ 12 mod 512"
    unfolding unat_get_field assms by simp
  also have "\<dots> = 8 * y div (8 * 2 ^ 9) mod 512" by (subst field_of_multiple) simp_all
  also have "\<dots> = y div 2 ^ 9 mod 512" by simp
  finally show "unat (get_field 12 9 va) = y div 2 ^ 9 mod 512" .
  have "unat (get_field 3 9 va) = (2 ^ 3 * (512 * 0xFFFFFF8000000) + 8 * y) div 2 ^ 3 mod 512"
    unfolding unat_get_field assms by simp
  also have "\<dots> = 8 * y div 2 ^ 3 mod 512" by (subst field_of_multiple) simp_all
  finally show "unat (get_field 3 9 va) = y mod 512" by simp
qed

lemma top_of_slot:
  assumes "unat va = 0xFFFFFF8000000000 + 8 * y" "y < 2 ^ 36"
  shows "unat (get_field 39 9 (va::u64)) = 511"
proof -
  have "8 * y div 2 ^ 39 = 0" using assms(2) by simp
  then have "(0xFFFFFF8000000000 + 8 * y) div 2 ^ 39 = (0x1FFFFFF :: nat)"
    using div_mult_self3 [of "2 ^ 39" "0x1FFFFFF" "8 * y"] by simp
  then show ?thesis unfolding unat_get_field assms(1) by simp
qed

text \<open>The entry number \<open>y\<close> of all page tables in a row.\<close>

lemma slot_address:
  assumes "y < 2 ^ 36"
  shows "unat (current_pt + 8 * of_nat y) = 0xFFFFFF8000000000 + 8 * y"
proof -
  have "unat (8 * of_nat y :: u64) = 8 * y" using assms by (simp add: unat_word_ariths unat_of_nat)
  then show ?thesis using assms by (subst unat_add_small) simp_all
qed

lemma field_of_field:
  fixes x :: nat
  assumes "lo + n \<le> k"
  shows "x mod 2 ^ k div 2 ^ lo mod 2 ^ n = x div 2 ^ lo mod 2 ^ n"
  unfolding take_bit_eq_mod [symmetric] drop_bit_eq_div [symmetric]
  by (rule bit_eqI) (use assms in \<open>auto simp: bit_simps\<close>)

lemma page_slot:
  fixes a :: u64
  defines "va \<equiv> current_pt + 8 * addr_frame a"
  shows "addr_pml4 va = 511" "addr_pdp va = addr_pml4 a" "addr_pd va = addr_pdp a" "addr_pt va = addr_pd a"
    "get_field 3 9 va = addr_pt a"
proof -
  have y: "unat (addr_frame a) = unat a div 2 ^ 12 mod 2 ^ 36" "unat (addr_frame a) < 2 ^ 36"
    by (simp_all only: addr_frame_def unat_get_field) simp
  have va: "unat va = 0xFFFFFF8000000000 + 8 * unat (addr_frame a)"
    using slot_address [OF y(2)] by (simp add: va_def)
  note s = field_of_slot [OF va] and f = field_of_field [where n = 9 and k = 36 and x = "unat a div 2 ^ 12"]
  have e: "(512::nat) = 2 ^ 9" by simp
  show "addr_pml4 va = 511" using top_of_slot [OF va y(2)] by (simp add: addr_pml4_def word_unat_eq_iff)
  show "addr_pdp va = addr_pml4 a" using s(1) f [of 27] unfolding y(1) e
    by (simp add: addr_pdp_def addr_pml4_def word_unat_eq_iff unat_get_field div_mult2_eq [symmetric])
  show "addr_pd va = addr_pdp a" using s(2) f [of 18] unfolding y(1) e
    by (simp add: addr_pdp_def addr_pd_def word_unat_eq_iff unat_get_field div_mult2_eq [symmetric])
  show "addr_pt va = addr_pd a" using s(3) f [of 9] unfolding y(1) e
    by (simp add: addr_pd_def addr_pt_def word_unat_eq_iff unat_get_field div_mult2_eq [symmetric])
  show "get_field 3 9 va = addr_pt a" using s(4) f [of 0] unfolding y(1) e
    by (simp add: addr_pt_def word_unat_eq_iff unat_get_field)
qed

text \<open>Four indices below 512 as the digits of the entry number.\<close>

lemma digits:
  fixes a b c d :: nat
  assumes "a < 512" "b < 512" "c < 512" "d < 512"
  defines "y \<equiv> ((a * 512 + b) * 512 + c) * 512 + d"
  shows "y < 2 ^ 36" "y div 2 ^ 27 mod 512 = a" "y div 2 ^ 18 mod 512 = b" "y div 2 ^ 9 mod 512 = c" "y mod 512 = d"
proof -
  have 1: "y div 512 = (a * 512 + b) * 512 + c" using assms(4) by (simp add: y_def)
  have 2: "y div 2 ^ 18 = a * 512 + b" using div_mult2_eq [of y 512 512] 1 assms(3) by simp
  have 3: "y div 2 ^ 27 = a" using div_mult2_eq [of y "2 ^ 18" 512] 2 assms(2) by simp
  show "y < 2 ^ 36" using assms by (simp add: y_def)
  show "y div 2 ^ 27 mod 512 = a" unfolding 3 using assms(1) by simp
  show "y div 2 ^ 18 mod 512 = b" unfolding 2 mod_mult_self3 using assms(2) by simp
  have "y div 2 ^ 9 = (a * 512 + b) * 512 + c" using 1 by simp
  then show "y div 2 ^ 9 mod 512 = c" using assms(3) by (simp only: mod_mult_self3 mod_less)
  show "y mod 512 = d" unfolding y_def mod_mult_self3 using assms(4) by simp
qed

lemma table_entry_slot:
  assumes "unat a < 512" "unat b < 512" "unat c < 512" "unat d < 512"
  shows "addr_pml4 (get_page_entry a b c d) = 511" "addr_pdp (get_page_entry a b c d) = a"
    "addr_pd (get_page_entry a b c d) = b" "addr_pt (get_page_entry a b c d) = c"
    "get_field 3 9 (get_page_entry a b c d) = d"
proof -
  let ?y = "((unat a * 512 + unat b) * 512 + unat c) * 512 + unat d"
  note y = digits [OF assms]
  have va: "unat (get_page_entry a b c d) = 0xFFFFFF8000000000 + 8 * ?y"
    using slot_address [OF y(1)] by (simp add: get_page_entry_def)
  note s = field_of_slot [OF va]
  show "addr_pml4 (get_page_entry a b c d) = 511"
    using top_of_slot [OF va y(1)] by (simp add: addr_pml4_def word_unat_eq_iff)
  show "addr_pdp (get_page_entry a b c d) = a" using s(1) y(2) by (simp only: addr_pdp_def word_unat_eq_iff)
  show "addr_pd (get_page_entry a b c d) = b" using s(2) y(3) by (simp only: addr_pd_def word_unat_eq_iff)
  show "addr_pt (get_page_entry a b c d) = c" using s(3) y(4) by (simp only: addr_pt_def word_unat_eq_iff)
  show "get_field 3 9 (get_page_entry a b c d) = d" using s(4) y(5) by (simp only: word_unat_eq_iff)
qed

text \<open>The upper tables are page tables of themselves.\<close>

lemma upper_entries:
  "get_pd_entry a b c = get_page_entry 511 a b c" "get_pdp_entry a b = get_page_entry 511 511 a b"
  "get_pml4_entry i = get_page_entry 511 511 511 i"
  by (simp_all add: get_pd_entry_def get_pdp_entry_def get_pml4_entry_def get_page_entry_def algebra_simps)

lemma addr_bounds: "unat (addr_pml4 a) < 512" "unat (addr_pdp a) < 512" "unat (addr_pd a) < 512" "unat (addr_pt a) < 512"
  using get_field_bound [where n = 9] by (simp_all add: addr_pml4_def addr_pdp_def addr_pd_def addr_pt_def)

section \<open>Walks\<close>

lemma walk_append: "walk m f (p @ q) = Option.bind (walk m f p) (\<lambda>g. walk m g q)"
  by (induction m f p rule: walk.induct) simp_all

lemma walk_snoc:
  "walk m f (p @ [i]) = (case walk m f p of None \<Rightarrow> None
     | Some g \<Rightarrow> if entry_present (m g i) \<noteq> 0 then Some (entry_frame (m g i)) else None)"
  by (simp add: walk_append split: option.split)

lemma walk_prefix: "walk m f (p @ q) = Some g \<Longrightarrow> \<exists>h. walk m f p = Some h"
  by (cases "walk m f p") (simp_all add: walk_append)

text \<open>
  The tables the current PML4 reaches through its last entry; the PML4 itself, except while
  \<open>memman_init\<close> builds new tables under the old ones.
\<close>

definition root :: "vm \<Rightarrow> u64" where
  "root s = entry_frame (mem s (entry_frame (cr3 s)) 511)"

definition table :: "vm \<Rightarrow> u64 list \<Rightarrow> u64 option" where
  "table s p = walk (mem s) (root s) p"

definition valid_path :: "u64 list \<Rightarrow> bool" where
  "valid_path p \<longleftrightarrow> (\<forall>i \<in> set p. unat i < 512) \<and> (p \<noteq> [] \<longrightarrow> hd p \<noteq> 511)"

lemma valid_path_snoc [simp]: "valid_path (p @ [i]) \<longleftrightarrow> valid_path p \<and> unat i < 512 \<and> (p = [] \<longrightarrow> i \<noteq> 511)"
  by (cases p) (auto simp: valid_path_def)

lemma valid_path_Nil [simp]: "valid_path []"
  by (simp add: valid_path_def)

lemma valid_path_Cons: "valid_path (i # p) \<longleftrightarrow> unat i < 512 \<and> i \<noteq> 511 \<and> (\<forall>j \<in> set p. unat j < 512)"
  by (auto simp: valid_path_def)

lemma valid_va: "addr_pml4 a \<noteq> 511 \<Longrightarrow> valid_path (va_path a)"
  using addr_bounds [of a] by (simp add: va_path_def valid_path_def)

text \<open>
  The invariant of the tables: the last entry leads to the root and the root to itself, every table is in
  a block in use, and no table is reached on two ways.
\<close>

definition vm_inv :: "vm \<Rightarrow> bool" where
  "vm_inv s \<longleftrightarrow> mm_inv (mm s) \<and> unat (mem_max_blocks (mm s)) \<le> 2 ^ 40 \<and>
     unat (entry_frame (cr3 s)) \<notin> free_blocks (mm s) \<and> entry_present (mem s (entry_frame (cr3 s)) 511) \<noteq> 0 \<and>
     entry_present (mem s (root s) 511) \<noteq> 0 \<and> entry_frame (mem s (root s) 511) = root s \<and>
     (\<forall>p f. valid_path p \<longrightarrow> length p \<le> 3 \<longrightarrow> table s p = Some f \<longrightarrow>
        unat f \<in> used_set (mm s) \<and> (f = entry_frame (cr3 s) \<longrightarrow> p = [])) \<and>
     (\<forall>p q f. valid_path p \<longrightarrow> valid_path q \<longrightarrow> length p \<le> 3 \<longrightarrow> length q \<le> 3 \<longrightarrow>
        table s p = Some f \<longrightarrow> table s q = Some f \<longrightarrow> p = q)"

text \<open>Blocks that are not in use hold zeros only.\<close>

definition free_zeroed :: "vm \<Rightarrow> bool" where
  "free_zeroed s \<longleftrightarrow> (\<forall>f i. unat f \<in> free_blocks (mm s) \<longrightarrow> mem s f i = 0)"

lemma vm_invD:
  assumes "vm_inv s"
  shows "mm_inv (mm s)" "unat (mem_max_blocks (mm s)) \<le> 2 ^ 40" "entry_present (mem s (entry_frame (cr3 s)) 511) \<noteq> 0"
    "entry_present (mem s (root s) 511) \<noteq> 0" "entry_frame (mem s (root s) 511) = root s"
    "valid_path p \<Longrightarrow> length p \<le> 3 \<Longrightarrow> table s p = Some f \<Longrightarrow> unat f \<in> used_set (mm s)"
    "valid_path p \<Longrightarrow> length p \<le> 3 \<Longrightarrow> table s p = Some (entry_frame (cr3 s)) \<Longrightarrow> p = []"
    "valid_path p \<Longrightarrow> valid_path q \<Longrightarrow> length p \<le> 3 \<Longrightarrow> length q \<le> 3 \<Longrightarrow>
      table s p = Some f \<Longrightarrow> table s q = Some f \<Longrightarrow> p = q"
  using assms unfolding vm_inv_def by blast+

lemma vm_inv_cr3: "vm_inv s \<Longrightarrow> unat (entry_frame (cr3 s)) \<notin> free_blocks (mm s)"
  by (simp add: vm_inv_def)

lemma walk_self: "vm_inv s \<Longrightarrow> walk (mem s) (root s) (511 # p) = table s p"
  using vm_invD(4,5) by (simp add: table_def)

lemma translate_511: "vm_inv s \<Longrightarrow> addr_pml4 va = 511 \<Longrightarrow> translate s va = table s [addr_pdp va, addr_pd va, addr_pt va]"
  using vm_invD(3) by (simp add: translate_def va_path_def table_def root_def)

lemma table_self: "vm_inv s \<Longrightarrow> table s (511 # p) = table s p"
  using walk_self by (simp add: table_def)

text \<open>Each pointer of the code leads to the entry it is meant to be.\<close>

lemma translate_entries:
  assumes "vm_inv s" "unat a < 512" "unat b < 512" "unat c < 512" "unat d < 512"
  shows "translate s (get_page_entry a b c d) = table s [a, b, c]" "get_field 3 9 (get_page_entry a b c d) = d"
    "translate s (get_pd_entry a b c) = table s [a, b]" "get_field 3 9 (get_pd_entry a b c) = c"
    "translate s (get_pdp_entry a b) = table s [a]" "get_field 3 9 (get_pdp_entry a b) = b"
    "translate s (get_pml4_entry a) = table s []" "get_field 3 9 (get_pml4_entry a) = a"
  using assms table_entry_slot translate_511 table_self
  by (simp_all add: upper_entries)

lemma translate_page:
  assumes "vm_inv s"
  shows "translate s (current_pt + 8 * addr_frame a) = table s [addr_pml4 a, addr_pdp a, addr_pd a]"
    "get_field 3 9 (current_pt + 8 * addr_frame a) = addr_pt a"
  using translate_511 [OF assms, of "current_pt + 8 * addr_frame a"] page_slot [of a] by simp_all

section \<open>One changed entry\<close>

lemma put_entry_frame [simp, frame_simps]:
  "mm (put_entry f i g s) = mm s" "cr3 (put_entry f i g s) = cr3 s" "video_memory (put_entry f i g s) = video_memory s"
  by (simp_all add: put_entry_def)

lemma put_entry_mem:
  "mem (put_entry f i g s) h j = (if h = f \<and> j = i then g (mem s f i) else mem s h j)"
  by (simp add: put_entry_def)

lemma put_root:
  assumes "vm_inv s" "table s p = Some f" "valid_path (p @ [i])" "length p \<le> 3"
  shows "root (put_entry f i g s) = root s" "mem (put_entry f i g s) (root s) 511 = mem s (root s) 511"
    "mem (put_entry f i g s) (entry_frame (cr3 s)) 511 = mem s (entry_frame (cr3 s)) 511"
proof -
  have "f = entry_frame (cr3 s) \<Longrightarrow> i \<noteq> 511" using vm_invD(7) [OF assms(1), of p] assms(2-4) by auto
  then show c: "mem (put_entry f i g s) (entry_frame (cr3 s)) 511 = mem s (entry_frame (cr3 s)) 511"
    by (auto simp: put_entry_mem)
  then show "root (put_entry f i g s) = root s" by (simp add: root_def)
  have "f = root s \<Longrightarrow> i \<noteq> 511" using vm_invD(8) [OF assms(1), of p "[]" f] assms(2-4) by (auto simp: table_def)
  then show "mem (put_entry f i g s) (root s) 511 = mem s (root s) 511" by (auto simp: put_entry_mem)
qed

lemma table_put_other:
  assumes inv: "vm_inv s" and p: "table s p = Some f" "valid_path (p @ [i])" "length p \<le> 3"
    and q: "valid_path q" "length q \<le> 4" "\<not> prefix (p @ [i]) q"
  shows "table (put_entry f i g s) q = table s q"
  using q
proof (induction q rule: rev_induct)
  case Nil
  then show ?case using put_root(1) [OF inv p] by (simp add: table_def)
next
  case (snoc j q)
  have "\<not> prefix (p @ [i]) q" using snoc.prems(3) by (meson prefix_order.trans prefixI)
  then have IH: "table (put_entry f i g s) q = table s q" using snoc by simp
  show ?case
  proof (cases "table s q")
    case None
    then show ?thesis using IH by (simp add: table_def walk_snoc)
  next
    case (Some h)
    have "\<not> (h = f \<and> j = i)"
    proof
      assume "h = f \<and> j = i"
      moreover from this have "q = p" using vm_invD(8) [OF inv _ _ _ _ Some, of p] p snoc.prems(1,2) by simp
      ultimately show False using snoc.prems(3) by simp
    qed
    then have "mem (put_entry f i g s) h j = mem s h j" by (auto simp: put_entry_mem)
    then show ?thesis using IH Some by (simp add: table_def walk_snoc)
  qed
qed

lemma table_put_at:
  assumes inv: "vm_inv s" and p: "table s p = Some f" "valid_path (p @ [i])" "length p \<le> 3"
  shows "table (put_entry f i g s) (p @ [i]) =
    (if entry_present (g (mem s f i)) \<noteq> 0 then Some (entry_frame (g (mem s f i))) else None)"
proof -
  have "table (put_entry f i g s) p = Some f" using table_put_other [OF inv p, of p] p by simp
  then show ?thesis by (simp add: table_def walk_snoc put_entry_mem)
qed

text \<open>An entry of a page table: no table changes.\<close>

lemma vm_inv_put_page:
  assumes inv: "vm_inv s" and p: "table s p = Some f" "valid_path (p @ [i])" "length p = 3"
  shows "vm_inv (put_entry f i g s)"
proof -
  have same: "table (put_entry f i g s) q = table s q" if "valid_path q" "length q \<le> 3" for q
    using table_put_other [OF inv p(1,2) _ that(1)] p(3) that(2) prefix_length_le [of "p @ [i]" q] by fastforce
  note r = put_root [OF inv p(1,2)]
  show ?thesis
    using inv same r p(3) unfolding vm_inv_def by simp
qed

text \<open>A new table, in a block that was free and is all zeros.\<close>

lemma table_put_new:
  assumes inv: "vm_inv s" and p: "table s p = Some f" "valid_path (p @ [i])" "length p \<le> 2"
    and old: "entry_present (mem s f i) = 0"
    and new: "entry_present (g (mem s f i)) \<noteq> 0" "entry_frame (g (mem s f i)) = h" "unat h \<notin> used_set (mm s)"
      "\<And>j. mem s h j = 0"
    and q: "valid_path q" "length q \<le> 4"
  shows "table (put_entry f i g s) q = (if q = p @ [i] then Some h else table s q)"
proof (cases "prefix (p @ [i]) q")
  case False
  then show ?thesis using table_put_other [OF inv p(1,2) _ q False] p(3) by auto
next
  case True
  then obtain r where r: "q = (p @ [i]) @ r" by (auto simp: prefix_def)
  have at: "table (put_entry f i g s) (p @ [i]) = Some h" using table_put_at [OF inv p(1,2)] p(3) new by simp
  have none: "table s (p @ [i]) = None" using p(1) old by (simp add: table_def walk_snoc)
  show ?thesis
  proof (cases r)
    case Nil
    then show ?thesis using r at by simp
  next
    case (Cons j r')
    have "h \<noteq> f" using new(3) vm_invD(6) [OF inv, of p f] p by auto
    then have "mem (put_entry f i g s) h j = 0" using new(4) by (simp add: put_entry_mem)
    then have "walk (mem (put_entry f i g s)) h r = None" using Cons by simp
    then have "table (put_entry f i g s) q = None" using at unfolding r table_def by (simp only: walk_append bind.bind_lunit)
    moreover have "table s q = None" using none unfolding r table_def by (simp only: walk_append bind.bind_lzero)
    moreover have "q \<noteq> p @ [i]" using r Cons by simp
    ultimately show ?thesis by simp
  qed
qed

lemma vm_inv_put_new:
  assumes inv: "vm_inv s" and p: "table s p = Some f" "valid_path (p @ [i])" "length p \<le> 2"
    and old: "entry_present (mem s f i) = 0"
    and new: "entry_present (g (mem s f i)) \<noteq> 0" "entry_frame (g (mem s f i)) = h" "unat h \<notin> used_set (mm s)"
      "\<And>j. mem s h j = 0"
    and mm: "mm_inv m'" "mem_max_blocks m' = mem_max_blocks (mm s)" "used_set m' = insert (unat h) (used_set (mm s))"
    and c: "h \<noteq> entry_frame (cr3 s)" "free_blocks m' \<subseteq> free_blocks (mm s)"
  shows "vm_inv ((put_entry f i g s)\<lparr>mm := m'\<rparr>)"
proof -
  let ?s = "(put_entry f i g s)\<lparr>mm := m'\<rparr>"
  note t = table_put_new [where g = g, OF inv p old new]
  have tab: "table ?s q = (if q = p @ [i] then Some h else table s q)" if "valid_path q" "length q \<le> 3" for q
    using t [OF that(1)] that(2) by (simp add: table_def root_def)
  note r = put_root [OF inv p(1,2)]
  have root: "root ?s = root s" using r(1) p(3) by (simp add: root_def)
  have used: "unat h' \<in> used_set (mm s)" if "valid_path q" "length q \<le> 3" "table s q = Some h'" for q h'
    using vm_invD(6) [OF inv that] .
  have 1: "unat h' \<in> used_set m' \<and> (h' = entry_frame (cr3 s) \<longrightarrow> q = [])"
    if "valid_path q" "length q \<le> 3" "table ?s q = Some h'" for q h'
    using that tab [OF that(1,2)] vm_invD(6,7) [OF inv that(1,2)] mm(3) c(1) by (auto split: if_splits)
  have 2: "q = q'" if "valid_path q" "valid_path q'" "length q \<le> 3" "length q' \<le> 3" "table ?s q = Some h'" "table ?s q' = Some h'"
    for q q' h'
    using that(5,6) tab [OF that(1,3)] tab [OF that(2,4)] new(3) used [OF that(1,3), of h] used [OF that(2,4), of h]
      vm_invD(8) [OF inv that(1-4), of h'] by (auto split: if_splits)
  have m: "mem ?s = mem (put_entry f i g s)" "cr3 ?s = cr3 s" "mm ?s = m'" by simp_all
  show ?thesis
    unfolding vm_inv_def root m
    using mm(1,2) vm_invD(2-5) [OF inv] vm_inv_cr3 [OF inv] c(2) r(2,3) p(3) 1 2 by auto
qed

end
