(* ===== verification/PagingCorrect.thy ===== *)
theory PagingCorrect
  imports PagingTables
begin

text \<open>
  What creating and mapping pages does: the lemmas on \<open>create_page_for_current\<close> and the loops of
  \<open>alloc_page\<close> and \<open>alloc_kernel_page\<close>, and the properties of paging.
\<close>

section \<open>Blocks\<close>

text \<open>The next \<open>n\<close> allocations succeed.\<close>

fun can_alloc :: "nat \<Rightarrow> memman \<Rightarrow> bool" where
  "can_alloc 0 m = True"
| "can_alloc (Suc n) m = (fst (mem_alloc_block m) \<noteq> 0 \<and> can_alloc n (snd (mem_alloc_block m)))"

lemma can_alloc_less: "can_alloc (Suc n) m \<Longrightarrow> can_alloc n m"
  by (induction n arbitrary: m) (simp, force)

lemmas can_alloc_Suc = can_alloc.simps(2)

lemma can_alloc_le: "n \<le> m \<Longrightarrow> can_alloc m s \<Longrightarrow> can_alloc n s"
  by (induction m rule: dec_induct) (blast dest: can_alloc_less)+

declare can_alloc_Suc [simp del]

lemma mem_alloc_block_next [simp]:
  "kernel_next_block (snd (mem_alloc_block m)) = kernel_next_block m"
  "mem_max_blocks (snd (mem_alloc_block m)) = mem_max_blocks m"
  by (simp_all add: mem_alloc_block_def mmap_set_def Let_def)

lemma alloc_frame:
  assumes "mm_inv m" "unat (mem_max_blocks m) \<le> 2 ^ 40" "mem_alloc_block m = (a, m')" "a \<noteq> 0"
  defines "f \<equiv> a div 0x1000"
  shows "unat f \<in> free_blocks m" "take_bit 40 f = f" "mm_inv m'" "mem_max_blocks m' = mem_max_blocks m"
    "used_set m' = insert (unat f) (used_set m)" "free_blocks m' = free_blocks m - {unat f}"
    "kernel_next_block m' = kernel_next_block m" "f \<noteq> 0"
proof -
  have f: "unat f = unat a div 4096" by (simp add: f_def unat_div)
  note a = phys.alloc_address [OF assms(1,3,4), folded f]
  show free: "unat f \<in> free_blocks m" and "mm_inv m'" "free_blocks m' = free_blocks m - {unat f}"
    "used_set m' = insert (unat f) (used_set m)" using a by simp_all
  have "unat f < 2 ^ 40" using free assms(2) by (simp add: free_blocks_def)
  then show "take_bit 40 f = f" by (simp add: word_unat_eq_iff unsigned_take_bit_eq take_bit_nat_eq_self)
  show "mem_max_blocks m' = mem_max_blocks m" "kernel_next_block m' = kernel_next_block m"
    using mem_alloc_block_next [of m] assms(3) by simp_all
  show "f \<noteq> 0" using a by (metis unat_0)
qed

lemma can_alloc_enough:
  assumes "mm_inv m" "unat (mem_max_blocks m) \<le> 2 ^ 40" "0 \<notin> free_blocks m" "n \<le> card (free_blocks m \<inter> {..<searched m})"
  shows "can_alloc n m"
  using assms
proof (induction n arbitrary: m)
  case (Suc n)
  obtain a m' where a: "mem_alloc_block m = (a, m')" by (cases "mem_alloc_block m")
  have "free_blocks m \<inter> {..<searched m} \<noteq> {}" using Suc.prems(4) by auto
  then have ok: "a \<noteq> 0" using mem_alloc_block_fail [OF Suc.prems(1)] a Suc.prems(3) by blast
  note al = alloc_frame [OF Suc.prems(1,2) a ok]
  have "searched m' = searched m" using al(4) by (simp add: searched_def)
  then have "free_blocks m' \<inter> {..<searched m'} = free_blocks m \<inter> {..<searched m} - {unat (a div 0x1000)}"
    using al(6) by auto
  then have "n \<le> card (free_blocks m' \<inter> {..<searched m'})"
    using Suc.prems(4) diff_card_le_card_Diff [of "{unat (a div 0x1000)}" "free_blocks m \<inter> {..<searched m}"]
    by simp
  then have "can_alloc n m'" using al(3-6) Suc.prems by (intro Suc.IH) simp_all
  then show ?case using a ok by (simp add: can_alloc_Suc)
qed simp

section \<open>What stays\<close>

definition no_table :: "vm \<Rightarrow> u64 \<Rightarrow> bool" where
  "no_table s f \<longleftrightarrow> (\<forall>q. valid_path q \<longrightarrow> length q \<le> 3 \<longrightarrow> table s q \<noteq> Some f)"

text \<open>From \<open>s\<close> to \<open>s'\<close> only free blocks are taken and only tables are written.\<close>

definition grows :: "vm \<Rightarrow> vm \<Rightarrow> bool" where
  "grows s s' \<longleftrightarrow> vm_inv s' \<and> free_zeroed s' \<and> cr3 s' = cr3 s \<and> root s' = root s \<and> video_memory s' = video_memory s \<and>
     kernel_next_block (mm s') = kernel_next_block (mm s) \<and> mem_max_blocks (mm s') = mem_max_blocks (mm s) \<and>
     free_blocks (mm s') \<subseteq> free_blocks (mm s) \<and>
     (\<forall>f. unat f \<notin> free_blocks (mm s) \<longrightarrow> no_table s f \<longrightarrow> no_table s' f \<and> mem s' f = mem s f)"

lemma grows_refl: "vm_inv s \<Longrightarrow> free_zeroed s \<Longrightarrow> grows s s"
  by (simp add: grows_def)

lemma grows_trans: "grows s t \<Longrightarrow> grows t u \<Longrightarrow> grows s u"
  unfolding grows_def by (auto simp: subset_iff)

lemma grows_used: "grows s s' \<Longrightarrow> used_set (mm s) \<subseteq> used_set (mm s')"
  by (auto simp: grows_def used_set_alt)

section \<open>One level\<close>

lemma ensure_entry_spec:
  assumes inv: "vm_inv s" and z: "free_zeroed s" and p: "table s p = Some f" "valid_path (p @ [i])" "length p \<le> 2"
    and va: "translate s va = Some f" "get_field 3 9 va = i" and ok: "can_alloc (Suc n) (mm s)" and u: "user = 0 \<or> user = 1"
  shows "\<exists>s' h. ensure_entry va user s = Some s' \<and> grows s s' \<and> table s' (p @ [i]) = Some h \<and>
    (\<forall>q. valid_path q \<longrightarrow> length q \<le> 4 \<longrightarrow> table s q \<noteq> None \<or> q \<noteq> p @ [i] \<longrightarrow> table s' q = table s q) \<and>
    can_alloc n (mm s')"
proof (cases "entry_present (mem s f i) = 0")
  case False
  then have "ensure_entry va user s = Some s" using va by (simp add: ensure_entry_def load_entry_def)
  moreover have "\<exists>h. table s (p @ [i]) = Some h" using p(1) False by (simp add: table_def walk_snoc)
  ultimately show ?thesis using grows_refl [OF inv z] can_alloc_less [OF ok] by blast
next
  case True
  obtain a m' where a: "mem_alloc_block (mm s) = (a, m')" by (cases "mem_alloc_block (mm s)")
  then have ok': "a \<noteq> 0" "can_alloc n m'" using ok by (simp_all add: can_alloc_Suc)
  let ?h = "a div 0x1000"
  let ?g = "set_entry_user user \<circ> set_entry_rw 1 \<circ> set_entry_present 1 \<circ> set_entry_frame ?h"
  let ?s = "(put_entry f i ?g s)\<lparr>mm := m'\<rparr>"
  note al = alloc_frame [OF vm_invD(1,2) [OF inv] a ok'(1)]
  have tr: "translate (s\<lparr>mm := m'\<rparr>) va = Some f" using va(1) by (simp add: translate_def)
  have run: "ensure_entry va user s = Some ?s"
    using va True a tr by (simp add: ensure_entry_def load_entry_def upd_entry_def put_entry_def)
  have g: "entry_present (?g (mem s f i)) \<noteq> 0" "entry_frame (?g (mem s f i)) = ?h"
    using al(2) by (simp_all add: take_bit_Suc)
  have free: "unat ?h \<notin> used_set (mm s)" using al(1) phys.blocks_disjoint [OF vm_invD(1) [OF inv]] by blast
  have zero: "mem s ?h j = 0" for j using al(1) z by (simp add: free_zeroed_def)
  have c: "?h \<noteq> entry_frame (cr3 s)" using al(1) vm_inv_cr3 [OF inv] by auto
  have inv': "vm_inv ?s"
    by (rule vm_inv_put_new [where g = ?g, OF inv p True g free zero al(3-5) c]) (use al(6) in blast)
  have p3: "length p \<le> 3" using p(3) by simp
  have root: "root ?s = root s" using put_root(1) [OF inv p(1,2) p3] by (simp add: root_def)
  have tab: "table ?s q = (if q = p @ [i] then Some ?h else table s q)" if "valid_path q" "length q \<le> 4" for q
    using table_put_new [where g = ?g, OF inv p True g free zero that] by (simp add: table_def root_def)
  have hold: "no_table ?s x \<and> mem ?s x = mem s x" if "unat x \<notin> free_blocks (mm s)" "no_table s x" for x
  proof
    have "x \<noteq> ?h" using that(1) al(1) by blast
    then show "no_table ?s x" using that(2) tab by (auto simp: no_table_def)
    have "x \<noteq> f" using that(2) p by (auto simp: no_table_def)
    then show "mem ?s x = mem s x" by (simp add: put_entry_def)
  qed
  have "free_zeroed ?s"
    unfolding free_zeroed_def
  proof (intro allI impI)
    fix x j :: u64 assume "unat x \<in> free_blocks (mm ?s)"
    then have x: "unat x \<in> free_blocks (mm s)" using al(6) by simp
    then have "x \<noteq> f" using vm_invD(6) [OF inv _ _ p(1)] p(2,3) phys.blocks_disjoint [OF vm_invD(1) [OF inv]] by auto
    then show "mem ?s x j = 0" using x z by (simp add: put_entry_def free_zeroed_def)
  qed
  then have "grows s ?s" using inv' root al(4,6,7) hold by (auto simp: grows_def)
  moreover have "table s (p @ [i]) = None" using p(1) True by (simp add: table_def walk_snoc)
  ultimately show ?thesis using run tab p(2,3) ok'(2) by (intro exI [of _ ?s] exI [of _ ?h]) auto
qed

section \<open>One page\<close>

text \<open>The tables above the page of an address.\<close>

definition upper_paths :: "u64 \<Rightarrow> u64 list set" where
  "upper_paths a = {[addr_pml4 a], [addr_pml4 a, addr_pdp a], [addr_pml4 a, addr_pdp a, addr_pd a]}"

lemma upper_paths_length: "length q = 4 \<Longrightarrow> q \<notin> upper_paths a"
  by (auto simp: upper_paths_def)

lemma create_page_spec:
  assumes inv: "vm_inv s" and z: "free_zeroed s" and a: "addr_pml4 a \<noteq> 511" and ok: "can_alloc (Suc (Suc (Suc n))) (mm s)"
    and u: "user = 0 \<or> user = 1"
  shows "\<exists>s' f. create_page_for_current a user s = Some (current_pt + 8 * addr_frame a, s') \<and> grows s s' \<and>
    table s' [addr_pml4 a, addr_pdp a, addr_pd a] = Some f \<and>
    (\<forall>q. valid_path q \<longrightarrow> length q \<le> 4 \<longrightarrow> table s q \<noteq> None \<or> q \<notin> upper_paths a \<longrightarrow> table s' q = table s q) \<and>
    can_alloc n (mm s')"
proof -
  note b = addr_bounds [of a]
  note tr = translate_entries [OF _ b]
  have r: "table s [] = Some (root s)" by (simp add: table_def)
  obtain s1 h1 where s1: "ensure_entry (get_pml4_entry (addr_pml4 a)) user s = Some s1" "grows s s1"
    "table s1 [addr_pml4 a] = Some h1"
    "\<forall>q. valid_path q \<longrightarrow> length q \<le> 4 \<longrightarrow> table s q \<noteq> None \<or> q \<noteq> [addr_pml4 a] \<longrightarrow> table s1 q = table s q"
    "can_alloc (Suc (Suc n)) (mm s1)"
    using ensure_entry_spec [OF inv z r, of "addr_pml4 a" "get_pml4_entry (addr_pml4 a)" "Suc (Suc n)" user]
      a b(1) tr(7,8) [OF inv] r ok u by (auto simp: valid_path_Cons)
  have i1: "vm_inv s1" "free_zeroed s1" using s1(2) by (simp_all add: grows_def)
  obtain s2 h2 where s2: "ensure_entry (get_pdp_entry (addr_pml4 a) (addr_pdp a)) user s1 = Some s2" "grows s1 s2"
    "table s2 [addr_pml4 a, addr_pdp a] = Some h2"
    "\<forall>q. valid_path q \<longrightarrow> length q \<le> 4 \<longrightarrow> table s1 q \<noteq> None \<or> q \<noteq> [addr_pml4 a, addr_pdp a] \<longrightarrow> table s2 q = table s1 q"
    "can_alloc (Suc n) (mm s2)"
    using ensure_entry_spec [OF i1 s1(3), of "addr_pdp a" "get_pdp_entry (addr_pml4 a) (addr_pdp a)" "Suc n" user]
      a b(1,2) tr(5,6) [OF i1(1)] s1(3,5) u by (auto simp: valid_path_Cons)
  have i2: "vm_inv s2" "free_zeroed s2" using s2(2) by (simp_all add: grows_def)
  obtain s3 h3 where s3: "ensure_entry (get_pd_entry (addr_pml4 a) (addr_pdp a) (addr_pd a)) user s2 = Some s3" "grows s2 s3"
    "table s3 [addr_pml4 a, addr_pdp a, addr_pd a] = Some h3"
    "\<forall>q. valid_path q \<longrightarrow> length q \<le> 4 \<longrightarrow> table s2 q \<noteq> None \<or> q \<noteq> [addr_pml4 a, addr_pdp a, addr_pd a] \<longrightarrow> table s3 q = table s2 q"
    "can_alloc n (mm s3)"
    using ensure_entry_spec [OF i2 s2(3), of "addr_pd a" "get_pd_entry (addr_pml4 a) (addr_pdp a) (addr_pd a)" n user]
      a b(1-3) tr(3,4) [OF i2(1)] s2(3,5) u by (auto simp: valid_path_Cons)
  have "create_page_for_current a user s = Some (current_pt + 8 * addr_frame a, s3)"
    using s1(1) s2(1) s3(1) by (simp add: create_page_for_current_def)
  moreover have "grows s s3" by (rule grows_trans [OF s1(2) grows_trans [OF s2(2) s3(2)]])
  moreover have "table s3 q = table s q" if q: "valid_path q" "length q \<le> 4" "table s q \<noteq> None \<or> q \<notin> upper_paths a" for q
  proof -
    have 1: "table s1 q = table s q" using s1(4) q by (auto simp: upper_paths_def)
    have 2: "table s2 q = table s1 q" using s2(4) q 1 by (auto simp: upper_paths_def)
    show ?thesis using s3(4) q 1 2 by (auto simp: upper_paths_def)
  qed
  ultimately show ?thesis using s3(3,5) by blast
qed

lemma grows_alloc:
  assumes inv: "vm_inv s" and z: "free_zeroed s" and a: "mem_alloc_block (mm s) = (a, m')" "a \<noteq> 0"
  shows "grows s (s\<lparr>mm := m'\<rparr>)"
proof -
  note al = alloc_frame [OF vm_invD(1,2) [OF inv] a]
  have tab: "table (s\<lparr>mm := m'\<rparr>) q = table s q" "root (s\<lparr>mm := m'\<rparr>) = root s" for q
    by (simp_all add: table_def root_def)
  have "vm_inv (s\<lparr>mm := m'\<rparr>)"
    using inv al(3-6) tab unfolding vm_inv_def by auto
  then show ?thesis using z al(4,6,7) tab by (auto simp: grows_def free_zeroed_def no_table_def)
qed

lemma grows_put_page:
  assumes inv: "vm_inv s" and z: "free_zeroed s" and p: "table s p = Some f" "valid_path (p @ [i])" "length p = 3"
  shows "grows s (put_entry f i g s)"
proof -
  have tab: "table (put_entry f i g s) q = table s q" if "valid_path q" "length q \<le> 3" for q
    using table_put_other [OF inv p(1,2) _ that(1)] p(3) that(2) prefix_length_le [of "p @ [i]" q] by fastforce
  have f: "unat f \<notin> free_blocks (mm s)"
    using vm_invD(6) [OF inv _ _ p(1)] p(2,3) phys.blocks_disjoint [OF vm_invD(1) [OF inv]] by auto
  have "free_zeroed (put_entry f i g s)" using z f by (auto simp: free_zeroed_def put_entry_mem)
  moreover have "no_table (put_entry f i g s) x \<and> mem (put_entry f i g s) x = mem s x" if "no_table s x" for x
  proof -
    have "x \<noteq> f" using that p by (auto simp: no_table_def)
    then show ?thesis using that tab by (auto simp: no_table_def put_entry_def)
  qed
  ultimately show ?thesis
    using vm_inv_put_page [OF inv p, of g] put_root(1) [OF inv p(1,2), of g] p(3) by (simp add: grows_def)
qed

text \<open>The entry for a path, with its flags.\<close>

definition page_of :: "vm \<Rightarrow> u64 list \<Rightarrow> u64 option" where
  "page_of s q = map_option (\<lambda>f. mem s f (last q)) (table s (butlast q))"

lemma va_path_snoc: "va_path a = [addr_pml4 a, addr_pdp a, addr_pd a] @ [addr_pt a]"
  by (simp add: va_path_def)

lemma map_fresh_spec:
  assumes inv: "vm_inv s" and z: "free_zeroed s" and a: "addr_pml4 a \<noteq> 511" and ok: "can_alloc (Suc (Suc (Suc (Suc n)))) (mm s)"
    and u: "user = 0 \<or> user = 1"
  shows "\<exists>s' f. map_fresh a user s = Some (True, s') \<and> grows s s' \<and> table s' (va_path a) = Some f \<and>
    unat f \<in> free_blocks (mm s) \<and> unat f \<notin> free_blocks (mm s') \<and> no_table s' f \<and>
    map_option entry_user (page_of s' (va_path a)) = Some user \<and>
    (\<forall>q. valid_path q \<longrightarrow> length q \<le> 4 \<longrightarrow> table s q \<noteq> None \<or> q \<notin> upper_paths a \<longrightarrow> q \<noteq> va_path a \<longrightarrow>
       table s' q = table s q) \<and> can_alloc n (mm s')"
proof -
  obtain b m' where b: "mem_alloc_block (mm s) = (b, m')" by (cases "mem_alloc_block (mm s)")
  then have ok': "b \<noteq> 0" "can_alloc (Suc (Suc (Suc n))) m'" using ok by (simp_all add: can_alloc_Suc)
  let ?f = "b div 0x1000"
  let ?s1 = "s\<lparr>mm := m'\<rparr>"
  note al = alloc_frame [OF vm_invD(1,2) [OF inv] b ok'(1)]
  note g1 = grows_alloc [OF inv z b ok'(1)]
  have inv1: "vm_inv ?s1" "free_zeroed ?s1" using g1 by (simp_all add: grows_def)
  obtain s2 t where s2: "create_page_for_current a user ?s1 = Some (current_pt + 8 * addr_frame a, s2)" "grows ?s1 s2"
    "table s2 [addr_pml4 a, addr_pdp a, addr_pd a] = Some t"
    "\<forall>q. valid_path q \<longrightarrow> length q \<le> 4 \<longrightarrow> table ?s1 q \<noteq> None \<or> q \<notin> upper_paths a \<longrightarrow> table s2 q = table ?s1 q"
    "can_alloc n (mm s2)"
    using create_page_spec [OF inv1 a _ u, of n] ok'(2) by auto
  have inv2: "vm_inv s2" "free_zeroed s2" using s2(2) by (simp_all add: grows_def)
  let ?g = "set_entry_frame ?f \<circ> set_entry_rw 1 \<circ> set_entry_user user \<circ> set_entry_present 1"
  let ?p = "[addr_pml4 a, addr_pdp a, addr_pd a]"
  let ?s3 = "put_entry t (addr_pt a) ?g s2"
  have v: "valid_path (?p @ [addr_pt a])" using valid_va [OF a] by (simp only: va_path_snoc)
  have page: "current_pt + 8 * addr_frame a \<noteq> 0"
  proof
    assume "current_pt + 8 * addr_frame a = 0"
    then have "addr_pml4 0 = 511" using page_slot(1) [of a] by simp
    then show False by (simp add: addr_pml4_def)
  qed
  have run: "map_fresh a user s = Some (True, ?s3)"
    using b ok'(1) s2(1,3) page translate_page [OF inv2(1), of a]
    by (simp add: map_fresh_def upd_entry_def)
  have nf: "no_table ?s1 ?f"
  proof -
    have "table s q \<noteq> Some ?f" if "valid_path q" "length q \<le> 3" for q
      using vm_invD(6) [OF inv that, of ?f] al(1) phys.blocks_disjoint [OF vm_invD(1) [OF inv]] by auto
    then show ?thesis by (simp add: no_table_def table_def root_def)
  qed
  have gr: "grows s ?s3"
    by (rule grows_trans [OF g1 grows_trans [OF s2(2) grows_put_page [OF inv2 s2(3) v]]]) simp
  have "unat ?f \<notin> free_blocks (mm ?s1)" using al(6) by simp
  then have f: "no_table s2 ?f" "unat ?f \<notin> free_blocks (mm s2)" using s2(2) nf by (auto simp: grows_def)
  have f3: "no_table ?s3 ?f"
    using grows_put_page [OF inv2 s2(3) v, of ?g] f by (auto simp: grows_def)
  have at: "table ?s3 (va_path a) = Some ?f"
    unfolding va_path_snoc using table_put_at [OF inv2(1) s2(3) v, of ?g] al(2) by (simp add: take_bit_Suc)
  have "table ?s3 q = table s q"
    if q: "valid_path q" "length q \<le> 4" "q \<noteq> va_path a" "table s q \<noteq> None \<or> q \<notin> upper_paths a" for q
  proof -
    have "\<not> prefix (?p @ [addr_pt a]) q" using q(2,3) unfolding va_path_snoc by (auto simp: prefix_def)
    then have "table ?s3 q = table s2 q" using table_put_other [OF inv2(1) s2(3) v _ q(1)] q(2) by simp
    also have "\<dots> = table s q"
    proof -
      have "table ?s1 q = table s q" by (simp add: table_def root_def)
      then show ?thesis using s2(4) q(1,2,4) by auto
    qed
    finally show ?thesis .
  qed
  moreover have "table ?s3 ?p = Some t"
    using table_put_other [OF inv2(1) s2(3) v, of ?p] s2(3) v prefix_length_le [of "?p @ [addr_pt a]" ?p]
    by (fastforce simp: valid_path_Cons)
  then have "map_option entry_user (page_of ?s3 (va_path a)) = Some user"
    unfolding va_path_snoc page_of_def butlast_snoc last_snoc using u by (auto simp: put_entry_mem)
  ultimately show ?thesis using run gr at f(2) f3 al(1) s2(5) by (intro exI [of _ ?s3] exI [of _ ?f]) simp
qed

section \<open>Many pages\<close>

lemma length_va_path [simp]: "length (va_path a) = 4"
  by (simp add: va_path_def)

text \<open>Only the pages at the addresses \<open>A\<close> change, and the tables above them.\<close>

definition changes_below :: "vm \<Rightarrow> u64 set \<Rightarrow> vm \<Rightarrow> bool" where
  "changes_below s A s' \<longleftrightarrow>
     (\<forall>q. valid_path q \<longrightarrow> length q \<le> 4 \<longrightarrow> (\<forall>a \<in> A. \<not> prefix q (va_path a)) \<longrightarrow> table s' q = table s q)"

lemma changes_below_refl: "changes_below s A s"
  by (simp add: changes_below_def)

lemma changes_below_trans: "changes_below s A t \<Longrightarrow> changes_below t B u \<Longrightarrow> A \<union> B \<subseteq> C \<Longrightarrow> changes_below s C u"
  by (auto simp: changes_below_def subset_iff)

lemma changes_below_page:
  assumes "changes_below s A s'" "valid_path q" "length q = 4" "\<And>a. a \<in> A \<Longrightarrow> q \<noteq> va_path a"
  shows "table s' q = table s q"
proof -
  have "\<not> prefix q (va_path a)" if "a \<in> A" for a
  proof
    assume "prefix q (va_path a)"
    then obtain r where r: "va_path a = q @ r" by (auto simp: prefix_def)
    from arg_cong [OF this, of length] have "r = []" using assms(3) by simp
    with r assms(4) [OF that] show False by simp
  qed
  then show ?thesis using assms(1-3) by (simp add: changes_below_def)
qed

lemma changes_below_upper:
  assumes "\<And>q. valid_path q \<Longrightarrow> length q \<le> 4 \<Longrightarrow> table s q \<noteq> None \<or> q \<notin> upper_paths a \<Longrightarrow> q \<noteq> va_path a \<Longrightarrow> table s' q = table s q"
  shows "changes_below s {a} s'"
proof -
  have "q \<notin> upper_paths a" "q \<noteq> va_path a" if "\<not> prefix q (va_path a)" for q
    using that by (auto simp: upper_paths_def va_path_def)
  then show ?thesis using assms by (simp add: changes_below_def)
qed

text \<open>Fresh frames \<open>F k\<close> are mapped at \<open>va_of k\<close>, and no other page changes.\<close>

definition maps_fresh :: "vm \<Rightarrow> (u64 \<Rightarrow> u64) \<Rightarrow> nat set \<Rightarrow> (nat \<Rightarrow> u64) \<Rightarrow> vm \<Rightarrow> bool" where
  "maps_fresh s va_of K F s' \<longleftrightarrow> grows s s' \<and> inj_on F K \<and>
     (\<forall>k \<in> K. table s' (va_path (va_of (of_nat k))) = Some (F k) \<and> unat (F k) \<in> free_blocks (mm s) \<and>
        unat (F k) \<notin> free_blocks (mm s') \<and> no_table s' (F k)) \<and>
     changes_below s ((\<lambda>k. va_of (of_nat k)) ` K) s'"

lemma maps_fresh_step:
  assumes "grows s s1" "table s1 (va_path (va_of (of_nat j))) = Some f" "unat f \<in> free_blocks (mm s)"
    "unat f \<notin> free_blocks (mm s1)" "no_table s1 f"
    "changes_below s {va_of (of_nat j)} s1"
    and m: "maps_fresh s1 va_of K F s'" and j: "j \<notin> K" "va_path (va_of (of_nat j)) \<notin> (\<lambda>k. va_path (va_of (of_nat k))) ` K"
      "addr_pml4 (va_of (of_nat j)) \<noteq> 511"
  shows "maps_fresh s va_of (insert j K) (F(j := f)) s'"
proof -
  have g: "grows s1 s'" using m by (simp add: maps_fresh_def)
  have new: "unat (F k) \<in> free_blocks (mm s1)" if "k \<in> K" for k using m that by (simp add: maps_fresh_def)
  have sub: "free_blocks (mm s1) \<subseteq> free_blocks (mm s)" using assms(1) by (simp add: grows_def)
  have fj: "no_table s' f" "unat f \<notin> free_blocks (mm s')" using g assms(4,5) by (auto simp: grows_def)
  have "inj_on (F(j := f)) (insert j K)"
  proof (rule inj_onI)
    fix k l assume kl: "k \<in> insert j K" "l \<in> insert j K" "(F(j := f)) k = (F(j := f)) l"
    have F: "inj_on F K" using m by (simp add: maps_fresh_def)
    have nf: "k \<in> K \<Longrightarrow> F k \<noteq> f" for k using new assms(4) by auto
    show "k = l" using kl j(1) inj_onD [OF F] nf by (auto split: if_splits dest: sym)
  qed
  moreover have "table s' (va_path (va_of (of_nat j))) = Some f"
    using m j(2) valid_va [OF j(3)] assms(2) changes_below_page [of s1 "(\<lambda>k. va_of (of_nat k)) ` K" s' "va_path (va_of (of_nat j))"]
    by (auto simp: maps_fresh_def)
  moreover have "changes_below s ((\<lambda>k. va_of (of_nat k)) ` insert j K) s'"
    by (rule changes_below_trans [OF assms(6)]) (use m in \<open>auto simp: maps_fresh_def\<close>)
  ultimately show ?thesis
    using m assms(3) j(1) fj sub grows_trans [OF assms(1) g] unfolding maps_fresh_def by auto
qed

lemma map_loop_spec:
  assumes "vm_inv s" "free_zeroed s" "unat i \<le> unat sz" "user = 0 \<or> user = 1"
    "can_alloc (4 * (unat sz - unat i) + left) (mm s)"
    "\<forall>k \<in> {unat i..<unat sz}. addr_pml4 (va_of (of_nat k)) \<noteq> 511"
    "inj_on (\<lambda>k. va_path (va_of (of_nat k))) {unat i..<unat sz}"
  shows "\<exists>s' F. map_loop va_of user sz i s = Some (True, s') \<and> maps_fresh s va_of {unat i..<unat sz} F s' \<and>
    can_alloc left (mm s')"
  using assms
proof (induction "unat sz - unat i" arbitrary: i s)
  case 0
  then have "unat i = unat sz" by simp
  then show ?case using 0 grows_refl
    by (subst map_loop.simps) (simp add: word_less_nat_alt maps_fresh_def changes_below_refl)
next
  case (Suc d)
  let ?K = "{unat (i + 1)..<unat sz}"
  have lt: "i < sz" using Suc.hyps(2) by (simp add: word_less_nat_alt)
  then have i1: "unat (i + 1) = Suc (unat i)" by (rule unat_incr)
  have K: "{unat i..<unat sz} = insert (unat i) ?K" "unat i \<notin> ?K" using lt i1 by (auto simp: word_less_nat_alt)
  have "4 * (unat sz - unat i) + left = Suc (Suc (Suc (Suc (4 * (unat sz - unat (i + 1)) + left))))"
    using Suc.hyps(2) i1 by simp
  then have ok: "can_alloc (Suc (Suc (Suc (Suc (4 * (unat sz - unat (i + 1)) + left))))) (mm s)"
    using Suc.prems(5) by (simp only:)
  have a: "addr_pml4 (va_of (of_nat (unat i))) \<noteq> 511" using Suc.prems(6) K(1) by blast
  obtain s1 f where s1: "map_fresh (va_of (of_nat (unat i))) user s = Some (True, s1)" "grows s s1"
    "table s1 (va_path (va_of (of_nat (unat i)))) = Some f" "unat f \<in> free_blocks (mm s)"
    "unat f \<notin> free_blocks (mm s1)" "no_table s1 f"
    "changes_below s {va_of (of_nat (unat i))} s1"
    "can_alloc (4 * (unat sz - unat (i + 1)) + left) (mm s1)"
    using map_fresh_spec [OF Suc.prems(1,2) a ok Suc.prems(4)]
    by (elim exE conjE) (rule that, assumption+, rule changes_below_upper, blast, assumption)
  have inv1: "vm_inv s1" "free_zeroed s1" using s1(2) by (simp_all add: grows_def)
  have d: "d = unat sz - unat (i + 1)" "unat (i + 1) \<le> unat sz" using Suc.hyps(2) i1 by simp_all
  obtain s' F where s': "map_loop va_of user sz (i + 1) s1 = Some (True, s')" "maps_fresh s1 va_of ?K F s'"
    "can_alloc left (mm s')"
    using Suc.hyps(1) [OF d(1) inv1 d(2) Suc.prems(4) s1(8)] Suc.prems(6,7) unfolding K(1) by (auto intro: inj_on_subset)
  have "va_path (va_of (of_nat (unat i))) \<notin> (\<lambda>k. va_path (va_of (of_nat k))) ` ?K"
    using Suc.prems(7) K(2) unfolding K(1) by (simp add: inj_on_insert)
  then have "maps_fresh s va_of (insert (unat i) ?K) (F(unat i := f)) s'"
    by (rule maps_fresh_step [OF s1(2-7) s'(2) K(2) _ a])
  moreover have "map_loop va_of user sz i s = Some (True, s')"
    using lt s1(1) s'(1) by (subst map_loop.simps) simp
  ultimately show ?case using s'(3) unfolding K(1) by blast
qed

section \<open>Ranges of addresses\<close>

lemma div_digits:
  fixes x :: nat
  assumes "x < 2 ^ 36"
  shows "x = ((x div 2 ^ 27 mod 512 * 512 + x div 2 ^ 18 mod 512) * 512 + x div 2 ^ 9 mod 512) * 512 + x mod 512"
proof -
  have q: "x div 2 ^ 18 = x div 2 ^ 9 div 512" "x div 2 ^ 27 = x div 2 ^ 18 div 512"
    using div_mult2_eq [of x 512 512] div_mult2_eq [of x "2 ^ 18" 512] by simp_all
  have "x div 2 ^ 27 < 512" using assms by simp
  then have 3: "x div 2 ^ 27 mod 512 = x div 2 ^ 18 div 512" unfolding q(2) by simp
  have 2: "x div 2 ^ 18 div 512 * 512 + x div 2 ^ 18 mod 512 = x div 2 ^ 18" by (rule div_mult_mod_eq)
  have 1: "x div 2 ^ 18 * 512 + x div 2 ^ 9 mod 512 = x div 2 ^ 9" unfolding q(1) by (rule div_mult_mod_eq)
  have 0: "x div 2 ^ 9 * 512 + x mod 512 = x" by simp
  show ?thesis unfolding 3 2 1 0 ..
qed

lemma va_path_page:
  assumes "unat a div 4096 = unat b div 4096"
  shows "va_path a = va_path b"
proof -
  have d: "unat x div 4096 div n = unat x div (4096 * n)" for x :: u64 and n by (simp add: div_mult2_eq)
  have "unat a div (4096 * n) = unat b div (4096 * n)" for n using assms d by metis
  from this [of 1] this [of "2 ^ 9"] this [of "2 ^ 18"] this [of "2 ^ 27"] show ?thesis
    by (simp add: va_path_def addr_pml4_def addr_pdp_def addr_pd_def addr_pt_def word_unat_eq_iff unat_get_field)
qed

lemma va_path_frame:
  assumes "va_path a = va_path b" "unat a < 2 ^ 48" "unat b < 2 ^ 48"
  shows "unat a div 4096 = unat b div 4096"
proof -
  have f: "unat (addr_pml4 x) = unat x div 4096 div 2 ^ 27 mod 512" "unat (addr_pdp x) = unat x div 4096 div 2 ^ 18 mod 512"
    "unat (addr_pd x) = unat x div 4096 div 2 ^ 9 mod 512" "unat (addr_pt x) = unat x div 4096 mod 512" for x :: u64
    by (simp_all add: addr_pml4_def addr_pdp_def addr_pd_def addr_pt_def unat_get_field div_mult2_eq [symmetric])
  have "unat a div 4096 < 2 ^ 36" "unat b div 4096 < 2 ^ 36" using assms(2,3) by simp_all
  note d = div_digits [OF this(1), folded f] div_digits [OF this(2), folded f]
  show ?thesis using assms(1) by (subst d(1), subst d(2)) (simp add: va_path_def)
qed

lemma low_pml4: "unat a < 2 ^ 47 \<Longrightarrow> addr_pml4 a \<noteq> 511"
proof
  assume a: "unat a < 2 ^ 47" "addr_pml4 a = 511"
  have "unat a div 2 ^ 39 < 256" using a(1) by simp
  then have "unat a div 2 ^ 39 mod 512 < 256" by simp
  moreover have "unat (addr_pml4 a) = unat a div 2 ^ 39 mod 512" by (simp add: addr_pml4_def unat_get_field)
  ultimately show False using a(2) by simp
qed

lemma page_address:
  fixes base :: u64
  assumes "unat base + n * 4096 \<le> 2 ^ 47" "k < n"
  shows "unat (base + of_nat k * 0x1000) = unat base + k * 4096"
proof -
  have k: "k * 4096 < 2 ^ 47" using assms by simp
  then have "unat (of_nat k * 0x1000 :: u64) = k * 4096" by (simp add: unat_word_ariths unat_of_nat)
  then show ?thesis using assms by (subst unat_add_small) simp_all
qed

lemma pages_distinct:
  fixes base :: u64
  assumes "unat base + n * 4096 \<le> 2 ^ 47"
  shows "inj_on (\<lambda>k. va_path (base + of_nat k * 0x1000)) {0..<n}"
    "\<forall>k \<in> {0..<n}. addr_pml4 (base + of_nat k * 0x1000) \<noteq> 511"
proof -
  have lt: "unat (base + of_nat k * 0x1000) < 2 ^ 47" if "k < n" for k
    using page_address [OF assms that] assms that by simp
  show "\<forall>k \<in> {0..<n}. addr_pml4 (base + of_nat k * 0x1000) \<noteq> 511" using low_pml4 [OF lt] by simp
  show "inj_on (\<lambda>k. va_path (base + of_nat k * 0x1000)) {0..<n}"
  proof (rule inj_onI)
    fix k l assume k: "k \<in> {0..<n}" and l: "l \<in> {0..<n}" and eq: "va_path (base + of_nat k * 0x1000) = va_path (base + of_nat l * 0x1000)"
    have "unat (base + of_nat k * 0x1000) div 4096 = unat (base + of_nat l * 0x1000) div 4096"
      by (rule va_path_frame [OF eq]) (use lt k l in fastforce)+
    then have "(unat base + k * 4096) div 4096 = (unat base + l * 4096) div 4096"
      using page_address [OF assms] k l by simp
    then show "k = l" by simp
  qed
qed

text \<open>A state that runs on its own tables.\<close>

lemma translate_table: "root s = entry_frame (cr3 s) \<Longrightarrow> translate s va = table s (va_path va)"
  by (simp add: translate_def table_def)

text \<open>\<open>_kernel_next_block\<close> is not looked at by the allocator of blocks.\<close>

lemma first_free_next: "mmap_first_free (m\<lparr>kernel_next_block := k\<rparr>) = mmap_first_free m"
  by (auto simp: word_unat_eq_iff mmap_first_free_eq)

lemma alloc_block_next:
  "mem_alloc_block (m\<lparr>kernel_next_block := k\<rparr>) =
     (fst (mem_alloc_block m), (snd (mem_alloc_block m))\<lparr>kernel_next_block := k\<rparr>)"
  by (simp add: mem_alloc_block_def mem_free_block_count_def first_free_next mmap_set_def Let_def)

lemma can_alloc_next: "can_alloc n (m\<lparr>kernel_next_block := k\<rparr>) = can_alloc n m"
  by (induction n arbitrary: m) (simp_all add: can_alloc_Suc alloc_block_next)

lemma next_block_vm:
  fixes s :: vm and k :: u64
  defines "s' \<equiv> s\<lparr>mm := (mm s)\<lparr>kernel_next_block := k\<rparr>\<rparr>"
  shows "free_blocks (mm s') = free_blocks (mm s)" "used_set (mm s') = used_set (mm s)" "table s' = table s" "root s' = root s"
    "no_table s' F = no_table s F" "free_zeroed s' = free_zeroed s" "can_alloc n (mm s') = can_alloc n (mm s)"
    "vm_inv s \<Longrightarrow> vm_inv s'" "mem s' = mem s" "cr3 s' = cr3 s"
proof -
  show f: "free_blocks (mm s') = free_blocks (mm s)" "used_set (mm s') = used_set (mm s)" "mem s' = mem s" "cr3 s' = cr3 s"
    by (simp_all add: s'_def)
  show t: "root s' = root s" "table s' = table s"
    by (simp_all add: root_def table_def fun_eq_iff f)
  show "no_table s' F = no_table s F" "free_zeroed s' = free_zeroed s" by (simp_all add: no_table_def free_zeroed_def t f)
  show "can_alloc n (mm s') = can_alloc n (mm s)" by (simp add: s'_def can_alloc_next)
  have "mm_inv (mm s') = mm_inv (mm s)" "mem_max_blocks (mm s') = mem_max_blocks (mm s)"
    by (simp_all add: s'_def mm_inv_def)
  then show "vm_inv s \<Longrightarrow> vm_inv s'" unfolding vm_inv_def t f by simp
qed

text \<open>\<open>n\<close> pages from \<open>base\<close> on are mapped to frames of their own that were free; every other page is as before.\<close>

definition pages_added :: "vm \<Rightarrow> u64 \<Rightarrow> nat \<Rightarrow> (nat \<Rightarrow> u64) \<Rightarrow> vm \<Rightarrow> bool" where
  "pages_added s base n F s' \<longleftrightarrow> inj_on F {..<n} \<and>
     (\<forall>k < n. translate s' (base + of_nat k * 0x1000) = Some (F k) \<and>
       unat (F k) \<in> free_blocks (mm s) - free_blocks (mm s') \<and> no_table s' (F k)) \<and>
     changes_below s ((\<lambda>k. base + of_nat k * 0x1000) ` {..<n}) s' \<and>
     (\<forall>va. addr_pml4 va \<noteq> 511 \<longrightarrow> (\<forall>k < n. va_path va \<noteq> va_path (base + of_nat k * 0x1000)) \<longrightarrow>
       translate s' va = translate s va)"

lemma map_pages_left:
  assumes inv: "vm_inv s" and z: "free_zeroed s" and r: "root s = entry_frame (cr3 s)" and u: "user = 0 \<or> user = 1"
    and n: "unat base + unat sz * 4096 \<le> 2 ^ 47" and free: "can_alloc (4 * unat sz + left) (mm s)"
  shows "\<exists>s' F. map_loop (\<lambda>i. base + i * 0x1000) user sz 0 s = Some (True, s') \<and> grows s s' \<and>
    pages_added s base (unat sz) F s' \<and> can_alloc left (mm s')"
proof -
  have "can_alloc (4 * (unat sz - unat 0) + left) (mm s)" using free by simp
  from map_loop_spec [OF inv z _ u this, of "\<lambda>i. base + i * 0x1000"] pages_distinct [OF n]
  obtain s' F where s': "map_loop (\<lambda>i. base + i * 0x1000) user sz 0 s = Some (True, s')"
    "maps_fresh s (\<lambda>i. base + i * 0x1000) {0..<unat sz} F s'" "can_alloc left (mm s')" by auto
  have "root s' = entry_frame (cr3 s')" using s'(2) r by (simp add: maps_fresh_def grows_def)
  note tr = translate_table [OF r] translate_table [OF this]
  have "inj_on F {..<unat sz}" using s'(2) by (simp add: maps_fresh_def atLeast0LessThan)
  moreover have "translate s' va = translate s va"
    if "addr_pml4 va \<noteq> 511" "\<forall>k < unat sz. va_path va \<noteq> va_path (base + of_nat k * 0x1000)" for va
  proof -
    have "va_path va \<notin> (\<lambda>k. va_path (base + of_nat k * 0x1000)) ` {0..<unat sz}" using that(2) by auto
    then show ?thesis
      using s'(2) changes_below_page [of s "(\<lambda>k. base + of_nat k * 0x1000) ` {0..<unat sz}" s', OF _ valid_va [OF that(1)] length_va_path]
      unfolding tr maps_fresh_def by auto
  qed
  moreover have "(\<lambda>k. base + of_nat k * 0x1000) ` {0..<unat sz} = (\<lambda>k. base + of_nat k * 0x1000) ` {..<unat sz}"
    by (simp add: atLeast0LessThan)
  ultimately have "pages_added s base (unat sz) F s'"
    using s'(2) unfolding maps_fresh_def pages_added_def by (simp add: tr)
  then show ?thesis using s' unfolding maps_fresh_def by blast
qed

lemma map_pages:
  assumes inv: "vm_inv s" and "free_zeroed s" and "root s = entry_frame (cr3 s)" and "user = 0 \<or> user = 1"
    and "unat base + unat sz * 4096 \<le> 2 ^ 47"
    and free: "0 \<notin> free_blocks (mm s)" "4 * unat sz \<le> card (free_blocks (mm s) \<inter> {..<searched (mm s)})"
  shows "\<exists>s' F. map_loop (\<lambda>i. base + i * 0x1000) user sz 0 s = Some (True, s') \<and> grows s s' \<and> pages_added s base (unat sz) F s'"
  using map_pages_left [OF assms(1-5), of 0] can_alloc_enough [OF vm_invD(1,2) [OF inv] free] by auto

lemma alloc_page_left:
  assumes "vm_inv s" "free_zeroed s" "root s = entry_frame (cr3 s)" "n = (if sz = 0 then 1 else unat sz)"
    "unat vaddr + n * 4096 \<le> 2 ^ 47" "can_alloc (4 * n + left) (mm s)"
  shows "\<exists>s' F. alloc_page vaddr sz s = Some (vaddr, s') \<and> grows s s' \<and> pages_added s vaddr n F s' \<and> can_alloc left (mm s')"
proof -
  let ?sz = "if sz = 0 then 1 else sz"
  have n: "unat ?sz = n" using assms(4) by simp
  show ?thesis
  proof -
    obtain s' F where "map_loop (\<lambda>i. vaddr + i * 0x1000) 1 ?sz 0 s = Some (True, s')" "grows s s'" "pages_added s vaddr n F s'"
      "can_alloc left (mm s')"
      using map_pages_left [OF assms(1-3), of 1 vaddr ?sz left, unfolded n] assms(5,6) by blast
    then show ?thesis by (intro exI [of _ s'] exI [of _ F]) (simp add: alloc_page_def Let_def)
  qed
qed

text \<open>\<open>alloc_kernel_page\<close> maps the pages from \<open>_kernel_next_block\<close> on.\<close>

lemma alloc_kernel_page_left:
  assumes "vm_inv s" "free_zeroed s" "root s = entry_frame (cr3 s)"
    "unat (kernel_next_block (mm s)) * 4096 + unat sz * 4096 \<le> 2 ^ 47" "can_alloc (4 * unat sz + left) (mm s)"
  defines "base \<equiv> kernel_next_block (mm s) * 0x1000"
  obtains s' F where "alloc_kernel_page sz s = Some (base, s')" "kernel_next_block (mm s') = kernel_next_block (mm s) + sz"
    "vm_inv s'" "free_zeroed s'" "root s' = entry_frame (cr3 s')" "pages_added s base (unat sz) F s'" "can_alloc left (mm s')"
    "video_memory s' = video_memory s" "mem_max_blocks (mm s') = mem_max_blocks (mm s)" "cr3 s' = cr3 s"
proof -
  have b: "unat base = unat (kernel_next_block (mm s)) * 4096"
    using assms(4) by (simp add: base_def unat_word_ariths)
  have va: "(\<lambda>i. (kernel_next_block (mm s) + 1 * i) * 0x1000) = (\<lambda>i. base + i * 0x1000)"
    by (simp add: base_def algebra_simps)
  obtain t F where t: "map_loop (\<lambda>i. base + i * 0x1000) 0 sz 0 s = Some (True, t)" "grows s t" "pages_added s base (unat sz) F t"
    "can_alloc left (mm t)"
    using map_pages_left [OF assms(1-3), of 0 base sz left] assms(4,5) b by auto
  let ?s = "t\<lparr>mm := (mm t)\<lparr>kernel_next_block := kernel_next_block (mm s) + sz\<rparr>\<rparr>"
  have k: "kernel_next_block (mm t) = kernel_next_block (mm s)" using t(2) by (simp add: grows_def)
  have run: "alloc_kernel_page sz s = Some (base, ?s)"
    unfolding alloc_kernel_page_def va t(1) using k by (simp add: base_def Let_def)
  have g: "vm_inv t" "free_zeroed t" "cr3 t = cr3 s" "root t = root s" "video_memory t = video_memory s"
    "mem_max_blocks (mm t) = mem_max_blocks (mm s)"
    using t(2) by (simp_all add: grows_def)
  note nb = next_block_vm [where s = t and k = "kernel_next_block (mm s) + sz"]
  have tr: "translate ?s = translate t" by (simp add: fun_eq_iff translate_def)
  have "pages_added s base (unat sz) F ?s" using t(3) unfolding pages_added_def changes_below_def tr nb(1,3,5) .
  then show thesis using run that [of ?s F] nb(4,6,7,8,10) g t(4) assms(3) by simp
qed

section \<open>Properties\<close>

text \<open>128 blocks, the upper half free; block 1 is the PML4, with only the entry for itself.\<close>

definition sample_vm :: vm where
  "sample_vm = \<lparr>mm = sample_mm,
     mem = (\<lambda>f i. if f = 1 \<and> i = 511 then set_entry_frame 1 (set_entry_present 1 0) else 0),
     cr3 = 0x1000, video_memory = 0xB8000\<rparr>"

lemma sample_vm_entry [simp]:
  "entry_present (mem sample_vm f i) \<noteq> 0 \<longleftrightarrow> f = 1 \<and> i = 511" "entry_frame (mem sample_vm 1 511) = 1"
  "entry_frame (cr3 sample_vm) = 1" "mm sample_vm = sample_mm"
proof -
  show "entry_present (mem sample_vm f i) \<noteq> 0 \<longleftrightarrow> f = 1 \<and> i = 511" "entry_frame (mem sample_vm 1 511) = 1"
    "mm sample_vm = sample_mm" by (simp_all add: sample_vm_def)
  show "entry_frame (cr3 sample_vm) = 1"
    by (simp add: sample_vm_def entry_frame_def get_field_def drop_bit_eq_div)
qed

lemma sample_vm_root [simp]: "root sample_vm = 1"
  by (simp add: root_def)

lemma sample_vm_table: "valid_path p \<Longrightarrow> table sample_vm p = Some f \<longleftrightarrow> p = [] \<and> f = 1"
  by (cases p) (auto simp: table_def valid_path_Cons)

lemma sample_vm_inv: "vm_inv sample_vm" "free_zeroed sample_vm"
proof -
  have "unat (mem_max_blocks sample_mm) \<le> 2 ^ 40" by (simp add: sample_mm_def)
  then show "vm_inv sample_vm"
    using sample_mm_inv sample_mm_sets sample_vm_table unfolding vm_inv_def by auto
  show "free_zeroed sample_vm"
    unfolding free_zeroed_def using sample_mm_sets by (auto simp: sample_vm_def)
qed

lemma sample_vm_free:
  "0 \<notin> free_blocks (mm sample_vm)" "card (free_blocks (mm sample_vm) \<inter> {..<searched (mm sample_vm)}) = 64"
proof -
  have "searched sample_mm = 128" by (simp add: searched_def sample_mm_def)
  then have "free_blocks sample_mm \<inter> {..<searched sample_mm} = {64..<128}" by (auto simp: sample_mm_sets)
  then show "0 \<notin> free_blocks (mm sample_vm)" "card (free_blocks (mm sample_vm) \<inter> {..<searched (mm sample_vm)}) = 64"
    by (simp_all add: sample_mm_sets)
qed

text \<open>
  C9: \<open>alloc_page\<close> maps as many consecutive pages as asked for (one for 0), each to a frame of its
  own that was free; no other page changes, the tables stay sound. It needs four free blocks a page in
  the worst case, and that free blocks hold zeros.
\<close>

theorem alloc_page_correct:
  assumes "vm_inv s" and "free_zeroed s" and "root s = entry_frame (cr3 s)"
    and "n = (if sz = 0 then 1 else unat sz)" and "unat vaddr + n * 4096 \<le> 2 ^ 47"
    and "0 \<notin> free_blocks (mm s)" and "4 * n \<le> card (free_blocks (mm s) \<inter> {..<searched (mm s)})"
  shows "\<exists>s' F. alloc_page vaddr sz s = Some (vaddr, s') \<and> vm_inv s' \<and> free_zeroed s' \<and> inj_on F {..<n} \<and>
    (\<forall>k < n. translate s' (vaddr + of_nat k * 0x1000) = Some (F k) \<and>
       unat (F k) \<in> free_blocks (mm s) - free_blocks (mm s')) \<and>
    (\<forall>va. addr_pml4 va \<noteq> 511 \<longrightarrow> (\<forall>k < n. va_path va \<noteq> va_path (vaddr + of_nat k * 0x1000)) \<longrightarrow>
       translate s' va = translate s va)"
proof -
  have "can_alloc (4 * n + 0) (mm s)" using can_alloc_enough [OF vm_invD(1,2) [OF assms(1)] assms(6,7)] by simp
  from alloc_page_left [OF assms(1-5) this] show ?thesis unfolding pages_added_def grows_def by blast
qed

theorem alloc_page_correct_witness:
  "\<exists>s' F. alloc_page 0x400000 3 sample_vm = Some (0x400000, s') \<and> vm_inv s' \<and> inj_on F {..<3 :: nat} \<and>
     translate s' 0x401000 = Some (F 1)"
proof -
  obtain s' F where s': "alloc_page 0x400000 3 sample_vm = Some (0x400000, s')" "vm_inv s'" "inj_on F {..<3 :: nat}"
    "\<forall>k < 3. translate s' (0x400000 + of_nat k * 0x1000) = Some (F k)"
    using alloc_page_correct [OF sample_vm_inv, where sz = 3 and vaddr = "0x400000" and n = 3] sample_vm_free by auto
  moreover have "translate s' 0x401000 = Some (F 1)" using s'(4) [rule_format, of 1] by simp
  ultimately show ?thesis by blast
qed

text \<open>
  A new table is not cleared. When \<open>create_page_for_current\<close> creates the page table for an
  address in a block that holds a word with the lowest bit set, the page of that entry becomes mapped,
  to the frame the old contents say.
\<close>

lemma create_page_dirty_table:
  assumes "vm_inv s" and "root s = entry_frame (cr3 s)" and "addr_pml4 a \<noteq> 511" and "user = 0 \<or> user = 1"
    and "table s [addr_pml4 a, addr_pdp a] = Some f" and "entry_present (mem s f (addr_pd a)) = 0"
    and "mem_alloc_block (mm s) = (b, m')" and "b \<noteq> 0" and "entry_present (mem s (b div 0x1000) (addr_pt va)) \<noteq> 0"
    and "butlast (va_path va) = butlast (va_path a)"
  shows "\<exists>page s'. create_page_for_current a user s = Some (page, s') \<and> translate s va = None \<and>
    translate s' va = Some (entry_frame (mem s (b div 0x1000) (addr_pt va)))"
proof -
  note inv = assms(1) and b = addr_bounds [of a] and tr = translate_entries [OF assms(1) addr_bounds(1-4) [of a]]
  let ?p = "[addr_pml4 a, addr_pdp a]" and ?h = "b div 0x1000"
  note al = alloc_frame [OF vm_invD(1,2) [OF inv] assms(7,8)]
  have v: "valid_path (?p @ [addr_pd a])" "length ?p \<le> 3" using assms(3) b by (simp_all add: valid_path_Cons)
  have tab: "table s [] = Some (root s)" "entry_present (mem s (root s) (addr_pml4 a)) \<noteq> 0"
    "\<exists>g. table s [addr_pml4 a] = Some g \<and> entry_present (mem s g (addr_pdp a)) \<noteq> 0"
    using assms(5) by (auto simp: table_def split: if_splits)
  then have up: "ensure_entry (get_pml4_entry (addr_pml4 a)) user s = Some s"
    "ensure_entry (get_pdp_entry (addr_pml4 a) (addr_pdp a)) user s = Some s"
    using tr(5-8) by (auto simp: ensure_entry_def load_entry_def)
  let ?g = "set_entry_user user \<circ> set_entry_rw 1 \<circ> set_entry_present 1 \<circ> set_entry_frame ?h"
  let ?s = "(put_entry f (addr_pd a) ?g s)\<lparr>mm := m'\<rparr>"
  have "translate (s\<lparr>mm := m'\<rparr>) x = translate s x" for x by (simp add: translate_def)
  then have "ensure_entry (get_pd_entry (addr_pml4 a) (addr_pdp a) (addr_pd a)) user s = Some ?s"
    using tr(3,4) assms(5-7) by (simp add: ensure_entry_def load_entry_def upd_entry_def put_entry_def)
  then have run: "create_page_for_current a user s = Some (current_pt + 8 * addr_frame a, ?s)"
    using up by (simp add: create_page_for_current_def)
  have path: "va_path va = (?p @ [addr_pd a]) @ [addr_pt va]"
    using assms(10) by (simp add: va_path_def)
  have none: "table s (?p @ [addr_pd a]) = None" using assms(5,6) by (simp only: table_def walk_snoc) simp
  have "unat ?h \<noteq> unat f"
    using al(1) vm_invD(6) [OF inv _ _ assms(5)] v phys.blocks_disjoint [OF vm_invD(1) [OF inv]]
    by (auto simp: valid_path_Cons)
  then have "mem ?s ?h = mem s ?h" by (auto simp: put_entry_def)
  moreover have root: "root ?s = root s" using put_root(1) [OF inv assms(5) v, of ?g] by (simp add: root_def)
  have "table ?s (?p @ [addr_pd a]) = Some ?h"
    using table_put_at [OF inv assms(5) v, of ?g] al(2) root put_root(1) [OF inv assms(5) v, of ?g]
    by (simp add: table_def take_bit_Suc)
  ultimately have "table ?s (va_path va) = Some (entry_frame (mem s ?h (addr_pt va)))"
    unfolding path using assms(9) by (simp only: table_def walk_snoc) simp
  moreover have "table s (va_path va) = None" unfolding path using none by (simp only: table_def walk_append) simp
  moreover have "root ?s = entry_frame (cr3 ?s)" using root assms(2) by simp
  ultimately show ?thesis using run translate_table [OF assms(2)] translate_table [of ?s va] by simp
qed

text \<open>A PML4, a page directory pointer table and a page directory, and old contents in the free blocks.\<close>

definition dirty_vm :: vm where
  "dirty_vm = \<lparr>mm = sample_mm,
     mem = (\<lambda>f i. if f = 1 \<and> i = 511 then 0x1001 else if f = 1 \<and> i = 0 then 0x2001
       else if f = 2 \<and> i = 0 then 0x3001 else if 64 \<le> f \<and> i = 5 then 0x20001 else 0),
     cr3 = 0x1000, video_memory = 0xB8000\<rparr>"

lemma dirty_vm_entry [simp]:
  "entry_present (mem dirty_vm f i) \<noteq> 0 \<longleftrightarrow> f = 1 \<and> i = 511 \<or> f = 1 \<and> i = 0 \<or> f = 2 \<and> i = 0 \<or> 64 \<le> f \<and> i = 5"
  "entry_frame (mem dirty_vm 1 511) = 1" "entry_frame (mem dirty_vm 1 0) = 2" "entry_frame (mem dirty_vm 2 0) = 3"
  "64 \<le> f \<Longrightarrow> entry_frame (mem dirty_vm f 5) = 0x20" "entry_frame (cr3 dirty_vm) = 1" "mm dirty_vm = sample_mm"
  by (simp_all add: dirty_vm_def entry_present_def entry_frame_def get_field_def drop_bit_eq_div take_bit_Suc)

lemma small_words [simp]: "\<not> 64 \<le> (1 :: u64)" "\<not> 64 \<le> (2 :: u64)" "\<not> 64 \<le> (3 :: u64)"
  by (simp_all add: word_le_nat_alt)

lemma dirty_vm_root [simp]: "root dirty_vm = 1"
  by (simp add: root_def)

lemma dirty_vm_table:
  "valid_path p \<Longrightarrow> length p \<le> 3 \<Longrightarrow>
     table dirty_vm p = Some f \<longleftrightarrow> p = [] \<and> f = 1 \<or> p = [0] \<and> f = 2 \<or> p = [0, 0] \<and> f = 3"
  by (cases p rule: remdups_adj.cases; cases "tl (tl p)")
    (auto simp: table_def valid_path_Cons split: if_splits)

lemma dirty_vm_inv: "vm_inv dirty_vm"
proof -
  have "unat (mem_max_blocks sample_mm) \<le> 2 ^ 40" by (simp add: sample_mm_def)
  then show ?thesis
    using sample_mm_inv sample_mm_sets dirty_vm_table unfolding vm_inv_def by auto
qed

lemma dirty_vm_page:
  "\<exists>page s'. create_page_for_current 0x1000 0 dirty_vm = Some (page, s') \<and> translate dirty_vm 0x5000 = None \<and>
     translate s' 0x5000 = Some 0x20"
proof -
  obtain b m' where b: "mem_alloc_block (mm dirty_vm) = (b, m')" "b \<noteq> 0" using sample_mm_alloc_block by auto
  have "unat (b div 0x1000) \<in> free_blocks (mm dirty_vm)"
    by (rule alloc_frame(1) [OF _ _ b]) (simp_all add: sample_mm_inv, simp add: sample_mm_def)
  then have h: "64 \<le> b div 0x1000" by (simp add: sample_mm_sets word_le_nat_alt)
  have f: "addr_pml4 0x1000 = 0" "addr_pdp 0x1000 = 0" "addr_pd 0x1000 = 0" "addr_pt 0x5000 = 5"
    "butlast (va_path 0x5000) = butlast (va_path 0x1000)"
    by (simp_all add: addr_pml4_def addr_pdp_def addr_pd_def addr_pt_def va_path_def get_field_def drop_bit_eq_div take_bit_Suc)
  have t: "table dirty_vm [0, 0] = Some 3" by (simp add: dirty_vm_table valid_path_def)
  have "entry_present (mem dirty_vm 3 0) = 0" by (rule ccontr) simp
  with create_page_dirty_table [OF dirty_vm_inv _ _ _ _ _ b, of "0x1000" 0 3 "0x5000"] show ?thesis
    using f t h by simp
qed

end
