(* ===== verification/PagingInit.thy ===== *)
theory PagingInit
  imports PagingCorrect
begin

text \<open>
  The rest of \<open>memman_init\<close> (lines 285-334), which builds the first page tables of the kernel and
  switches to them; the memory and paging operations of \<open>fork\<close> and \<open>exec\<close>.
\<close>

section \<open>The first page tables\<close>

text \<open>A page is created and its entry written, in the order of \<open>memman_init\<close>.\<close>

definition map_kernel_page :: "u64 \<Rightarrow> u64 \<Rightarrow> vm \<Rightarrow> vm option" where
  "map_kernel_page va frame s =
     (case create_page_for_current va 0 s of
        None \<Rightarrow> None
      | Some (page, s1) \<Rightarrow>
          upd_entry page (set_entry_rw 1 \<circ> set_entry_user 0 \<circ> set_entry_present 1 \<circ> set_entry_frame frame) s1)"

function map_kernel_loop :: "u64 \<Rightarrow> u64 \<Rightarrow> vm \<Rightarrow> vm option" where
  "map_kernel_loop blocks i s =
     (if i < blocks
      then case map_kernel_page (0xc0000000 + i * MEM_BLOCK_SIZE) ((0x200000 + i * MEM_BLOCK_SIZE) div 0x1000) s of
             None \<Rightarrow> None
           | Some s' \<Rightarrow> map_kernel_loop blocks (i + 1) s'
      else Some s)"
  by pat_completeness auto
termination
  by (relation "measure (\<lambda>(blocks, i, _). unat blocks - unat i)") (auto simp: unat_incr word_less_nat_alt)

definition set_video_memory :: "u64 \<Rightarrow> vm \<Rightarrow> vm" where
  "set_video_memory address s = s\<lparr>video_memory := address\<rparr>"

text \<open>
  The boot loader has mapped low memory at its physical addresses: the code writes the entry 511 of the
  old and of the new PML4 through these.
\<close>

definition memman_init_paging :: "u64 \<Rightarrow> vm \<Rightarrow> vm option" where
  "memman_init_paging blocks s =
     (let pml4 = get_current_pml4 s;
          (pml4_new, mm') = mem_alloc_block (mm s);
          self = set_entry_user 0 \<circ> set_entry_rw 1 \<circ> set_entry_present 1 \<circ> set_entry_frame (pml4_new div 0x1000);
          s1 = put_entry (entry_frame pml4) 511 self (s\<lparr>mm := mm'\<rparr>);
          s2 = put_entry (entry_frame pml4_new) 511 self s1
      in case map_kernel_loop blocks 0 s2 of
           None \<Rightarrow> None
         | Some s3 \<Rightarrow>
             (case map_kernel_page 0xfffff000 8 s3 of
                None \<Rightarrow> None
              | Some s4 \<Rightarrow>
                  let video = kernel_next_block (mm s4) * 0x1000
                  in (case map_kernel_page video 0xB8 (set_video_memory video s4) of
                        None \<Rightarrow> None
                      | Some s5 \<Rightarrow>
                          Some (switch_paging pml4_new
                            (s5\<lparr>mm := (mm s5)\<lparr>kernel_next_block := kernel_next_block (mm s5) + 1\<rparr>\<rparr>)))))"

declare map_kernel_loop.simps [simp del]

lemma grows_inv: "grows s s' \<Longrightarrow> vm_inv s'" "grows s s' \<Longrightarrow> free_zeroed s'"
  by (simp_all add: grows_def)

text \<open>A page for the frame an entry is given.\<close>

lemma named_page_spec:
  assumes inv: "vm_inv s" and z: "free_zeroed s" and a: "addr_pml4 a \<noteq> 511" and ok: "can_alloc (Suc (Suc (Suc n))) (mm s)"
    and g: "\<And>e. entry_present (g e) \<noteq> 0" "\<And>e. entry_frame (g e) = frame"
  shows "\<exists>page s1 s2. create_page_for_current a 0 s = Some (page, s1) \<and> upd_entry page g s1 = Some s2 \<and> grows s s2 \<and>
    table s2 (va_path a) = Some frame \<and> changes_below s {a} s2 \<and> can_alloc n (mm s2)"
proof -
  obtain s1 t where s1: "create_page_for_current a 0 s = Some (current_pt + 8 * addr_frame a, s1)" "grows s s1"
    "table s1 [addr_pml4 a, addr_pdp a, addr_pd a] = Some t"
    "\<forall>q. valid_path q \<longrightarrow> length q \<le> 4 \<longrightarrow> table s q \<noteq> None \<or> q \<notin> upper_paths a \<longrightarrow> table s1 q = table s q" "can_alloc n (mm s1)"
    using create_page_spec [OF inv z a ok, of 0] by auto
  note inv1 = grows_inv [OF s1(2)]
  let ?p = "[addr_pml4 a, addr_pdp a, addr_pd a]"
  let ?s = "put_entry t (addr_pt a) g s1"
  have v: "valid_path (?p @ [addr_pt a])" using valid_va [OF a] by (simp only: va_path_snoc)
  have "upd_entry (current_pt + 8 * addr_frame a) g s1 = Some ?s"
    using s1(3) translate_page [OF inv1(1), of a] by (simp add: upd_entry_def)
  moreover have "grows s ?s" by (rule grows_trans [OF s1(2) grows_put_page [OF inv1 s1(3) v]]) simp
  moreover have "table ?s (va_path a) = Some frame"
    unfolding va_path_snoc using table_put_at [OF inv1(1) s1(3) v, of g] g by simp
  moreover have "changes_below s {a} ?s"
  proof (rule changes_below_upper)
    fix q assume q: "valid_path q" "length q \<le> 4" "table s q \<noteq> None \<or> q \<notin> upper_paths a" "q \<noteq> va_path a"
    have "\<not> prefix (?p @ [addr_pt a]) q" using q(2,4) unfolding va_path_snoc by (auto simp: prefix_def)
    then have "table ?s q = table s1 q" using table_put_other [OF inv1(1) s1(3) v _ q(1)] q(2) by simp
    then show "table ?s q = table s q" using s1(4) q(1-3) by auto
  qed
  ultimately show ?thesis
    using s1(1,5) by (intro exI [of _ "current_pt + 8 * addr_frame a"] exI [of _ s1] exI [of _ ?s]) simp
qed

lemma map_kernel_page_spec:
  assumes "vm_inv s" "free_zeroed s" "addr_pml4 a \<noteq> 511" "can_alloc (Suc (Suc (Suc n))) (mm s)" "take_bit 40 frame = frame"
  shows "\<exists>s'. map_kernel_page a frame s = Some s' \<and> grows s s' \<and> table s' (va_path a) = Some frame \<and>
    changes_below s {a} s' \<and> can_alloc n (mm s')"
proof -
  let ?g = "set_entry_rw 1 \<circ> set_entry_user 0 \<circ> set_entry_present 1 \<circ> set_entry_frame frame"
  have "entry_present (?g e) \<noteq> 0" "entry_frame (?g e) = frame" for e using assms(5) by (simp_all add: take_bit_Suc)
  from named_page_spec [of s a n ?g, OF assms(1-4) this] show ?thesis by (auto simp: map_kernel_page_def)
qed

text \<open>Pages below \<open>2^47\<close> with different page numbers have different paths.\<close>

lemma va_path_neq: "unat a < 2 ^ 48 \<Longrightarrow> unat b < 2 ^ 48 \<Longrightarrow> unat a div 4096 \<noteq> unat b div 4096 \<Longrightarrow> va_path a \<noteq> va_path b"
  using va_path_frame by blast

lemma kernel_page:
  assumes "k < 0x3FFFF"
  shows "unat (0xc0000000 + of_nat k * MEM_BLOCK_SIZE :: u64) = 0xc0000000 + k * 4096"
    "unat (0xc0000000 + of_nat k * MEM_BLOCK_SIZE :: u64) div 4096 = 0xc0000 + k"
    "addr_pml4 (0xc0000000 + of_nat k * MEM_BLOCK_SIZE) \<noteq> 511"
    "(0x200000 + of_nat k * MEM_BLOCK_SIZE) div 0x1000 = (0x200 + of_nat k :: u64)"
    "take_bit 40 (0x200 + of_nat k :: u64) = 0x200 + of_nat k"
proof -
  have k: "unat (of_nat k * MEM_BLOCK_SIZE :: u64) = k * 4096" using assms by (simp add: unat_word_ariths unat_of_nat)
  then show va: "unat (0xc0000000 + of_nat k * MEM_BLOCK_SIZE :: u64) = 0xc0000000 + k * 4096"
    using assms by (subst unat_add_small) simp_all
  show "unat (0xc0000000 + of_nat k * MEM_BLOCK_SIZE :: u64) div 4096 = 0xc0000 + k" unfolding va by simp
  show "addr_pml4 (0xc0000000 + of_nat k * MEM_BLOCK_SIZE) \<noteq> 511"
    by (rule low_pml4) (use va assms in simp)
  have f: "unat (0x200 + of_nat k :: u64) = 0x200 + k" using assms by (subst unat_add_small) (simp_all add: unat_of_nat)
  have "unat (0x200000 + of_nat k * MEM_BLOCK_SIZE :: u64) = 0x200000 + k * 4096"
    using assms k by (subst unat_add_small) simp_all
  then have "unat ((0x200000 + of_nat k * MEM_BLOCK_SIZE) div 0x1000 :: u64) = 0x200 + k" by (simp add: unat_div)
  then show "(0x200000 + of_nat k * MEM_BLOCK_SIZE) div 0x1000 = (0x200 + of_nat k :: u64)"
    using f by (simp only: word_unat_eq_iff)
  show "take_bit 40 (0x200 + of_nat k :: u64) = 0x200 + of_nat k"
    using f assms by (simp only: word_unat_eq_iff unsigned_take_bit_eq) (simp add: take_bit_nat_eq_self)
qed

lemma map_kernel_loop_spec:
  assumes "vm_inv s" "free_zeroed s" "unat i \<le> unat blocks" "unat blocks < 0x3FFFF"
    "can_alloc (3 * (unat blocks - unat i) + n) (mm s)"
  shows "\<exists>s'. map_kernel_loop blocks i s = Some s' \<and> grows s s' \<and> can_alloc n (mm s') \<and>
    (\<forall>k \<in> {unat i..<unat blocks}. table s' (va_path (0xc0000000 + of_nat k * MEM_BLOCK_SIZE)) = Some (0x200 + of_nat k)) \<and>
    changes_below s ((\<lambda>k. 0xc0000000 + of_nat k * MEM_BLOCK_SIZE) ` {unat i..<unat blocks}) s'"
  using assms
proof (induction "unat blocks - unat i" arbitrary: i s)
  case 0
  then have "unat i = unat blocks" by simp
  then show ?case using 0 grows_refl by (subst map_kernel_loop.simps) (simp add: word_less_nat_alt changes_below_refl)
next
  case (Suc d)
  let ?K = "{unat (i + 1)..<unat blocks}"
  let ?a = "\<lambda>k. 0xc0000000 + of_nat k * MEM_BLOCK_SIZE :: u64"
  have lt: "i < blocks" using Suc.hyps(2) by (simp add: word_less_nat_alt)
  then have i1: "unat (i + 1) = Suc (unat i)" by (rule unat_incr)
  have K: "{unat i..<unat blocks} = insert (unat i) ?K" "unat i \<notin> ?K" using lt i1 by (auto simp: word_less_nat_alt)
  have e: "3 * (unat blocks - unat i) + n = Suc (Suc (Suc (3 * (unat blocks - unat (i + 1)) + n)))"
    using Suc.hyps(2) i1 by simp
  then have ok: "can_alloc (Suc (Suc (Suc (3 * (unat blocks - unat (i + 1)) + n)))) (mm s)" using Suc.prems(5) by (simp only: e)
  have ib: "unat i < 0x3FFFF" using lt Suc.prems(4) by (simp add: word_less_nat_alt)
  note kp = kernel_page [OF ib]
  obtain s1 where s1: "map_kernel_page (?a (unat i)) (0x200 + of_nat (unat i)) s = Some s1" "grows s s1"
    "table s1 (va_path (?a (unat i))) = Some (0x200 + of_nat (unat i))"
    "changes_below s {?a (unat i)} s1"
    "can_alloc (3 * (unat blocks - unat (i + 1)) + n) (mm s1)"
    using map_kernel_page_spec [OF Suc.prems(1,2) kp(3) ok kp(5)] by blast
  have d: "d = unat blocks - unat (i + 1)" "unat (i + 1) \<le> unat blocks" using Suc.hyps(2) i1 by simp_all
  obtain s' where s': "map_kernel_loop blocks (i + 1) s1 = Some s'" "grows s1 s'" "can_alloc n (mm s')"
    "\<forall>k \<in> ?K. table s' (va_path (?a k)) = Some (0x200 + of_nat k)"
    "changes_below s1 (?a ` ?K) s'"
    using Suc.hyps(1) [OF d(1) grows_inv [OF s1(2)] d(2) Suc.prems(4) s1(5)] by blast
  have "va_path (?a (unat i)) \<noteq> va_path (?a k)" if "k \<in> ?K" for k
    using that kernel_page(1,2) [of k] kp(1,2) i1 Suc.prems(4) by (intro va_path_neq) auto
  then have "va_path (?a (unat i)) \<noteq> va_path b" if "b \<in> ?a ` ?K" for b using that by blast
  note trans [OF changes_below_page [OF s'(5) valid_va [OF kp(3)] length_va_path this] s1(3)]
  moreover have "changes_below s (?a ` insert (unat i) ?K) s'" by (rule changes_below_trans [OF s1(4) s'(5)]) simp
  moreover have "map_kernel_loop blocks i s = Some s'"
    using lt s1(1) s'(1) kp(4) by (subst map_kernel_loop.simps) simp
  ultimately show ?case
    unfolding K(1) using s' grows_trans [OF s1(2) s'(2)] by (intro exI [of _ s']) simp
qed

lemma entry_frame_address: "entry_frame a = take_bit 40 (a div 0x1000)"
  by (simp add: entry_frame_def get_field_def drop_bit_eq_div)

text \<open>The new PML4, reached through the last entry of the old one.\<close>

lemma fresh_root:
  assumes mm: "mm_inv (mm s)" "unat (mem_max_blocks (mm s)) \<le> 2 ^ 40" and z: "free_zeroed s"
    and c: "unat (entry_frame (cr3 s)) \<notin> free_blocks (mm s)" and a: "mem_alloc_block (mm s) = (a, m')" "a \<noteq> 0"
  defines "new \<equiv> a div 0x1000"
    and "g \<equiv> set_entry_user 0 \<circ> set_entry_rw 1 \<circ> set_entry_present 1 \<circ> set_entry_frame (a div 0x1000)"
  defines "s2 \<equiv> put_entry new 511 g (put_entry (entry_frame (cr3 s)) 511 g (s\<lparr>mm := m'\<rparr>))"
  shows "vm_inv s2" "free_zeroed s2" "root s2 = new" "\<And>q. valid_path q \<Longrightarrow> q \<noteq> [] \<Longrightarrow> table s2 q = None"
proof -
  note al = alloc_frame [OF mm a, folded new_def]
  let ?c = "entry_frame (cr3 s)"
  have nc: "?c \<noteq> new" using c al(1) by auto
  have g: "entry_present (g e) \<noteq> 0" "entry_frame (g e) = new" for e
    using al(2) by (simp_all add: g_def take_bit_Suc new_def [symmetric])
  have m2: "mem s2 f i = (if (f = ?c \<or> f = new) \<and> i = 511 then g (mem s f i) else mem s f i)" for f i
    using nc by (auto simp: s2_def put_entry_mem)
  have fr: "cr3 s2 = cr3 s" "mm s2 = m'" by (simp_all add: s2_def)
  have zero: "mem s new i = 0" for i using z al(1) by (simp add: free_zeroed_def)
  show root: "root s2 = new" by (simp add: root_def fr m2 g)
  show none: "table s2 q = None" if "valid_path q" "q \<noteq> []" for q
    using that by (cases q) (auto simp: table_def root valid_path_Cons m2 zero)
  have tab: "table s2 q = Some f \<longleftrightarrow> q = [] \<and> f = new" if "valid_path q" for q f
    using none [OF that] by (cases "q = []") (auto simp: table_def root)
  show "vm_inv s2"
    unfolding vm_inv_def fr root using al(3-6) mm(2) c tab nc g by (auto simp: m2)
  show "free_zeroed s2"
    unfolding free_zeroed_def fr
  proof (intro allI impI)
    fix f i :: u64 assume f: "unat f \<in> free_blocks m'"
    then have "f \<noteq> ?c" "f \<noteq> new" using al(6) c by auto
    then show "mem s2 f i = 0" using f al(6) z by (simp add: m2 free_zeroed_def)
  qed
qed

lemma video_frame [simp]:
  "table (set_video_memory v s) = table s" "vm_inv (set_video_memory v s) = vm_inv s"
  "free_zeroed (set_video_memory v s) = free_zeroed s" "mm (set_video_memory v s) = mm s"
  "video_memory (set_video_memory v s) = v" "root (set_video_memory v s) = root s" "cr3 (set_video_memory v s) = cr3 s"
  by (simp_all add: set_video_memory_def table_def root_def vm_inv_def free_zeroed_def fun_eq_iff)

text \<open>The switch to the tables the last entry leads to, and the next kernel block.\<close>

lemma switch_to_root:
  fixes k :: u64
  assumes "vm_inv s" "entry_frame a = root s"
  defines "s' \<equiv> switch_paging a (s\<lparr>mm := (mm s)\<lparr>kernel_next_block := k\<rparr>\<rparr>)"
  shows "vm_inv s'" "root s' = entry_frame (cr3 s')" "table s' = table s" "free_zeroed s' = free_zeroed s"
proof -
  have f: "free_blocks (mm s') = free_blocks (mm s)" "used_set (mm s') = used_set (mm s)" "mem s' = mem s"
    "mem_max_blocks (mm s') = mem_max_blocks (mm s)" "entry_frame (cr3 s') = root s"
    using assms(2) by (simp_all add: s'_def switch_paging_def free_blocks_def used_set_def blk_used_def)
  have root: "root s' = root s" using vm_invD(5) [OF assms(1)] f(3,5) by (simp add: root_def)
  show tab: "table s' = table s" by (simp add: fun_eq_iff table_def root f(3))
  show "root s' = entry_frame (cr3 s')" by (simp add: root f(5))
  show "free_zeroed s' = free_zeroed s" by (simp add: free_zeroed_def f)
  have "mm_inv (mm s')" using vm_invD(1) [OF assms(1)]
    by (simp add: s'_def switch_paging_def mm_inv_def map_guard_def searched_def used_set_def blk_used_def)
  moreover have "unat (root s) \<notin> free_blocks (mm s)" "table s [] = Some (root s)"
    using vm_invD(6) [OF assms(1), of "[]" "root s"] phys.blocks_disjoint [OF vm_invD(1) [OF assms(1)]]
    by (auto simp: table_def)
  ultimately show "vm_inv s'"
    using vm_invD(2,4-6) [OF assms(1)] vm_invD(8) [OF assms(1)]
    unfolding vm_inv_def root tab f by (metis list.size(3) valid_path_Nil zero_le)
qed

lemma page_512:
  fixes a :: u64
  assumes "unat a = n * 4096" "n < 2 ^ 35"
  shows "addr_pml4 a \<noteq> 511" "unat a div 4096 = n" "unat a < 2 ^ 48"
  using assms by (simp_all add: low_pml4)

text \<open>The pages made for the kernel, one after the other.\<close>

abbreviation kernel_va :: "nat \<Rightarrow> u64" where
  "kernel_va k \<equiv> 0xc0000000 + of_nat k * 0x1000"

lemma kernel_paths_distinct:
  assumes "k \<le> n" "n < 0x3FFFF"
  shows "valid_path (va_path (kernel_va k))" "va_path (kernel_va k) \<noteq> va_path 0xfffff000"
    "k < n \<Longrightarrow> va_path (kernel_va k) \<noteq> va_path (kernel_va n)"
proof -
  have k: "k < 0x3FFFF" using assms by simp
  note K = kernel_page(1-3) [OF k] and N = kernel_page(1,2) [OF assms(2)]
  show "valid_path (va_path (kernel_va k))" using valid_va K(3) by simp
  show "va_path (kernel_va k) \<noteq> va_path 0xfffff000" by (rule va_path_neq) (use K(1,2) k in auto)
  show "k < n \<Longrightarrow> va_path (kernel_va k) \<noteq> va_path (kernel_va n)" by (rule va_path_neq) (use K(1,2) N k assms(2) in auto)
qed

lemma kernel_pages_made:
  fixes blocks :: u64 and s :: vm
  defines "n \<equiv> unat blocks" and "v \<equiv> 0xc0000000 + blocks * 0x1000"
  assumes inv: "vm_inv s" "free_zeroed s" and n: "unat blocks < 0x3FFFF" and k: "kernel_next_block (mm s) = 0xc0000 + blocks"
    and ok: "can_alloc (3 * (unat blocks + 2) + left) (mm s)"
  obtains s3 s4 s5 where "map_kernel_loop blocks 0 s = Some s3" "map_kernel_page 0xfffff000 8 s3 = Some s4"
    "kernel_next_block (mm s4) * 0x1000 = v" "map_kernel_page v 0xB8 (set_video_memory v s4) = Some s5"
    "vm_inv s5" "free_zeroed s5" "root s5 = root s" "cr3 s5 = cr3 s" "video_memory s5 = v"
    "kernel_next_block (mm s5) = 0xc0000 + blocks" "can_alloc left (mm s5)"
    "\<forall>j < n. table s5 (va_path (kernel_va j)) = Some (0x200 + of_nat j)" "table s5 (va_path 0xfffff000) = Some 8"
    "table s5 (va_path v) = Some 0xB8"
    "changes_below s (insert 0xfffff000 (kernel_va ` {..n})) s5"
proof -
  have vn: "v = kernel_va n" by (simp add: v_def n_def)
  have n': "n < 0x3FFFF" using n by (simp add: n_def)
  note paths = kernel_paths_distinct [OF _ n'] and V = kernel_page [OF n', folded vn]
  have "3 * (unat blocks + 2) + left = 3 * (unat blocks - unat (0 :: u64)) + Suc (Suc (Suc (Suc (Suc (Suc left)))))" by simp
  with ok have "can_alloc (3 * (unat blocks - unat (0 :: u64)) + Suc (Suc (Suc (Suc (Suc (Suc left)))))) (mm s)" by metis
  from map_kernel_loop_spec [OF inv _ n this]
  obtain s3 where s3: "map_kernel_loop blocks 0 s = Some s3" "grows s s3" "can_alloc (Suc (Suc (Suc (Suc (Suc (Suc left)))))) (mm s3)"
    "\<forall>k < n. table s3 (va_path (kernel_va k)) = Some (0x200 + of_nat k)"
    "changes_below s (kernel_va ` {..<n}) s3"
    by (auto simp: atLeast0LessThan n_def)
  have top: "unat (0xfffff000 :: u64) = 0xfffff * 4096" by simp
  note T = page_512(1) [OF top, simplified]
  obtain s4 where s4: "map_kernel_page 0xfffff000 8 s3 = Some s4" "grows s3 s4" "table s4 (va_path 0xfffff000) = Some 8"
    "changes_below s3 {0xfffff000} s4" "can_alloc (Suc (Suc (Suc left))) (mm s4)"
    using map_kernel_page_spec [OF grows_inv [OF s3(2)] T s3(3), of 8] by (auto simp: take_bit_eq_mod)
  have k4: "kernel_next_block (mm s4) = 0xc0000 + blocks" using s3(2) s4(2) k by (simp add: grows_def)
  have inv4: "vm_inv (set_video_memory v s4)" "free_zeroed (set_video_memory v s4)" using grows_inv [OF s4(2)] by simp_all
  obtain s5 where s5: "map_kernel_page v 0xB8 (set_video_memory v s4) = Some s5" "grows (set_video_memory v s4) s5"
    "table s5 (va_path v) = Some 0xB8" "can_alloc left (mm s5)"
    "changes_below (set_video_memory v s4) {v} s5"
    using map_kernel_page_spec [OF inv4 V(3), of left "0xB8"] s4(5) by (auto simp: take_bit_eq_mod)
  show thesis
  proof (rule that [OF s3(1) s4(1) _ s5(1)])
    show "kernel_next_block (mm s4) * 0x1000 = v" by (simp add: k4 v_def algebra_simps)
    have c5: "table s5 q = table s4 q" if "valid_path q" "length q = 4" "q \<noteq> va_path v" for q
      using changes_below_page [OF s5(5)] that by simp
    have c4: "table s4 q = table s3 q" if "valid_path q" "length q = 4" "q \<noteq> va_path 0xfffff000" for q
      using changes_below_page [OF s4(4)] that by simp
    show "\<forall>j < n. table s5 (va_path (kernel_va j)) = Some (0x200 + of_nat j)" using c5 c4 s3(4) paths by (simp add: vn)
    show "table s5 (va_path 0xfffff000) = Some 8" using c5 s4(3) paths(2) [of n] valid_va [OF T] by (simp add: vn)
    have "changes_below s4 {v} s5" using s5(5) by (simp add: changes_below_def)
    note below = changes_below_trans [OF s3(5) changes_below_trans [OF s4(4) this order_refl]]
    have "kernel_va ` {..<n} \<subseteq> kernel_va ` {..n}" "v \<in> kernel_va ` {..n}" unfolding vn by auto
    then show "changes_below s (insert 0xfffff000 (kernel_va ` {..n})) s5" by (intro below) blast
  qed (use s3(2) s4(2) s5 k4 in \<open>simp_all add: grows_def\<close>)
qed

text \<open>The pages mapped after \<open>memman_init\<close>.\<close>

definition kernel_mapped :: "u64 \<Rightarrow> vm \<Rightarrow> bool" where
  "kernel_mapped blocks s \<longleftrightarrow>
    (\<forall>k < unat blocks. translate s (0xc0000000 + of_nat k * 0x1000) = Some (0x200 + of_nat k)) \<and>
    translate s 0xfffff000 = Some 8 \<and> translate s (video_memory s) = Some 0xB8 \<and>
    unat (video_memory s) = 0xc0000000 + unat blocks * 4096 \<and>
    (\<forall>va. addr_pml4 va \<noteq> 511 \<longrightarrow> (\<forall>k \<le> unat blocks. va_path va \<noteq> va_path (0xc0000000 + of_nat k * 0x1000)) \<longrightarrow>
       va_path va \<noteq> va_path 0xfffff000 \<longrightarrow> translate s va = None) \<and>
    (\<forall>q. valid_path q \<longrightarrow> length q \<le> 4 \<longrightarrow>
       (\<forall>a \<in> insert 0xfffff000 (kernel_va ` {..unat blocks}). \<not> prefix q (va_path a)) \<longrightarrow> table s q = None)"

lemma memman_init_paging_left:
  assumes "mm_inv (mm s)" "unat (mem_max_blocks (mm s)) \<le> 2 ^ 40" "free_zeroed s" "unat (entry_frame (cr3 s)) \<notin> free_blocks (mm s)"
    and "can_alloc (Suc (3 * (unat blocks + 2) + left)) (mm s)" and "unat blocks < 0x3FFFF"
    and "kernel_next_block (mm s) = 0xc0000 + blocks"
  obtains s' where "memman_init_paging blocks s = Some s'" "vm_inv s'" "free_zeroed s'" "root s' = entry_frame (cr3 s')"
    "kernel_mapped blocks s'" "kernel_next_block (mm s') = 0xc0000 + blocks + 1" "can_alloc left (mm s')"
proof -
  obtain a m' where a: "mem_alloc_block (mm s) = (a, m')" by (cases "mem_alloc_block (mm s)")
  with assms(5) have ok: "a \<noteq> 0" "can_alloc (3 * (unat blocks + 2) + left) m'"
    by (simp_all only: can_alloc_Suc fst_conv snd_conv simp_thms)
  note al = alloc_frame [OF assms(1,2) a ok(1)]
  let ?g = "set_entry_user 0 \<circ> set_entry_rw 1 \<circ> set_entry_present 1 \<circ> set_entry_frame (a div 0x1000)"
  define s2 where "s2 = put_entry (a div 0x1000) 511 ?g (put_entry (entry_frame (cr3 s)) 511 ?g (s\<lparr>mm := m'\<rparr>))"
  note r2 = fresh_root [OF assms(1-4) a ok(1), folded s2_def]
  have ea: "entry_frame a = a div 0x1000" using al(2) by (simp add: entry_frame_address)
  have m2: "mm s2 = m'" by (simp add: s2_def)
  have k2: "kernel_next_block (mm s2) = 0xc0000 + blocks" using al(7) assms(7) m2 by simp
  define v where "v = 0xc0000000 + blocks * 0x1000"
  obtain s3 s4 s5 where run: "map_kernel_loop blocks 0 s2 = Some s3" "map_kernel_page 0xfffff000 8 s3 = Some s4"
      "kernel_next_block (mm s4) * 0x1000 = v" "map_kernel_page v 0xB8 (set_video_memory v s4) = Some s5"
    and s5: "vm_inv s5" "free_zeroed s5" "root s5 = root s2" "cr3 s5 = cr3 s2" "video_memory s5 = v"
      "kernel_next_block (mm s5) = 0xc0000 + blocks" "can_alloc left (mm s5)"
    and tab: "\<forall>j < unat blocks. table s5 (va_path (kernel_va j)) = Some (0x200 + of_nat j)"
      "table s5 (va_path 0xfffff000) = Some 8" "table s5 (va_path v) = Some 0xB8"
      "changes_below s2 (insert 0xfffff000 (kernel_va ` {..unat blocks})) s5"
    by (rule kernel_pages_made [OF r2(1,2) assms(6) k2 ok(2) [folded m2], folded v_def])
  define t where "t = s5\<lparr>mm := (mm s5)\<lparr>kernel_next_block := 0xc0000 + blocks + 1\<rparr>\<rparr>"
  note sw = switch_to_root [OF s5(1) trans [OF ea r2(3) [folded s5(3), symmetric]], of "0xc0000 + blocks + 1", folded t_def]
  have tr: "translate (switch_paging a t) va = table s5 (va_path va)" for va using translate_table [OF sw(2)] sw(3) by simp
  have "kernel_mapped blocks (switch_paging a t)"
    unfolding kernel_mapped_def tr
  proof (intro conjI allI impI)
    show "unat (video_memory (switch_paging a t)) = 0xc0000000 + unat blocks * 4096"
      using kernel_page(1) [OF assms(6)] s5(5) by (simp add: t_def switch_paging_def v_def)
    fix va assume "addr_pml4 va \<noteq> 511" "\<forall>k \<le> unat blocks. va_path va \<noteq> va_path (0xc0000000 + of_nat k * 0x1000)"
      "va_path va \<noteq> va_path 0xfffff000"
    then have "table s5 (va_path va) = table s2 (va_path va)"
      using changes_below_page [OF tab(4) valid_va [OF \<open>addr_pml4 va \<noteq> 511\<close>] length_va_path] by auto
    then show "table s5 (va_path va) = None" using r2(4) [OF valid_va] \<open>addr_pml4 va \<noteq> 511\<close> by (simp add: va_path_def)
  next
    fix q assume q: "valid_path q" "length q \<le> 4" "\<forall>a \<in> insert 0xfffff000 (kernel_va ` {..unat blocks}). \<not> prefix q (va_path a)"
    then have "q \<noteq> []" by auto
    then show "table (switch_paging a t) q = None" using tab(4) q r2(4) sw(3) by (simp add: changes_below_def)
  qed (use tab s5(5) in \<open>simp_all add: t_def switch_paging_def\<close>)
  moreover have "memman_init_paging blocks s = Some (switch_paging a t)"
    using a run s5(6) unfolding memman_init_paging_def get_current_pml4_def
    by (simp add: ea s2_def [symmetric] Let_def t_def)
  moreover have "can_alloc left (mm (switch_paging a t))"
    using s5(7) next_block_vm(7) [where s = s5 and k = "0xc0000 + blocks + 1"] by (simp add: t_def switch_paging_def)
  ultimately show thesis using that sw(1,2,4) s5(2) by (simp add: t_def switch_paging_def)
qed

text \<open>
  C18: After the paging part of \<open>memman_init\<close> the kernel runs on the new tables, which hold themselves
  in their last entry and are sound; exactly the kernel's blocks from 2 MB on are mapped at 3 GB, the
  block at \<open>0xfffff000\<close> and the video memory behind the kernel, and nothing else.
\<close>

theorem memman_init_paging_correct:
  assumes "mm_inv (mm s)" and "unat (mem_max_blocks (mm s)) \<le> 2 ^ 40" and "free_zeroed s"
    and "unat (entry_frame (cr3 s)) \<notin> free_blocks (mm s)" and "0 \<notin> free_blocks (mm s)"
    and "3 * (unat blocks + 2) + 1 \<le> card (free_blocks (mm s) \<inter> {..<searched (mm s)})"
    and "unat blocks < 0x3FFFF" and "kernel_next_block (mm s) = 0xc0000 + blocks"
  shows "\<exists>s'. memman_init_paging blocks s = Some s' \<and> vm_inv s' \<and> free_zeroed s' \<and> root s' = entry_frame (cr3 s') \<and>
    (\<forall>k < unat blocks. translate s' (0xc0000000 + of_nat k * 0x1000) = Some (0x200 + of_nat k)) \<and>
    translate s' 0xfffff000 = Some 8 \<and> translate s' (video_memory s') = Some 0xB8 \<and>
    unat (video_memory s') = 0xc0000000 + unat blocks * 4096 \<and>
    (\<forall>va. addr_pml4 va \<noteq> 511 \<longrightarrow> (\<forall>k \<le> unat blocks. va_path va \<noteq> va_path (0xc0000000 + of_nat k * 0x1000)) \<longrightarrow>
       va_path va \<noteq> va_path 0xfffff000 \<longrightarrow> translate s' va = None)"
proof -
  have "can_alloc (Suc (3 * (unat blocks + 2) + 0)) (mm s)" using can_alloc_enough [OF assms(1,2,5)] assms(6) by simp
  then show ?thesis
    by (rule memman_init_paging_left [OF assms(1-4) _ assms(7,8)]) (unfold kernel_mapped_def, blast)
qed

theorem memman_init_paging_correct_witness:
  "\<exists>s'. memman_init_paging 0 sample_vm = Some s' \<and> vm_inv s' \<and> translate s' 0xfffff000 = Some 8"
proof -
  have "kernel_next_block (mm sample_vm) = 0xc0000 + 0" by (simp add: sample_mm_def)
  moreover have "unat (mem_max_blocks (mm sample_vm)) \<le> 2 ^ 40" by (simp add: sample_mm_def)
  moreover have "unat (entry_frame (cr3 sample_vm)) \<notin> free_blocks (mm sample_vm)" by (simp add: sample_mm_sets)
  ultimately show ?thesis
    using memman_init_paging_correct [of sample_vm 0] sample_mm_inv sample_vm_inv sample_vm_free by auto
qed

end
