(* ===== verification/UserSpace.thy ===== *)
theory UserSpace
  imports PagingInit "HOL-Library.Monad_Syntax"
begin

text \<open>
  The rest of the paging operations of \<open>kernel/memman.c\<close>: \<open>clean_user_space\<close>,
  \<open>mem_copy_block\<close>, \<open>mem_clear_block\<close> and \<open>clone_pml4t\<close>. An access to an address
  that is not mapped is a page fault, here \<open>None\<close>.
\<close>

section \<open>Loops\<close>

text \<open>\<open>for (; i < n; i++)\<close> with a body that may fault.\<close>

function for_loop :: "(u64 \<Rightarrow> 's \<Rightarrow> 's option) \<Rightarrow> u64 \<Rightarrow> u64 \<Rightarrow> 's \<Rightarrow> 's option" where
  "for_loop body n i s = (if i < n then body i s \<bind> for_loop body n (i + 1) else Some s)"
  by pat_completeness auto
termination
  by (relation "measure (\<lambda>(_, n, i, _). unat n - unat i)") (auto simp: unat_incr word_less_nat_alt)

declare for_loop.simps [simp del]

section \<open>Blocks of memory\<close>

definition mem_copy_block :: "u64 \<Rightarrow> u64 \<Rightarrow> vm \<Rightarrow> vm option" where
  "mem_copy_block src dest =
     for_loop (\<lambda>i s. do {
       w \<leftarrow> load_entry (src + 8 * i) s;
       upd_entry (dest + 8 * i) (\<lambda>_. w) s
     }) 512 0"

definition mem_clear_block :: "u64 \<Rightarrow> vm \<Rightarrow> vm option" where
  "mem_clear_block address = for_loop (\<lambda>i. upd_entry (address + 8 * i) (\<lambda>_. 0)) 512 0"

section \<open>Giving up the pages of a process\<close>

text \<open>The innermost body of \<open>clean_user_space\<close>.\<close>

definition clean_page :: "u64 \<Rightarrow> u64 \<Rightarrow> u64 \<Rightarrow> vm \<Rightarrow> vm option" where
  "clean_page i z y s = do {
     page \<leftarrow> load_entry (get_page_entry 0 i z y) s;
     if entry_present page = 1 \<and> y < 510 \<and> z \<noteq> 511 \<and> i \<noteq> 2
     then upd_entry (get_page_entry 0 i z y) (\<lambda>_. 0)
            (s\<lparr>mm := mem_free_block (entry_frame page * 0x1000) (mm s)\<rparr>)
     else Some s
   }"

definition clean_table :: "u64 \<Rightarrow> u64 \<Rightarrow> vm \<Rightarrow> vm option" where
  "clean_table i z s = do {
     pd \<leftarrow> load_entry (get_pd_entry 0 i z) s;
     if entry_present pd = 1 then for_loop (clean_page i z) 512 0 s else Some s
   }"

definition clean_directory :: "u64 \<Rightarrow> vm \<Rightarrow> vm option" where
  "clean_directory i s = do {
     pdp \<leftarrow> load_entry (get_pdp_entry 0 i) s;
     if entry_present pdp = 1 then for_loop (clean_table i) 512 0 s else Some s
   }"

definition clean_user_space :: "vm \<Rightarrow> vm option" where
  "clean_user_space = for_loop clean_directory 3 0"

section \<open>Copying the tables for a child\<close>

text \<open>
  \<open>clone_pml4t\<close>, over the page tables and the state of the allocator it takes its pages from, which is an argument
  here. Theory \<open>HeapPages\<close> has the allocator of the code, \<open>kmalloc_a\<close> of the heap.
\<close>

definition on_vm :: "(vm \<Rightarrow> vm option) \<Rightarrow> 'h \<times> vm \<Rightarrow> ('h \<times> vm) option" where
  "on_vm f s = map_option (Pair (fst s)) (f (snd s))"

lemma on_vm_pair [simp]: "on_vm f (h, v) = map_option (Pair h) (f v)"
  by (simp add: on_vm_def)

definition set_table_entry :: "u64 \<Rightarrow> u64 \<Rightarrow> vm \<Rightarrow> vm option" where
  "set_table_entry entry target s = do {
     phys \<leftarrow> get_physical_address target s;
     upd_entry entry (set_entry_user 1 \<circ> set_entry_rw 1 \<circ> set_entry_present 1 \<circ> set_entry_frame (phys div 0x1000)) s
   }"

text \<open>\<open>original_page\<close>\<close>

definition page_address :: "u64 \<Rightarrow> u64 \<Rightarrow> u64 \<Rightarrow> u64" where
  "page_address i z y = set_field 12 9 y (set_field 21 9 z (set_field 30 9 i (set_field 39 9 0 0)))"

definition clone_page ::
  "('h \<times> vm \<Rightarrow> (u64 \<times> 'h \<times> vm) option) \<Rightarrow> u64 \<Rightarrow> u64 \<Rightarrow> u64 \<Rightarrow> u64 \<Rightarrow> 'h \<times> vm \<Rightarrow> ('h \<times> vm) option" where
  "clone_page kmalloc_a pt i z y s = do {
     page \<leftarrow> load_entry (get_page_entry 0 i z y) (snd s);
     if entry_present page = 1
     then do {
       (new_page, s) \<leftarrow> kmalloc_a s;
       s \<leftarrow> on_vm (mem_copy_block (page_address i z y) new_page) s;
       phys \<leftarrow> get_physical_address new_page (snd s);
       on_vm (upd_entry (pt + 8 * y)
         (set_entry_rw 1 \<circ> set_entry_present 1 \<circ> set_entry_user 1 \<circ> set_entry_frame (phys div 0x1000))) s
     }
     else Some s
   }"

definition clone_table ::
  "('h \<times> vm \<Rightarrow> (u64 \<times> 'h \<times> vm) option) \<Rightarrow> u64 \<Rightarrow> u64 \<Rightarrow> u64 \<Rightarrow> 'h \<times> vm \<Rightarrow> ('h \<times> vm) option" where
  "clone_table kmalloc_a pd i z s = do {
     e \<leftarrow> load_entry (get_pd_entry 0 i z) (snd s);
     if entry_present e = 1
     then do {
       (pt, s) \<leftarrow> kmalloc_a s;
       s \<leftarrow> on_vm (mem_clear_block pt) s;
       s \<leftarrow> on_vm (set_table_entry (pd + 8 * z) pt) s;
       for_loop (clone_page kmalloc_a pt i z) 512 0 s
     }
     else Some s
   }"

definition clone_directory ::
  "('h \<times> vm \<Rightarrow> (u64 \<times> 'h \<times> vm) option) \<Rightarrow> u64 \<Rightarrow> u64 \<Rightarrow> 'h \<times> vm \<Rightarrow> ('h \<times> vm) option" where
  "clone_directory kmalloc_a pdp i s = do {
     e \<leftarrow> load_entry (get_pdp_entry 0 i) (snd s);
     if entry_present e = 1
     then do {
       (pd, s) \<leftarrow> kmalloc_a s;
       s \<leftarrow> on_vm (mem_clear_block pd) s;
       s \<leftarrow> on_vm (set_table_entry (pdp + 8 * i) pd) s;
       for_loop (clone_table kmalloc_a pd i) 512 0 s
     }
     else Some s
   }"

definition clone_tables ::
  "('h \<times> vm \<Rightarrow> (u64 \<times> 'h \<times> vm) option) \<Rightarrow> 'h \<times> vm \<Rightarrow> (u64 \<times> 'h \<times> vm) option" where
  "clone_tables kmalloc_a s = do {
     (pml4, s) \<leftarrow> kmalloc_a s;
     (pdp, s) \<leftarrow> kmalloc_a s;
     s \<leftarrow> on_vm (mem_clear_block pml4) s;
     s \<leftarrow> on_vm (mem_clear_block pdp) s;
     s \<leftarrow> on_vm (set_table_entry pml4 pdp) s;
     s \<leftarrow> for_loop (clone_directory kmalloc_a pdp) 3 0 s;
     kernel \<leftarrow> load_entry (get_pdp_entry 0 3) (snd s);
     s \<leftarrow> on_vm (upd_entry (pdp + 8 * 3) (\<lambda>_. kernel)) s;
     phys \<leftarrow> get_physical_address pml4 (snd s);
     s \<leftarrow> on_vm (upd_entry (pml4 + 8 * 511)
       (set_entry_user 0 \<circ> set_entry_rw 1 \<circ> set_entry_present 1 \<circ> set_entry_frame (phys div 0x1000))) s;
     phys \<leftarrow> get_physical_address pml4 (snd s);
     Some (phys, s)
   }"

section \<open>Invariants of loops\<close>

lemma for_loop_inv:
  assumes step: "\<And>i s. i < n \<Longrightarrow> P (unat i) s \<Longrightarrow> \<exists>s'. body i s = Some s' \<and> P (Suc (unat i)) s'"
    and start: "P (unat i) s" "i \<le> n"
  shows "\<exists>s'. for_loop body n i s = Some s' \<and> P (unat n) s'"
  using start
proof (induction "unat n - unat i" arbitrary: i s)
  case 0
  then have "i = n" by (simp add: word_le_nat_alt word_unat_eq_iff)
  then show ?case using 0 by (subst for_loop.simps) simp
next
  case (Suc d)
  then have lt: "i < n" by (simp add: word_less_nat_alt)
  obtain s1 where s1: "body i s = Some s1" "P (Suc (unat i)) s1" using step [OF lt Suc.prems(1)] by blast
  have "\<exists>s'. for_loop body n (i + 1) s1 = Some s' \<and> P (unat n) s'"
    using Suc(2) s1(2) lt by (intro Suc.hyps(1)) (simp_all add: unat_incr incr_le)
  then show ?case using s1(1) lt by (simp add: for_loop.simps [of body n i])
qed

text \<open>A loop that adds a set for every round, the body knowing what the earlier rounds have added.\<close>

lemma for_loop_collects:
  assumes step: "\<And>i s. i < n \<Longrightarrow> P (S \<union> \<Union> (X ` {j. j < i})) s \<Longrightarrow> \<exists>s'. body i s = Some s' \<and> P (S \<union> \<Union> (X ` {j. j < i}) \<union> X i) s'"
    and start: "P S s"
  shows "\<exists>s'. for_loop body n 0 s = Some s' \<and> P (S \<union> \<Union> (X ` {i. i < n})) s'"
proof -
  have "\<exists>s'. for_loop body n 0 s = Some s' \<and> P (S \<union> \<Union> (X ` {i. unat i < unat n})) s'"
  proof (rule for_loop_inv [where P = "\<lambda>k. P (S \<union> \<Union> (X ` {i. unat i < k}))"])
    fix i s assume i: "i < n" and P: "P (S \<union> \<Union> (X ` {j. unat j < unat i})) s"
    have "{j. unat j < Suc (unat i)} = insert i {j. unat j < unat i}" by (auto simp: less_Suc_eq word_unat_eq_iff)
    then have "S \<union> \<Union> (X ` {j. unat j < unat i}) \<union> X i = S \<union> \<Union> (X ` {j. unat j < Suc (unat i)})" by auto
    then show "\<exists>s'. body i s = Some s' \<and> P (S \<union> \<Union> (X ` {j. unat j < Suc (unat i)})) s'"
      using step [OF i] P by (simp add: word_less_nat_alt)
  qed (use start in simp_all)
  then show ?thesis by (simp add: word_less_nat_alt)
qed

lemma for_loop_adds:
  assumes "\<And>i S s. i < n \<Longrightarrow> P S s \<Longrightarrow> \<exists>s'. body i s = Some s' \<and> P (S \<union> X i) s'" and "P S s"
  shows "\<exists>s'. for_loop body n 0 s = Some s' \<and> P (S \<union> \<Union> (X ` {i. i < n})) s'"
  using assms by (rule for_loop_collects)

end
