(* ===== verification/Elf.thy ===== *)
theory Elf
  imports Fat32 UserSpace
begin

text \<open>
  The loader of \<open>kernel/elf.c\<close> and \<open>exec\<close> of \<open>kernel/exec.c\<close>, over the file system, the
  heap and the page tables.
\<close>

section \<open>The file format\<close>

text \<open>Fields of \<open>Elf64_Ehdr\<close> and \<open>Elf64_Phdr\<close> (56 bytes), both packed.\<close>

definition e_type :: "memory \<Rightarrow> u64 \<Rightarrow> u16" where "e_type m h = load_u16 m (h + 16)"
definition e_machine :: "memory \<Rightarrow> u64 \<Rightarrow> u16" where "e_machine m h = load_u16 m (h + 18)"
definition e_version :: "memory \<Rightarrow> u64 \<Rightarrow> u32" where "e_version m h = load_u32 m (h + 20)"
definition e_entry :: "memory \<Rightarrow> u64 \<Rightarrow> u64" where "e_entry m h = load_u64 m (h + 24)"
definition e_phoff :: "memory \<Rightarrow> u64 \<Rightarrow> u64" where "e_phoff m h = load_u64 m (h + 32)"
definition e_phnum :: "memory \<Rightarrow> u64 \<Rightarrow> u16" where "e_phnum m h = load_u16 m (h + 56)"
definition p_type :: "memory \<Rightarrow> u64 \<Rightarrow> u32" where "p_type m p = load_u32 m p"
definition p_offset :: "memory \<Rightarrow> u64 \<Rightarrow> u64" where "p_offset m p = load_u64 m (p + 8)"
definition p_vaddr :: "memory \<Rightarrow> u64 \<Rightarrow> u64" where "p_vaddr m p = load_u64 m (p + 16)"
definition p_filesz :: "memory \<Rightarrow> u64 \<Rightarrow> u64" where "p_filesz m p = load_u64 m (p + 32)"
definition p_memsz :: "memory \<Rightarrow> u64 \<Rightarrow> u64" where "p_memsz m p = load_u64 m (p + 40)"

definition elf_check :: "memory \<Rightarrow> u64 \<Rightarrow> int" where
  "elf_check m src =
     (if m src \<noteq> 0x7F then 1
      else if m (src + 1) \<noteq> 69 then 1
      else if m (src + 2) \<noteq> 76 then 1
      else if m (src + 3) \<noteq> 70 then 1
      else if e_type m src \<noteq> 2 then 1
      else if e_machine m src \<noteq> 62 then 1
      else if e_version m src = 0 then 1
      else 0)"

section \<open>Loading\<close>

text \<open>
  The bytes are those at virtual addresses (the memory of the heap); the page tables decide which of
  them are mapped.
\<close>

record process =
  fs :: fat32
  pg :: vm

abbreviation pmemory :: "process \<Rightarrow> memory" where "pmemory s \<equiv> fmem (fs s)"

definition lift_fs :: "(fat32 \<Rightarrow> ('a \<times> fat32) option) \<Rightarrow> process \<Rightarrow> ('a \<times> process) option" where
  "lift_fs f s = map_option (\<lambda>(r, t). (r, s\<lparr>fs := t\<rparr>)) (f (fs s))"

text \<open>
  Access to a byte of a page that is not mapped ends in \<open>page_fault_handler\<close>, which stops the machine: a
  \<open>memcpy\<close> that comes to such a byte does not return.
\<close>

definition bytes_mapped :: "vm \<Rightarrow> u64 \<Rightarrow> nat \<Rightarrow> bool" where
  "bytes_mapped v a n \<longleftrightarrow> (\<forall>i < n. translate v (a + of_nat i) \<noteq> None)"

definition checked_memcpy :: "vm \<Rightarrow> u64 \<Rightarrow> u64 \<Rightarrow> nat \<Rightarrow> memory \<Rightarrow> memory option" where
  "checked_memcpy v dest src n m =
     (if bytes_mapped v dest n \<and> bytes_mapped v src n then Some (memcpy dest src n m) else None)"

text \<open>One program header. \<open>False\<close> is the early return of 0.\<close>

definition load_segment :: "u64 \<Rightarrow> u64 \<Rightarrow> process \<Rightarrow> (bool \<times> process) option" where
  "load_segment buffer ph s =
     (let m = pmemory s
      in if p_type m ph = 1
         then do {
           (r, v) \<leftarrow> alloc_page (p_vaddr m ph) (p_memsz m ph div MEM_BLOCK_SIZE + 1) (pg s);
           if r = 0 then Some (False, s\<lparr>pg := v\<rparr>)
           else do {
             m' \<leftarrow> checked_memcpy v (p_vaddr m ph) (buffer + p_offset m ph) (unat (p_filesz m ph)) m;
             Some (True, s\<lparr>pg := v, fs := set_mem m' (fs s)\<rparr>)
           }
         }
         else Some (True, s))"

function load_segments :: "u64 \<Rightarrow> u64 \<Rightarrow> u64 \<Rightarrow> process \<Rightarrow> (bool \<times> process) option" where
  "load_segments buffer ph i s =
     (if i < ucast (e_phnum (pmemory s) buffer)
      then Option.bind (load_segment buffer (ph + 56 * i) s) (\<lambda>(ok, s').
             if ok then load_segments buffer ph (i + 1) s' else Some (False, s'))
      else Some (True, s))"
  by pat_completeness auto
termination
proof (relation "measure (\<lambda>(_, _, i, _). 2 ^ 16 - unat i)", goal_cases)
  case (2 buffer ph i s x ok s')
  have "unat (ucast (e_phnum (pmemory s) buffer) :: u64) < 2 ^ 16"
    using le_less_trans [OF take_bit_nat_less_eq_self unsigned_less [of "e_phnum (pmemory s) buffer", where ?'a = nat]]
    by (simp add: unsigned_ucast_eq)
  then show ?case using 2(1) by (simp add: unat_incr word_less_nat_alt)
qed simp

text \<open>
  The size of the buffer is computed in 32 bits, the number of the first cluster in an \<open>int\<close>. The
  entry point is read after the buffer has been freed.
\<close>

definition load_executable :: "disk \<Rightarrow> u64 \<Rightarrow> process \<Rightarrow> (u64 \<times> process) option" where
  "load_executable disk filename s = do {
     (file, s) \<leftarrow> lift_fs (find_file disk filename) s;
     if file = 0 then Some (0, s)
     else do {
       (buffer, s) \<leftarrow> lift_fs (fs_kmalloc
         (ucast (file_size (pmemory s) file + ucast (cluster_bytes (fs s))))) s;
       t \<leftarrow> read_file disk
         (ucast (cluster_high (pmemory s) file) * 0x100 + ucast (cluster_low (pmemory s) file)) buffer (fs s);
       let s = s\<lparr>fs := t\<rparr>;
       if elf_check (pmemory s) buffer \<noteq> 0 then Some (0, s)
       else do {
         (ok, s) \<leftarrow> load_segments buffer (buffer + e_phoff (pmemory s) buffer) 0 s;
         if \<not> ok then Some (0, s)
         else do {
           let s = s\<lparr>fs := fs_kfree buffer (fs s)\<rparr>;
           Some (e_entry (pmemory s) buffer, s)
         }
       }
     }
   }"

text \<open>\<open>exec\<close> returns 0 when the file is not found; otherwise it goes to user mode at the entry.\<close>

datatype exec_result = Returns u64 | Enters u64

definition exec :: "disk \<Rightarrow> u64 \<Rightarrow> process \<Rightarrow> (exec_result \<times> process) option" where
  "exec disk filename s = do {
     (file, s) \<leftarrow> lift_fs (find_file disk filename) s;
     if file = 0 then Some (Returns 0, s)
     else do {
       v \<leftarrow> clean_user_space (pg s);
       (entry, s) \<leftarrow> load_executable disk file (s\<lparr>pg := v\<rparr>);
       Some (Enters entry, s)
     }
   }"

declare load_segments.simps [simp del]

end
