(* ===== verification/Fat32Correct.thy ===== *)
theory Fat32Correct
  imports Fat32 KHeapCorrect
begin

text \<open>
  What \<open>find_next_cluster\<close> returns, over the contract of the kernel heap (theory
  \<open>KHeapContract\<close>): the entry of the FAT only for the first 128 clusters.
\<close>

section \<open>The file allocation table\<close>

text \<open>The entry of a cluster: 128 entries of four bytes in each sector of the table.\<close>

definition fat_entry :: "disk \<Rightarrow> u64 \<Rightarrow> u64 \<Rightarrow> u32" where
  "fat_entry disk fat_lba n =
     load_u32 (\<lambda>x. disk (lba_registers (fat_lba + n div 128)) (unat x)) (4 * (n mod 128))"

lemma load_u16_bytes: "load_u16 m a = of_nat (unat (m a) + 256 * unat (m (a + 1)))"
  by (simp add: load_u16_def numeral_2_eq_2)

lemma load_le_shift: "load_le n m (a + b) = load_le n (\<lambda>x. m (a + x)) b"
  by (induction n arbitrary: b) (simp_all add: add.assoc)

lemma load_u32_sector:
  assumes "unat i < 128"
  shows "load_u32 (snd (read_sector disk lba a m)) (a + 4 * i) = load_u32 (\<lambda>x. disk (lba_registers lba) (unat x)) (4 * i)"
proof -
  have i: "unat (4 * i) = 4 * unat i" using assms by (simp add: unat_word_ariths)
  have "load_le 4 (\<lambda>x. snd (read_sector disk lba a m) (a + x)) (4 * i) =
    load_le 4 (\<lambda>x. disk (lba_registers lba) (unat x)) (4 * i)"
  proof (rule load_le_cong)
    fix x assume "in_range (4 * i) 4 x"
    then have "unat x < 512" using i assms by (subst (asm) in_range_nowrap) simp_all
    then show "snd (read_sector disk lba a m) (a + x) = disk (lba_registers lba) (unat x)"
      by (simp add: read_sector_def read_sectors_def)
  qed simp
  then show ?thesis by (simp only: load_u32_def load_le_shift)
qed

section \<open>The volume id in the heap\<close>

text \<open>The volume id lies in a block in use of the heap, and sectors have 512 bytes.\<close>

definition mounted :: "fat32 \<Rightarrow> (nat \<times> nat) set \<Rightarrow> bool" where
  "mounted s U \<longleftrightarrow> kheap_rep (fheap s) U \<and> 16 \<le> unat (partition s) \<and>
     (\<exists>k. (unat (partition s) - 16, k) \<in> U \<and> 512 + 32 \<le> k) \<and> sector_bytes s = 512"

lemma bytes_per_sector_cong:
  "(\<And>x. in_range v 512 x \<Longrightarrow> m x = m' x) \<Longrightarrow> unat v + 512 \<le> 2 ^ 64 \<Longrightarrow> bytes_per_sector m v = bytes_per_sector m' v"
  unfolding bytes_per_sector_def load_u16_def
proof (rule arg_cong [where f = of_nat], rule load_le_cong)
  fix x assume *: "\<And>x. in_range v 512 x \<Longrightarrow> m x = m' x" "unat v + 512 \<le> 2 ^ 64" "in_range (v + 11) 2 x"
  then have "unat (v + 11) = unat v + 11" by (simp add: unat_add_small)
  then have "in_range v 512 x" using *(2,3) by (simp add: in_range_nowrap)
  then show "m x = m' x" by (rule *(1))
qed simp

lemma kheap_block_bound: "kheap_rep st U \<Longrightarrow> (q, l) \<in> U \<Longrightarrow> q + l < 2 ^ 64"
proof -
  assume "kheap_rep st U" "(q, l) \<in> U"
  then obtain bs where "unat (start_address (heap st)) + span bs = unat (end_address (heap st))"
    "(q, l) \<in> set (allocs (unat (start_address (heap st))) bs)" by (auto simp: kheap_rep_def heap_inv_def)
  then have "q + l \<le> unat (end_address (heap st))" using allocs_range by fastforce
  then show "q + l < 2 ^ 64" by (rule le_less_trans) simp
qed

text \<open>\<open>kmalloc\<close> and the read into its result leave the volume id alone.\<close>

lemma sector_buffer:
  assumes "mounted s U" "kheap_fits (fheap s) 512"
  shows "\<exists>fat s'. fs_kmalloc 512 s = Some (fat, s') \<and> fat_begin_lba s' = fat_begin_lba s \<and> sector_bytes s' = 512 \<and>
    (\<forall>lba. sector_bytes (set_mem (snd (read_sector disk lba fat (fmem s'))) s') = 512)"
proof -
  let ?v = "unat (partition s)"
  obtain k where rep: "kheap_rep (fheap s) U" and v: "16 \<le> ?v" "(?v - 16, k) \<in> U" "544 \<le> k" and b: "sector_bytes s = 512"
    using assms(1) by (auto simp: mounted_def)
  obtain a st' m where a: "alloc 512 0 (fheap s) = Some (a, st')" "kheap_rep st' (insert (unat a - 16, m) U)" "16 \<le> unat a"
    "unat (512 :: u64) + 32 \<le> m" "?v - 16 + k \<le> unat a - 16 \<or> unat a - 16 + m \<le> ?v - 16"
    "same_bytes (fmem s) (hmem st') (?v - 16) (?v - 16 + k)"
    using kh.alloc_block [OF rep assms(2)] v(2) by fast
  let ?s = "s\<lparr>fheap := st'\<rparr>"
  have wrap: "unat a + 512 \<le> 2 ^ 64" "?v + 512 \<le> 2 ^ 64"
    using kheap_block_bound [OF a(2), of "unat a - 16" m] kheap_block_bound [OF rep v(2)] a(3,4) v(1,3) by simp_all
  have run: "fs_kmalloc 512 s = Some (a, ?s)" using a(1) by (simp add: fs_kmalloc_def kmalloc_def kmalloc_int_def)
  have eq: "hmem st' x = fmem s x" "snd (read_sector disk lba a (hmem st')) x = hmem st' x"
    if x: "in_range (partition s) 512 x" for x lba
  proof -
    have r: "?v \<le> unat x" "unat x < ?v + 512" using x wrap(2) by (simp_all add: in_range_nowrap)
    then have "?v - 16 \<le> unat x" "unat x < ?v - 16 + k" using v(1,3) by simp_all
    then show "hmem st' x = fmem s x" using a(6) unfolding same_bytes_def by blast
    have "\<not> in_range a 512 x" using r a(3-5) v(1,3) wrap(1) by (auto simp: in_range_nowrap)
    then show "snd (read_sector disk lba a (hmem st')) x = hmem st' x"
      by (simp add: read_sector_def read_sectors_def in_range_def)
  qed
  have "bytes_per_sector (hmem st') (partition s) = bytes_per_sector (fmem s) (partition s)"
    by (rule bytes_per_sector_cong [OF eq(1) wrap(2)])
  moreover have "bytes_per_sector (snd (read_sector disk lba a (hmem st'))) (partition s) = bytes_per_sector (hmem st') (partition s)" for lba
    by (rule bytes_per_sector_cong [OF eq(2) wrap(2)])
  ultimately show ?thesis using run b by (intro exI [of _ a] exI [of _ ?s]) (simp add: sector_bytes_def set_mem_def)
qed

text \<open>The sector and the index of the code, as an entry number.\<close>

lemma entry_number:
  fixes c :: u64
  assumes "c mod 512 < 128"
  defines "n \<equiv> c div 2048 * 128 + c mod 512"
  shows "n div 128 = c div 512 div 4" "n mod 128 = c mod 512" "n = c \<longleftrightarrow> c < 128"
proof -
  let ?c = "unat c"
  have m: "?c mod 512 < 128" using assms(1) by (simp add: word_less_nat_alt unat_mod)
  have "?c div 2048 * 2048 \<le> ?c" "?c < 18446744073709551616" by simp_all
  then have sm: "?c div 2048 * 128 + ?c mod 512 < 18446744073709551616" using m by linarith
  have "unat (c div 2048 * 128) = ?c div 2048 * 128"
    by (subst unat_mult_lem [THEN iffD1]) (simp_all add: unat_div div_less_iff_less_mult less_trans [OF unat_lt_64])
  then have n: "unat n = ?c div 2048 * 128 + ?c mod 512"
    unfolding n_def using sm by (subst unat_add_small) (simp_all add: unat_div unat_mod)
  have q: "?c div 2048 = ?c div 512 div 4" by (simp add: div_mult2_eq [symmetric])
  show "n div 128 = c div 512 div 4" using n m q by (simp add: word_unat_eq_iff unat_div)
  show "n mod 128 = c mod 512" using n m by (simp add: word_unat_eq_iff unat_mod)
  have "unat n = ?c \<longleftrightarrow> ?c < 128"
  proof
    assume "unat n = ?c"
    then have "?c div 512 div 4 * 128 = 512 * (?c div 512)" using n q mult_div_mod_eq [of 512 ?c] by linarith
    moreover have "?c div 512 div 4 \<le> ?c div 512" by simp
    ultimately have "?c div 512 = 0" by linarith
    then show "?c < 128" using m mult_div_mod_eq [of 512 ?c] by linarith
  qed (simp add: n)
  then show "n = c \<longleftrightarrow> c < 128" by (simp add: word_unat_eq_iff word_less_nat_alt)
qed

text \<open>
  C29: Over a heap that keeps its contract, \<open>find_next_cluster\<close> returns an entry of the FAT: for a
  cluster below 128 its own one. For the others the sector and the index it computes belong together only by
  accident: when the index is inside of the sector, the entry returned is the one of another cluster.
\<close>

theorem find_next_cluster_entry:
  assumes "mounted s U" and "kheap_fits (fheap s) 512" and "cluster < 0x0ffffff8" and "cluster mod 512 < 128"
  shows "\<exists>s'. find_next_cluster disk cluster s =
      Some (ucast (fat_entry disk (fat_begin_lba s) (cluster div 2048 * 128 + cluster mod 512)), s') \<and>
    (cluster div 2048 * 128 + cluster mod 512 = cluster \<longleftrightarrow> cluster < 128)"
proof -
  note n = entry_number [OF assms(4)]
  obtain fat s1 where b: "fs_kmalloc 512 s = Some (fat, s1)" "fat_begin_lba s1 = fat_begin_lba s" "sector_bytes s1 = 512"
    "\<And>lba. sector_bytes (set_mem (snd (read_sector disk lba fat (fmem s1))) s1) = 512"
    using sector_buffer [OF assms(1,2), of disk] by blast
  have s: "sector_bytes s = 512" using assms(1) by (simp add: mounted_def)
  let ?lba = "fat_begin_lba s + cluster div 512 div 4"
  obtain ok m where r: "read_sector disk ?lba fat (fmem s1) = (ok, m)" by (cases "read_sector disk ?lba fat (fmem s1)")
  have ok: "ok = 1" using r by (auto simp: read_sector_def read_sectors_def)
  have s2: "sector_bytes (set_mem m s1) = 512" using b(4) [of ?lba] r by simp
  have "unat (cluster mod 512) < 128" using assms(4) by (simp add: word_less_nat_alt)
  then have "load_u32 m (fat + 4 * (cluster mod 512)) =
      fat_entry disk (fat_begin_lba s) (cluster div 2048 * 128 + cluster mod 512)"
    using load_u32_sector [of "cluster mod 512" disk ?lba fat "fmem s1"] r n(1,2) by (simp add: fat_entry_def)
  moreover have "fmem (set_mem m s1) = m" by (simp add: set_mem_def)
  moreover have "\<not> cluster \<ge> 0x0ffffff8" using assms(3) by simp
  ultimately have "\<exists>s'. find_next_cluster disk cluster s =
      Some (ucast (fat_entry disk (fat_begin_lba s) (cluster div 2048 * 128 + cluster mod 512)), s')"
    using s b(1-3) r ok s2 by (simp add: find_next_cluster_def)
  then show ?thesis using n(3) by blast
qed

text \<open>A heap with a volume id at \<open>0x1010\<close> and room for a sector.\<close>

definition sample_fs :: fat32 where
  "sample_fs = \<lparr>fheap = kheap_poke 0x101C 2 (kheap_poke 0x101B 0 (mk_heap 0x1000 [(1024, Used), (1024, Hole), (64, Used)])),
     partition = 0x1010, partition_begin_lba = 1, cluster_begin_lba = 100, fat_begin_lba = 33\<rparr>"

lemma sample_fs_ok:
  "mounted sample_fs (set (allocs 0x1000 [(1024, Used), (1024, Hole), (64, Used)]))" "kheap_fits (fheap sample_fs) 512"
proof -
  let ?bs = "[(1024, Used), (1024, Hole), (64, Used)] :: blocks" and ?h = "mk_heap 0x1000 [(1024, Used), (1024, Hole), (64, Used)]"
  have "buildable 0x1000 ?bs" by (simp add: buildable_def)
  note h = mk_heap_inv(1,2) [OF this]
  have p: "heap_inv (kheap_poke x v st) ?bs \<and> unat (start_address (heap (kheap_poke x v st))) = 0x1000"
    if "heap_inv st ?bs" "unat (start_address (heap st)) = 0x1000" "0x1010 \<le> unat x" "unat x < 0x1000 + 1024 - 16" for st x v
    using heap_inv_poke [OF that(1), of "0x1000" 1024 x v] that(2-4) by (simp add: kheap_poke_def upd_mem_def)
  have "heap_inv (kheap_poke 0x101B 0 ?h) ?bs \<and> unat (start_address (heap (kheap_poke 0x101B 0 ?h))) = 0x1000"
    by (rule p [OF h]) simp_all
  then have f: "heap_inv (fheap sample_fs) ?bs \<and> unat (start_address (heap (fheap sample_fs))) = 0x1000"
    unfolding sample_fs_def fat32.select_convs by (elim conjE) (rule p; simp)
  have "bytes_per_sector (fmem sample_fs) 0x1010 = 512"
    by (simp add: sample_fs_def kheap_poke_def upd_mem_def bytes_per_sector_def load_u16_bytes)
  then have "sector_bytes sample_fs = 512" by (simp add: sector_bytes_def) (simp add: sample_fs_def)
  moreover have "kheap_rep (fheap sample_fs) (set (allocs 0x1000 ?bs))" using f by (auto simp: kheap_rep_def)
  moreover have "unat (partition sample_fs) = 0x1010" by (simp add: sample_fs_def)
  ultimately show "mounted sample_fs (set (allocs 0x1000 ?bs))" unfolding mounted_def by simp
  have "has_room (fheap sample_fs) ?bs (unat (512 :: u64) + 32)" by (simp add: has_room_def)
  moreover have "unat (512 :: u64) + 32 < 2 ^ 64" by simp
  ultimately show "kheap_fits (fheap sample_fs) 512" using f unfolding kheap_fits_def by blast
qed

theorem find_next_cluster_entry_witness:
  "\<exists>s' s''. find_next_cluster (\<lambda>_ k. of_nat k) 5 sample_fs = Some (ucast (fat_entry (\<lambda>_ k. of_nat k) 33 5), s') \<and>
     find_next_cluster (\<lambda>_ k. of_nat k) 517 sample_fs = Some (ucast (fat_entry (\<lambda>_ k. of_nat k) 33 5), s'')"
proof -
  have "fat_begin_lba sample_fs = 33" by (simp add: sample_fs_def)
  then show ?thesis
    using find_next_cluster_entry [OF sample_fs_ok, of 5 "\<lambda>_ k. of_nat k"]
      find_next_cluster_entry [OF sample_fs_ok, of 517 "\<lambda>_ k. of_nat k"] by simp
qed

end
