(* ===== verification/UserSpaceCorrect.thy ===== *)
theory UserSpaceCorrect
  imports UserSpace
begin

text \<open>
  What \<open>clean_user_space\<close> does: it unmaps the pages of the first two gigabytes that its condition
  names and gives their frames back, and changes nothing else.
\<close>

section \<open>The pages the condition names\<close>

text \<open>
  \<open>y < 510 && z != 511 && i != 2\<close>: not the third gigabyte, nothing in the last 2 MB of a gigabyte and
  not the last two pages of any 2 MB.
\<close>

definition cleanable :: "u64 list \<Rightarrow> bool" where
  "cleanable q \<longleftrightarrow> (\<exists>i z y. q = [0, i, z, y] \<and> i < 3 \<and> i \<noteq> 2 \<and> z < 512 \<and> z \<noteq> 511 \<and> y < 510)"

lemma cleanable_path [simp]:
  "cleanable [a, i, z, y] \<longleftrightarrow> a = 0 \<and> i < 3 \<and> i \<noteq> 2 \<and> z < 512 \<and> z \<noteq> 511 \<and> y < 510"
  by (auto simp: cleanable_def)

text \<open>The frames of a process: in use, no tables, and mapped once.\<close>

definition owns_pages :: "vm \<Rightarrow> bool" where
  "owns_pages s \<longleftrightarrow>
     (\<forall>q f. cleanable q \<longrightarrow> table s q = Some f \<longrightarrow>
        unat f \<in> used_set (mm s) \<and> no_table s f \<and> f \<noteq> entry_frame (cr3 s)) \<and>
     (\<forall>q q' f. cleanable q \<longrightarrow> cleanable q' \<longrightarrow> table s q = Some f \<longrightarrow> table s q' = Some f \<longrightarrow> q = q')"

lemma cleanable_valid: "cleanable q \<Longrightarrow> valid_path q \<and> length q = 4"
  by (auto simp: cleanable_def valid_path_def word_less_nat_alt)

text \<open>The frames that are mapped at paths of a set.\<close>

definition frames_at :: "vm \<Rightarrow> u64 list set \<Rightarrow> nat set" where
  "frames_at s S = {unat f | q f. q \<in> S \<and> cleanable q \<and> table s q = Some f}"

text \<open>The state when the paths \<open>S\<close> have been dealt with.\<close>

definition cleaned :: "vm \<Rightarrow> u64 list set \<Rightarrow> vm \<Rightarrow> bool" where
  "cleaned s0 S s \<longleftrightarrow> vm_inv s \<and> cr3 s = cr3 s0 \<and> root s = root s0 \<and>
     (\<forall>q. valid_path q \<longrightarrow> length q \<le> 4 \<longrightarrow> table s q = (if q \<in> S \<and> cleanable q then None else table s0 q)) \<and>
     used_set (mm s) = used_set (mm s0) - frames_at s0 S \<and>
     free_blocks (mm s) = free_blocks (mm s0) \<union> frames_at s0 S \<and>
     (\<forall>f. no_table s0 f \<longrightarrow> mem s f = mem s0 f)"

lemma cleanedD:
  assumes "cleaned s0 S s"
  shows "vm_inv s" "cr3 s = cr3 s0" "root s = root s0"
    "valid_path q \<Longrightarrow> length q \<le> 4 \<Longrightarrow> table s q = (if q \<in> S \<and> cleanable q then None else table s0 q)"
    "used_set (mm s) = used_set (mm s0) - frames_at s0 S" "free_blocks (mm s) = free_blocks (mm s0) \<union> frames_at s0 S"
    "no_table s0 f \<Longrightarrow> mem s f = mem s0 f"
  using assms unfolding cleaned_def by blast+

lemma cleaned_table: "cleaned s0 S s \<Longrightarrow> valid_path q \<Longrightarrow> length q \<le> 3 \<Longrightarrow> table s q = table s0 q"
  using cleanedD(4) [of s0 S s q] cleanable_valid [of q] by auto

text \<open>Paths that are not mapped or not named need no work.\<close>

lemma cleaned_skip:
  assumes "cleaned s0 S s" "\<And>q. q \<in> X \<Longrightarrow> cleanable q \<Longrightarrow> table s0 q = None"
  shows "cleaned s0 (S \<union> X) s"
proof -
  have "frames_at s0 (S \<union> X) = frames_at s0 S" using assms(2) by (force simp: frames_at_def)
  then show ?thesis using assms(1,2) unfolding cleaned_def by auto
qed

section \<open>One page\<close>

lemma present_bit: "entry_present e = 1 \<longleftrightarrow> entry_present e \<noteq> 0"
proof -
  have "unat (entry_present e) < 2" using get_field_bound [of 0 1 e] by (simp add: entry_present_def)
  then have "unat (entry_present e) = 0 \<or> unat (entry_present e) = 1" by linarith
  then show ?thesis by (auto simp: word_unat_eq_iff)
qed

text \<open>A block that is no table is given back.\<close>

lemma give_back:
  assumes inv: "vm_inv s" and h: "unat h \<in> used_set (mm s)" "no_table s h" "h \<noteq> entry_frame (cr3 s)"
  defines "s' \<equiv> s\<lparr>mm := mem_free_block (h * 0x1000) (mm s)\<rparr>"
  shows "vm_inv s'" "used_set (mm s') = used_set (mm s) - {unat h}" "free_blocks (mm s') = insert (unat h) (free_blocks (mm s))"
    "table s' = table s" "root s' = root s"
proof -
  have a: "h * 0x1000 = of_nat (unat h * 4096)" by simp
  note r = phys.release_block [OF vm_invD(1) [OF inv] h(1), folded a]
  show sets: "used_set (mm s') = used_set (mm s) - {unat h}" "free_blocks (mm s') = insert (unat h) (free_blocks (mm s))"
    using r by (simp_all add: s'_def)
  show tab: "table s' = table s" "root s' = root s" by (simp_all add: s'_def table_def root_def fun_eq_iff)
  have mx: "mem_max_blocks (mm s') = mem_max_blocks (mm s)" by (simp add: s'_def mem_free_block_def)
  have nt: "unat f \<noteq> unat h" if "valid_path p" "length p \<le> 3" "table s p = Some f" for p f
    using h(2) that by (auto simp: no_table_def word_unat_eq_iff)
  have c: "unat (entry_frame (cr3 s)) \<noteq> unat h" using h(3) by (metis word_unat_eq_iff)
  have m: "mem s' = mem s" "cr3 s' = cr3 s" by (simp_all add: s'_def)
  have i: "mm_inv (mm s')" using r by (simp add: s'_def)
  show "vm_inv s'"
    using inv i c nt unfolding vm_inv_def tab m sets mx by (intro conjI) (blast | simp)+
qed

lemma frames_at_Un: "frames_at s (S \<union> T) = frames_at s S \<union> frames_at s T"
  unfolding frames_at_def by blast

lemma frames_at_add: "cleanable q \<Longrightarrow> table s q = Some h \<Longrightarrow> frames_at s (S \<union> {q}) = insert (unat h) (frames_at s S)"
  unfolding frames_at_Un by (simp add: frames_at_def)

lemma clean_page_spec:
  assumes own: "owns_pages s0" and c: "cleaned s0 S s" and b: "i < 3" "z < 512" "y < 512"
    and f: "table s0 [0, i, z] = Some f"
  shows "\<exists>s'. clean_page i z y s = Some s' \<and> cleaned s0 (S \<union> {[0, i, z, y]}) s'"
proof -
  let ?p = "[0, i, z]" and ?q = "[0, i, z, y]"
  note inv = cleanedD(1) [OF c]
  have u: "unat i < 512" "unat z < 512" "unat y < 512" "unat (0 :: u64) < 512" using b by (simp_all add: word_less_nat_alt)
  have v: "valid_path ?p" "valid_path ?q" "valid_path (?p @ [y])" using u by (simp_all add: valid_path_Cons)
  have tf: "table s ?p = Some f" using cleaned_table [OF c v(1)] f by simp
  have tr: "translate s (get_page_entry 0 i z y) = Some f" "get_field 3 9 (get_page_entry 0 i z y) = y"
    using translate_entries(1,2) [OF inv u(4,1,2,3)] tf by simp_all
  let ?e = "mem s f y"
  have ld: "load_entry (get_page_entry 0 i z y) s = Some ?e" using tr by (simp add: load_entry_def)
  have at: "table s ?q = (if entry_present ?e \<noteq> 0 then Some (entry_frame ?e) else None)"
    using tf walk_snoc [of "mem s" "root s" ?p y] by (simp add: table_def)
  show ?thesis
  proof (cases "entry_present ?e = 1 \<and> y < 510 \<and> z \<noteq> 511 \<and> i \<noteq> 2")
    case False
    then have run: "clean_page i z y s = Some s" using ld by (auto simp: clean_page_def)
    show ?thesis
    proof (cases "?q \<in> S")
      case True
      then show ?thesis using run c by (simp add: insert_absorb)
    next
      case out: False
      have "table s0 ?q = None" if "cleanable ?q"
        using False that at out cleanedD(4) [OF c v(2)] present_bit [of ?e] by auto
      then show ?thesis using run cleaned_skip [OF c, of "{?q}"] by simp
    qed
  next
    case True
    let ?h = "entry_frame ?e"
    have q: "cleanable ?q" using True b by simp
    have hs: "table s ?q = Some ?h" using at True by simp
    then have h0: "?q \<notin> S" "table s0 ?q = Some ?h" using cleanedD(4) [OF c v(2)] q by (auto split: if_splits)
    have o: "unat ?h \<in> used_set (mm s0)" "no_table s0 ?h" "?h \<noteq> entry_frame (cr3 s0)"
      using own q h0(2) unfolding owns_pages_def by blast+
    have "unat ?h \<notin> frames_at s0 S"
    proof
      assume "unat ?h \<in> frames_at s0 S"
      then obtain q' where "q' \<in> S" "cleanable q'" "table s0 q' = Some ?h"
        unfolding frames_at_def by (auto simp: word_unat_eq_iff)
      then show False using own q h0 unfolding owns_pages_def by blast
    qed
    then have used: "unat ?h \<in> used_set (mm s)" using o(1) cleanedD(5) [OF c] by simp
    have nt: "no_table s ?h" using o(2) cleaned_table [OF c] by (simp add: no_table_def)
    define s1 where "s1 = s\<lparr>mm := mem_free_block (?h * 0x1000) (mm s)\<rparr>"
    have cr: "cr3 s1 = cr3 s" "mem s1 = mem s" "translate s1 = translate s" by (simp_all add: s1_def translate_def fun_eq_iff)
    note g = give_back [OF inv used nt, unfolded cleanedD(2) [OF c], OF o(3), folded s1_def]
    let ?s = "put_entry f y (\<lambda>_. 0) s1"
    have run: "clean_page i z y s = Some ?s"
      using ld True tr cr(3) by (simp add: clean_page_def upd_entry_def s1_def [symmetric])
    have tf1: "table s1 ?p = Some f" "length ?p = 3" "length ?p \<le> 3" using tf g(4) by simp_all
    have inv': "vm_inv ?s" by (rule vm_inv_put_page [OF g(1) tf1(1) v(3) tf1(2)])
    have tab: "table ?s r = (if r \<in> S \<union> {?q} \<and> cleanable r then None else table s0 r)" if r: "valid_path r" "length r \<le> 4" for r
    proof (cases "r = ?q")
      case True
      then show ?thesis using table_put_at [OF g(1) tf1(1) v(3) tf1(3), of "\<lambda>_. 0"] q by (simp add: entry_present_def)
    next
      case False
      have "\<not> prefix (?p @ [y]) r"
      proof
        assume "prefix (?p @ [y]) r"
        then obtain t where "r = ?q @ t" by (auto simp: prefix_def)
        then show False using False r(2) by simp
      qed
      then have "table ?s r = table s r" using table_put_other [OF g(1) tf1(1) v(3) tf1(3) r] g(4) by simp
      then show ?thesis using False cleanedD(4) [OF c r] by simp
    qed
    have fr: "frames_at s0 (S \<union> {?q}) = insert (unat ?h) (frames_at s0 S)" using frames_at_add [OF q h0(2)] .
    have "mem ?s x = mem s0 x" if "no_table s0 x" for x
    proof -
      have "x \<noteq> f" using that f v(1) by (auto simp: no_table_def)
      then show ?thesis using cleanedD(7) [OF c that] cr(2) by (simp add: put_entry_def)
    qed
    then have "cleaned s0 (S \<union> {?q}) ?s"
      using inv' tab g(2,3,5) put_root(1) [OF g(1) tf1(1) v(3) tf1(3)] cleanedD(2,3,5,6) [OF c] cr(1) fr
      unfolding cleaned_def by auto
    then show ?thesis using run by blast
  qed
qed

section \<open>The loops\<close>

definition pages_of_table :: "u64 \<Rightarrow> u64 \<Rightarrow> u64 list set" where
  "pages_of_table i z = (\<Union>y \<in> {y. y < 512}. {[0, i, z, y]})"

definition pages_of_directory :: "u64 \<Rightarrow> u64 list set" where
  "pages_of_directory i = (\<Union>z \<in> {z. z < 512}. pages_of_table i z)"

text \<open>Below an entry that is not present nothing is mapped.\<close>

lemma table_below_None: "table s p = None \<Longrightarrow> table s (p @ q) = None"
  by (simp add: table_def walk_append)

lemma clean_table_spec:
  assumes own: "owns_pages s0" and c: "cleaned s0 S s" and b: "i < 3" "z < 512" and f: "table s0 [0, i] = Some f"
  shows "\<exists>s'. clean_table i z s = Some s' \<and> cleaned s0 (S \<union> pages_of_table i z) s'"
proof -
  note inv = cleanedD(1) [OF c]
  have u: "unat i < 512" "unat z < 512" "unat (0 :: u64) < 512" using b by (simp_all add: word_less_nat_alt)
  have v: "valid_path [0, i]" "valid_path [0, i, z]" using u by (simp_all add: valid_path_Cons)
  have tf: "table s [0, i] = Some f" using cleaned_table [OF c v(1)] f by simp
  have ld: "load_entry (get_pd_entry 0 i z) s = Some (mem s f z)"
    using translate_entries(3,4) [OF inv u(3,1,2) u(1)] tf by (simp add: load_entry_def)
  have at: "table s0 [0, i, z] = (if entry_present (mem s f z) \<noteq> 0 then Some (entry_frame (mem s f z)) else None)"
    using cleaned_table [OF c v(2)] tf walk_snoc [of "mem s" "root s" "[0, i]" z] by (simp add: table_def)
  show ?thesis
  proof (cases "entry_present (mem s f z) = 1")
    case False
    then have "table s0 [0, i, z] = None" using at present_bit by simp
    then have "table s0 q = None" if "q \<in> pages_of_table i z" for q
      using that table_below_None [of s0 "[0, i, z]"] by (auto simp: pages_of_table_def)
    then show ?thesis using cleaned_skip [OF c, of "pages_of_table i z"] ld False by (simp add: clean_table_def)
  next
    case True
    then obtain g where g: "table s0 [0, i, z] = Some g" using at by simp
    have "\<exists>s'. for_loop (clean_page i z) 512 0 s = Some s' \<and> cleaned s0 (S \<union> pages_of_table i z) s'"
      unfolding pages_of_table_def by (rule for_loop_adds [where P = "cleaned s0", OF clean_page_spec [OF own _ b _ g] c])
    then show ?thesis using ld True by (simp add: clean_table_def)
  qed
qed

lemma clean_directory_spec:
  assumes own: "owns_pages s0" and c: "cleaned s0 S s" and b: "i < 3" and f: "table s0 [0] = Some f"
  shows "\<exists>s'. clean_directory i s = Some s' \<and> cleaned s0 (S \<union> pages_of_directory i) s'"
proof -
  note inv = cleanedD(1) [OF c]
  have u: "unat i < 512" "unat (0 :: u64) < 512" using b by (simp_all add: word_less_nat_alt)
  have v: "valid_path [0]" "valid_path [0, i]" using u by (simp_all add: valid_path_Cons)
  have tf: "table s [0] = Some f" using cleaned_table [OF c v(1)] f by simp
  have ld: "load_entry (get_pdp_entry 0 i) s = Some (mem s f i)"
    using translate_entries(5,6) [OF inv u(2,1,1,1)] tf by (simp add: load_entry_def)
  have at: "table s0 [0, i] = (if entry_present (mem s f i) \<noteq> 0 then Some (entry_frame (mem s f i)) else None)"
    using cleaned_table [OF c v(2)] tf walk_snoc [of "mem s" "root s" "[0]" i] by (simp add: table_def)
  show ?thesis
  proof (cases "entry_present (mem s f i) = 1")
    case False
    then have "table s0 [0, i] = None" using at present_bit by simp
    then have "table s0 q = None" if "q \<in> pages_of_directory i" for q
      using that table_below_None [of s0 "[0, i]"] by (auto simp: pages_of_directory_def pages_of_table_def)
    then show ?thesis using cleaned_skip [OF c, of "pages_of_directory i"] ld False by (simp add: clean_directory_def)
  next
    case True
    then obtain g where g: "table s0 [0, i] = Some g" using at by simp
    have "\<exists>s'. for_loop (clean_table i) 512 0 s = Some s' \<and> cleaned s0 (S \<union> pages_of_directory i) s'"
      unfolding pages_of_directory_def by (rule for_loop_adds [where P = "cleaned s0", OF clean_table_spec [OF own _ b _ g] c])
    then show ?thesis using ld True by (simp add: clean_directory_def)
  qed
qed

lemma cleanable_in_pages: "cleanable q \<Longrightarrow> q \<in> (\<Union>i \<in> {i. i < 3}. pages_of_directory i)"
  by (auto simp: cleanable_def pages_of_directory_def pages_of_table_def elim!: less_trans)

lemma cleaned_all:
  assumes "cleaned s S s'" "\<And>q. cleanable q \<Longrightarrow> q \<in> S"
  shows "cleaned s UNIV s'"
proof -
  have "frames_at s S = frames_at s UNIV" using assms(2) by (auto simp: frames_at_def)
  then show ?thesis using assms unfolding cleaned_def by auto
qed

lemma clean_user_space_spec:
  assumes own: "owns_pages s" and inv: "vm_inv s" and f: "table s [0] = Some f"
  shows "\<exists>s'. clean_user_space s = Some s' \<and> cleaned s UNIV s'"
proof -
  have c: "cleaned s {} s" using inv by (simp add: cleaned_def frames_at_def)
  have "\<exists>s'. clean_user_space s = Some s' \<and> cleaned s ({} \<union> (\<Union>i \<in> {i. i < 3}. pages_of_directory i)) s'"
    unfolding clean_user_space_def by (rule for_loop_adds [where P = "cleaned s", OF clean_directory_spec [OF own _ _ f] c])
  then show ?thesis using cleaned_all cleanable_in_pages by fastforce
qed

text \<open>
  C10: \<open>clean_user_space\<close> unmaps exactly the pages its condition names (those of the first two
  gigabytes except the last 2 MB of each and the last two pages of every 2 MB), makes their frames free
  and keeps the tables, every other page and the soundness of paging. It does not clear the frames: what the
  process had in them is still there.
\<close>

theorem clean_user_space_correct:
  assumes "vm_inv s" and "owns_pages s" and "table s [0] = Some f0"
  shows "\<exists>s'. clean_user_space s = Some s' \<and> vm_inv s' \<and>
    (\<forall>q. valid_path q \<longrightarrow> length q \<le> 4 \<longrightarrow> table s' q = (if cleanable q then None else table s q)) \<and>
    used_set (mm s') = used_set (mm s) - {unat f | q f. cleanable q \<and> table s q = Some f} \<and>
    free_blocks (mm s') = free_blocks (mm s) \<union> {unat f | q f. cleanable q \<and> table s q = Some f} \<and>
    (\<forall>q f. cleanable q \<longrightarrow> table s q = Some f \<longrightarrow> mem s' f = mem s f)"
proof -
  obtain s' where s': "clean_user_space s = Some s'" "cleaned s UNIV s'"
    using clean_user_space_spec [OF assms(2,1,3)] by blast
  have "no_table s f" if "cleanable q" "table s q = Some f" for q f
    using assms(2) that unfolding owns_pages_def by blast
  then show ?thesis using s' cleanedD [OF s'(2)] by (auto simp: frames_at_def)
qed

text \<open>A process with one page, at \<open>0x7000\<close> in frame 5.\<close>

definition process_vm :: vm where
  "process_vm = \<lparr>mm = sample_mm,
     mem = (\<lambda>f i. if f = 1 \<and> i = 511 then 0x1001 else if f = 1 \<and> i = 0 then 0x2001
       else if f = 2 \<and> i = 0 then 0x3001 else if f = 3 \<and> i = 0 then 0x4001
       else if f = 4 \<and> i = 7 then 0x5001 else 0),
     cr3 = 0x1000, video_memory = 0xB8000\<rparr>"

lemma process_vm_entry [simp]:
  "entry_present (mem process_vm f i) \<noteq> 0 \<longleftrightarrow>
     f = 1 \<and> i = 511 \<or> f = 1 \<and> i = 0 \<or> f = 2 \<and> i = 0 \<or> f = 3 \<and> i = 0 \<or> f = 4 \<and> i = 7"
  "entry_frame (mem process_vm 1 511) = 1" "entry_frame (mem process_vm 1 0) = 2" "entry_frame (mem process_vm 2 0) = 3"
  "entry_frame (mem process_vm 3 0) = 4" "entry_frame (mem process_vm 4 7) = 5"
  "entry_frame (cr3 process_vm) = 1" "mm process_vm = sample_mm"
  by (simp_all add: process_vm_def entry_present_def entry_frame_def get_field_def drop_bit_eq_div take_bit_Suc)

lemma process_vm_root [simp]: "root process_vm = 1"
  by (simp add: root_def)

lemma short_lists: "length p \<le> 4 \<Longrightarrow>
  p = [] \<or> (\<exists>a. p = [a]) \<or> (\<exists>a b. p = [a, b]) \<or> (\<exists>a b c. p = [a, b, c]) \<or> (\<exists>a b c d. p = [a, b, c, d])"
  by (auto simp: numeral_eq_Suc le_Suc_eq length_Suc_conv)

lemma process_vm_walk:
  "walk (mem process_vm) 1 (i # p) =
     (if i = 0 then walk (mem process_vm) 2 p else if i = 511 then walk (mem process_vm) 1 p else None)"
  "walk (mem process_vm) 2 (i # p) = (if i = 0 then walk (mem process_vm) 3 p else None)"
  "walk (mem process_vm) 3 (i # p) = (if i = 0 then walk (mem process_vm) 4 p else None)"
  "walk (mem process_vm) 4 (i # p) = (if i = 7 then walk (mem process_vm) 5 p else None)"
  by simp_all

lemma process_vm_table:
  "valid_path p \<Longrightarrow> length p \<le> 4 \<Longrightarrow> table process_vm p = Some f \<longleftrightarrow>
     p = [] \<and> f = 1 \<or> p = [0] \<and> f = 2 \<or> p = [0, 0] \<and> f = 3 \<or> p = [0, 0, 0] \<and> f = 4 \<or> p = [0, 0, 0, 7] \<and> f = 5"
  by (drule short_lists, elim disjE exE)
    (auto simp: table_def valid_path_Cons process_vm_walk simp del: walk.simps(2) split: if_splits)

lemma process_vm_path:
  "valid_path p \<Longrightarrow> length p \<le> 3 \<Longrightarrow> table process_vm p = Some f \<Longrightarrow>
     f \<in> {1, 2, 3, 4} \<and> p = (if f = 1 then [] else if f = 2 then [0] else if f = 3 then [0, 0] else [0, 0, 0])"
  using process_vm_table [of p f] by auto

lemma process_vm_inv: "vm_inv process_vm" "owns_pages process_vm"
proof -
  have b: "unat (mem_max_blocks sample_mm) \<le> 2 ^ 40" by (simp add: sample_mm_def)
  have 1: "unat f \<in> used_set sample_mm \<and> (f = 1 \<longrightarrow> p = [])"
    if "valid_path p" "length p \<le> 3" "table process_vm p = Some f" for p f
    using process_vm_path [OF that] by (auto simp: sample_mm_sets)
  have 2: "p = q" if "valid_path p" "length p \<le> 3" "valid_path q" "length q \<le> 3" "table process_vm p = Some f"
    "table process_vm q = Some f" for p q f
    using process_vm_path [OF that(1,2,5)] process_vm_path [OF that(3,4,6)] by metis
  have 3: "\<forall>p f. valid_path p \<longrightarrow> length p \<le> 3 \<longrightarrow> table process_vm p = Some f \<longrightarrow>
      unat f \<in> used_set (mm process_vm) \<and> (f = entry_frame (cr3 process_vm) \<longrightarrow> p = [])"
    "\<forall>p q f. valid_path p \<longrightarrow> valid_path q \<longrightarrow> length p \<le> 3 \<longrightarrow> length q \<le> 3 \<longrightarrow>
      table process_vm p = Some f \<longrightarrow> table process_vm q = Some f \<longrightarrow> p = q"
    using 1 2 by (simp, blast)
  show "vm_inv process_vm"
    unfolding vm_inv_def using 3 b sample_mm_inv by (intro conjI) (simp_all add: sample_mm_sets)
  have c: "table process_vm q = Some f \<longleftrightarrow> q = [0, 0, 0, 7] \<and> f = 5" if "cleanable q" for q f
    using process_vm_table [of q f] cleanable_valid [OF that] by auto
  have "no_table process_vm 5" using process_vm_table by (auto simp: no_table_def)
  then show "owns_pages process_vm" using c sample_mm_sets by (auto simp: owns_pages_def)
qed

theorem clean_user_space_correct_witness:
  "\<exists>s'. clean_user_space process_vm = Some s' \<and> table process_vm [0, 0, 0, 7] = Some 5 \<and>
     table s' [0, 0, 0, 7] = None \<and> 5 \<in> free_blocks (mm s')"
proof -
  have q: "cleanable [0, 0, 0, 7]" "table process_vm [0, 0, 0, 7] = Some 5" "table process_vm [0] = Some 2"
    by (simp_all add: process_vm_table valid_path_def)
  from clean_user_space_correct [OF process_vm_inv q(3)] obtain s' where s': "clean_user_space process_vm = Some s'"
    "\<forall>q. valid_path q \<longrightarrow> length q \<le> 4 \<longrightarrow> table s' q = (if cleanable q then None else table process_vm q)"
    "free_blocks (mm s') = free_blocks (mm process_vm) \<union> {unat f | q f. cleanable q \<and> table process_vm q = Some f}"
    by (elim exE conjE) (rule that; assumption)
  have "5 = unat (5 :: u64)" by simp
  with q(1,2) have "5 \<in> {unat f | q f. cleanable q \<and> table process_vm q = Some f}" by blast
  then have "5 \<in> free_blocks (mm s')" unfolding s'(3) by (rule UnI2)
  moreover have "table s' [0, 0, 0, 7] = None"
    using s'(2) [rule_format, of "[0, 0, 0, 7]"] q(1) cleanable_valid [OF q(1)] by simp
  ultimately show ?thesis using s'(1) q(2) by blast
qed

end
