(* ===== verification/ElfCorrect.thy ===== *)
theory ElfCorrect
  imports Elf Fat32Correct UserSpaceCorrect
begin

text \<open>
  How the loader and paging fit together: which bytes of a segment are mapped after
  \<open>load_segment\<close>.
\<close>

section \<open>Addresses in the same page\<close>

lemma va_path_same_page:
  "unat a div 4096 = unat b div 4096 \<Longrightarrow> va_path a = va_path b"
proof -
  assume eq: "unat a div 4096 = unat b div 4096"
  have f: "unat (addr_pml4 x) = unat x div 4096 div 2 ^ 27 mod 512" "unat (addr_pdp x) = unat x div 4096 div 2 ^ 18 mod 512"
    "unat (addr_pd x) = unat x div 4096 div 2 ^ 9 mod 512" "unat (addr_pt x) = unat x div 4096 mod 512" for x :: u64
    by (simp_all add: addr_pml4_def addr_pdp_def addr_pd_def addr_pt_def unat_get_field div_mult2_eq [symmetric])
  show ?thesis unfolding va_path_def by (simp add: word_unat_eq_iff f eq)
qed

text \<open>Which pages of a range of \<open>n\<close> pages from \<open>v\<close> on an address meets.\<close>

lemma page_of_address:
  fixes v x :: u64
  assumes "unat v + n * 4096 \<le> 2 ^ 47" "unat v div 4096 \<le> unat x div 4096" "unat x < 2 ^ 47"
  shows "unat x div 4096 < unat v div 4096 + n \<Longrightarrow>
      va_path x = va_path (v + of_nat (unat x div 4096 - unat v div 4096) * 0x1000)"
    "\<not> unat x div 4096 < unat v div 4096 + n \<Longrightarrow> \<forall>k < n. va_path x \<noteq> va_path (v + of_nat k * 0x1000)"
proof -
  have p: "unat (v + of_nat k * 0x1000) div 4096 = unat v div 4096 + k" if "k < n" for k
    using page_address [OF assms(1) that] by simp
  show "va_path x = va_path (v + of_nat (unat x div 4096 - unat v div 4096) * 0x1000)"
    if "unat x div 4096 < unat v div 4096 + n"
    using p [of "unat x div 4096 - unat v div 4096"] that assms(2) by (intro va_path_same_page) simp
  show "\<forall>k < n. va_path x \<noteq> va_path (v + of_nat k * 0x1000)" if "\<not> unat x div 4096 < unat v div 4096 + n"
  proof (intro allI impI)
    fix k assume k: "k < n"
    have "unat (v + of_nat k * 0x1000) < 2 ^ 47" using page_address [OF assms(1) k] assms(1) k by simp
    then show "va_path x \<noteq> va_path (v + of_nat k * 0x1000)"
      using p [OF k] that k assms(3) by (intro va_path_neq) simp_all
  qed
qed

text \<open>The last of \<open>n\<close> bytes is in the first \<open>N\<close> pages.\<close>

lemma last_page:
  fixes v n N :: nat
  assumes "0 < n"
  shows "(v + n - 1) div 4096 < v div 4096 + N \<longleftrightarrow> v mod 4096 + n \<le> N * 4096"
proof -
  have "(v + n - 1) div 4096 < v div 4096 + N \<longleftrightarrow> v + n - 1 < (v div 4096 + N) * 4096"
    by (simp add: div_less_iff_less_mult)
  also have "\<dots> \<longleftrightarrow> v + n \<le> (v div 4096 + N) * 4096" using assms by auto
  also have "\<dots> \<longleftrightarrow> v div 4096 * 4096 + (v mod 4096 + n) \<le> v div 4096 * 4096 + N * 4096"
    unfolding add.assoc [symmetric] div_mult_mod_eq distrib_right ..
  also have "\<dots> \<longleftrightarrow> v mod 4096 + n \<le> N * 4096" by (rule add_le_cancel_left)
  finally show ?thesis .
qed

text \<open>
  After \<open>N\<close> pages from \<open>v\<close> on have been mapped, the first \<open>m\<close> bytes from \<open>v\<close> on, none of them mapped
  before, are mapped if they fit into these pages, and only then.
\<close>

lemma range_covered:
  assumes added: "pages_added s v N F t" and N: "unat v + N * 4096 \<le> 2 ^ 47" and m: "unat v + m < 2 ^ 47"
    and before: "\<forall>x. unat v \<le> unat x \<and> unat x < unat v + m \<longrightarrow> translate s x = None"
  shows "(\<forall>x. unat v \<le> unat x \<and> unat x < unat v + m \<longrightarrow> translate t x \<noteq> None) \<longleftrightarrow>
    m = 0 \<or> unat v mod 4096 + m \<le> N * 4096"
proof (cases "m = 0")
  case False
  have p: "\<forall>k < N. translate t (v + of_nat k * 0x1000) = Some (F k)"
    "\<forall>va. addr_pml4 va \<noteq> 511 \<longrightarrow> (\<forall>k < N. va_path va \<noteq> va_path (v + of_nat k * 0x1000)) \<longrightarrow> translate t va = translate s va"
    using added by (simp_all add: pages_added_def)
  have inside: "unat x < 2 ^ 47 \<and> unat v div 4096 \<le> unat x div 4096" if "unat v \<le> unat x" "unat x < unat v + m" for x :: u64
    using that m by (auto intro: div_le_mono)
  have mapped: "translate t x \<noteq> None" if x: "unat v \<le> unat x" "unat x < unat v + m" "unat x div 4096 < unat v div 4096 + N" for x
    using page_of_address(1) [OF N] inside [OF x(1,2)] p(1) [rule_format, of "unat x div 4096 - unat v div 4096"] x(3)
    by (auto simp: translate_def)
  have unmapped: "translate t x = None" if x: "unat v \<le> unat x" "unat x < unat v + m" "\<not> unat x div 4096 < unat v div 4096 + N" for x
    using page_of_address(2) [OF N] inside [OF x(1,2)] p(2) low_pml4 [of x] before x by auto
  obtain l :: u64 where l: "unat l = unat v + m - 1"
  proof
    show "unat (of_nat (unat v + m - 1) :: u64) = unat v + m - 1" by (rule unat_of_nat_small) (use m in simp)
  qed
  then have last: "unat v \<le> unat l" "unat l < unat v + m" using False by simp_all
  have "(\<forall>x. unat v \<le> unat x \<and> unat x < unat v + m \<longrightarrow> translate t x \<noteq> None) \<longleftrightarrow>
     (unat v + m - 1) div 4096 < unat v div 4096 + N"
  proof
    assume "\<forall>x. unat v \<le> unat x \<and> unat x < unat v + m \<longrightarrow> translate t x \<noteq> None"
    then have "translate t l \<noteq> None" using last by blast
    then show "(unat v + m - 1) div 4096 < unat v div 4096 + N" using unmapped [OF last, unfolded l] by (rule contrapos_np)
  next
    assume le: "(unat v + m - 1) div 4096 < unat v div 4096 + N"
    show "\<forall>x. unat v \<le> unat x \<and> unat x < unat v + m \<longrightarrow> translate t x \<noteq> None"
    proof (intro allI impI)
      fix x :: u64 assume x: "unat v \<le> unat x \<and> unat x < unat v + m"
      then have "unat x div 4096 \<le> (unat v + m - 1) div 4096" by (intro div_le_mono) linarith
      then show "translate t x \<noteq> None" using mapped x le by (meson le_less_trans)
    qed
  qed
  then show ?thesis using last_page [of m] False by simp
qed auto

lemma bytes_mapped_range:
  assumes "unat a + n < 2 ^ 64"
  shows "bytes_mapped t a n \<longleftrightarrow> (\<forall>x. unat a \<le> unat x \<and> unat x < unat a + n \<longrightarrow> translate t x \<noteq> None)"
proof
  assume b: "bytes_mapped t a n"
  show "\<forall>x. unat a \<le> unat x \<and> unat x < unat a + n \<longrightarrow> translate t x \<noteq> None"
  proof (intro allI impI)
    fix x :: u64 assume x: "unat a \<le> unat x \<and> unat x < unat a + n"
    then have "unat (a + of_nat (unat x - unat a)) = unat a + (unat x - unat a)"
      using assms unsigned_less [of x] by (subst unat_add_small) (simp_all only: unat_of_nat, auto)
    then have "x = a + of_nat (unat x - unat a)" using \<open>unat a \<le> unat x \<and> unat x < unat a + n\<close>
      by (simp only: word_unat_eq_iff) simp
    moreover have "unat x - unat a < n" using x by linarith
    ultimately show "translate t x \<noteq> None" using b unfolding bytes_mapped_def by metis
  qed
next
  assume r: "\<forall>x. unat a \<le> unat x \<and> unat x < unat a + n \<longrightarrow> translate t x \<noteq> None"
  have "translate t (a + of_nat i) \<noteq> None" if "i < n" for i
  proof -
    have "unat (a + of_nat i) = unat a + i" using that assms by (subst unat_add_small) (simp_all add: unat_of_nat)
    then show ?thesis using r that by simp
  qed
  then show "bytes_mapped t a n" by (simp add: bytes_mapped_def)
qed

text \<open>A page that was mapped stays mapped.\<close>

lemma pages_added_keeps:
  assumes "pages_added s v N F t" "addr_pml4 x \<noteq> 511" "translate s x \<noteq> None"
  shows "translate t x \<noteq> None"
proof (cases "\<forall>k < N. va_path x \<noteq> va_path (v + of_nat k * 0x1000)")
  case True
  then show ?thesis using assms by (auto simp: pages_added_def)
next
  case False
  then obtain k where "k < N" "va_path x = va_path (v + of_nat k * 0x1000)" by blast
  then have "translate t x = Some (F k)" using assms(1) by (simp add: pages_added_def translate_def)
  then show ?thesis by simp
qed

text \<open>
  C31: \<open>load_segment\<close> maps the pages of a segment that was not mapped before, as many as its size in memory
  divided by the size of a page plus one, from its address on. All of its bytes are mapped then exactly if the
  offset of its address in the page and its size fit into these pages. The contents of the file, at most as
  many bytes as the segment has and read from mapped pages, are copied to its address when they fit, and the loader
  goes on; otherwise the copy comes to a page that is not mapped, and the loader never returns. So a segment that
  begins close to the end of a page may lack its last page, or stop the machine.
\<close>

theorem load_segment_coverage:
  fixes buffer ph :: u64 and s :: process
  defines "v \<equiv> p_vaddr (pmemory s) ph" and "n \<equiv> unat (p_memsz (pmemory s) ph)"
    and "f \<equiv> unat (p_filesz (pmemory s) ph)" and "src \<equiv> buffer + p_offset (pmemory s) ph"
  assumes "p_type (pmemory s) ph = 1" and "v \<noteq> 0" and "0 < n" and "f \<le> n"
    and "vm_inv (pg s)" and "free_zeroed (pg s)" and "root (pg s) = entry_frame (cr3 (pg s))"
    and "unat v + (n div 4096 + 2) * 4096 \<le> 2 ^ 47"
    and "can_alloc (4 * (n div 4096 + 1)) (mm (pg s))"
    and "\<forall>x. unat v \<le> unat x \<and> unat x < unat v + n \<longrightarrow> translate (pg s) x = None"
    and "unat src + f \<le> 2 ^ 47" and "bytes_mapped (pg s) src f"
  shows "\<exists>t. alloc_page v (of_nat (n div 4096 + 1)) (pg s) = Some (v, t) \<and> vm_inv t \<and> free_zeroed t \<and>
    ((\<forall>x. unat v \<le> unat x \<and> unat x < unat v + n \<longrightarrow> translate t x \<noteq> None) \<longleftrightarrow>
     unat v mod 4096 + n \<le> (n div 4096 + 1) * 4096) \<and>
    (if f = 0 \<or> unat v mod 4096 + f \<le> (n div 4096 + 1) * 4096
     then \<exists>s'. load_segment buffer ph s = Some (True, s') \<and> pg s' = t \<and>
       (\<forall>x. pmemory s' x = (if in_range v f x then pmemory s (src + (x - v)) else pmemory s x))
     else load_segment buffer ph s = None)"
proof -
  let ?sz = "p_memsz (pmemory s) ph div MEM_BLOCK_SIZE + 1"
  let ?N = "n div 4096 + 1"
  have "n div 4096 < 2 ^ 47" using assms(12) by simp
  then have sz: "unat ?sz = ?N" by (subst unat_add_small) (simp_all add: n_def unat_div)
  then have sz': "of_nat ?N = ?sz" by (metis of_nat_unat ucast_id)
  have N: "unat v + ?N * 4096 \<le> 2 ^ 47" using assms(12) by simp
  have n: "unat v + n < 2 ^ 47" using assms(12) div_mult_mod_eq [of n 4096] mod_less_divisor [of 4096 n] by (simp add: algebra_simps)
  have "?N = (if ?sz = 0 then 1 else unat ?sz)" using sz by auto
  from alloc_page_left [OF assms(9-11) this N, of 0] assms(13) obtain t F
    where t: "alloc_page v ?sz (pg s) = Some (v, t)" "grows (pg s) t" "pages_added (pg s) v ?N F t" by auto
  have all: "(\<forall>x. unat v \<le> unat x \<and> unat x < unat v + n \<longrightarrow> translate t x \<noteq> None) \<longleftrightarrow> unat v mod 4096 + n \<le> ?N * 4096"
    using range_covered [OF t(3) N n] assms(7,14) by simp
  have "bytes_mapped t v f \<longleftrightarrow> (\<forall>x. unat v \<le> unat x \<and> unat x < unat v + f \<longrightarrow> translate t x \<noteq> None)"
    by (rule bytes_mapped_range) (use n assms(8) in simp)
  also have "\<dots> \<longleftrightarrow> f = 0 \<or> unat v mod 4096 + f \<le> ?N * 4096"
    by (rule range_covered [OF t(3) N]) (use n assms(8,14) in auto)
  finally have dest: "bytes_mapped t v f \<longleftrightarrow> f = 0 \<or> unat v mod 4096 + f \<le> ?N * 4096" .
  have at: "unat (src + of_nat i) = unat src + i" if "i < f" for i
    using that assms(15) by (subst unat_add_small) (simp_all add: unat_of_nat)
  have "translate t (src + of_nat i) \<noteq> None" if i: "i < f" for i
  proof (rule pages_added_keeps [OF t(3)])
    show "addr_pml4 (src + of_nat i) \<noteq> 511" by (rule low_pml4) (use at [OF i] i assms(15) in simp)
    show "translate (pg s) (src + of_nat i) \<noteq> None" using assms(16) i by (simp add: bytes_mapped_def)
  qed
  then have from_src: "bytes_mapped t src f" by (simp add: bytes_mapped_def)
  have apart: "v + of_nat j \<noteq> src + of_nat l" if "j < l" "l < f" for j l
  proof
    assume eq: "v + of_nat j = src + of_nat l"
    have "unat (v + of_nat j) = unat v + j" using that n assms(8) by (subst unat_add_small) (simp_all add: unat_of_nat)
    then have "translate (pg s) (src + of_nat l) = None" using assms(8,14) that unfolding eq by auto
    moreover have "translate (pg s) (src + of_nat l) \<noteq> None" using assms(16) that unfolding bytes_mapped_def by blast
    ultimately show False by contradiction
  qed
  have copy: "memcpy v src f m x = (if in_range v f x then m (src + (x - v)) else m x)" for m x
    unfolding memcpy_def using copy_up_at [of 0 f v src m x] apart n assms(8) by (simp add: in_range_def)
  have run: "load_segment buffer ph s =
      map_option (\<lambda>m'. (True, s\<lparr>pg := t, fs := set_mem m' (fs s)\<rparr>)) (checked_memcpy t v src f (pmemory s))"
    using t(1) assms(5,6) unfolding load_segment_def Let_def v_def f_def src_def
    by (cases "checked_memcpy t (p_vaddr (pmemory s) ph) (buffer + p_offset (pmemory s) ph) (unat (p_filesz (pmemory s) ph)) (pmemory s)")
      simp_all
  have "if f = 0 \<or> unat v mod 4096 + f \<le> ?N * 4096
     then \<exists>s'. load_segment buffer ph s = Some (True, s') \<and> pg s' = t \<and>
       (\<forall>x. pmemory s' x = (if in_range v f x then pmemory s (src + (x - v)) else pmemory s x))
     else load_segment buffer ph s = None"
    unfolding run checked_memcpy_def dest using from_src by (simp add: set_mem_def copy)
  then show ?thesis using t(1,2) all unfolding sz' by (auto simp: grows_def)
qed

text \<open>A program header for two bytes at the end of a page, which are in a page at \<open>0x3000\<close>.\<close>

definition sample_process :: "vm \<Rightarrow> process" where
  "sample_process v = \<lparr>
     fs = set_mem (store_u32 (store_u64 (store_u64 (store_u64 (store_u64 (\<lambda>_. 0) 0x2020 2) 0x2008 0x2000) 0x2028 2) 0x2010 0x400FFF) 0x2000 1) sample_fs,
     pg = v\<rparr>"

lemma sample_process_header:
  "p_type (pmemory (sample_process v)) 0x2000 = 1" "p_vaddr (pmemory (sample_process v)) 0x2000 = 0x400FFF"
  "p_memsz (pmemory (sample_process v)) 0x2000 = 2" "p_filesz (pmemory (sample_process v)) 0x2000 = 2"
  "p_offset (pmemory (sample_process v)) 0x2000 = 0x2000" "pg (sample_process v) = v"
proof -
  have d: "disjoint_ranges 0x2000 4 0x2010 8" "disjoint_ranges 0x2000 4 0x2028 8" "disjoint_ranges 0x2010 8 0x2028 8"
    "disjoint_ranges 0x2000 4 0x2020 8" "disjoint_ranges 0x2000 4 0x2008 8" "disjoint_ranges 0x2010 8 0x2020 8"
    "disjoint_ranges 0x2010 8 0x2008 8" "disjoint_ranges 0x2028 8 0x2020 8" "disjoint_ranges 0x2028 8 0x2008 8"
    "disjoint_ranges 0x2008 8 0x2020 8"
    by (rule disjoint_rangesI; simp)+
  show "p_type (pmemory (sample_process v)) 0x2000 = 1" "p_vaddr (pmemory (sample_process v)) 0x2000 = 0x400FFF"
    "p_memsz (pmemory (sample_process v)) 0x2000 = 2" "p_filesz (pmemory (sample_process v)) 0x2000 = 2"
    "p_offset (pmemory (sample_process v)) 0x2000 = 0x2000" "pg (sample_process v) = v"
    by (simp_all add: sample_process_def set_mem_def p_type_def p_vaddr_def p_memsz_def p_filesz_def p_offset_def loads_other d)
qed

theorem load_segment_coverage_witness:
  "\<exists>v. translate v 0x3000 \<noteq> None \<and> load_segment 0x1000 0x2000 (sample_process v) = None"
proof -
  have low: "translate sample_vm x = None" if "unat x < 2 ^ 47" for x :: u64
  proof -
    have "addr_pml4 x \<noteq> 511" by (rule low_pml4) (use that in simp)
    then show ?thesis using sample_vm_table [of "va_path x"] valid_va [of x] translate_table [of sample_vm x]
      by (cases "table sample_vm (va_path x)") (simp_all add: va_path_def)
  qed
  have "can_alloc (4 * 1 + 8) (mm sample_vm)"
    using can_alloc_enough [of "mm sample_vm" 12] vm_invD(1,2) [OF sample_vm_inv(1)] sample_vm_free by simp
  then obtain v F where v: "grows sample_vm v" "pages_added sample_vm 0x3000 1 F v" "can_alloc 8 (mm v)"
    using alloc_page_left [of sample_vm 1 1 "0x3000" 8] sample_vm_inv by auto
  have at: "va_path (0x3000 + of_nat i) = va_path 0x3000" if "i < 2" for i
    by (rule va_path_same_page) (use that less_2_cases [of i] in auto)
  have mapped: "translate v (0x3000 + of_nat i) \<noteq> None" if "i < 2" for i
    using v(2) at [OF that] by (simp add: pages_added_def translate_def)
  have none: "translate v x = None" if x: "0x400FFF \<le> unat x" "unat x < 0x400FFF + 2" for x
  proof -
    have "addr_pml4 x \<noteq> 511" by (rule low_pml4) (use x in simp)
    moreover have "va_path x \<noteq> va_path 0x3000" by (rule va_path_neq) (use x in simp_all)
    ultimately show ?thesis using v(2) low [of x] x by (simp add: pages_added_def)
  qed
  have g: "vm_inv v" "free_zeroed v" "root v = entry_frame (cr3 v)" using v(1) sample_vm_root by (simp_all add: grows_def)
  have b: "bytes_mapped v (0x1000 + 0x2000) 2" using mapped by (simp add: bytes_mapped_def)
  have "\<exists>t :: vm. load_segment 0x1000 0x2000 (sample_process v) = None"
    using load_segment_coverage [of "sample_process v" "0x2000" "0x1000", unfolded sample_process_header]
      g can_alloc_le [OF _ v(3), of 4] none b by fastforce
  then show ?thesis using mapped [of 0] by auto
qed

end
