(* ===== verification/Shell.thy ===== *)
theory Shell
  imports CLib
begin

text \<open>
  The shell of \<open>user/shell.c\<close>: \<open>token\<close>, which takes a word out of the line, and one round of
  the loop of \<open>main_loop\<close>. \<open>token\<close> is compared with the words of the line as a list;
  a round is described by the system calls it makes.
\<close>

section \<open>Words of a line\<close>

text \<open>
  The result is \<open>start\<close>, \<open>end\<close> and \<open>words\<close> behind the loop. \<open>strlen\<close> is called
  before every round and counts the terminator; the comparison is signed, as \<open>size_t\<close> is \<open>long\<close>.
\<close>

partial_function (option) token_loop ::
  "memory \<Rightarrow> u64 \<Rightarrow> int \<Rightarrow> nat \<Rightarrow> bool \<Rightarrow> nat \<Rightarrow> nat \<Rightarrow> int \<Rightarrow> (nat \<times> nat \<times> int) option" where
  "token_loop m str num i in_word start en words =
     (case strlen m str of
        None \<Rightarrow> None
      | Some len \<Rightarrow>
          if int i < sint (len + 1) then
            let c = m (str + of_nat i) in
            if c = 0 \<or> c = 10 \<or> c = 32 then
              let (in_word', en', words') = (if in_word then (False, i, words + 1) else (in_word, en, words)) in
              if c = 0 \<or> c = 10 \<or> words' = num then Some (start, en', words')
              else token_loop m str num (Suc i) in_word' start en' words'
            else
              let (in_word', start') = (if \<not> in_word then (True, i) else (in_word, start)) in
              if words = num then Some (start', en, words)
              else token_loop m str num (Suc i) in_word' start' en words
          else Some (start, en, words))"

text \<open>The first component of the result is the address returned; \<open>sizeof(token)\<close> is 8.\<close>

definition token :: "u64 \<Rightarrow> int \<Rightarrow> u64 \<Rightarrow> memory \<Rightarrow> (u64 \<times> memory) option" where
  "token str num tok m =
     (if num = 0 then Some (0, m)
      else case token_loop m str num 0 False 0 0 0 of
             None \<Rightarrow> None
           | Some (start, en, words) \<Rightarrow>
               if words \<noteq> num then Some (tok, memset tok 0 8 m)
               else let len = en - start in
                 Some (tok, (strncpy tok (str + of_nat start) len m)(tok + of_nat len := 0)))"

section \<open>A round of the main loop\<close>

datatype shell_call = Readline u64 | Puts_literal string | Puts u64 | Fork | Exec u64 | Exit

datatype shell_end = Running | Stopped | Gone

text \<open>
  The arguments after the line are the addresses of \<open>command\<close>, \<open>args[0]\<close> and of the literals
  EXIT and EXEC; \<open>child\<close> tells whether fork returns 0, and \<open>exec_result\<close> is what exec returns,
  if it does. The calls are those the process makes, \<open>Stopped\<close> is \<open>running = 0\<close>, and \<open>Gone\<close>
  that the process runs another program or has exited.
\<close>

definition main_loop_round ::
  "u64 \<Rightarrow> u64 \<Rightarrow> u64 \<Rightarrow> u64 \<Rightarrow> u64 \<Rightarrow> bool \<Rightarrow> u64 option \<Rightarrow> memory \<Rightarrow> (shell_call list \<times> shell_end \<times> memory) option" where
  "main_loop_round line command arg exit_name exec_name child exec_result m =
     (case token line 1 command (memset arg 0 81 (memset command 0 81 m)) of None \<Rightarrow> None | Some (_, m1) \<Rightarrow>
      case token line 2 arg m1 of None \<Rightarrow> None | Some (_, m2) \<Rightarrow>
      case strlen m2 command of None \<Rightarrow> None | Some n1 \<Rightarrow>
      case strlen m2 arg of None \<Rightarrow> None | Some n2 \<Rightarrow>
      let say1 = (if sint n1 > 1 then [Puts_literal ''The command is '', Puts command, Puts_literal [CHR 0x0A]] else []);
          say2 = (if sint n2 > 1 then [Puts_literal ''The first parameter is '', Puts arg, Puts_literal [CHR 0x0A]] else []);
          leave = command \<noteq> 0 \<and> strncmp m2 command exit_name (unat n1) \<noteq> 0;
          say3 = (if leave then [Puts_literal (''Exit command'' @ [CHR 0x0A])] else []);
          run = command \<noteq> 0 \<and> arg \<noteq> 0 \<and> strncmp m2 command exec_name (unat n1) \<noteq> 0;
          stay = (if leave then Stopped else Running);
          (last, how) =
            (if \<not> run then ([], stay)
             else if \<not> child then ([Fork], stay)
             else case exec_result of
                    None \<Rightarrow> ([Fork, Exec arg], Gone)
                  | Some r \<Rightarrow> if r = 0 then ([Fork, Exec arg, Puts_literal (''Error.'' @ [CHR 0x0A]), Exit], Gone)
                              else ([Fork, Exec arg], stay))
      in Some (say1 @ say2 @ say3 @ last, how, m2))"

section \<open>The words as a list\<close>

text \<open>The words of a line, separated by blanks; the line ends at its newline.\<close>

function words_of :: "u8 list \<Rightarrow> u8 list list" where
  "words_of [] = []"
| "words_of (c # cs) =
     (if c = 32 then words_of cs
      else takeWhile (\<lambda>c. c \<noteq> 32) (c # cs) # words_of (dropWhile (\<lambda>c. c \<noteq> 32) cs))"
  by pat_completeness auto
termination
  by (relation "measure length") (auto simp: le_imp_less_Suc length_dropWhile_le)

definition words_of_line :: "u8 list \<Rightarrow> u8 list list" where
  "words_of_line xs = words_of (takeWhile (\<lambda>c. c \<noteq> 10) xs)"

lemma words_of_word:
  assumes "pre \<noteq> []" "32 \<notin> set pre"
  shows "words_of pre = [pre]" "words_of (pre @ 32 # ys) = pre # words_of ys"
proof -
  obtain c cs where pre: "pre = c # cs" "c \<noteq> 32" "\<forall>x \<in> set cs. x \<noteq> 32"
    using assms by (cases pre) auto
  then have "takeWhile (\<lambda>c. c \<noteq> 32) cs = cs" "dropWhile (\<lambda>c. c \<noteq> 32) cs = []"
    "takeWhile (\<lambda>c. c \<noteq> 32) (cs @ 32 # ys) = cs" "dropWhile (\<lambda>c. c \<noteq> 32) (cs @ 32 # ys) = 32 # ys"
    by (auto simp: takeWhile_append2 dropWhile_append2)
  note eqs = this
  show "words_of pre = [pre]" "words_of (pre @ 32 # ys) = pre # words_of ys"
    using pre(2) by (simp_all add: pre(1) eqs)
qed

section \<open>The loop finds the word\<close>

text \<open>The word with number \<open>k\<close>, from 1, if there is one.\<close>

definition nth_word :: "u8 list list \<Rightarrow> int \<Rightarrow> u8 list option" where
  "nth_word ws k = (if 0 < k \<and> k \<le> int (length ws) then Some (ws ! (nat k - 1)) else None)"

lemma nth_word_Cons: "k \<noteq> 1 \<Longrightarrow> nth_word (w # ws) k = nth_word ws (k - 1)"
proof -
  assume "k \<noteq> 1"
  moreover have "nat k - 1 = Suc (nat (k - 1) - 1)" if "1 < k" using that by simp
  ultimately show ?thesis by (auto simp: nth_word_def)
qed

lemma nth_word_0 [simp]: "nth_word ws 0 = None"
  by (simp add: nth_word_def)

lemma nth_word_1 [simp]: "nth_word (w # ws) 1 = Some w"
  by (simp add: nth_word_def)

lemma nth_word_Nil [simp]: "nth_word [] k = None"
  by (simp add: nth_word_def)

text \<open>What the loop answers when \<open>w\<close> words are behind it and \<open>ws\<close> before it.\<close>

definition found :: "u8 list \<Rightarrow> int \<Rightarrow> int \<Rightarrow> u8 list list \<Rightarrow> (nat \<times> nat \<times> int) option \<Rightarrow> bool" where
  "found xs num w ws r \<longleftrightarrow>
     (case r of
        None \<Rightarrow> False
      | Some (start, en, words) \<Rightarrow>
          (case nth_word ws (num - w) of
             None \<Rightarrow> words \<noteq> num
           | Some wd \<Rightarrow> words = num \<and> en \<le> length xs \<and> start \<le> en \<and> take (en - start) (drop start xs) = wd))"

definition pending :: "u8 list \<Rightarrow> bool \<Rightarrow> nat \<Rightarrow> nat \<Rightarrow> u8 list" where
  "pending xs in_word start i = (if in_word then take (i - start) (drop start xs) else [])"

lemma pending_None [simp]: "pending xs False start i = []"
  by (simp add: pending_def)

lemma found_None: "found xs num w [] (Some (start, en, w)) \<longleftrightarrow> w \<noteq> num"
  by (simp add: found_def)

lemma found_next: "w + 1 \<noteq> num \<Longrightarrow> found xs num w (wd # ws) r = found xs num (w + 1) ws r"
proof -
  assume "w + 1 \<noteq> num"
  then have "nth_word (wd # ws) (num - w) = nth_word ws (num - (w + 1))"
    using nth_word_Cons [of "num - w" wd ws] by (simp add: diff_diff_eq)
  then show ?thesis by (simp only: found_def)
qed

lemma token_loop_found:
  assumes "cstr m str xs" "length xs < 2 ^ 30" "w \<noteq> num" "i \<le> length xs"
    "in_word \<longrightarrow> start < i \<and> 32 \<notin> set (pending xs in_word start i)"
  shows "found xs num w (words_of (pending xs in_word start i @ takeWhile (\<lambda>c. c \<noteq> 10) (drop i xs)))
    (token_loop m str num i in_word start en w)"
  using assms
proof (induction "length xs - i" arbitrary: i in_word start en w rule: less_induct)
  case less
  let ?c = "m (str + of_nat i)"
  let ?pre = "pending xs in_word start i"
  let ?ys = "takeWhile (\<lambda>c. c \<noteq> 10) (drop i xs)"
  have len: "strlen m str = Some (of_nat (length xs) + 1)" by (rule strlen_counts_terminator [OF less.prems(1)])
  have "of_nat (length xs) + 1 + 1 = (of_nat (length xs + 2) :: u64)" by simp
  then have bound: "sint (of_nat (length xs) + 1 + 1 :: u64) = int (length xs) + 2"
    using sint_of_nat_small [of "length xs + 2", where ?'a = 64] less.prems(2) by simp
  have in_bound: "int i < sint (of_nat (length xs) + 1 + 1 :: u64)" using less.prems(4) bound by simp
  note step = token_loop.simps [of m str num i in_word start en w, unfolded len option.case if_P [OF in_bound] Let_def]
  have c: "?c = (if i < length xs then xs ! i else 0)" by (rule cstr_nth [OF less.prems(1,4)])
  have word: "?pre \<noteq> []" "length ?pre = i - start" if in_word
    using that less.prems(4,5) by (auto simp: pending_def)
  show ?case
  proof (cases "?c = 0 \<or> ?c = 10")
    case True
    then have ys: "?ys = []"
      using c cstr_nonzero [OF less.prems(1), of "xs ! i"] less.prems(4)
      by (cases "i < length xs") (auto simp: Cons_nth_drop_Suc [symmetric])
    show ?thesis
    proof (cases in_word)
      case True
      have run: "token_loop m str num i in_word start en w = Some (start, i, w + 1)"
        using True \<open>?c = 0 \<or> ?c = 10\<close> by (subst step) auto
      have "words_of (?pre @ ?ys) = [?pre]" using words_of_word(1) [of ?pre] word True less.prems(5) ys by simp
      then show ?thesis unfolding run
        using True less.prems(4,5) found_next [of w num xs ?pre "[]" "Some (start, i, w + 1)"]
        by (cases "w + 1 = num") (auto simp: found_def pending_def)
    next
      case False
      have run: "token_loop m str num i in_word start en w = Some (start, en, w)"
        using False \<open>?c = 0 \<or> ?c = 10\<close> by (subst step) auto
      then show ?thesis using False ys less.prems(3) by (simp add: pending_def found_None)
    qed
  next
    case not_end: False
    then have i: "i < length xs" and ci: "?c = xs ! i" using c by (auto split: if_splits)
    have drop: "drop i xs = ?c # drop (Suc i) xs" using i ci by (simp add: Cons_nth_drop_Suc)
    let ?zs = "takeWhile (\<lambda>c. c \<noteq> 10) (drop (Suc i) xs)"
    have ys: "?ys = ?c # ?zs" using not_end by (simp add: drop)
    note ih = less.hyps [OF _ less.prems(1,2)]
    have smaller: "length xs - Suc i < length xs - i" using i by simp
    show ?thesis
    proof (cases "?c = 32")
      case blank: True
      show ?thesis
      proof (cases in_word)
        case True
        have ws: "words_of (?pre @ ?ys) = ?pre # words_of ?zs"
          using words_of_word(2) [of ?pre ?zs] word True less.prems(5) ys blank by simp
        show ?thesis
        proof (cases "w + 1 = num")
          case wn: True
          have run: "token_loop m str num i in_word start en w = Some (start, i, w + 1)"
            using True blank wn by (subst step) auto
          show ?thesis unfolding run ws
            using True wn less.prems(4,5) by (auto simp: found_def pending_def)
        next
          case wn: False
          have run: "token_loop m str num i in_word start en w = token_loop m str num (Suc i) False start i (w + 1)"
            using True blank wn not_end by (subst step) (auto simp del: of_nat_Suc)
          show ?thesis unfolding run ws found_next [OF wn]
            using ih [OF smaller wn, of False start i] i by (simp add: pending_def)
        qed
      next
        case False
        have run: "token_loop m str num i in_word start en w = token_loop m str num (Suc i) False start en w"
          using False blank not_end less.prems(3) by (subst step) (auto simp del: of_nat_Suc)
        show ?thesis unfolding run ys using False blank ih [OF smaller less.prems(3), of False start en] i
          by (simp add: pending_def)
      qed
    next
      case letter: False
      let ?start = "if in_word then start else i"
      have run: "token_loop m str num i in_word start en w = token_loop m str num (Suc i) True ?start en w"
        using letter not_end less.prems(3) by (subst step) (auto simp del: of_nat_Suc)
      have pre: "pending xs True ?start (Suc i) = ?pre @ [?c]"
      proof (cases in_word)
        case True
        then have "Suc i - start = Suc (i - start)" "i - start < length (drop start xs)" "drop start xs ! (i - start) = ?c"
          using less.prems(5) i ci by auto
        with True show ?thesis by (simp add: pending_def take_Suc_conv_app_nth)
      qed (simp add: pending_def drop)
      show ?thesis unfolding run using ih [OF smaller less.prems(3), of True ?start en] less.prems(5) letter i
        by (auto simp: pre ys)
    qed
  qed
qed

text \<open>A word is copied out of the line and closed.\<close>

lemma copy_word:
  assumes "cstr m str xs" "start \<le> en" "en \<le> length xs" "length xs < 2 ^ 30"
    and "disjoint_ranges tok (Suc (length xs)) str (Suc (length xs))"
  defines "wd \<equiv> take (en - start) (drop start xs)"
    and "m' \<equiv> (strncpy tok (str + of_nat start) (en - start) m)(tok + of_nat (en - start) := 0)"
  shows "cstr m' tok wd" "\<not> in_range tok (Suc (length xs)) x \<Longrightarrow> m' x = m x"
proof -
  let ?len = "en - start"
  have src: "cstr m (str + of_nat start) (drop start xs)"
    using assms(1-3) by (auto simp: cstr_iff add.assoc simp flip: of_nat_add)
  have out: "\<not> in_range (str + of_nat start) (Suc (length (drop start xs))) (tok + of_nat j)" if j: "j < ?len" for j
  proof
    assume "in_range (str + of_nat start) (Suc (length (drop start xs))) (tok + of_nat j)"
    then have "in_range str (Suc (length xs)) (tok + of_nat j)"
      by (rule in_range_shift) (use assms(2-4) in simp_all)
    moreover have "in_range tok (Suc (length xs)) (tok + of_nat j)" using j assms(3,4) by (intro in_range_add) simp_all
    ultimately show False using assms(5) by (auto simp: disjoint_ranges_def)
  qed
  have copy: "strncpy tok (str + of_nat start) ?len m x =
      (if unat (x - tok) < ?len then drop start xs ! unat (x - tok) else m x)" for x
    using strncpy_loop_at [of m "str + of_nat start" 0 "drop start xs" ?len tok x] src out assms(2-4)
    by (auto simp: strncpy_def)
  have len: "length wd = ?len" using assms(2,3) by (simp add: wd_def)
  have pos: "unat (tok + of_nat i - tok) = i" if "i \<le> ?len" for i
    using that assms(3,4) by (simp add: unat_of_nat_small)
  have neq: "tok + of_nat i \<noteq> tok + of_nat ?len" if "i < ?len" for i
    using pos [of i] pos [of ?len] that by (metis less_imp_le_nat less_irrefl order_refl)
  show "cstr m' tok wd"
  proof (rule cstrI, unfold len)
    show "m' (tok + of_nat i) = wd ! i" if "i < ?len" for i
      using copy [of "tok + of_nat i"] pos [of i] neq [OF that] that assms(2,3) by (simp add: m'_def wd_def)
    show "\<forall>c \<in> set wd. c \<noteq> 0"
      using cstr_nonzero [OF assms(1)] by (auto simp: wd_def dest!: in_set_takeD in_set_dropD)
    show "m' (tok + of_nat ?len) = 0" by (simp add: m'_def)
  qed
  show "m' x = m x" if "\<not> in_range tok (Suc (length xs)) x"
  proof -
    have "x \<noteq> tok + of_nat ?len" using that pos [of ?len] assms(3) by (auto simp: in_range_def)
    moreover have "\<not> unat (x - tok) < en - start" using that assms(3) by (simp add: in_range_def)
    ultimately show ?thesis using copy [of x] by (simp add: m'_def)
  qed
qed

text \<open>What the caller finds in its buffer.\<close>

definition word_at :: "u8 list \<Rightarrow> int \<Rightarrow> u8 list" where
  "word_at xs k = (case nth_word (words_of_line xs) k of None \<Rightarrow> [] | Some wd \<Rightarrow> wd)"

lemma token_spec:
  assumes "cstr m str xs" "length xs < 2 ^ 30" "num \<noteq> 0"
    and "disjoint_ranges tok (max 8 (Suc (length xs))) str (Suc (length xs))"
  obtains m' where "token str num tok m = Some (tok, m')" "cstr m' tok (word_at xs num)"
    "\<And>x. \<not> in_range tok (max 8 (Suc (length xs))) x \<Longrightarrow> m' x = m x"
proof -
  have f: "found xs num 0 (words_of_line xs) (token_loop m str num 0 False 0 0 0)"
    using token_loop_found [of m str xs 0 num 0 False 0 0] assms(1-3) by (simp add: words_of_line_def)
  then obtain start en words where r: "token_loop m str num 0 False 0 0 0 = Some (start, en, words)"
    by (cases "token_loop m str num 0 False 0 0 0") (auto simp: found_def)
  show thesis
  proof (cases "words = num")
    case True
    with f r have w: "start \<le> en" "en \<le> length xs" "word_at xs num = take (en - start) (drop start xs)"
      by (auto simp: found_def word_at_def split: option.splits)
    have "disjoint_ranges tok (Suc (length xs)) str (Suc (length xs))"
      using assms(4) by (auto simp: disjoint_ranges_def in_range_def)
    note c = copy_word [OF assms(1) w(1,2) assms(2) this]
    let ?m = "(strncpy tok (str + of_nat start) (en - start) m)(tok + of_nat (en - start) := 0)"
    have "token str num tok m = Some (tok, ?m)" using True r assms(3) by (simp add: token_def Let_def)
    then show thesis
      by (rule that) (use c w(3) in \<open>auto simp: in_range_def\<close>)
  next
    case False
    with f r have "word_at xs num = []" by (auto simp: found_def word_at_def split: option.splits)
    moreover have "memset tok 0 8 m tok = 0" by (simp add: memset_at in_range_def)
    ultimately show thesis
      by (intro that [of "memset tok 0 8 m"]) (use False r assms(3) in \<open>auto simp: token_def memset_at in_range_def\<close>)
  qed
qed

text \<open>
  C26: \<open>token\<close> gives the word with the number asked for, as splitting the line at its blanks up to its
  newline does, and an empty string when the line has fewer words or the number is negative; with number 0 it
  returns a null pointer. It writes as many bytes as the line has, or the 8 of a pointer.
\<close>

theorem token_gives_word:
  assumes "cstr m str xs" "length xs < 2 ^ 30"
    and "disjoint_ranges tok (max 8 (Suc (length xs))) str (Suc (length xs))"
  shows "if num = 0 then token str num tok m = Some (0, m)
    else \<exists>m'. token str num tok m = Some (tok, m') \<and> cstr m' tok (word_at xs num) \<and>
           {x. m' x \<noteq> m x} \<subseteq> {x. in_range tok (max 8 (Suc (length xs))) x}"
proof (cases "num = 0")
  case False
  obtain m' where "token str num tok m = Some (tok, m')" "cstr m' tok (word_at xs num)"
    "\<And>x. \<not> in_range tok (max 8 (Suc (length xs))) x \<Longrightarrow> m' x = m x"
    using token_spec [OF assms(1,2) False assms(3)] by blast
  with False show ?thesis by auto
qed (simp add: token_def)

theorem token_gives_word_witness:
  "\<exists>m'. token 0x10 2 0x40 ((\<lambda>_. 0)(0x10 := 65, 0x11 := 32, 0x12 := 66, 0x13 := 10)) = Some (0x40, m') \<and> m' 0x40 = 66"
proof -
  let ?m = "(\<lambda>_. 0)(0x10 := 65, 0x11 := 32, 0x12 := 66, 0x13 := 10) :: memory"
  have "disjoint_ranges 0x40 (max 8 (Suc (length [65, 32, 66, 10 :: u8]))) 0x10 (Suc (length [65, 32, 66, 10 :: u8]))"
    by (rule disjoint_rangesI) auto
  moreover have "word_at [65, 32, 66, 10] 2 = [66]" by (simp add: word_at_def nth_word_def words_of_line_def)
  ultimately show ?thesis using token_gives_word [of ?m "0x10" "[65, 32, 66, 10]" "0x40" 2] by auto
qed

section \<open>A round\<close>

definition EXIT_word :: "u8 list" where
  "EXIT_word = map of_char ''EXIT''"

definition EXEC_word :: "u8 list" where
  "EXEC_word = map of_char ''EXEC''"

lemma literals: "EXIT_word \<noteq> EXEC_word" "length EXIT_word < 5" "length EXEC_word < 5"
  by (simp_all add: EXIT_word_def EXEC_word_def)

text \<open>The buffers of the frame and the literals do not overlap.\<close>

definition shell_frame :: "u64 \<Rightarrow> u64 \<Rightarrow> u64 \<Rightarrow> u64 \<Rightarrow> u64 \<Rightarrow> bool" where
  "shell_frame line command arg exit_name exec_name \<longleftrightarrow>
     command \<noteq> 0 \<and> arg \<noteq> 0 \<and> disjoint_ranges command 81 arg 81 \<and>
     disjoint_ranges command 81 line 81 \<and> disjoint_ranges arg 81 line 81 \<and>
     disjoint_ranges command 81 exit_name 5 \<and> disjoint_ranges arg 81 exit_name 5 \<and>
     disjoint_ranges command 81 exec_name 5 \<and> disjoint_ranges arg 81 exec_name 5"

text \<open>Comparing as many characters as \<open>strlen\<close> counts decides equality.\<close>

lemma strncmp_strlen:
  assumes "cstr m a w" "cstr m b v"
  shows "strncmp m a b (Suc (length w)) = (if w = v then 1 else 0)"
proof -
  have "take (Suc (length w)) v = w \<longleftrightarrow> w = v"
    by (metis append_take_drop_id le_SucI length_take linorder_not_le min.absorb4 n_not_Suc_n nat_less_le
      not_less_eq_eq order_refl take_all_iff)
  then show ?thesis using strncmp_loop_cstr [of m a 0 w b v "Suc (length w)"] assms by (auto simp: strncmp_def)
qed

lemma length_words_of: "w \<in> set (words_of ys) \<Longrightarrow> length w \<le> length ys"
proof (induction ys rule: words_of.induct)
  case (2 c cs)
  have "length (takeWhile (\<lambda>c. c \<noteq> 32) cs) \<le> length cs" "length (dropWhile (\<lambda>c. c \<noteq> 32) cs) \<le> length cs"
    by (simp_all add: length_takeWhile_le length_dropWhile_le)
  with 2 show ?case by (auto split: if_splits)
qed simp

lemma length_word_at: "length (word_at xs k) \<le> length xs"
proof -
  have "length w \<le> length xs" if "w \<in> set (words_of_line xs)" for w
    using length_words_of [OF that [unfolded words_of_line_def]] length_takeWhile_le [of "\<lambda>c. c \<noteq> 10" xs] by linarith
  then show ?thesis by (auto simp: word_at_def nth_word_def)
qed

text \<open>The calls a round makes for the first two words of its line.\<close>

definition calls_for :: "u64 \<Rightarrow> u64 \<Rightarrow> bool \<Rightarrow> u64 option \<Rightarrow> u8 list \<Rightarrow> u8 list \<Rightarrow> shell_call list" where
  "calls_for command arg child exec_result w1 w2 =
     (if w1 = [] then [] else [Puts_literal ''The command is '', Puts command, Puts_literal [CHR 0x0A]]) @
     (if w2 = [] then [] else [Puts_literal ''The first parameter is '', Puts arg, Puts_literal [CHR 0x0A]]) @
     (if w1 = EXIT_word then [Puts_literal (''Exit command'' @ [CHR 0x0A])] else []) @
     (if w1 \<noteq> EXEC_word then []
      else if \<not> child then [Fork]
      else if exec_result = Some 0 then [Fork, Exec arg, Puts_literal (''Error.'' @ [CHR 0x0A]), Exit]
      else [Fork, Exec arg])"

text \<open>A string outside of a buffer of 81 bytes survives writing to it.\<close>

lemma cstr_kept:
  assumes "cstr m a w" "disjoint_ranges b 81 a k" "length w < k" "k \<le> 81" "\<And>x. \<not> in_range b 81 x \<Longrightarrow> m' x = m x"
  shows "cstr m' a w"
  using assms by (intro cstr_disjoint [OF assms(1-3) _ assms(5)]) simp_all

lemma shell_buffers:
  assumes "cstr m line xs" "length xs \<le> 80" "shell_frame line command arg exit_name exec_name"
    and "cstr m exit_name EXIT_word" "cstr m exec_name EXEC_word"
  obtains m1 m2 where "token line 1 command (memset arg 0 81 (memset command 0 81 m)) = Some (command, m1)"
    "token line 2 arg m1 = Some (arg, m2)" "cstr m2 command (word_at xs 1)" "cstr m2 arg (word_at xs 2)"
    "cstr m2 exit_name EXIT_word" "cstr m2 exec_name EXEC_word"
proof -
  let ?m = "memset arg 0 81 (memset command 0 81 m)"
  note f = assms(3) [unfolded shell_frame_def]
  have max: "max 8 (Suc (length xs)) \<le> 81" using assms(2) by simp
  have keep2: "cstr ?m a w" if "cstr m a w" "disjoint_ranges command 81 a k" "disjoint_ranges arg 81 a k"
    "length w < k" "k \<le> 81" for a k w
    by (rule cstr_kept [OF cstr_kept [OF that(1,2,4,5)] that(3,4,5)]) (simp_all add: memset_at)
  have m0: "cstr ?m line xs" "cstr ?m exit_name EXIT_word" "cstr ?m exec_name EXEC_word"
    using keep2 [of line xs 81] keep2 [of exit_name EXIT_word 5] keep2 [of exec_name EXEC_word 5] assms(1,2,4,5) f
      literals by simp_all
  have "disjoint_ranges command (max 8 (Suc (length xs))) line (Suc (length xs))"
    by (rule disjoint_ranges_sub [of _ 81 _ 81]) (use f assms(2) in simp_all)
  then obtain m1 where m1: "token line 1 command ?m = Some (command, m1)" "cstr m1 command (word_at xs 1)"
    "\<And>x. \<not> in_range command (max 8 (Suc (length xs))) x \<Longrightarrow> m1 x = ?m x"
    using token_spec [OF m0(1), of 1 command] assms(2) by auto
  have out1: "m1 x = ?m x" if "\<not> in_range command 81 x" for x
    using m1(3) [of x] that max by (simp add: in_range_def)
  have m1': "cstr m1 line xs" "cstr m1 exit_name EXIT_word" "cstr m1 exec_name EXEC_word"
    by (rule cstr_kept [OF m0(1), of command 81], use f assms(2) out1 in simp_all)
      (rule cstr_kept [OF m0(2), of command 5] cstr_kept [OF m0(3), of command 5], use f literals out1 in simp_all)+
  have "disjoint_ranges arg (max 8 (Suc (length xs))) line (Suc (length xs))"
    by (rule disjoint_ranges_sub [of _ 81 _ 81]) (use f assms(2) in simp_all)
  then obtain m2 where m2: "token line 2 arg m1 = Some (arg, m2)" "cstr m2 arg (word_at xs 2)"
    "\<And>x. \<not> in_range arg (max 8 (Suc (length xs))) x \<Longrightarrow> m2 x = m1 x"
    using token_spec [OF m1'(1), of 2 arg] assms(2) by auto
  have out2: "m2 x = m1 x" if "\<not> in_range arg 81 x" for x
    using m2(3) [of x] that max by (simp add: in_range_def)
  have ca: "disjoint_ranges arg 81 command 81" using f by (auto simp: disjoint_ranges_def)
  have w: "length (word_at xs 1) < 81" using length_word_at [of xs 1] assms(2) by simp
  have "cstr m2 command (word_at xs 1)" "cstr m2 exit_name EXIT_word" "cstr m2 exec_name EXEC_word"
    by (rule cstr_kept [OF m1(2) ca w _ out2], simp_all)
      (rule cstr_kept [OF m1'(2), of arg 5] cstr_kept [OF m1'(3), of arg 5], use f literals out2 in simp_all)+
  with m1(1) m2(1,2) show thesis by (intro that)
qed

lemma strlen_more_than_1: "length w \<le> 80 \<Longrightarrow> sint (of_nat (length w) + 1 :: u64) > 1 \<longleftrightarrow> w \<noteq> []"
proof -
  assume "length w \<le> 80"
  then have "sint (of_nat (Suc (length w)) :: u64) = int (Suc (length w))" by (intro sint_of_nat_small) simp
  then show ?thesis by (auto simp: add.commute)
qed

text \<open>
  For a line of at most 80 characters a round of the shell makes exactly the calls its first two words ask for: it
  shows them, leaves when the first is EXIT, and when it is EXEC forks and has the child load the program named by
  the second; the child exits when that returns 0. It ends the loop only for EXIT.
\<close>

definition round_end :: "bool \<Rightarrow> u64 option \<Rightarrow> u8 list \<Rightarrow> shell_end" where
  "round_end child exec_result w1 =
     (if w1 = EXIT_word then Stopped
      else if w1 = EXEC_word \<and> child \<and> (exec_result = None \<or> exec_result = Some 0) then Gone
      else Running)"

lemma main_loop_round_spec:
  assumes "cstr m line xs" "length xs \<le> 80" "shell_frame line command arg exit_name exec_name"
    and "cstr m exit_name EXIT_word" "cstr m exec_name EXEC_word"
  obtains m' where "main_loop_round line command arg exit_name exec_name child exec_result m =
      Some (calls_for command arg child exec_result (word_at xs 1) (word_at xs 2), round_end child exec_result (word_at xs 1), m')"
    "cstr m' command (word_at xs 1)" "cstr m' arg (word_at xs 2)" "cstr m' exit_name EXIT_word" "cstr m' exec_name EXEC_word"
proof -
  let ?w1 = "word_at xs 1" and ?w2 = "word_at xs 2"
  obtain m1 m2 where t: "token line 1 command (memset arg 0 81 (memset command 0 81 m)) = Some (command, m1)"
      "token line 2 arg m1 = Some (arg, m2)"
    and w: "cstr m2 command ?w1" "cstr m2 arg ?w2" "cstr m2 exit_name EXIT_word" "cstr m2 exec_name EXEC_word"
    using shell_buffers [OF assms] by blast
  have l: "length ?w1 \<le> 80" "length ?w2 \<le> 80" using length_word_at [of xs] assms(2) le_trans by blast+
  have n: "strlen m2 command = Some (of_nat (length ?w1) + 1)" "strlen m2 arg = Some (of_nat (length ?w2) + 1)"
    by (rule strlen_counts_terminator [OF w(1)], rule strlen_counts_terminator [OF w(2)])
  have u: "unat (of_nat (length ?w1) + 1 :: u64) = Suc (length ?w1)"
  proof -
    have "Suc (length ?w1) < 2 ^ LENGTH(64)" using l(1) by simp
    from unat_of_nat_small [OF this] show ?thesis by (simp add: add.commute)
  qed
  have exit: "command \<noteq> 0 \<and> strncmp m2 command exit_name (Suc (length ?w1)) \<noteq> 0 \<longleftrightarrow> ?w1 = EXIT_word"
    using strncmp_strlen [OF w(1,3)] assms(3) by (auto simp: shell_frame_def)
  have exec: "command \<noteq> 0 \<and> arg \<noteq> 0 \<and> strncmp m2 command exec_name (Suc (length ?w1)) \<noteq> 0 \<longleftrightarrow> ?w1 = EXEC_word"
    using strncmp_strlen [OF w(1,4)] assms(3) by (auto simp: shell_frame_def)
  have "main_loop_round line command arg exit_name exec_name child exec_result m =
      Some (calls_for command arg child exec_result ?w1 ?w2, round_end child exec_result ?w1, m2)"
    unfolding main_loop_round_def t n option.case prod.case u exit exec strlen_more_than_1 [OF l(1)] strlen_more_than_1 [OF l(2)]
      calls_for_def round_end_def Let_def
    using literals(1) by (cases "?w1 = EXIT_word"; cases "?w1 = EXEC_word"; cases child; cases exec_result) simp_all
  with w show thesis by (intro that)
qed

end
