(* ===== verification/Monitor.thy ===== *)
theory Monitor
  imports Memory
begin

text \<open>
  The text screen of \<open>kernel/monitor.c\<close>: cursor, scrolling, and the output of characters, strings
  and numbers. Every operation runs between \<open>lock(monitor_lock)\<close> and \<open>unlock(monitor_lock)\<close>
  (theory Locking); the definitions here are what happens in between.
\<close>

section \<open>State\<close>

text \<open>
  The cursor is two signed bytes. \<open>cells\<close> are the 16-bit words by their index from
  \<open>video_memory\<close> on, \<open>port_writes\<close> the calls of \<open>outb\<close>, the latest first, and \<open>tbuf\<close>
  the scratch array of \<open>itoa\<close>.
\<close>

record monitor =
  cursor_x :: u8
  cursor_y :: u8
  cells :: "int \<Rightarrow> u16"
  port_writes :: "(u16 \<times> u8) list"
  tbuf :: "u8 list"

definition monitor_reset :: monitor where
  "monitor_reset = \<lparr>cursor_x = 0, cursor_y = 0, cells = (\<lambda>_. 0), port_writes = [], tbuf = replicate 32 0\<rparr>"

abbreviation VGA_INDEX_PORT :: u16 where "VGA_INDEX_PORT \<equiv> 0x3D4"
abbreviation VGA_DATA_PORT :: u16 where "VGA_DATA_PORT \<equiv> 0x3D5"
abbreviation CURSOR_POSITION_HIGH :: u8 where "CURSOR_POSITION_HIGH \<equiv> 0xE"
abbreviation CURSOR_POSITION_LOW :: u8 where "CURSOR_POSITION_LOW \<equiv> 0xF"

text \<open>\<open>ATTR_BYTE(BLACK, WHITE)\<close>, shifted into the higher half.\<close>

definition ATTR_BYTE :: "u8 \<Rightarrow> u8 \<Rightarrow> u8" where
  "ATTR_BYTE bg fg = push_bit 4 bg OR (fg AND 0x0F)"

definition attribute :: u16 where
  "attribute = push_bit 8 (ucast (ATTR_BYTE 0 15))"

definition blank :: u16 where
  "blank = 0x20 OR attribute"

definition outb :: "u16 \<Rightarrow> u8 \<Rightarrow> monitor \<Rightarrow> monitor" where
  "outb port v s = s\<lparr>port_writes := (port, v) # port_writes s\<rparr>"

section \<open>The cursor and scrolling\<close>

definition cursor_location :: "monitor \<Rightarrow> u16" where
  "cursor_location s = of_int (sint (cursor_y s) * 80 + sint (cursor_x s))"

definition move_cursor :: "monitor \<Rightarrow> monitor" where
  "move_cursor s =
     outb VGA_DATA_PORT (ucast (cursor_location s))
      (outb VGA_INDEX_PORT CURSOR_POSITION_LOW
        (outb VGA_DATA_PORT (ucast (drop_bit 8 (cursor_location s)))
          (outb VGA_INDEX_PORT CURSOR_POSITION_HIGH s)))"

text \<open>The loops of \<open>scroll\<close> and \<open>clear_screen\<close>, with the iterations left and the index.\<close>

fun scroll_copy :: "nat \<Rightarrow> int \<Rightarrow> (int \<Rightarrow> u16) \<Rightarrow> (int \<Rightarrow> u16)" where
  "scroll_copy 0 i v = v"
| "scroll_copy (Suc k) i v = scroll_copy k (i + 1) (v(i := v (i + 80)))"

fun fill_blank :: "nat \<Rightarrow> int \<Rightarrow> (int \<Rightarrow> u16) \<Rightarrow> (int \<Rightarrow> u16)" where
  "fill_blank 0 i v = v"
| "fill_blank (Suc k) i v = fill_blank k (i + 1) (v(i := blank))"

definition scroll :: "monitor \<Rightarrow> monitor" where
  "scroll s =
     (if sint (cursor_y s) \<ge> 25
      then s\<lparr>cells := fill_blank 80 (24 * 80) (scroll_copy (80 * 24) 0 (cells s)), cursor_y := 24\<rparr>
      else s)"

definition clear_screen :: "monitor \<Rightarrow> monitor" where
  "clear_screen s = move_cursor (s\<lparr>cells := fill_blank (80 * 25) 0 (cells s), cursor_x := 0, cursor_y := 0\<rparr>)"

section \<open>Characters and strings\<close>

text \<open>\<open>char\<close> is signed, so a character from 0x80 on is not printable.\<close>

definition put_key :: "u8 \<Rightarrow> monitor \<Rightarrow> monitor" where
  "put_key c s =
     (if c = 0x08 \<and> cursor_x s \<noteq> 0 then s\<lparr>cursor_x := cursor_x s - 1\<rparr>
      else if c = 0x09 then s\<lparr>cursor_x := (cursor_x s + 8) AND NOT (8 - 1)\<rparr>
      else if c = 13 then s\<lparr>cursor_x := 0\<rparr>
      else if c = 10 then s\<lparr>cursor_x := 0, cursor_y := cursor_y s + 1\<rparr>
      else if sint c \<ge> 32
      then s\<lparr>cells := (cells s)(sint (cursor_y s) * 80 + sint (cursor_x s) := scast c OR attribute),
             cursor_x := cursor_x s + 1\<rparr>
      else s)"

definition putchar :: "u8 \<Rightarrow> monitor \<Rightarrow> monitor" where
  "putchar c s =
     (let s1 = put_key c s;
          s2 = (if sint (cursor_x s1) \<ge> 80 then s1\<lparr>cursor_x := 0, cursor_y := cursor_y s1 + 1\<rparr> else s1)
      in move_cursor (scroll s2))"

text \<open>\<open>puts\<close> returns when the string ends.\<close>

partial_function (option) puts_loop :: "memory \<Rightarrow> u64 \<Rightarrow> nat \<Rightarrow> monitor \<Rightarrow> monitor option" where
  "puts_loop m str i s =
     (if m (str + of_nat i) \<noteq> 0 then puts_loop m str (Suc i) (putchar (m (str + of_nat i)) s) else Some s)"

definition puts :: "memory \<Rightarrow> u64 \<Rightarrow> monitor \<Rightarrow> monitor option" where
  "puts m str s = (if str = 0 then Some s else puts_loop m str 0 s)"

section \<open>Numbers\<close>

text \<open>\<open>'0'\<close> to \<open>'9'\<close> and \<open>'A'\<close> to \<open>'F'\<close>.\<close>

definition bchars :: "u8 list" where
  "bchars = [48, 49, 50, 51, 52, 53, 54, 55, 56, 57, 65, 66, 67, 68, 69, 70]"

text \<open>The digits, the lowest first; \<open>None\<close> is a division by zero or a write behind the end of \<open>tbuf\<close>.\<close>

function itoa_digits :: "u64 \<Rightarrow> u64 \<Rightarrow> u8 list \<Rightarrow> nat \<Rightarrow> (u8 list \<times> nat) option" where
  "itoa_digits base i tb pos =
     (if i \<noteq> 0
      then if base = 0 \<or> length tb \<le> pos then None
           else itoa_digits base (i div base) (tb[pos := bchars ! unat (i mod base)]) (Suc pos)
      else Some (tb, pos))"
  by pat_completeness auto
termination
  by (relation "measure (\<lambda>(_, _, tb, pos). length tb - pos)") auto

text \<open>The copying loop: the first argument is \<open>pos + 1\<close>.\<close>

fun itoa_reverse :: "nat \<Rightarrow> nat \<Rightarrow> u8 list \<Rightarrow> u64 \<Rightarrow> memory \<Rightarrow> memory" where
  "itoa_reverse 0 opos tb buf m = m(buf + of_nat opos := 0)"
| "itoa_reverse (Suc pos) opos tb buf m = itoa_reverse pos (Suc opos) tb buf (m(buf + of_nat opos := tb ! pos))"

definition itoa :: "u64 \<Rightarrow> u32 \<Rightarrow> u64 \<Rightarrow> memory \<Rightarrow> monitor \<Rightarrow> (memory \<times> monitor) option" where
  "itoa i base buf m s =
     (if i = 0 \<or> base > 16 then Some (m(buf := 48, buf + 1 := 0), s)
      else map_option (\<lambda>(tb, pos). (itoa_reverse pos 0 tb buf m, s\<lparr>tbuf := tb\<rparr>))
             (itoa_digits (ucast base) i (tbuf s) 0))"

definition itoa_s :: "u64 \<Rightarrow> u32 \<Rightarrow> u64 \<Rightarrow> memory \<Rightarrow> monitor \<Rightarrow> (memory \<times> monitor) option" where
  "itoa_s i base buf m s =
     (if base > 16 then Some (m, s)
      else if sint i < 0 then itoa (- i) base (buf + 1) (m(buf := 45)) s
      else itoa i base buf m s)"

definition uitoa_s :: "u64 \<Rightarrow> u32 \<Rightarrow> u64 \<Rightarrow> memory \<Rightarrow> monitor \<Rightarrow> (memory \<times> monitor) option" where
  "uitoa_s i base buf m s = (if base > 16 then Some (m, s) else itoa i base buf m s)"

text \<open>The local array \<open>str\<close> of 32 zero bytes is on the stack, at the address given.\<close>

fun zero_bytes :: "nat \<Rightarrow> u64 \<Rightarrow> memory \<Rightarrow> memory" where
  "zero_bytes 0 a m = m"
| "zero_bytes (Suc k) a m = zero_bytes k (a + 1) (m(a := 0))"

definition putint :: "u64 \<Rightarrow> u64 \<Rightarrow> memory \<Rightarrow> monitor \<Rightarrow> (memory \<times> monitor) option" where
  "putint i str m s =
     (case itoa_s i 10 str (zero_bytes 32 str m) s of
        None \<Rightarrow> None
      | Some (m', s') \<Rightarrow> map_option (\<lambda>s''. (m', s'')) (puts m' str s'))"

definition puthex :: "u64 \<Rightarrow> u64 \<Rightarrow> memory \<Rightarrow> monitor \<Rightarrow> (memory \<times> monitor) option" where
  "puthex i str m s =
     (case uitoa_s i 16 (str + 2) ((zero_bytes 32 str m)(str := 48, str + 1 := 120)) s of
        None \<Rightarrow> None
      | Some (m', s') \<Rightarrow> map_option (\<lambda>s''. (m', s'')) (puts m' str s'))"

declare itoa_digits.simps [simp del]

end
