(* ===== verification/MonitorCorrect.thy ===== *)
theory MonitorCorrect
  imports Monitor CLib
begin

text \<open>
  The screen as the user sees it, 25 rows of 80 cells and a cursor, and that \<open>putchar\<close> and
  \<open>puts\<close> implement it; the numbers that \<open>putint\<close> and \<open>puthex\<close> show.
\<close>

section \<open>The terminal as the user sees it\<close>

type_synonym screen = "u16 list list \<times> nat \<times> nat"

fun line_feed :: "screen \<Rightarrow> screen" where
  "line_feed (rows, r, x) =
     (if r = 24 then (tl rows @ [replicate 80 blank], 24, 0) else (rows, r + 1, 0))"

text \<open>Behind the last column the cursor goes to the next line.\<close>

fun advance_to :: "nat \<Rightarrow> screen \<Rightarrow> screen" where
  "advance_to x' (rows, r, x) = (if x' < 80 then (rows, r, x') else line_feed (rows, r, x))"

fun show_char :: "u8 \<Rightarrow> screen \<Rightarrow> screen" where
  "show_char c (rows, r, x) =
     (if c = 8 then (rows, r, x - 1)
      else if c = 9 then advance_to ((x div 8 + 1) * 8) (rows, r, x)
      else if c = 13 then (rows, r, 0)
      else if c = 10 then line_feed (rows, r, x)
      else if 32 \<le> c \<and> c < 128
      then advance_to (x + 1) (rows[r := (rows ! r)[x := ucast c OR attribute]], r, x)
      else (rows, r, x))"

definition rows_of :: "(int \<Rightarrow> u16) \<Rightarrow> u16 list list" where
  "rows_of v = map (\<lambda>y. map (\<lambda>x. v (int (y * 80 + x))) [0..<80]) [0..<25]"

definition screen_of :: "monitor \<Rightarrow> screen" where
  "screen_of s = (rows_of (cells s), unat (cursor_y s), unat (cursor_x s))"

text \<open>The invariant of the module.\<close>

definition mon_ok :: "monitor \<Rightarrow> bool" where
  "mon_ok s \<longleftrightarrow> unat (cursor_x s) < 80 \<and> unat (cursor_y s) < 25 \<and> length (tbuf s) = 32"

text \<open>The cells outside of the screen are those of somebody else.\<close>

definition same_outside :: "(int \<Rightarrow> u16) \<Rightarrow> (int \<Rightarrow> u16) \<Rightarrow> bool" where
  "same_outside v w \<longleftrightarrow> (\<forall>j. j < 0 \<or> 2000 \<le> j \<longrightarrow> v j = w j)"

section \<open>Signed bytes and cells\<close>

declare of_nat_unat [simp del]

lemma sint_byte: "sint x = (if unat x < 128 then int (unat x) else int (unat x) - 256)" for x :: u8
proof -
  have x: "uint x = int (unat x)" by (rule uint_nat)
  have u: "unat x < 256" using unsigned_less [of x, where ?'a = nat] by simp
  have "sint x = (uint x + 128) mod 256 - 128"
    by (simp only: sint_uint signed_take_bit_eq_take_bit_shift take_bit_eq_mod) simp
  moreover have "(int (unat x) + 128) mod 256 = (if unat x < 128 then int (unat x) + 128 else int (unat x) - 128)"
  proof (cases "unat x < 128")
    case False
    then have "(int (unat x) + 128) mod 256 = (int (unat x) - 128 + 256) mod 256" by (simp add: algebra_simps)
    also have "\<dots> = int (unat x) - 128" unfolding mod_add_self2 using u False by (intro mod_pos_pos_trivial) simp_all
    finally show ?thesis using False by simp
  qed simp
  ultimately show ?thesis unfolding x by (simp split: if_splits)
qed

lemma sint_byte_ge: "sint x \<ge> 32 \<longleftrightarrow> 32 \<le> x \<and> x < 128" for x :: u8
proof -
  have "unat x < 256" using unsigned_less [of x, where ?'a = nat] by simp
  then show ?thesis by (simp add: sint_byte word_le_nat_alt word_less_nat_alt)
qed

lemma scroll_copy_at: "scroll_copy k i v j = (if i \<le> j \<and> j < i + int k then v (j + 80) else v j)"
  by (induction k arbitrary: i v) auto

lemma fill_blank_at: "fill_blank k i v j = (if i \<le> j \<and> j < i + int k then blank else v j)"
  by (induction k arbitrary: i v) auto

lemma length_rows_of [simp]: "length (rows_of v) = 25"
  by (simp add: rows_of_def)

lemma rows_of_nth: "y < 25 \<Longrightarrow> rows_of v ! y = map (\<lambda>x. v (int (y * 80 + x))) [0..<80]"
  by (simp add: rows_of_def del: upt_conv_Cons)

lemma rows_of_scroll: "rows_of (fill_blank 80 1920 (scroll_copy 1920 0 v)) = tl (rows_of v) @ [replicate 80 blank]"
proof (rule nth_equalityI)
  fix y assume "y < length (rows_of (fill_blank 80 1920 (scroll_copy 1920 0 v)))"
  then have y: "y < 25" by simp
  show "rows_of (fill_blank 80 1920 (scroll_copy 1920 0 v)) ! y = (tl (rows_of v) @ [replicate 80 blank]) ! y"
    using y by (intro nth_equalityI) (auto simp: rows_of_nth nth_append nth_tl fill_blank_at scroll_copy_at algebra_simps
      simp del: upt_conv_Cons)
qed simp

lemma cell_index: "k < 80 \<Longrightarrow> x < 80 \<Longrightarrow> int r * 80 + int k = int y * 80 + int x \<longleftrightarrow> r = y \<and> k = x"
  by (cases r y rule: linorder_cases) auto

lemma rows_of_upd:
  "y < 25 \<Longrightarrow> x < 80 \<Longrightarrow> rows_of (v(int y * 80 + int x := c)) = (rows_of v)[y := (rows_of v ! y)[x := c]]"
proof (rule nth_equalityI)
  fix r assume "r < length (rows_of (v(int y * 80 + int x := c)))" "y < 25" "x < 80"
  then have r: "r < 25" "y < 25" "x < 80" by simp_all
  show "rows_of (v(int y * 80 + int x := c)) ! r = (rows_of v)[y := (rows_of v ! y)[x := c]] ! r"
  proof (rule nth_equalityI)
    fix k assume "k < length (rows_of (v(int y * 80 + int x := c)) ! r)"
    then have k: "k < 80" using r by (simp add: rows_of_nth del: upt_conv_Cons)
    have "int r * 80 + int k = int y * 80 + int x \<longleftrightarrow> r = y \<and> k = x" by (rule cell_index) (use k r in simp_all)
    then show "rows_of (v(int y * 80 + int x := c)) ! r ! k = (rows_of v)[y := (rows_of v ! y)[x := c]] ! r ! k"
      using k r by (auto simp: rows_of_nth nth_list_update simp del: upt_conv_Cons)
  qed (use r in \<open>auto simp: rows_of_nth nth_list_update simp del: upt_conv_Cons\<close>)
qed simp

section \<open>Characters\<close>

lemma mon_okD: "mon_ok s \<Longrightarrow> unat (cursor_x s) < 80" "mon_ok s \<Longrightarrow> unat (cursor_y s) < 25"
  "mon_ok s \<Longrightarrow> length (tbuf s) = 32"
  by (simp_all add: mon_ok_def)

lemma port_writes_move_cursor:
  "port_writes (move_cursor s) = [(VGA_DATA_PORT, ucast (cursor_location s)), (VGA_INDEX_PORT, 15),
     (VGA_DATA_PORT, ucast (drop_bit 8 (cursor_location s))), (VGA_INDEX_PORT, 14)] @ port_writes s"
  by (simp add: move_cursor_def outb_def cursor_location_def)

lemma move_cursor_simps [simp]:
  "cursor_x (move_cursor s) = cursor_x s" "cursor_y (move_cursor s) = cursor_y s" "cells (move_cursor s) = cells s"
  "tbuf (move_cursor s) = tbuf s" "cursor_location (move_cursor s) = cursor_location s"
  by (simp_all add: move_cursor_def outb_def cursor_location_def)

lemma unat_succ: "unat x < 100 \<Longrightarrow> unat (x + 1) = unat x + 1" for x :: u8
  by (simp add: unat_add_small)

text \<open>A line feed from a row of the screen, by incrementing \<open>cursor_y\<close> and scrolling.\<close>

lemma scroll_line_feed:
  assumes "unat (cursor_y s) < 25" "length (tbuf s) = 32"
  shows "screen_of (scroll (s\<lparr>cursor_x := 0, cursor_y := cursor_y s + 1\<rparr>)) = line_feed (screen_of s)"
    "mon_ok (scroll (s\<lparr>cursor_x := 0, cursor_y := cursor_y s + 1\<rparr>))"
    "same_outside (cells (scroll (s\<lparr>cursor_x := 0, cursor_y := cursor_y s + 1\<rparr>))) (cells s)"
proof -
  have y: "unat (cursor_y s + 1) = unat (cursor_y s) + 1" using assms(1) by (simp add: unat_succ)
  then have "sint (cursor_y s + 1) = int (unat (cursor_y s) + 1)" using assms(1) by (simp only: sint_byte) simp
  then show "screen_of (scroll (s\<lparr>cursor_x := 0, cursor_y := cursor_y s + 1\<rparr>)) = line_feed (screen_of s)"
    "mon_ok (scroll (s\<lparr>cursor_x := 0, cursor_y := cursor_y s + 1\<rparr>))"
    "same_outside (cells (scroll (s\<lparr>cursor_x := 0, cursor_y := cursor_y s + 1\<rparr>))) (cells s)"
    using assms y by (auto simp: scroll_def screen_of_def rows_of_scroll mon_ok_def same_outside_def fill_blank_at scroll_copy_at)
qed

lemma scroll_id: "unat (cursor_y s) < 25 \<Longrightarrow> scroll s = s"
  by (simp add: scroll_def sint_byte)

text \<open>What remains to be done after the cursor has moved within its row.\<close>

definition wrap_cursor :: "monitor \<Rightarrow> monitor" where
  "wrap_cursor s = (if sint (cursor_x s) \<ge> 80 then s\<lparr>cursor_x := 0, cursor_y := cursor_y s + 1\<rparr> else s)"

lemma putchar_eq: "putchar c s = move_cursor (scroll (wrap_cursor (put_key c s)))"
  by (simp add: putchar_def wrap_cursor_def Let_def)

lemma advance_cursor:
  assumes "unat (cursor_y s) < 25" "length (tbuf s) = 32" "unat (cursor_x s) \<le> 80"
  shows "screen_of (scroll (wrap_cursor s)) = advance_to (unat (cursor_x s)) (rows_of (cells s), unat (cursor_y s), x)"
    "mon_ok (scroll (wrap_cursor s))" "same_outside (cells (scroll (wrap_cursor s))) (cells s)"
proof -
  have sx: "sint (cursor_x s) \<ge> 80 \<longleftrightarrow> \<not> unat (cursor_x s) < 80" using assms(3) by (simp add: sint_byte)
  show "screen_of (scroll (wrap_cursor s)) = advance_to (unat (cursor_x s)) (rows_of (cells s), unat (cursor_y s), x)"
    "mon_ok (scroll (wrap_cursor s))" "same_outside (cells (scroll (wrap_cursor s))) (cells s)"
    using scroll_line_feed [OF assms(1,2)] scroll_id [of s] assms sx
    by (auto simp: wrap_cursor_def screen_of_def mon_ok_def same_outside_def)
qed

lemma tab_stop: "unat x < 80 \<Longrightarrow> unat ((x + 8) AND NOT (8 - 1)) = (unat x div 8 + 1) * 8" for x :: u8
proof -
  assume x: "unat x < 80"
  have "(x + 8) AND NOT (8 - 1) = push_bit 3 (drop_bit 3 (x + 8))"
    by (rule bit_word_eqI) (auto simp: bit_simps mask_eq_exp_minus_1 [of 3, where ?'a = "8 word", simplified, symmetric])
  also have "\<dots> = (x + 8) div 8 * 8" by (simp add: push_bit_eq_mult drop_bit_eq_div)
  finally have "unat ((x + 8) AND NOT (8 - 1)) = unat ((x + 8) div 8) * 8 mod 256" by (simp only: unat_word_ariths) simp
  moreover have "unat (x + 8) = unat x + 8" using x by (simp add: unat_add_small)
  moreover have "(unat x + 8) div 8 = unat x div 8 + 1" by simp
  ultimately show ?thesis using x by (simp add: unat_div_distrib del: div_add_self2)
qed

lemma scast_printable: "x < 128 \<Longrightarrow> (scast x :: u16) = ucast x" for x :: u8
  using sint_byte [of x] by (simp add: word_less_nat_alt scast_eq ucast_eq uint_nat)

lemma putchar_spec:
  assumes "mon_ok s"
  shows "screen_of (putchar c s) = show_char c (screen_of s)" "mon_ok (putchar c s)"
    "same_outside (cells (putchar c s)) (cells s)"
proof -
  note ok = mon_okD [OF assms]
  have x1: "unat (cursor_x s + 1) = unat (cursor_x s) + 1" using ok(1) by (simp add: unat_succ)
  have x0: "cursor_x s \<noteq> 0 \<Longrightarrow> unat (cursor_x s - 1) = unat (cursor_x s) - 1" by (simp add: unat_minus_one)
  have xy: "sint (cursor_x s) = int (unat (cursor_x s))" "sint (cursor_y s) = int (unat (cursor_y s))"
    using ok by (simp_all add: sint_byte)
  have key: "unat (cursor_x (put_key c s)) \<le> 80" "tbuf (put_key c s) = tbuf s"
    "c \<noteq> 10 \<Longrightarrow> cursor_y (put_key c s) = cursor_y s" "same_outside (cells (put_key c s)) (cells s)"
    using ok x1 x0 xy tab_stop [OF ok(1)] by (auto simp: put_key_def same_outside_def)
  have "screen_of (putchar c s) = show_char c (screen_of s) \<and> mon_ok (putchar c s) \<and>
    same_outside (cells (putchar c s)) (cells s)"
  proof (cases "c = 10")
    case True
    then have "put_key c s = s\<lparr>cursor_x := 0, cursor_y := cursor_y s + 1\<rparr>" by (simp add: put_key_def)
    moreover have "wrap_cursor \<dots> = \<dots>" by (simp add: wrap_cursor_def)
    ultimately show ?thesis using True scroll_line_feed [OF ok(2,3)]
      by (auto simp: putchar_eq screen_of_def mon_ok_def)
  next
    case False
    note a = advance_cursor [where s = "put_key c s", unfolded key(2) key(3) [OF False], OF ok(2,3) key(1)]
    have "same_outside (cells (putchar c s)) (cells s)" using a(3) key(4) by (simp add: putchar_eq same_outside_def)
    moreover have "mon_ok (putchar c s)" using a(2) by (simp add: putchar_eq mon_ok_def)
    moreover have "screen_of (putchar c s) = show_char c (screen_of s)"
      using a(1) [of "unat (cursor_x s)"] ok x1 x0 xy False tab_stop [OF ok(1)]
      by (auto simp: putchar_eq put_key_def screen_of_def sint_byte_ge scast_printable rows_of_upd)
    ultimately show ?thesis by blast
  qed
  then show "screen_of (putchar c s) = show_char c (screen_of s)" "mon_ok (putchar c s)"
    "same_outside (cells (putchar c s)) (cells s)" by auto
qed

section \<open>Strings\<close>

abbreviation show_string :: "u8 list \<Rightarrow> screen \<Rightarrow> screen" where
  "show_string cs t \<equiv> fold show_char cs t"

lemma puts_loop_spec:
  "mon_ok s \<Longrightarrow> cstr m (str + of_nat i) cs \<Longrightarrow>
     \<exists>s'. puts_loop m str i s = Some s' \<and> screen_of s' = show_string cs (screen_of s) \<and> mon_ok s' \<and>
       same_outside (cells s') (cells s)"
proof (induction cs arbitrary: i s)
  case Nil
  then show ?case by (subst puts_loop.simps) (simp add: cstr_iff same_outside_def)
next
  case (Cons c cs)
  then have c: "m (str + of_nat i) = c" "c \<noteq> 0" "cstr m (str + of_nat (Suc i)) cs"
    by (simp_all add: cstr.simps(2) add.commute add.left_commute)
  note p = putchar_spec [OF Cons.prems(1), of c]
  show ?case using Cons.IH [OF p(2) c(3)] c(1,2) p(1,3)
    by (subst puts_loop.simps) (auto simp: same_outside_def)
qed

lemma puts_spec:
  assumes "mon_ok s" "str \<noteq> 0" "cstr m str cs"
  shows "\<exists>s'. puts m str s = Some s' \<and> screen_of s' = show_string cs (screen_of s) \<and> mon_ok s' \<and>
    same_outside (cells s') (cells s)"
  using puts_loop_spec [OF assms(1), of m str 0] assms(2,3) by (simp add: puts_def)

text \<open>The position the hardware shows, from the last four writes to the ports.\<close>

definition hardware_cursor :: "monitor \<Rightarrow> nat option" where
  "hardware_cursor s =
     (case port_writes s of
        (p1, lo) # (p2, i2) # (p3, hi) # (p4, i4) # _ \<Rightarrow>
          if p1 = VGA_DATA_PORT \<and> p2 = VGA_INDEX_PORT \<and> i2 = CURSOR_POSITION_LOW \<and>
             p3 = VGA_DATA_PORT \<and> p4 = VGA_INDEX_PORT \<and> i4 = CURSOR_POSITION_HIGH
          then Some (unat hi * 256 + unat lo) else None
      | _ \<Rightarrow> None)"

lemma hardware_cursor_moved:
  assumes "mon_ok s"
  shows "hardware_cursor (move_cursor s) = Some (unat (cursor_y s) * 80 + unat (cursor_x s))"
proof -
  have xy: "sint (cursor_x s) = int (unat (cursor_x s))" "sint (cursor_y s) = int (unat (cursor_y s))"
    and b: "unat (cursor_y s) * 80 + unat (cursor_x s) < 2000"
    using mon_okD(1,2) [OF assms] by (simp_all add: sint_byte)
  have cl: "cursor_location s = of_nat (unat (cursor_y s) * 80 + unat (cursor_x s))"
    unfolding cursor_location_def xy by simp
  have l: "unat (cursor_location s) = unat (cursor_y s) * 80 + unat (cursor_x s)"
    unfolding cl by (rule unat_of_nat_small) (use b in simp)
  have "unat (ucast (drop_bit 8 (cursor_location s)) :: u8) = unat (cursor_location s) div 256"
    using b l by (simp add: unsigned_ucast_eq unat_div_distrib drop_bit_eq_div take_bit_eq_mod)
  moreover have "unat (ucast (cursor_location s) :: u8) = unat (cursor_location s) mod 256"
    by (simp add: unsigned_ucast_eq take_bit_eq_mod)
  ultimately show ?thesis unfolding hardware_cursor_def port_writes_move_cursor l [symmetric]
    by simp
qed

section \<open>Numbers\<close>

text \<open>The digits of a positive number, the lowest first, as \<open>itoa\<close> computes them.\<close>

fun low_digits :: "nat \<Rightarrow> nat \<Rightarrow> nat list" where
  "low_digits b n = (if n = 0 \<or> b < 2 then [] else (n mod b) # low_digits b (n div b))"

declare low_digits.simps [simp del]

lemma length_low_digits: "n < b ^ k \<Longrightarrow> length (low_digits b n) \<le> k"
proof (induction b n arbitrary: k rule: low_digits.induct)
  case (1 b n)
  show ?case
  proof (cases "n = 0 \<or> b < 2")
    case False
    then obtain j where "k = Suc j" using 1(2) by (cases k) auto
    then have "n div b < b ^ j" using 1(2) by (metis less_mult_imp_div_less mult.commute power_Suc)
    then show ?thesis using 1(1) [OF False] False \<open>k = Suc j\<close> by (simp add: low_digits.simps [of b n])
  qed (simp add: low_digits.simps [of b n])
qed

lemma low_digits_below: "d \<in> set (low_digits b n) \<Longrightarrow> d < b"
proof (induction b n rule: low_digits.induct)
  case (1 b n)
  then show ?case by (subst (asm) (2) low_digits.simps) (auto split: if_splits)
qed

lemma low_digits_value: "2 \<le> b \<Longrightarrow> foldr (\<lambda>d a. d + b * a) (low_digits b n) 0 = n"
proof (induction b n rule: low_digits.induct)
  case (1 b n)
  then show ?case by (subst low_digits.simps) simp
qed

lemma itoa_digits_spec:
  fixes base i :: u64
  assumes "2 \<le> unat base" "pos + length (low_digits (unat base) (unat i)) \<le> length tb"
  shows "itoa_digits base i tb pos =
    Some (take pos tb @ map (\<lambda>d. bchars ! d) (low_digits (unat base) (unat i)) @
            drop (pos + length (low_digits (unat base) (unat i))) tb,
          pos + length (low_digits (unat base) (unat i)))"
  using assms
proof (induction base i tb pos rule: itoa_digits.induct)
  case (1 base i tb pos)
  let ?ds = "low_digits (unat base) (unat i)"
  show ?case
  proof (cases "i = 0")
    case True
    then have "?ds = []" by (simp add: low_digits.simps)
    then show ?thesis using True by (subst itoa_digits.simps) simp
  next
    case False
    then have ds: "?ds = unat (i mod base) # low_digits (unat base) (unat (i div base))"
      using 1(2) by (subst low_digits.simps) (auto simp: unat_eq_0 unat_div_distrib unat_mod_distrib)
    have b: "\<not> (base = 0 \<or> length tb \<le> pos)" using 1(2,3) ds by auto
    let ?tb = "tb[pos := bchars ! unat (i mod base)]"
    have "take (Suc pos) ?tb = take pos tb @ [bchars ! unat (i mod base)]" using b by (simp add: take_Suc_conv_app_nth)
    then show ?thesis using 1(1) [OF False b] 1(2,3) ds b False
      by (subst itoa_digits.simps) simp
  qed
qed

lemma itoa_reverse_at:
  "opos + p < 2 ^ 64 \<Longrightarrow> itoa_reverse p opos tb buf m x =
     (if opos \<le> unat (x - buf) \<and> unat (x - buf) < opos + p then tb ! (opos + p - Suc (unat (x - buf)))
      else if unat (x - buf) = opos + p then 0 else m x)"
proof (induction p arbitrary: opos m)
  case 0
  have "x = buf + of_nat opos \<longleftrightarrow> unat (x - buf) = opos" using 0 by (intro address_eq_iff) simp
  then show ?case by auto
next
  case (Suc p)
  have "x = buf + of_nat opos \<longleftrightarrow> unat (x - buf) = opos" using Suc.prems by (intro address_eq_iff) simp
  then show ?case using Suc by auto
qed

text \<open>The characters of a number, and how a reader of them gets the number back.\<close>

definition text_of :: "nat \<Rightarrow> nat \<Rightarrow> u8 list" where
  "text_of b n = (if n = 0 then [48] else map (\<lambda>d. bchars ! d) (rev (low_digits b n)))"

definition digit_value :: "u8 \<Rightarrow> nat" where
  "digit_value c = unat (if c \<le> 57 then c - 48 else c - 55)"

definition read_digits :: "nat \<Rightarrow> u8 list \<Rightarrow> nat" where
  "read_digits b cs = foldl (\<lambda>a c. b * a + digit_value c) 0 cs"

definition read_decimal :: "u8 list \<Rightarrow> int" where
  "read_decimal cs = (if hd cs = 45 then - int (read_digits 10 (tl cs)) else int (read_digits 10 cs))"

definition read_hex :: "u8 list \<Rightarrow> nat" where
  "read_hex cs = read_digits 16 (drop 2 cs)"

lemma bchars_props: "d < 16 \<Longrightarrow> digit_value (bchars ! d) = d \<and> bchars ! d \<noteq> 0 \<and> bchars ! d \<noteq> 45"
proof -
  have "list_all (\<lambda>d. digit_value (bchars ! d) = d \<and> bchars ! d \<noteq> 0 \<and> bchars ! d \<noteq> 45) [0..<16]" by code_simp
  then show "d < 16 \<Longrightarrow> ?thesis" by (simp add: list_all_iff del: upt_conv_Cons)
qed

lemma read_text:
  assumes "2 \<le> b" "b \<le> 16"
  shows "read_digits b (text_of b n) = n"
proof (cases "n = 0")
  case True
  then show ?thesis by (simp add: text_of_def read_digits_def digit_value_def)
next
  case False
  have "\<forall>d \<in> set ds. d < 16 \<Longrightarrow>
    foldr (\<lambda>d a. digit_value (bchars ! d) + b * a) ds 0 = foldr (\<lambda>d a. d + b * a) ds 0" for ds
    by (induction ds) (simp_all add: bchars_props)
  moreover have "\<forall>d \<in> set (low_digits b n). d < 16" using low_digits_below assms(2) by (meson less_le_trans)
  ultimately have "foldr (\<lambda>d a. digit_value (bchars ! d) + b * a) (low_digits b n) 0 = n"
    using low_digits_value [OF assms(1)] by simp
  then show ?thesis using False
    by (simp add: text_of_def read_digits_def rev_map foldl_conv_foldr foldr_map comp_def add.commute)
qed

lemma text_of_chars:
  assumes "b \<le> 16"
  shows "\<forall>c \<in> set (text_of b n). c \<noteq> 0 \<and> c \<noteq> 45"
proof -
  have "\<forall>d \<in> set (low_digits b n). d < 16" using low_digits_below assms by (meson less_le_trans)
  then show ?thesis using bchars_props by (auto simp: text_of_def)
qed

lemma itoa_spec:
  assumes "length (tbuf s) = 32" "2 \<le> unat base" "unat base \<le> 16" "unat i < unat base ^ 32"
  obtains m' tb where "itoa i base buf m s = Some (m', s\<lparr>tbuf := tb\<rparr>)" "length tb = 32"
    "cstr m' buf (text_of (unat base) (unat i))"
    "\<forall>x. length (text_of (unat base) (unat i)) < unat (x - buf) \<longrightarrow> m' x = m x"
proof (cases "i = 0")
  case True
  have "unat (1 :: u64) = 1" by simp
  moreover have "buf \<noteq> buf + 1" by simp
  ultimately show ?thesis using that [of "m(buf := 48, buf + 1 := 0)" "tbuf s"] True assms(1)
    by (auto simp: itoa_def cstr_iff text_of_def)
next
  case False
  let ?b = "unat base" and ?ds = "low_digits (unat base) (unat i)"
  let ?L = "length ?ds"
  let ?tb = "map (\<lambda>d. bchars ! d) ?ds @ drop ?L (tbuf s)"
  have L: "?L \<le> 32" using length_low_digits [OF assms(4)] .
  have b: "unat (ucast base :: u64) = ?b"
    using unsigned_less [of base, where ?'a = nat] by (simp add: unsigned_ucast_eq take_bit_nat_eq_self_iff)
  have dig: "itoa_digits (ucast base) i (tbuf s) 0 = Some (?tb, ?L)"
    using itoa_digits_spec [of "ucast base" 0 i "tbuf s"] L assms(1,2) by (simp add: b)
  have digits: "text_of ?b (unat i) = rev (take ?L ?tb)" using False by (simp add: text_of_def rev_map unat_eq_0)
  have "\<not> base > 16" using assms(3) by (simp add: word_less_nat_alt)
  then have run: "itoa i base buf m s = Some (itoa_reverse ?L 0 ?tb buf m, s\<lparr>tbuf := ?tb\<rparr>)"
    using False dig by (simp add: itoa_def)
  have at: "itoa_reverse ?L 0 ?tb buf m x = (if unat (x - buf) < ?L then ?tb ! (?L - Suc (unat (x - buf)))
      else if unat (x - buf) = ?L then 0 else m x)" for x
    using L by (subst itoa_reverse_at) simp_all
  have "\<forall>c \<in> set (rev (take ?L ?tb)). c \<noteq> 0" using text_of_chars [OF assms(3), of "unat i"] unfolding digits by blast
  moreover have len: "length (rev (take ?L ?tb)) = ?L" by simp
  moreover have "itoa_reverse ?L 0 ?tb buf m (buf + of_nat k) = rev (take ?L ?tb) ! k" if "k < ?L" for k
  proof -
    have "unat (buf + of_nat k - buf) = k" using that L by (simp add: unat_of_nat_small)
    moreover have "?L - Suc k < ?L" using that by linarith
    ultimately show ?thesis using that by (simp add: at rev_nth nth_append)
  qed
  moreover have "itoa_reverse ?L 0 ?tb buf m (buf + of_nat ?L) = 0" using L by (simp add: at unat_of_nat_small)
  ultimately have "cstr (itoa_reverse ?L 0 ?tb buf m) buf (text_of ?b (unat i))"
    unfolding digits by (intro cstrI) (simp_all only: len)
  then show ?thesis using that [OF run] L assms(1) unfolding digits at by simp
qed

text \<open>The local buffers are large enough.\<close>

lemma zero_bytes_outside: "k \<le> 2 ^ 64 \<Longrightarrow> \<not> in_range a k x \<Longrightarrow> zero_bytes k a m x = m x"
  by (induction k a m rule: zero_bytes.induct) (auto simp: in_range_Suc)

lemma length_text_of: "0 < k \<Longrightarrow> n < b ^ k \<Longrightarrow> length (text_of b n) \<le> k"
  using length_low_digits [of n b k] by (simp add: text_of_def)

lemma text_of_10: "length (text_of 10 (unat i)) \<le> 20" for i :: u64
  by (rule length_text_of) (simp_all add: less_trans [OF unat_lt_64])

lemma text_of_16: "length (text_of 16 (unat i)) \<le> 16" for i :: u64
  by (rule length_text_of) (use unat_lt_64 [of i] in simp_all)

lemma offset_unat: "in_range a n x \<longleftrightarrow> unat (x - a) < n"
  by (simp add: in_range_def)

lemma offset_later:
  assumes "\<not> in_range a (n + k) x" "0 < n" "n + k \<le> 2 ^ 32"
  shows "n \<le> unat (x - (a + of_nat k))"
proof (rule ccontr)
  assume "\<not> n \<le> unat (x - (a + of_nat k))"
  then have l: "unat (x - (a + of_nat k)) < n" by simp
  have "x - a = (x - (a + of_nat k)) + of_nat k" by simp
  also have "unat \<dots> = unat (x - (a + of_nat k)) + k"
    using l assms(3) by (subst unat_add_small) (simp_all add: unat_of_nat_small)
  finally show False using l assms(1) by (simp add: in_range_def)
qed

lemma sint_magnitude: "unat (if sint i < 0 then - i else i) = nat \<bar>sint i\<bar>" for i :: u64
proof -
  have "(if sint i < 0 then - i else i) = of_int \<bar>sint i\<bar>" by (auto simp: abs_if)
  moreover have "\<bar>sint i\<bar> \<le> 2 ^ 63" using sint_ge [of i] sint_lt [of i] by simp
  ultimately show ?thesis by (simp add: unat_eq_nat_uint uint_word_of_int mod_pos_pos_trivial)
qed

definition decimal_of :: "u64 \<Rightarrow> u8 list" where
  "decimal_of i = (if sint i < 0 then [45] else []) @ text_of 10 (nat \<bar>sint i\<bar>)"

definition hex_of :: "u64 \<Rightarrow> u8 list" where
  "hex_of i = [48, 120] @ text_of 16 (unat i)"

lemma text_of_nonempty: "text_of b n \<noteq> [] \<longleftrightarrow> n = 0 \<or> 2 \<le> b"
  by (auto simp: text_of_def low_digits.simps [of b n])

lemma read_decimal_of: "read_decimal (decimal_of i) = sint i"
proof -
  have "hd (text_of 10 (nat \<bar>sint i\<bar>)) \<noteq> 45"
    by (rule text_of_chars [of 10 "nat \<bar>sint i\<bar>", THEN bspec, THEN conjunct2]) (simp_all add: hd_in_set text_of_nonempty)
  then show ?thesis by (auto simp: read_decimal_def decimal_of_def read_text)
qed

lemma read_hex_of: "read_hex (hex_of i) = unat i"
  by (simp add: read_hex_def hex_of_def read_text)

text \<open>A number shown through a buffer: what \<open>putint\<close> and \<open>puthex\<close> have in common.\<close>

lemma itoa_s_spec:
  assumes "length (tbuf s) = 32"
  obtains m' tb where "itoa_s i 10 str m s = Some (m', s\<lparr>tbuf := tb\<rparr>)" "length tb = 32"
    "cstr m' str (decimal_of i)" "\<forall>x. \<not> in_range str 32 x \<longrightarrow> m' x = m x"
proof (cases "sint i < 0")
  case True
  have mag: "unat (- i) = nat \<bar>sint i\<bar>" using sint_magnitude [of i] True by simp
  obtain m' tb where it: "itoa (- i) 10 (str + 1) (m(str := 45)) s = Some (m', s\<lparr>tbuf := tb\<rparr>)" "length tb = 32"
    "cstr m' (str + 1) (text_of 10 (unat (- i)))"
    "\<forall>x. length (text_of 10 (unat (- i))) < unat (x - (str + 1)) \<longrightarrow> m' x = (m(str := 45)) x"
    by (rule itoa_spec [OF assms, of 10 "- i" "str + 1" "m(str := 45)"]) (simp_all add: less_trans [OF unat_lt_64])
  have "length (text_of 10 (unat (- i))) < unat (str - (str + 1))" using text_of_10 [of "- i"]
    by (simp add: unsigned_minus_1_eq_mask mask_eq_exp_minus_1)
  then have "m' str = 45" using it(4) by simp
  moreover have "m' x = m x" if x: "\<not> in_range str 32 x" for x
  proof -
    have "31 \<le> unat (x - (str + 1))" using offset_later [of str 31 1 x] x by simp
    then show ?thesis using it(4) x text_of_10 [of "- i"] by (auto simp: in_range_def)
  qed
  ultimately show ?thesis using that [of m' tb] it(1-3) True mag
    by (simp add: itoa_s_def decimal_of_def cstr.simps(2))
next
  case False
  have mag: "unat i = nat \<bar>sint i\<bar>" using sint_magnitude [of i] False by simp
  obtain m' tb where it: "itoa i 10 str m s = Some (m', s\<lparr>tbuf := tb\<rparr>)" "length tb = 32"
    "cstr m' str (text_of 10 (unat i))"
    "\<forall>x. length (text_of 10 (unat i)) < unat (x - str) \<longrightarrow> m' x = m x"
    by (rule itoa_spec [OF assms, of 10 i str m]) (simp_all add: less_trans [OF unat_lt_64])
  show ?thesis using that [of m' tb] it False mag text_of_10 [of i]
    by (auto simp: itoa_s_def decimal_of_def in_range_def)
qed

lemma putint_spec:
  assumes "mon_ok s" "str \<noteq> 0"
  shows "\<exists>m' s'. putint i str m s = Some (m', s') \<and> screen_of s' = show_string (decimal_of i) (screen_of s) \<and>
    mon_ok s' \<and> (\<forall>x. \<not> in_range str 32 x \<longrightarrow> m' x = m x)"
proof -
  obtain m' tb where it: "itoa_s i 10 str (zero_bytes 32 str m) s = Some (m', s\<lparr>tbuf := tb\<rparr>)" "length tb = 32"
    "cstr m' str (decimal_of i)" "\<forall>x. \<not> in_range str 32 x \<longrightarrow> m' x = zero_bytes 32 str m x"
    using itoa_s_spec [OF mon_okD(3) [OF assms(1)]] by blast
  have "mon_ok (s\<lparr>tbuf := tb\<rparr>)" "screen_of (s\<lparr>tbuf := tb\<rparr>) = screen_of s"
    using assms(1) it(2) by (simp_all add: mon_ok_def screen_of_def)
  then show ?thesis using puts_spec [OF _ assms(2) it(3), of "s\<lparr>tbuf := tb\<rparr>"] it(1,4)
    by (auto simp: putint_def zero_bytes_outside)
qed

lemma puthex_spec:
  assumes "mon_ok s" "str \<noteq> 0"
  shows "\<exists>m' s'. puthex i str m s = Some (m', s') \<and> screen_of s' = show_string (hex_of i) (screen_of s) \<and>
    mon_ok s' \<and> (\<forall>x. \<not> in_range str 32 x \<longrightarrow> m' x = m x)"
proof -
  let ?m = "(zero_bytes 32 str m)(str := 48, str + 1 := 120)"
  obtain m' tb where it: "itoa i 16 (str + 2) ?m s = Some (m', s\<lparr>tbuf := tb\<rparr>)" "length tb = 32"
    "cstr m' (str + 2) (text_of 16 (unat i))"
    "\<forall>x. length (text_of 16 (unat i)) < unat (x - (str + 2)) \<longrightarrow> m' x = ?m x"
    by (rule itoa_spec [OF mon_okD(3) [OF assms(1)], of 16 i "str + 2" ?m]) (simp_all add: less_trans [OF unat_lt_64])
  have far: "length (text_of 16 (unat i)) < unat (str - (str + 2))" "length (text_of 16 (unat i)) < unat (str + 1 - (str + 2))"
    using text_of_16 [of i] by (simp_all add: unsigned_minus_1_eq_mask mask_eq_exp_minus_1)
  have "m' str = 48" "m' (str + 1) = 120" using it(4) far by simp_all
  then have shown: "cstr m' str (hex_of i)" using it(3) text_of_16 by (simp add: hex_of_def cstr.simps(2) add.assoc)
  have out: "m' x = m x" if x: "\<not> in_range str 32 x" for x
  proof -
    have "30 \<le> unat (x - (str + 2))" using offset_later [of str 30 2 x] x by simp
    then show ?thesis using it(4) x text_of_16 [of i] by (auto simp: in_range_def zero_bytes_outside)
  qed
  have "mon_ok (s\<lparr>tbuf := tb\<rparr>)" "screen_of (s\<lparr>tbuf := tb\<rparr>) = screen_of s"
    using assms(1) it(2) by (simp_all add: mon_ok_def screen_of_def)
  then show ?thesis using puts_spec [OF _ assms(2) shown, of "s\<lparr>tbuf := tb\<rparr>"] it(1) out
    by (auto simp: puthex_def uitoa_s_def)
qed

text \<open>
  C27: \<open>puts\<close> shows the characters of the string one by one as a terminal of 25 rows and 80 columns
  does: line feeds and the end of a line scroll at the bottom, tabs go to the next multiple of 8,
  backspace moves left. The cursor stays on the screen, nothing outside of the 2000 cells is written, and the
  cursor of the hardware is at the position of the next character.
\<close>

theorem puts_refines_terminal:
  assumes "mon_ok s" and "str \<noteq> 0" and "cstr m str cs"
  shows "\<exists>s'. puts m str s = Some s' \<and> screen_of s' = fold show_char cs (screen_of s) \<and> mon_ok s' \<and>
    same_outside (cells s') (cells s) \<and>
    hardware_cursor (putchar c s') =
      Some (unat (cursor_y (putchar c s')) * 80 + unat (cursor_x (putchar c s')))"
proof -
  obtain s' where s': "puts m str s = Some s'" "screen_of s' = show_string cs (screen_of s)" "mon_ok s'"
    "same_outside (cells s') (cells s)" using puts_spec [OF assms] by blast
  have "mon_ok (scroll (wrap_cursor (put_key c s')))"
    using putchar_spec(2) [OF s'(3), of c] by (simp add: putchar_eq mon_ok_def)
  from hardware_cursor_moved [OF this] s' show ?thesis by (auto simp: putchar_eq)
qed

lemma monitor_reset_ok: "mon_ok monitor_reset"
  by (simp add: mon_ok_def monitor_reset_def)

theorem puts_refines_terminal_witness:
  "\<exists>s'. puts ((\<lambda>_. 0)(16 := 72, 17 := 10)) 16 monitor_reset = Some s' \<and>
     screen_of s' = fold show_char [72, 10] (screen_of monitor_reset)"
  using puts_refines_terminal [OF monitor_reset_ok, of 16 "(\<lambda>_. 0)(16 := 72, 17 := 10)" "[72, 10]"]
  by (auto simp: cstr.simps(2))

text \<open>
  C28: \<open>putint\<close> shows a number as its decimal digits, with a minus sign in front when it is negative,
  and \<open>puthex\<close> as \<open>0x\<close> and its hexadecimal digits: reading the characters gives the number
  back. Both stay inside of their buffer of 32 bytes.
\<close>

theorem putint_puthex_roundtrip:
  assumes "mon_ok s" and "str \<noteq> 0"
  shows "\<exists>m' s' m'' s''.
    putint i str m s = Some (m', s') \<and> screen_of s' = fold show_char (decimal_of i) (screen_of s) \<and>
    read_decimal (decimal_of i) = sint i \<and>
    puthex i str m s = Some (m'', s'') \<and> screen_of s'' = fold show_char (hex_of i) (screen_of s) \<and>
    read_hex (hex_of i) = unat i \<and>
    mon_ok s' \<and> mon_ok s'' \<and> (\<forall>x. \<not> in_range str 32 x \<longrightarrow> m' x = m x \<and> m'' x = m x)"
  using putint_spec [OF assms, of i m] puthex_spec [OF assms, of i m] read_decimal_of [of i] read_hex_of [of i] by blast

theorem putint_puthex_roundtrip_witness:
  "\<exists>m' s'. putint (- 42) 0x1000 (\<lambda>_. 0) monitor_reset = Some (m', s') \<and> read_decimal (decimal_of (- 42)) = - 42"
  using putint_puthex_roundtrip [OF monitor_reset_ok, of "0x1000" "- 42" "\<lambda>_. 0"] by auto

end
