(* ===== verification/Keyboard.thy ===== *)
theory Keyboard
  imports MonitorCorrect
begin

text \<open>
  The keyboard driver of \<open>kernel/keyboard.c\<close>: the interrupt handler, \<open>get_char\<close> and
  \<open>readline\<close>. The process that reads blocks itself until the handler wakes it; the scan codes that
  arrive are an argument, and the wait is a run of the handler on them. Scan codes that arrive while the process runs
  are not modelled. \<open>None\<close> is to wait for ever.
\<close>

section \<open>State and handler\<close>

record keyboard =
  occupant :: u64
  scancode :: u8
  press_code :: u8
  break_code :: u8
  new_press :: bool
  new_break :: bool

text \<open>The table, with the zero at its end.\<close>

definition key :: "u8 list" where
  "key = map of_char (''##1234567890-=#'' @ [CHR 0x09] @ ''QWERTYUIOP[]'' @ [CHR 0x0A] @ ''#ASDFGHJKL;'' @
     [CHR 0x27, CHR 0x60] @ ''#'' @ [CHR 0x5C] @ ''ZXCVBNM,./#*# ##############789-456+123#######'') @ [0]"

text \<open>\<open>strlen\<close> counts the zero.\<close>

definition key_len :: int where
  "key_len = int (length key)"

definition keyboard_init :: "keyboard \<Rightarrow> keyboard" where
  "keyboard_init kb = kb\<lparr>occupant := 0, new_press := False, new_break := False\<rparr>"

text \<open>The result tells whether the occupant is made ready.\<close>

definition keyboard_handler :: "u8 \<Rightarrow> keyboard \<Rightarrow> bool \<times> keyboard" where
  "keyboard_handler code kb =
     (let kb1 = kb\<lparr>scancode := code\<rparr>;
          kb2 = (if code AND 0x80 \<noteq> 0 then kb1\<lparr>new_break := True, break_code := code\<rparr>
                 else kb1\<lparr>new_press := True, press_code := code\<rparr>)
      in (occupant kb2 \<noteq> 0 \<and> new_press kb2, kb2))"

text \<open>A character is signed; \<open>None\<close> is a read behind the table.\<close>

definition recognize_scancode :: "u8 \<Rightarrow> u8 option" where
  "recognize_scancode code =
     (if code \<noteq> 0 \<and> sint code < key_len
      then if unat code < length key then Some (key ! unat code) else None
      else Some 0)"

section \<open>Reading\<close>

fun wait_key :: "u8 list \<Rightarrow> keyboard \<Rightarrow> (u8 list \<times> keyboard) option" where
  "wait_key [] kb = None"
| "wait_key (code # codes) kb =
     (let (wake, kb') = keyboard_handler code kb
      in if wake then Some (codes, kb') else wait_key codes kb')"

definition get_char :: "u8 list \<Rightarrow> keyboard \<Rightarrow> (u8 \<times> u8 list \<times> keyboard) option" where
  "get_char codes kb =
     (case (if new_press kb then Some (codes, kb) else wait_key codes kb) of
        None \<Rightarrow> None
      | Some (codes', kb') \<Rightarrow>
          map_option (\<lambda>c. (c, codes', kb'\<lparr>new_press := False\<rparr>)) (recognize_scancode (press_code kb')))"

function readline_loop ::
  "u64 \<Rightarrow> nat \<Rightarrow> u8 list \<Rightarrow> keyboard \<Rightarrow> memory \<Rightarrow> monitor \<Rightarrow> (nat \<times> u8 list \<times> keyboard \<times> memory \<times> monitor) option" where
  "readline_loop buffer i codes kb m mon =
     (case get_char codes kb of
        None \<Rightarrow> None
      | Some (c, codes', kb') \<Rightarrow>
          if c \<noteq> 10 \<and> i < 79
          then readline_loop buffer (Suc i) codes' kb' (m(buffer + of_nat i := c)) (putchar c mon)
          else Some (i, codes', kb', m, mon))"
  by pat_completeness auto
termination
  by (relation "measure (\<lambda>(_, i, _). 79 - i)") auto

text \<open>\<open>owner\<close> is the process that holds the keyboard's lock, the one that reads.\<close>

definition readline ::
  "u64 \<Rightarrow> u64 \<Rightarrow> u8 list \<Rightarrow> keyboard \<Rightarrow> memory \<Rightarrow> monitor \<Rightarrow> (u64 \<times> u8 list \<times> keyboard \<times> memory \<times> monitor) option" where
  "readline owner buffer codes kb m mon =
     map_option (\<lambda>(i, codes', kb', m', mon').
        let (m1, j) = (if m' (buffer + of_nat i) \<noteq> 10 then (m'(buffer + of_nat i := 10), Suc i) else (m', i))
        in (buffer, codes', kb'\<lparr>occupant := 0\<rparr>, m1(buffer + of_nat j := 0), putchar 10 mon'))
       (readline_loop buffer 0 codes (kb\<lparr>occupant := owner, new_press := False, new_break := False\<rparr>) m mon)"

declare readline_loop.simps [simp del]

section \<open>The characters of the keys pressed\<close>

definition key_char :: "u8 \<Rightarrow> u8" where
  "key_char code = (if code \<noteq> 0 \<and> unat code < length key then key ! unat code else 0)"

definition is_press :: "u8 \<Rightarrow> bool" where
  "is_press code \<longleftrightarrow> code AND 0x80 = 0"

definition typed :: "u8 list \<Rightarrow> u8 list" where
  "typed codes = map key_char (filter is_press codes)"

lemma typed_simps [simp]: "typed [] = []" "typed (c # cs) = (if is_press c then key_char c # typed cs else typed cs)"
  by (simp_all add: typed_def)

lemma press_small: "is_press c \<Longrightarrow> unat c < 128"
proof -
  assume "is_press c"
  then have "\<not> bit c 7" using and_two_power_eq_0 [of 7 c] by (simp add: is_press_def)
  then have "take_bit 7 c = c" by (intro bit_word_eqI) (auto simp: bit_simps less_Suc_eq numeral_eq_Suc)
  moreover have "unat (take_bit 7 c) < 128"
    using take_bit_nat_less_exp [of 7 "unat c"] by (simp add: unsigned_take_bit_eq)
  ultimately show "unat c < 128" by simp
qed

lemma length_key: "length key = 91"
  by (simp add: key_def)

lemma recognize_press: "is_press c \<Longrightarrow> recognize_scancode c = Some (key_char c)"
  using press_small [of c] sint_byte [of c] by (auto simp: recognize_scancode_def key_char_def key_len_def)

lemma wait_key_spec:
  "occupant kb \<noteq> 0 \<Longrightarrow> \<not> new_press kb \<Longrightarrow> typed codes = c # cs \<Longrightarrow>
     \<exists>codes' kb'. wait_key codes kb = Some (codes', kb') \<and> typed codes' = cs \<and> occupant kb' = occupant kb \<and>
       recognize_scancode (press_code kb') = Some c"
proof (induction codes arbitrary: kb)
  case (Cons a codes)
  show ?case
  proof (cases "is_press a")
    case True
    then show ?thesis using Cons.prems recognize_press [OF True] by (auto simp: keyboard_handler_def is_press_def Let_def)
  next
    case False
    then obtain kb1 where "keyboard_handler a kb = (False, kb1)" "occupant kb1 = occupant kb" "\<not> new_press kb1"
      using Cons.prems by (simp add: keyboard_handler_def is_press_def Let_def)
    then show ?thesis using Cons.IH [of kb1] Cons.prems False by simp
  qed
qed simp

lemma get_char_spec:
  assumes "occupant kb \<noteq> 0" "\<not> new_press kb" "typed codes = c # cs"
  shows "\<exists>codes' kb'. get_char codes kb = Some (c, codes', kb') \<and> typed codes' = cs \<and> occupant kb' = occupant kb \<and> \<not> new_press kb'"
  using wait_key_spec [OF assms] assms(2) by (auto simp: get_char_def)

section \<open>What readline leaves\<close>

definition written :: "u64 \<Rightarrow> nat \<Rightarrow> u8 list \<Rightarrow> memory \<Rightarrow> memory" where
  "written buffer i l m = (\<lambda>x. if i \<le> unat (x - buffer) \<and> unat (x - buffer) < i + length l then l ! (unat (x - buffer) - i) else m x)"

lemma written_Nil [simp]: "written buffer i [] m = m"
  by (auto simp: written_def fun_eq_iff)

lemma written_Cons: "i < 2 ^ 64 \<Longrightarrow> written buffer (Suc i) l (m(buffer + of_nat i := c)) = written buffer i (c # l) m"
proof (rule ext)
  fix x assume "i < 2 ^ 64"
  then have "x = buffer + of_nat i \<longleftrightarrow> unat (x - buffer) = i" by (rule address_eq_iff)
  then show "written buffer (Suc i) l (m(buffer + of_nat i := c)) x = written buffer i (c # l) m x"
    by (auto simp: written_def nth_Cons')
qed

text \<open>The line that is read: up to 79 characters before the newline.\<close>

definition line_of :: "nat \<Rightarrow> u8 list \<Rightarrow> u8 list" where
  "line_of n cs = take n (takeWhile (\<lambda>c. c \<noteq> 10) cs)"

lemma readline_loop_spec:
  "occupant kb \<noteq> 0 \<Longrightarrow> \<not> new_press kb \<Longrightarrow> i \<le> 79 \<Longrightarrow> length (line_of (79 - i) (typed codes)) < length (typed codes) \<Longrightarrow>
   \<exists>codes' kb'. readline_loop buffer i codes kb m mon =
     Some (i + length (line_of (79 - i) (typed codes)), codes', kb', written buffer i (line_of (79 - i) (typed codes)) m,
           fold putchar (line_of (79 - i) (typed codes)) mon) \<and>
     typed codes' = drop (Suc (length (line_of (79 - i) (typed codes)))) (typed codes)"
proof (induction "79 - i" arbitrary: i codes kb m mon)
  case 0
  obtain c cs where t: "typed codes = c # cs" using 0(5) by (cases "typed codes") simp_all
  obtain codes' kb' where g: "get_char codes kb = Some (c, codes', kb')" "typed codes' = cs" using get_char_spec [OF 0(2,3) t] by blast
  have "line_of (79 - i) (typed codes) = []" using 0(1) by (simp add: line_of_def)
  moreover have "\<not> i < 79" using 0(1) by simp
  ultimately show ?case using g t by (subst readline_loop.simps) simp
next
  case (Suc n)
  obtain c cs where t: "typed codes = c # cs" using Suc.prems(4) by (cases "typed codes") simp_all
  obtain codes' kb' where g: "get_char codes kb = Some (c, codes', kb')" "typed codes' = cs" "occupant kb' \<noteq> 0" "\<not> new_press kb'"
    using get_char_spec [OF Suc.prems(1,2) t] Suc.prems(1) by auto
  show ?case
  proof (cases "c = 10")
    case True
    then have "line_of (79 - i) (typed codes) = []" using t by (simp add: line_of_def)
    then show ?thesis using g True t by (subst readline_loop.simps) simp
  next
    case False
    have i: "i < 79" "79 - Suc i = n" "79 - i = Suc n" using Suc(2) by simp_all
    have l: "line_of (79 - i) (typed codes) = c # line_of (79 - Suc i) (typed codes')"
      using False t g(2) i by (simp add: line_of_def)
    have "\<exists>codes'' kb''. readline_loop buffer (Suc i) codes' kb' (m(buffer + of_nat i := c)) (putchar c mon) =
        Some (Suc i + length (line_of (79 - Suc i) (typed codes')), codes'', kb'',
          written buffer (Suc i) (line_of (79 - Suc i) (typed codes')) (m(buffer + of_nat i := c)),
          fold putchar (line_of (79 - Suc i) (typed codes')) (putchar c mon)) \<and>
        typed codes'' = drop (Suc (length (line_of (79 - Suc i) (typed codes')))) (typed codes')"
      using Suc.prems(4) i l t g by (intro Suc.hyps(1)) simp_all
    then show ?thesis using g(1,2) t False i(1) written_Cons [of i buffer] unfolding l
      by (subst readline_loop.simps) simp
  qed
qed

lemma line_of_length: "length (line_of n cs) \<le> n"
  by (simp add: line_of_def)

lemma buffer_position: "i < 2 ^ 64 \<Longrightarrow> unat (buffer + of_nat i - buffer) = i" for buffer :: u64
  by (simp add: unat_of_nat_small)

lemma readline_spec:
  assumes "owner \<noteq> 0" and "length (line_of 79 (typed codes)) < length (typed codes)"
  shows "\<exists>codes' kb' m' mon'. readline owner buffer codes kb m mon = Some (buffer, codes', kb', m', mon') \<and>
    typed codes' = drop (Suc (length (line_of 79 (typed codes)))) (typed codes) \<and> occupant kb' = 0 \<and> mon' = fold putchar (line_of 79 (typed codes) @ [10]) mon \<and>
    (\<forall>i < length (line_of 79 (typed codes)). m' (buffer + of_nat i) = line_of 79 (typed codes) ! i) \<and>
    (if m (buffer + of_nat (length (line_of 79 (typed codes)))) = 10
     then m' (buffer + of_nat (length (line_of 79 (typed codes)))) = 0
     else m' (buffer + of_nat (length (line_of 79 (typed codes)))) = 10 \<and>
          m' (buffer + of_nat (Suc (length (line_of 79 (typed codes))))) = 0) \<and>
    (\<forall>x. \<not> in_range buffer 81 x \<longrightarrow> m' x = m x)"
proof -
  let ?l = "line_of 79 (typed codes)"
  let ?n = "length ?l"
  have n: "?n \<le> 79" by (rule line_of_length)
  obtain codes' kb' where r: "readline_loop buffer 0 codes (kb\<lparr>occupant := owner, new_press := False, new_break := False\<rparr>) m mon =
      Some (?n, codes', kb', written buffer 0 ?l m, fold putchar ?l mon)" "typed codes' = drop (Suc ?n) (typed codes)"
    using readline_loop_spec [of "kb\<lparr>occupant := owner, new_press := False, new_break := False\<rparr>" 0 codes buffer m mon] assms
    by auto
  let ?w = "written buffer 0 ?l m"
  have w: "?w (buffer + of_nat i) = (if i < ?n then ?l ! i else m (buffer + of_nat i))" if "i < 2 ^ 64" for i
    using buffer_position [OF that, of buffer] by (simp add: written_def)
  have eq: "x = buffer + of_nat i \<longleftrightarrow> unat (x - buffer) = i" if "i \<le> 80" for x i
    using that by (intro address_eq_iff) simp
  have pos: "unat (of_nat i :: u64) = i" if "i \<le> 80" for i using that by (simp add: unat_of_nat_small)
  have wn: "?w (buffer + of_nat ?n) = m (buffer + of_nat ?n)" using w [of ?n] n by simp
  show ?thesis
  proof (cases "m (buffer + of_nat ?n) = 10")
    case True
    let ?m = "?w(buffer + of_nat ?n := 0)"
    have run: "readline owner buffer codes kb m mon =
        Some (buffer, codes', kb'\<lparr>occupant := 0\<rparr>, ?m, putchar 10 (fold putchar ?l mon))"
      using r(1) True wn by (simp add: readline_def)
    have "?m (buffer + of_nat i) = ?l ! i" if "i < ?n" for i
      using w [of i] that n eq [of ?n "buffer + of_nat i"] pos [of i] by simp
    moreover have "?m x = m x" if "\<not> in_range buffer 81 x" for x
      using that n eq [of ?n x] by (auto simp: in_range_def written_def)
    ultimately show ?thesis using run True r(2) by (simp del: fun_upd_apply) (simp)
  next
    case False
    let ?m = "?w(buffer + of_nat ?n := 10, buffer + of_nat (Suc ?n) := 0)"
    have run: "readline owner buffer codes kb m mon =
        Some (buffer, codes', kb'\<lparr>occupant := 0\<rparr>, ?m, putchar 10 (fold putchar ?l mon))"
      using r(1) False wn by (simp add: readline_def del: of_nat_Suc)
    have "?m (buffer + of_nat i) = ?l ! i" if "i < ?n" for i
      using w [of i] that n eq [of ?n "buffer + of_nat i"] eq [of "Suc ?n" "buffer + of_nat i"] pos [of i] by (simp del: of_nat_Suc)
    moreover have "?m x = m x" if "\<not> in_range buffer 81 x" for x
      using that n eq [of ?n x] eq [of "Suc ?n" x] by (auto simp: in_range_def written_def simp del: of_nat_Suc)
    moreover have "?m (buffer + of_nat ?n) = 10" "?m (buffer + of_nat (Suc ?n)) = 0"
      using n eq [of "Suc ?n" "buffer + of_nat ?n"] pos [of ?n] by (simp_all del: of_nat_Suc)
    ultimately show ?thesis using run False r(2) by (simp del: fun_upd_apply of_nat_Suc)
  qed
qed

text \<open>
  C32: \<open>readline\<close> returns when a newline or 80 characters have been typed; it stores the characters
  before the newline, 79 at most, and shows them. Behind them it puts a newline and a zero, except when the buffer
  happens to hold a newline there already: then the zero replaces the newline. It never writes outside of 81
  bytes.
\<close>

theorem readline_correct:
  assumes "owner \<noteq> 0" and "length (line_of 79 (typed codes)) < length (typed codes)"
  shows "\<exists>codes' kb' m' mon'. readline owner buffer codes kb m mon = Some (buffer, codes', kb', m', mon') \<and>
    occupant kb' = 0 \<and> mon' = fold putchar (line_of 79 (typed codes) @ [10]) mon \<and>
    (\<forall>i < length (line_of 79 (typed codes)). m' (buffer + of_nat i) = line_of 79 (typed codes) ! i) \<and>
    (if m (buffer + of_nat (length (line_of 79 (typed codes)))) = 10
     then m' (buffer + of_nat (length (line_of 79 (typed codes)))) = 0
     else m' (buffer + of_nat (length (line_of 79 (typed codes)))) = 10 \<and>
          m' (buffer + of_nat (Suc (length (line_of 79 (typed codes))))) = 0) \<and>
    (\<forall>x. \<not> in_range buffer 81 x \<longrightarrow> m' x = m x)"
  using readline_spec [OF assms] by blast

definition idle_keyboard :: keyboard where
  "idle_keyboard = \<lparr>occupant = 0, scancode = 0, press_code = 0, break_code = 0, new_press = False, new_break = False\<rparr>"

text \<open>The keys h, i and return, with the codes of their release in between.\<close>

theorem readline_correct_witness:
  "\<exists>codes' kb' m' mon'. readline 1 0x1000 [0x23, 0xA3, 0x17, 0x97, 0x1C] idle_keyboard (\<lambda>_. 0) monitor_reset =
     Some (0x1000, codes', kb', m', mon') \<and> mon' = fold putchar [72, 73, 10] monitor_reset"
proof -
  have t: "typed [0x23, 0xA3, 0x17, 0x97, 0x1C] = [72, 73, 10]" by code_simp
  have "line_of 79 [72, 73, 10 :: u8] = [72, 73]" by (simp add: line_of_def)
  then show ?thesis
    using readline_correct [of 1 "[0x23, 0xA3, 0x17, 0x97, 0x1C]" "0x1000" idle_keyboard "\<lambda>_. 0" monitor_reset, unfolded t] by auto
qed

end
