(* ===== verification/ShellLoop.thy ===== *)
theory ShellLoop
  imports Shell Keyboard
begin

text \<open>
  The shell at the keyboard: the loop of \<open>main_loop\<close> of \<open>user/shell.c\<close>, with \<open>readline\<close> of the
  keyboard driver and \<open>puts\<close> of the screen behind its system calls. It is compared with a session: a function
  of the characters typed.
\<close>

section \<open>The loop\<close>

text \<open>What a call shows.\<close>

definition show_call :: "memory \<Rightarrow> shell_call \<Rightarrow> monitor \<Rightarrow> monitor option" where
  "show_call m c mon =
     (case c of Puts_literal s \<Rightarrow> Some (fold putchar (map of_char s) mon) | Puts a \<Rightarrow> puts m a mon | _ \<Rightarrow> Some mon)"

fun show_calls :: "memory \<Rightarrow> shell_call list \<Rightarrow> monitor \<Rightarrow> monitor option" where
  "show_calls m [] mon = Some mon"
| "show_calls m (c # cs) mon = (case show_call m c mon of None \<Rightarrow> None | Some mon' \<Rightarrow> show_calls m cs mon')"

definition farewell :: "shell_call list" where
  "farewell = [Puts_literal (''Exiting...'' @ [CHR 0x0A]), Exit]"

text \<open>
  \<open>forks n\<close> tells for round \<open>n\<close> whether its fork returns 0, and what exec returns then. The calls
  made are collected. What other processes show in between is left out.
\<close>

partial_function (option) main_loop ::
  "u64 \<Rightarrow> u64 \<Rightarrow> u64 \<Rightarrow> u64 \<Rightarrow> u64 \<Rightarrow> u64 \<Rightarrow> (nat \<Rightarrow> bool \<times> u64 option) \<Rightarrow> nat \<Rightarrow> u8 list \<Rightarrow> keyboard \<Rightarrow> memory \<Rightarrow> monitor \<Rightarrow>
     (shell_call list \<times> shell_end \<times> monitor) option" where
  "main_loop owner buffer command arg exit_name exec_name forks n codes kb m mon =
     (case readline owner buffer codes kb m mon of None \<Rightarrow> None | Some (line, codes', kb', m1, mon1) \<Rightarrow>
      case main_loop_round line command arg exit_name exec_name (fst (forks n)) (snd (forks n)) m1 of
        None \<Rightarrow> None | Some (calls, how, m2) \<Rightarrow>
      case show_calls m2 calls mon1 of None \<Rightarrow> None | Some mon2 \<Rightarrow>
        if how = Running then
          Option.bind (main_loop owner buffer command arg exit_name exec_name forks (Suc n) codes' kb' m2 mon2)
            (\<lambda>(calls', how', mon'). Some (Readline buffer # calls @ calls', how', mon'))
        else if how = Stopped then
          map_option (\<lambda>mon'. (Readline buffer # calls @ farewell, Stopped, mon')) (show_calls m2 farewell mon2)
        else Some (Readline buffer # calls, Gone, mon2))"

section \<open>A session\<close>

text \<open>The word with number \<open>k\<close> of what is typed: a zero character ends the line too.\<close>

definition typed_word :: "u8 list \<Rightarrow> int \<Rightarrow> u8 list" where
  "typed_word l k = word_at (takeWhile (\<lambda>c. c \<noteq> 0) l) k"

definition call_text :: "u64 \<Rightarrow> u8 list \<Rightarrow> u8 list \<Rightarrow> shell_call \<Rightarrow> u8 list" where
  "call_text command w1 w2 c =
     (case c of Puts_literal s \<Rightarrow> map of_char s | Puts a \<Rightarrow> if a = command then w1 else w2 | _ \<Rightarrow> [])"

text \<open>
  The calls, how the session ends and the text on the screen; \<open>None\<close> is that the shell waits for the rest of a
  line.
\<close>

function session ::
  "u64 \<Rightarrow> u64 \<Rightarrow> u64 \<Rightarrow> (nat \<Rightarrow> bool \<times> u64 option) \<Rightarrow> nat \<Rightarrow> u8 list \<Rightarrow> (shell_call list \<times> shell_end \<times> u8 list) option" where
  "session buffer command arg forks n cs =
     (let l = line_of 79 cs; w1 = typed_word l 1; w2 = typed_word l 2;
          calls = calls_for command arg (fst (forks n)) (snd (forks n)) w1 w2;
          shown = l @ [10] @ concat (map (call_text command w1 w2) calls)
      in if length l < length cs then
           (case round_end (fst (forks n)) (snd (forks n)) w1 of
              Running \<Rightarrow>
                map_option (\<lambda>(calls', how, shown'). (Readline buffer # calls @ calls', how, shown @ shown'))
                  (session buffer command arg forks (Suc n) (drop (Suc (length l)) cs))
            | Stopped \<Rightarrow>
                Some (Readline buffer # calls @ farewell, Stopped, shown @ concat (map (call_text command w1 w2) farewell))
            | Gone \<Rightarrow> Some (Readline buffer # calls, Gone, shown))
         else None)"
  by pat_completeness auto
termination
  by (relation "measure (\<lambda>(_, _, _, _, _, cs). length cs)") auto

declare session.simps [simp del]

section \<open>Showing text\<close>

lemma puts_loop_fold: "cstr m (str + of_nat i) cs \<Longrightarrow> puts_loop m str i s = Some (fold putchar cs s)"
proof (induction cs arbitrary: i s)
  case Nil
  then show ?case by (subst puts_loop.simps) simp
next
  case (Cons c cs)
  then have "m (str + of_nat i) = c" "c \<noteq> 0" "cstr m (str + of_nat (Suc i)) cs" by (simp_all add: add.commute add.left_commute)
  then show ?case using Cons.IH [of "Suc i"] by (subst puts_loop.simps) (simp del: of_nat_Suc)
qed

lemma show_calls_spec:
  assumes "cstr m command w1" "cstr m arg w2" "command \<noteq> 0" "arg \<noteq> 0" "command \<noteq> arg" "\<forall>a. Puts a \<in> set calls \<longrightarrow> a = command \<or> a = arg"
  shows "show_calls m calls mon = Some (fold putchar (concat (map (call_text command w1 w2) calls)) mon)"
  using assms(6)
proof (induction calls arbitrary: mon)
  case (Cons c calls)
  have "show_call m c mon = Some (fold putchar (call_text command w1 w2 c) mon)"
    using Cons.prems puts_loop_fold [of m command 0 w1 mon] puts_loop_fold [of m arg 0 w2 mon] assms(1-5)
    by (cases c) (auto simp: show_call_def call_text_def puts_def)
  with Cons show ?case by simp
qed simp

lemma calls_for_puts: "Puts a \<in> set (calls_for command arg child res w1 w2 @ farewell) \<Longrightarrow> a = command \<or> a = arg"
  by (auto simp: calls_for_def farewell_def split: if_splits)

section \<open>The line in the buffer\<close>

lemma words_of_line_newline: "10 \<notin> set l \<Longrightarrow> word_at (takeWhile (\<lambda>c. c \<noteq> 0) (l @ [10])) k = typed_word l k"
proof -
  assume "10 \<notin> set l"
  then have "takeWhile (\<lambda>c. c \<noteq> 10) (takeWhile (\<lambda>c. c \<noteq> 0) (l @ [10])) = takeWhile (\<lambda>c. c \<noteq> 10) (takeWhile (\<lambda>c. c \<noteq> 0) l)"
    by (induction l) auto
  then show ?thesis by (simp add: typed_word_def word_at_def words_of_line_def)
qed

lemma cstr_takeWhile:
  assumes "\<forall>i < length l. m (a + of_nat i) = l ! i" "m (a + of_nat (length l)) = 0"
  shows "cstr m a (takeWhile (\<lambda>c. c \<noteq> 0) l)"
  using assms
proof (induction l arbitrary: a)
  case (Cons c l)
  have "m (a + 1 + of_nat i) = l ! i" if "i < length l" for i
    using Cons.prems(1) [rule_format, of "Suc i"] that by (simp add: add.assoc)
  moreover have "m (a + 1 + of_nat (length l)) = 0" using Cons.prems(2) by (simp add: add.assoc)
  ultimately have "cstr m (a + 1) (takeWhile (\<lambda>c. c \<noteq> 0) l)" by (intro Cons.IH) simp_all
  moreover have "m a = c" using Cons.prems(1) [rule_format, of 0] by simp
  ultimately show ?case by simp
qed simp

lemma line_of_no_newline: "10 \<notin> set (line_of n cs)"
  by (auto simp: line_of_def dest: in_set_takeD set_takeWhileD)

text \<open>Whether or not the buffer keeps the newline, the words of the line are those typed.\<close>

lemma readline_line:
  assumes "owner \<noteq> 0" "length (line_of 79 (typed codes)) < length (typed codes)"
  obtains codes' kb' m' xs where "readline owner buffer codes kb m mon =
      Some (buffer, codes', kb', m', fold putchar (line_of 79 (typed codes) @ [10]) mon)"
    "typed codes' = drop (Suc (length (line_of 79 (typed codes)))) (typed codes)" "cstr m' buffer xs" "length xs \<le> 80"
    "\<And>k. word_at xs k = typed_word (line_of 79 (typed codes)) k" "\<And>x. \<not> in_range buffer 81 x \<Longrightarrow> m' x = m x"
proof -
  let ?l = "line_of 79 (typed codes)"
  let ?full = "if m (buffer + of_nat (length ?l)) = 10 then ?l else ?l @ [10]"
  obtain codes' kb' m' where r: "readline owner buffer codes kb m mon = Some (buffer, codes', kb', m', fold putchar (?l @ [10]) mon)"
      "typed codes' = drop (Suc (length ?l)) (typed codes)" "\<forall>x. \<not> in_range buffer 81 x \<longrightarrow> m' x = m x"
    and l: "\<forall>i < length ?l. m' (buffer + of_nat i) = ?l ! i"
      "if m (buffer + of_nat (length ?l)) = 10 then m' (buffer + of_nat (length ?l)) = 0
       else m' (buffer + of_nat (length ?l)) = 10 \<and> m' (buffer + of_nat (Suc (length ?l))) = 0"
    using readline_spec [OF assms, of buffer kb m mon] by blast
  have "cstr m' buffer (takeWhile (\<lambda>c. c \<noteq> 0) ?full)"
    using l by (intro cstr_takeWhile) (auto simp: nth_append less_Suc_eq split: if_splits)
  moreover have "length (takeWhile (\<lambda>c. c \<noteq> 0) ?full) \<le> 80"
    using length_takeWhile_le [of "\<lambda>c. c \<noteq> 0" ?full] line_of_length [of 79 "typed codes"] by (auto split: if_splits)
  moreover have "word_at (takeWhile (\<lambda>c. c \<noteq> 0) ?full) k = typed_word ?l k" for k
    using words_of_line_newline [OF line_of_no_newline, of 79 "typed codes" k] by (simp add: typed_word_def)
  ultimately show thesis by (intro that [OF r(1,2)]) (use r(3) in auto)
qed

section \<open>Refinement\<close>

text \<open>The buffer of the line is apart from the literals.\<close>

definition shell_at :: "u64 \<Rightarrow> u64 \<Rightarrow> u64 \<Rightarrow> u64 \<Rightarrow> u64 \<Rightarrow> memory \<Rightarrow> bool" where
  "shell_at buffer command arg exit_name exec_name m \<longleftrightarrow>
     shell_frame buffer command arg exit_name exec_name \<and>
     disjoint_ranges buffer 81 exit_name 5 \<and> disjoint_ranges buffer 81 exec_name 5 \<and>
     cstr m exit_name EXIT_word \<and> cstr m exec_name EXEC_word"

lemma shell_frame_args: "shell_frame buffer command arg exit_name exec_name \<Longrightarrow> command \<noteq> 0 \<and> arg \<noteq> 0 \<and> command \<noteq> arg"
  using in_range_def [of command 81 command] by (auto simp: shell_frame_def disjoint_ranges_def)

text \<open>One round, from the line read to what it shows.\<close>

lemma round_spec:
  fixes child :: bool and res :: "u64 option"
  assumes "owner \<noteq> 0" "length (line_of 79 (typed codes)) < length (typed codes)"
    and "shell_at buffer command arg exit_name exec_name m"
  defines "l \<equiv> line_of 79 (typed codes)"
  defines "w1 \<equiv> typed_word l 1" and "w2 \<equiv> typed_word l 2"
  defines "calls \<equiv> calls_for command arg child res w1 w2"
  obtains codes' kb' m1 m2 where "readline owner buffer codes kb m mon = Some (buffer, codes', kb', m1, fold putchar (l @ [10]) mon)"
    "typed codes' = drop (Suc (length l)) (typed codes)"
    "main_loop_round buffer command arg exit_name exec_name child res m1 = Some (calls, round_end child res w1, m2)"
    "\<And>mon. show_calls m2 calls mon = Some (fold putchar (concat (map (call_text command w1 w2) calls)) mon)"
    "\<And>mon. show_calls m2 farewell mon = Some (fold putchar (concat (map (call_text command w1 w2) farewell)) mon)"
    "shell_at buffer command arg exit_name exec_name m2"
proof -
  note s = assms(3) [unfolded shell_at_def]
  obtain codes' kb' m1 xs where r: "readline owner buffer codes kb m mon = Some (buffer, codes', kb', m1, fold putchar (l @ [10]) mon)"
      "typed codes' = drop (Suc (length l)) (typed codes)"
    and x: "cstr m1 buffer xs" "length xs \<le> 80" "\<And>k. word_at xs k = typed_word l k" "\<And>x. \<not> in_range buffer 81 x \<Longrightarrow> m1 x = m x"
    using readline_line [OF assms(1,2), of buffer kb m mon] unfolding l_def by blast
  have lit: "cstr m1 exit_name EXIT_word" "cstr m1 exec_name EXEC_word"
    by (rule cstr_kept [of m _ _ buffer 5] , use s literals x(4) in simp_all)+
  have f: "shell_frame buffer command arg exit_name exec_name" using s by simp
  obtain m2 where m2: "main_loop_round buffer command arg exit_name exec_name child res m1 = Some (calls, round_end child res w1, m2)"
    "cstr m2 command w1" "cstr m2 arg w2" "cstr m2 exit_name EXIT_word" "cstr m2 exec_name EXEC_word"
    using main_loop_round_spec [OF x(1,2) f lit, of child res] unfolding x(3) calls_def w1_def w2_def by blast
  note f' = shell_frame_args [OF f]
  have sh: "show_calls m2 cs mon = Some (fold putchar (concat (map (call_text command w1 w2) cs)) mon)"
    if "set cs \<subseteq> set (calls @ farewell)" for cs mon
    using that calls_for_puts [of _ command arg child res w1 w2] f' unfolding calls_def
    by (intro show_calls_spec [OF m2(2,3)]) blast+
  show thesis by (rule that [OF r m2(1) sh sh]) (use s m2(4,5) in \<open>simp_all add: shell_at_def\<close>)
qed

text \<open>An unfinished line.\<close>

lemma wait_key_none: "\<not> new_press kb \<Longrightarrow> occupant kb \<noteq> 0 \<Longrightarrow> typed codes = [] \<Longrightarrow> wait_key codes kb = None"
  by (induction codes arbitrary: kb) (auto simp: keyboard_handler_def is_press_def Let_def split: if_splits)

lemma readline_loop_none:
  "occupant kb \<noteq> 0 \<Longrightarrow> \<not> new_press kb \<Longrightarrow> i \<le> 79 \<Longrightarrow> length (typed codes) \<le> length (line_of (79 - i) (typed codes)) \<Longrightarrow>
   readline_loop buffer i codes kb m mon = None"
proof (induction "79 - i" arbitrary: i codes kb m mon)
  case 0
  then have "typed codes = []" by (simp add: line_of_def)
  then show ?case using wait_key_none [OF 0(3,2)] 0(3) by (subst readline_loop.simps) (simp add: get_char_def)
next
  case (Suc n)
  show ?case
  proof (cases "typed codes")
    case Nil
    then show ?thesis using wait_key_none [OF Suc.prems(2,1)] Suc.prems(2) by (subst readline_loop.simps) (simp add: get_char_def)
  next
    case (Cons c cs)
    obtain codes' kb' where g: "get_char codes kb = Some (c, codes', kb')" "typed codes' = cs" "occupant kb' \<noteq> 0" "\<not> new_press kb'"
      using get_char_spec [OF Suc.prems(1,2) Cons] Suc.prems(1) by auto
    have i: "i < 79" "79 - Suc i = n" "79 - i = Suc n" using Suc(2) by simp_all
    have c: "c \<noteq> 10" using Suc.prems(4) Cons by (auto simp: line_of_def)
    have "readline_loop buffer (Suc i) codes' kb' (m(buffer + of_nat i := c)) (putchar c mon) = None"
      using Suc.prems(4) i Cons g c by (intro Suc.hyps(1)) (simp_all add: line_of_def)
    then show ?thesis using g(1) c i(1) by (subst readline_loop.simps) simp
  qed
qed

lemma readline_waits:
  assumes "owner \<noteq> 0" "\<not> length (line_of 79 (typed codes)) < length (typed codes)"
  shows "readline owner buffer codes kb m mon = None"
  using readline_loop_none [of "kb\<lparr>occupant := owner, new_press := False, new_break := False\<rparr>" 0 codes buffer m mon] assms
  by (simp add: readline_def)

text \<open>
  C25: Whatever is typed, the shell makes the calls and shows the text of the session: each line of at most 79
  characters is echoed, its first two words are shown, EXEC forks and has the child load the program named by the
  second word, and EXIT alone ends the shell, with its farewell; without a complete line it waits. The old
  contents of its buffers, and of the line before, do not matter.
\<close>

theorem main_loop_correct:
  assumes "owner \<noteq> 0" and "shell_at buffer command arg exit_name exec_name m"
  shows "main_loop owner buffer command arg exit_name exec_name forks n codes kb m mon =
    map_option (\<lambda>(calls, how, shown). (calls, how, fold putchar shown mon)) (session buffer command arg forks n (typed codes))"
  using assms(2)
proof (induction "length (typed codes)" arbitrary: n codes kb m mon rule: less_induct)
  case less
  let ?l = "line_of 79 (typed codes)"
  let ?w1 = "typed_word ?l 1" and ?w2 = "typed_word ?l 2"
  let ?child = "fst (forks n)" and ?res = "snd (forks n)"
  show ?case
  proof (cases "length ?l < length (typed codes)")
    case False
    then show ?thesis using readline_waits [OF assms(1) False]
      by (subst main_loop.simps, subst session.simps) (simp add: Let_def)
  next
    case True
    from round_spec [OF assms(1) True less.prems, where child = ?child and res = ?res and kb = kb and mon = mon]
    obtain codes' kb' m1 m2 where r:
      "readline owner buffer codes kb m mon = Some (buffer, codes', kb', m1, fold putchar (?l @ [10]) mon)"
      "typed codes' = drop (Suc (length ?l)) (typed codes)"
      "main_loop_round buffer command arg exit_name exec_name ?child ?res m1 =
         Some (calls_for command arg ?child ?res ?w1 ?w2, round_end ?child ?res ?w1, m2)"
      "\<And>mon. show_calls m2 (calls_for command arg ?child ?res ?w1 ?w2) mon =
         Some (fold putchar (concat (map (call_text command ?w1 ?w2) (calls_for command arg ?child ?res ?w1 ?w2))) mon)"
      "\<And>mon. show_calls m2 farewell mon = Some (fold putchar (concat (map (call_text command ?w1 ?w2) farewell)) mon)"
      "shell_at buffer command arg exit_name exec_name m2" by blast
    have "length (typed codes') < length (typed codes)" using True r(2) by simp
    note ih = less.hyps [OF this r(6)]
    show ?thesis
      by (subst main_loop.simps, subst session.simps, cases "round_end ?child ?res ?w1")
        (simp_all add: Let_def r True ih option.map_comp comp_def case_prod_beta map_option_case split: option.split)
  qed
qed

text \<open>The keys of \<open>EXIT\<close> and return, into a buffer that holds old characters.\<close>

definition shell_memory :: memory where
  "shell_memory = (\<lambda>_. 33)(0x4000 := 69, 0x4001 := 88, 0x4002 := 73, 0x4003 := 84, 0x4004 := 0,
     0x5000 := 69, 0x5001 := 88, 0x5002 := 69, 0x5003 := 67, 0x5004 := 0)"

theorem main_loop_correct_witness:
  "\<exists>calls mon'. main_loop 1 0x1000 0x2000 0x3000 0x4000 0x5000 (\<lambda>_. (False, None)) 0 [0x12, 0x2D, 0x17, 0x14, 0x1C]
      idle_keyboard shell_memory monitor_reset = Some (calls, Stopped, mon') \<and> last calls = Exit"
proof -
  have t: "typed [0x12, 0x2D, 0x17, 0x14, 0x1C] = EXIT_word @ [10]" by code_simp
  have s: "shell_at 0x1000 0x2000 0x3000 0x4000 0x5000 shell_memory"
    unfolding shell_at_def shell_frame_def
    by (intro conjI disjoint_rangesI) (simp_all add: shell_memory_def EXIT_word_def EXEC_word_def)
  have l: "line_of 79 (EXIT_word @ [10]) = EXIT_word" by (simp add: line_of_def EXIT_word_def)
  have w: "typed_word EXIT_word 1 = EXIT_word" "typed_word EXIT_word 2 = []"
    by (simp_all add: typed_word_def word_at_def nth_word_def words_of_line_def EXIT_word_def)
  show ?thesis
    unfolding main_loop_correct [OF one_neq_zero s] t
    by (subst session.simps) (simp add: Let_def l w round_end_def farewell_def)
qed

end
