(* ===== verification/CloneSource.thy ===== *)
theory CloneSource
  imports UserSpaceCorrect
begin

text \<open>
  What \<open>clone_pml4t\<close> relies on: pages from an allocator, which it writes through their virtual addresses
  while the tables and the pages of the running process stay as they are. The contract of the allocator is a
  locale, interpreted in theory \<open>HeapPages\<close> on \<open>kmalloc_a\<close> of the heap.
\<close>

section \<open>Addresses in a page\<close>

definition page_aligned :: "u64 \<Rightarrow> bool" where
  "page_aligned a \<longleftrightarrow> unat a mod 4096 = 0"

lemma in_page:
  assumes a: "page_aligned a" and i: "i < 512"
  shows "get_field 3 9 (a + 8 * i) = i" "va_path (a + 8 * i) = va_path a"
proof -
  obtain m where m: "unat a = 4096 * m" using a unfolding page_aligned_def by (auto elim: dvdE)
  have i': "unat i < 512" using i by (simp add: word_less_nat_alt)
  have "4096 * m < 2 ^ 64" using unsigned_less [of a, where ?'a = nat] m by simp
  then have "4096 * m + 4096 \<le> 2 ^ 64" by simp
  moreover have "8 * unat i < 2 ^ LENGTH(64)" using i' by simp
  then have i8: "unat (8 * i) = 8 * unat i" by (simp only: unat_word_ariths unat_numeral) simp
  ultimately have "unat a + unat (8 * i) < 2 ^ LENGTH(64)" unfolding m i8 using i' by simp
  then have s: "unat (a + 8 * i) = 4096 * m + 8 * unat i" unfolding m i8 [symmetric] by (subst unat_add_small) (simp_all add: m)
  have "(4096 * m + 8 * unat i) div 8 = 512 * m + unat i" by simp
  then have "unat (get_field 3 9 (a + 8 * i)) = (512 * m + unat i) mod 512" unfolding unat_get_field s by simp
  then show "get_field 3 9 (a + 8 * i) = i" using i' by (simp add: word_unat_eq_iff)
  have div: "(4096 * m + 8 * unat i) div 4096 = m" using i' by simp
  have "get_field lo 9 (a + 8 * i) = get_field lo 9 a" if "12 \<le> lo" for lo
  proof -
    have "(2::nat) ^ lo = 4096 * 2 ^ (lo - 12)" using that power_add [of "2::nat" 12 "lo - 12"] by simp
    then have "unat (a + 8 * i) div 2 ^ lo = unat a div 2 ^ lo" unfolding s m by (simp add: div_mult2_eq div)
    then show ?thesis by (simp only: word_unat_eq_iff unat_get_field)
  qed
  then show "va_path (a + 8 * i) = va_path a" by (simp add: va_path_def addr_pml4_def addr_pdp_def addr_pd_def addr_pt_def)
qed

lemma aligned_bits: "(\<And>k. k < 12 \<Longrightarrow> \<not> bit a k) \<Longrightarrow> page_aligned a"
proof -
  assume "\<And>k. k < 12 \<Longrightarrow> \<not> bit a k"
  then have "take_bit 12 a = 0" by (intro bit_word_eqI) (simp add: bit_simps)
  then have "take_bit 12 (unat a) = 0" by (metis unsigned_0 unsigned_take_bit_eq)
  then show ?thesis by (simp add: page_aligned_def take_bit_eq_mod)
qed

text \<open>The address of a page of the process.\<close>

lemma page_address_path:
  assumes "i < 512" "z < 512" "y < 512"
  shows "page_aligned (UserSpace.page_address i z y)" "va_path (UserSpace.page_address i z y) = [0, i, z, y]"
proof -
  show "page_aligned (UserSpace.page_address i z y)"
    by (rule aligned_bits) (simp add: UserSpace.page_address_def bit_set_field)
  have "take_bit 9 x = x" if "x < 512" for x :: u64
  proof -
    have "unat x < 2 ^ 9" using that by (simp add: word_less_nat_alt)
    then show ?thesis by (simp add: word_unat_eq_iff unsigned_take_bit_eq take_bit_nat_eq_self)
  qed
  then show "va_path (UserSpace.page_address i z y) = [0, i, z, y]"
    using assms by (simp add: UserSpace.page_address_def va_path_def addr_pml4_def addr_pdp_def addr_pd_def addr_pt_def)
qed

section \<open>Writing to frames that are no tables\<close>

lemma put_data:
  assumes inv: "vm_inv s" and r: "root s = entry_frame (cr3 s)" and nt: "no_table s F"
  shows "valid_path q \<Longrightarrow> length q \<le> 4 \<Longrightarrow> table (put_entry F i g s) q = table s q"
    "root (put_entry F i g s) = root s" "vm_inv (put_entry F i g s)"
proof -
  have root: "F \<noteq> root s" "F \<noteq> entry_frame (cr3 s)" using nt r by (auto simp: no_table_def table_def dest: spec [of _ "[]"])
  then show rt: "root (put_entry F i g s) = root s" by (simp add: root_def put_entry_mem)
  have tab: "table (put_entry F i g s) q = table s q" if "valid_path q" "length q \<le> 4" for q
    using that
  proof (induction q rule: rev_induct)
    case Nil
    then show ?case using rt by (simp add: table_def)
  next
    case (snoc j q)
    have "h \<noteq> F" if "table s q = Some h" for h using nt snoc.prems that by (auto simp: no_table_def)
    then show ?case using snoc by (auto simp: table_def walk_snoc put_entry_mem split: option.splits)
  qed
  then show "valid_path q \<Longrightarrow> length q \<le> 4 \<Longrightarrow> table (put_entry F i g s) q = table s q" by blast
  have "mem (put_entry F i g s) (root s) 511 = mem s (root s) 511"
    "mem (put_entry F i g s) (entry_frame (cr3 s)) 511 = mem s (entry_frame (cr3 s)) 511"
    using root by (auto simp: put_entry_mem)
  then show "vm_inv (put_entry F i g s)" using inv tab rt unfolding vm_inv_def by simp
qed

section \<open>Pages handed out\<close>

text \<open>The paths of the process: the PML4, its first entry and what is below, except the kernel's gigabyte.\<close>

definition user_path :: "u64 list \<Rightarrow> bool" where
  "user_path q \<longleftrightarrow> valid_path q \<and> length q \<le> 4 \<and> (q = [] \<or> q = [0] \<or> (\<exists>i r. q = 0 # i # r \<and> i < 3))"

text \<open>
  Between \<open>s0\<close> and \<open>s\<close> nothing has happened to the process, no mapping has gone, and the addresses \<open>a\<close> with
  \<open>A a = Some F\<close> are pages for the caller, each with a frame in use of its own that is neither a table nor a
  page of the process.
\<close>

definition handed :: "vm \<Rightarrow> (u64 \<Rightarrow> u64 option) \<Rightarrow> vm \<Rightarrow> bool" where
  "handed s0 A s \<longleftrightarrow> vm_inv s \<and> root s = entry_frame (cr3 s) \<and> cr3 s = cr3 s0 \<and>
     (\<forall>q. user_path q \<longrightarrow> table s q = table s0 q) \<and>
     (\<forall>q f. valid_path q \<longrightarrow> length q = 4 \<longrightarrow> table s0 q = Some f \<longrightarrow> table s q = Some f) \<and>
     (\<forall>q f. user_path q \<longrightarrow> length q = 4 \<longrightarrow> table s0 q = Some f \<longrightarrow> mem s f = mem s0 f) \<and>
     (\<forall>a F. A a = Some F \<longrightarrow> a \<noteq> 0 \<and> page_aligned a \<and> addr_pml4 a \<noteq> 511 \<and> table s (va_path a) = Some F \<and> no_table s F \<and>
        unat F \<in> used_set (mm s) \<and> (\<forall>q. user_path q \<longrightarrow> length q = 4 \<longrightarrow> table s0 q \<noteq> Some F)) \<and>
     (\<forall>a b F. A a = Some F \<longrightarrow> A b = Some F \<longrightarrow> a = b)"

lemma handedD:
  assumes "handed s0 A s"
  shows "vm_inv s" "root s = entry_frame (cr3 s)" "cr3 s = cr3 s0" "user_path q \<Longrightarrow> table s q = table s0 q"
    "valid_path q \<Longrightarrow> length q = 4 \<Longrightarrow> table s0 q = Some f \<Longrightarrow> table s q = Some f"
    "user_path q \<Longrightarrow> length q = 4 \<Longrightarrow> table s0 q = Some f \<Longrightarrow> mem s f = mem s0 f"
    "A a = Some F \<Longrightarrow> a \<noteq> 0" "A a = Some F \<Longrightarrow> page_aligned a" "A a = Some F \<Longrightarrow> addr_pml4 a \<noteq> 511"
    "A a = Some F \<Longrightarrow> table s (va_path a) = Some F" "A a = Some F \<Longrightarrow> no_table s F"
    "A a = Some F \<Longrightarrow> user_path q \<Longrightarrow> length q = 4 \<Longrightarrow> table s0 q \<noteq> Some F"
    "A a = Some F \<Longrightarrow> A b = Some F \<Longrightarrow> a = b" "A a = Some F \<Longrightarrow> unat F \<in> used_set (mm s)"
  using assms unfolding handed_def by blast+

lemma handedI:
  assumes "vm_inv s" "root s = entry_frame (cr3 s)" "cr3 s = cr3 s0" "\<And>q. user_path q \<Longrightarrow> table s q = table s0 q"
    "\<And>q f. valid_path q \<Longrightarrow> length q = 4 \<Longrightarrow> table s0 q = Some f \<Longrightarrow> table s q = Some f"
    "\<And>q f. user_path q \<Longrightarrow> length q = 4 \<Longrightarrow> table s0 q = Some f \<Longrightarrow> mem s f = mem s0 f"
    "\<And>a F. A a = Some F \<Longrightarrow> a \<noteq> 0 \<and> page_aligned a \<and> addr_pml4 a \<noteq> 511 \<and> table s (va_path a) = Some F \<and> no_table s F \<and>
       unat F \<in> used_set (mm s)"
    "\<And>a F q. A a = Some F \<Longrightarrow> user_path q \<Longrightarrow> length q = 4 \<Longrightarrow> table s0 q \<noteq> Some F"
    "\<And>a b F. A a = Some F \<Longrightarrow> A b = Some F \<Longrightarrow> a = b"
  shows "handed s0 A s"
  unfolding handed_def using assms by blast

lemma handed_start: "vm_inv s \<Longrightarrow> root s = entry_frame (cr3 s) \<Longrightarrow> handed s Map.empty s"
  by (simp add: handed_def)

lemma user_path_valid: "user_path q \<Longrightarrow> valid_path q \<and> length q \<le> 4"
  by (simp add: user_path_def)

text \<open>The caller writes to its pages.\<close>

lemma handed_put:
  assumes h: "handed s0 A s" and a: "A a = Some F"
  shows "handed s0 A (put_entry F i g s)"
proof -
  note d = handedD [OF h]
  note p = put_data(1) [OF d(1,2) d(11) [OF a], of _ i g] put_data(2,3) [OF d(1,2) d(11) [OF a], of i g]
  have nt: "no_table (put_entry F i g s) x \<longleftrightarrow> no_table s x" for x using p(1) by (simp add: no_table_def)
  have m: "mem (put_entry F i g s) f = mem s f" if "f \<noteq> F" for f using that by (simp add: put_entry_def)
  have "table (put_entry F i g s) (va_path b) = Some G" if "A b = Some G" for b G
    using d(9,10) [OF that] p(1) [of "va_path b"] valid_va by simp
  moreover have "table (put_entry F i g s) q = table s0 q" if "user_path q" for q
    using d(4) [OF that] p(1) [of q] user_path_valid [OF that] by simp
  moreover have "mem (put_entry F i g s) f = mem s0 f" if "user_path q" "length q = 4" "table s0 q = Some f" for q f
    using d(6) [OF that] d(12) [OF a that(1,2)] that(3) m [of f] by auto
  moreover have "table (put_entry F i g s) q = Some f" if "valid_path q" "length q = 4" "table s0 q = Some f" for q f
    using d(5) [OF that] p(1) [of q] that by simp
  moreover have "cr3 (put_entry F i g s) = cr3 s" "mm (put_entry F i g s) = mm s" by (simp_all add: put_entry_def)
  ultimately show ?thesis
    using d p(2,3) unfolding handed_def nt by simp
qed

lemma handed_access:
  assumes h: "handed s0 A s" and a: "A a = Some F" and i: "i < 512"
  shows "load_entry (a + 8 * i) s = Some (mem s F i)" "upd_entry (a + 8 * i) g s = Some (put_entry F i g s)"
    "get_physical_address a s = Some (F * 0x1000)" "take_bit 40 F = F" "F * 0x1000 div 0x1000 = F"
proof -
  note d = handedD [OF h]
  note ip = in_page [OF d(8) [OF a] i]
  have tr: "translate s (a + 8 * i) = Some F" using d(10) [OF a] translate_table [OF d(2)] ip(2) by simp
  then show "load_entry (a + 8 * i) s = Some (mem s F i)" "upd_entry (a + 8 * i) g s = Some (put_entry F i g s)"
    using ip(1) by (simp_all add: load_entry_def upd_entry_def)
  obtain T where T: "table s [addr_pml4 a, addr_pdp a, addr_pd a] = Some T" "entry_frame (mem s T (addr_pt a)) = F"
    using d(10) [OF a] unfolding va_path_snoc by (auto simp: table_def walk_snoc split: option.splits if_splits)
  then show "get_physical_address a s = Some (F * 0x1000)"
    using translate_page [OF d(1), of a] by (simp add: get_physical_address_def load_entry_def)
  have "unat F < 2 ^ 40" using T(2) get_field_bound [of 12 40 "mem s T (addr_pt a)"] by (auto simp: entry_frame_def)
  then show "take_bit 40 F = F" by (simp add: word_unat_eq_iff unsigned_take_bit_eq take_bit_nat_eq_self)
  have "unat (F * 0x1000) = unat F * 4096" using \<open>unat F < 2 ^ 40\<close> by (simp add: unat_word_ariths)
  then show "F * 0x1000 div 0x1000 = F" by (simp add: word_unat_eq_iff unat_div)
qed

section \<open>The contract\<close>

text \<open>
  A source of pages, with a state \<open>h\<close> of its own: with \<open>n + 1\<close> pages left it hands out a new one, leaves \<open>n\<close> and
  keeps what the earlier pages hold; writing to the pages does not disturb it.
\<close>

locale page_source =
  fixes kmalloc_a :: "'h \<times> vm \<Rightarrow> (u64 \<times> 'h \<times> vm) option" and avail :: "nat \<Rightarrow> (u64 \<Rightarrow> u64 option) \<Rightarrow> 'h \<Rightarrow> vm \<Rightarrow> bool"
  assumes new_page: "handed s0 A s \<Longrightarrow> avail (Suc n) A h s \<Longrightarrow>
      \<exists>a F h' s'. kmalloc_a (h, s) = Some (a, h', s') \<and> A a = None \<and> handed s0 (A(a \<mapsto> F)) s' \<and>
        avail n (A(a \<mapsto> F)) h' s' \<and> (\<forall>G \<in> ran A. mem s' G = mem s G)"
    and avail_put: "handed s0 A s \<Longrightarrow> avail n A h s \<Longrightarrow> A a = Some F \<Longrightarrow> avail n A h (put_entry F i g s)"
begin

definition ready :: "vm \<Rightarrow> nat \<Rightarrow> (u64 \<Rightarrow> u64 option) \<Rightarrow> 'h \<Rightarrow> vm \<Rightarrow> bool" where
  "ready s0 n A h s \<longleftrightarrow> handed s0 A s \<and> avail n A h s"

lemma ready_new:
  assumes "ready s0 (Suc n) A h s"
  obtains a F h' s' where "kmalloc_a (h, s) = Some (a, h', s')" "A a = None" "F \<notin> ran A" "ready s0 n (A(a \<mapsto> F)) h' s'"
    "\<forall>G \<in> ran A. mem s' G = mem s G"
proof -
  obtain a F h' s' where n: "kmalloc_a (h, s) = Some (a, h', s')" "A a = None" "handed s0 (A(a \<mapsto> F)) s'" "avail n (A(a \<mapsto> F)) h' s'"
    "\<forall>G \<in> ran A. mem s' G = mem s G"
    using new_page [of s0 A s n h] assms by (auto simp: ready_def)
  have "F \<notin> ran A"
  proof
    assume "F \<in> ran A"
    then obtain b where "A b = Some F" by (auto simp: ran_def)
    with n(2) have "b \<noteq> a" "(A(a \<mapsto> F)) b = Some F" "(A(a \<mapsto> F)) a = Some F" by auto
    then show False using handedD(13) [OF n(3)] by blast
  qed
  moreover have "ready s0 n (A(a \<mapsto> F)) h' s'" using n(3,4) by (simp add: ready_def)
  ultimately show thesis using n(1,2,5) that by blast
qed

lemma ready_put: "ready s0 n A h s \<Longrightarrow> A a = Some F \<Longrightarrow> ready s0 n A h (put_entry F i g s)"
  unfolding ready_def using avail_put handed_put by blast

end

end
