(* ===== verification/CloneLoops.thy ===== *)
theory CloneLoops
  imports CloneSource
begin

text \<open>
  The four loops of \<open>clone_pml4t\<close>, for any source of pages: each adds the copies of what is below one entry
  of the parent's tables to the child's.
\<close>

section \<open>Filling a page\<close>

lemma fill_loop:
  fixes w :: "u64 \<Rightarrow> u64"
  assumes step: "\<And>i s. i < 512 \<Longrightarrow> Q s \<Longrightarrow> body i s = Some (put_entry F i (\<lambda>_. w i) s)"
    and put: "\<And>(i :: u64) s. Q s \<Longrightarrow> Q (put_entry F i (\<lambda>_. w i) s)" and start: "Q s"
  shows "\<exists>s'. for_loop body 512 0 s = Some s' \<and> Q s' \<and> (\<forall>i < 512. mem s' F i = w i) \<and> (\<forall>G. G \<noteq> F \<longrightarrow> mem s' G = mem s G)"
proof -
  have "\<exists>s'. for_loop body 512 0 s = Some s' \<and> Q s' \<and> (\<forall>i :: u64. unat i < unat (512 :: u64) \<longrightarrow> mem s' F i = w i) \<and>
    (\<forall>G. G \<noteq> F \<longrightarrow> mem s' G = mem s G)"
  proof (rule for_loop_inv [where P = "\<lambda>k t. Q t \<and> (\<forall>i :: u64. unat i < k \<longrightarrow> mem t F i = w i) \<and> (\<forall>G. G \<noteq> F \<longrightarrow> mem t G = mem s G)"])
    fix i :: u64 and t assume i: "i < 512"
      and t: "Q t \<and> (\<forall>j :: u64. unat j < unat i \<longrightarrow> mem t F j = w j) \<and> (\<forall>G. G \<noteq> F \<longrightarrow> mem t G = mem s G)"
    let ?t = "put_entry F i (\<lambda>_. w i) t"
    have "mem ?t F j = w j" if "unat j < Suc (unat i)" for j
    proof -
      have "unat j < unat i \<or> j = i" using that by (auto simp: less_Suc_eq word_unat_eq_iff)
      then show ?thesis using t by (auto simp: put_entry_mem)
    qed
    moreover have "mem ?t G = mem s G" if "G \<noteq> F" for G using t that by (simp add: put_entry_def)
    ultimately show "\<exists>t'. body i t = Some t' \<and> Q t' \<and> (\<forall>j. unat j < Suc (unat i) \<longrightarrow> mem t' F j = w j) \<and>
        (\<forall>G. G \<noteq> F \<longrightarrow> mem t' G = mem s G)"
      using step [OF i] put [of t i] t by (intro exI [of _ ?t]) blast
  qed (use start in simp_all)
  then show ?thesis by (simp add: word_less_nat_alt)
qed

section \<open>The tables of the child\<close>

text \<open>
  Paths below the first entry of the PML4, of tables and pages of the process; \<open>[]\<close> is its page directory
  pointer table. The fourth gigabyte belongs to the kernel.
\<close>

definition child_path :: "u64 list \<Rightarrow> bool" where
  "child_path q \<longleftrightarrow> length q \<le> 3 \<and> (\<forall>i \<in> set q. i < 512) \<and> (q \<noteq> [] \<longrightarrow> hd q < 3)"

definition child_paths :: "vm \<Rightarrow> u64 list set" where
  "child_paths s = {q. child_path q \<and> table s (0 # q) \<noteq> None}"

text \<open>
  The child's table or page for the path \<open>q\<close> is in frame \<open>N q\<close>. A table has an entry for each of the paths
  so far, a page has the contents of the parent's.
\<close>

definition child_node :: "vm \<Rightarrow> (u64 list \<Rightarrow> u64 option) \<Rightarrow> vm \<Rightarrow> u64 list \<Rightarrow> u64 \<Rightarrow> bool" where
  "child_node s0 N s q T \<longleftrightarrow>
     (if length q = 3 then \<forall>i < 512. mem s T i = mem s0 (the (table s0 (0 # q))) i
      else \<forall>i < 512. \<not> (q = [] \<and> i = 3) \<longrightarrow>
        (if entry_present (mem s T i) \<noteq> 0 then N (q @ [i]) = Some (entry_frame (mem s T i)) \<and> entry_user (mem s T i) = 1
         else N (q @ [i]) = None))"

text \<open>
  The nodes for the paths in \<open>S\<close> are there, in pages handed out, and the child's PML4 in frame \<open>R\<close>
  holds \<open>mR\<close>.
\<close>

definition cloned :: "vm \<Rightarrow> u64 \<Rightarrow> (u64 \<Rightarrow> u64) \<Rightarrow> u64 list set \<Rightarrow> (u64 \<Rightarrow> u64 option) \<Rightarrow> (u64 list \<Rightarrow> u64 option) \<Rightarrow> vm \<Rightarrow> bool" where
  "cloned s0 R mR S A N s \<longleftrightarrow> dom N = child_paths s0 \<inter> S \<and> inj_on N (dom N) \<and> ran N \<subseteq> ran A \<and> R \<in> ran A \<and> R \<notin> ran N \<and>
     mem s R = mR \<and> (\<forall>q T. N q = Some T \<longrightarrow> child_node s0 N s q T)"

lemma clonedD:
  assumes "cloned s0 R mR S A N s"
  shows "dom N = child_paths s0 \<inter> S" "inj_on N (dom N)" "ran N \<subseteq> ran A" "R \<in> ran A" "R \<notin> ran N" "mem s R = mR"
    "N q = Some T \<Longrightarrow> child_node s0 N s q T"
  using assms unfolding cloned_def by blast+

lemma finite_child_paths [simp]: "finite (child_paths s)"
proof (rule finite_subset)
  show "child_paths s \<subseteq> {q. set q \<subseteq> UNIV \<and> length q \<le> 3}" by (auto simp: child_paths_def child_path_def)
qed (rule finite_lists_length_le, simp)

lemma child_path_user: "child_path q \<Longrightarrow> user_path (0 # q)"
  by (cases q) (auto simp: child_path_def user_path_def valid_path_def word_less_nat_alt)

lemma child_path_snoc: "child_path (q @ [i]) \<longleftrightarrow> child_path q \<and> length q < 3 \<and> i < 512 \<and> (q = [] \<longrightarrow> i < 3)"
  by (cases q) (auto simp: child_path_def)

lemma cloned_keep:
  assumes c: "cloned s0 R mR S A N s" and m: "\<And>G. G \<in> insert R (ran N) \<Longrightarrow> mem s' G = mem s G" and A: "ran A \<subseteq> ran A'"
  shows "cloned s0 R mR S A' N s'"
proof -
  have "mem s' T = mem s T" if "N q = Some T" for q T using m that by (auto simp: ran_def)
  then show ?thesis using c m [of R] A by (auto simp: cloned_def child_node_def)
qed

text \<open>A path that is not there does not count.\<close>

lemma cloned_skip: "cloned s0 R mR S A N s \<Longrightarrow> child_paths s0 \<inter> S = child_paths s0 \<inter> S' \<Longrightarrow> cloned s0 R mR S' A N s"
  unfolding cloned_def by metis

text \<open>The entry for a new node is written.\<close>

lemma cloned_link:
  assumes c: "cloned s0 R mR S A N s" and F: "F \<in> ran A" "F \<notin> ran N" "F \<noteq> R" and T: "N p = Some T"
    and q: "p @ [i] \<in> child_paths s0" "\<And>r. p @ i # r \<notin> S"
    and node: "length p = 2 \<Longrightarrow> \<forall>j < 512. mem s F j = mem s0 (the (table s0 (0 # p @ [i]))) j"
      "length p < 2 \<Longrightarrow> \<forall>j < 512. mem s F j = 0"
    and g: "entry_present (g (mem s T i)) \<noteq> 0" "entry_frame (g (mem s T i)) = F" "entry_user (g (mem s T i)) = 1"
  shows "cloned s0 R mR (insert (p @ [i]) S) A (N(p @ [i] \<mapsto> F)) (put_entry T i g s)"
proof -
  note d = clonedD [OF c]
  let ?q = "p @ [i]" and ?s = "put_entry T i g s"
  let ?N = "N(?q \<mapsto> F)"
  have new: "N (p @ i # r) = None" for r using d(1) q(2) [of r] by blast
  have TF: "T \<noteq> F" "T \<noteq> R" using T F(2) d(5) by (auto simp: ran_def)
  have p: "length p \<le> 2" using q(1) by (auto simp: child_paths_def child_path_snoc)
  have "inj_on ?N (dom ?N)"
  proof (rule inj_onI)
    fix x y assume "x \<in> dom ?N" "y \<in> dom ?N" "?N x = ?N y"
    then show "x = y" using inj_onD [OF d(2), of x y] F(2) by (auto simp: ran_def split: if_splits)
  qed
  moreover have "child_node s0 ?N ?s x X" if x: "?N x = Some X" for x X
  proof (cases "x = ?q")
    case True
    then have "X = F" using x by simp
    then have m: "mem ?s X = mem s F" using TF by (simp add: put_entry_def)
    have "?N (?q @ [j]) = None" for j using new [of "[j]"] by simp
    then show ?thesis using node m p True by (cases "length p = 2") (simp_all add: child_node_def)
  next
    case False
    then have x': "N x = Some X" using x by simp
    note old = d(7) [OF x']
    have XT: "x = p" if "X = T" using inj_onD [OF d(2), of x p] x' T that by auto
    show ?thesis
    proof (cases "length x = 3")
      case True
      then have "X \<noteq> T" using XT p by auto
      then show ?thesis using old True by (simp add: child_node_def put_entry_def)
    next
      case False
      have "?N (x @ [j]) = (if x = p \<and> j = i then Some F else N (x @ [j]))" for j by auto
      moreover have "mem ?s X j = (if x = p \<and> j = i then g (mem s T i) else mem s X j)" for j
        using XT x' T by (auto simp: put_entry_mem)
      ultimately show ?thesis using old False g by (simp add: child_node_def)
    qed
  qed
  moreover have "ran ?N \<subseteq> ran A" "R \<notin> ran ?N" using d(3,5) F by (auto simp: ran_def)
  moreover have "mem ?s R = mR" using d(6) TF by (simp add: put_entry_def)
  moreover have "dom ?N = child_paths s0 \<inter> insert ?q S" using d(1) q(1) by auto
  ultimately show ?thesis using d(4) unfolding cloned_def by blast
qed

definition below :: "u64 list \<Rightarrow> u64 list set" where
  "below q = {x. \<exists>r. x = q @ r}"

lemma below_self [simp]: "q \<in> below q"
  by (auto simp: below_def)

lemma below_disjoint: "below q \<inter> S = {} \<Longrightarrow> i \<noteq> j \<Longrightarrow> below (q @ [i]) \<inter> (insert q S \<union> below (q @ [j])) = {}"
  by (auto simp: below_def)

text \<open>What is below an absent path is absent, what is below a path is the path and what is below its entries.\<close>

lemma below_absent:
  assumes "child_path q" "q \<notin> child_paths s"
  shows "child_paths s \<inter> below q = {}"
proof -
  have "table s ((0 # q) @ r) = None" for r using assms table_below_None [of s "0 # q" r] by (simp add: child_paths_def)
  then show ?thesis by (auto simp: child_paths_def below_def)
qed

lemma below_entries:
  "child_paths s \<inter> (insert q S \<union> \<Union> ((\<lambda>i. below (q @ [i])) ` {i. i < 512})) = child_paths s \<inter> (S \<union> below q)"
proof -
  have "x = q \<or> (\<exists>i < 512. x \<in> below (q @ [i]))" if x: "x \<in> below q" "child_path x" for x
  proof -
    obtain r where r: "x = q @ r" using x(1) by (auto simp: below_def)
    show ?thesis using r x(2) by (cases r) (auto simp: below_def child_path_def)
  qed
  then show ?thesis by (auto simp: child_paths_def below_def)
qed

lemma map_le_Some: "m \<subseteq>\<^sub>m m' \<Longrightarrow> m k = Some v \<Longrightarrow> m' k = Some v"
  by (metis domI map_le_def)

section \<open>The loops\<close>

context page_source begin

text \<open>Clearing a page that was handed out, and copying a page of the process to one.\<close>

lemma clear_page:
  assumes r: "ready s0 n A h s" and a: "A a = Some F"
  shows "\<exists>s'. mem_clear_block a s = Some s' \<and> ready s0 n A h s' \<and> (\<forall>i < 512. mem s' F i = 0) \<and> (\<forall>G. G \<noteq> F \<longrightarrow> mem s' G = mem s G)"
  unfolding mem_clear_block_def
proof (rule fill_loop [where Q = "ready s0 n A h", OF _ _ r])
  show "upd_entry (a + 8 * i) (\<lambda>_. 0) t = Some (put_entry F i (\<lambda>_. 0) t)" if "i < 512" "ready s0 n A h t" for i :: u64 and t
  proof -
    have "handed s0 A t" using that(2) by (simp add: ready_def)
    then show ?thesis by (rule handed_access(2) [where A = A, OF _ a that(1)])
  qed
qed (rule ready_put [where A = A, OF _ a])

lemma copy_page:
  assumes r: "ready s0 n A h s" and a: "A a = Some F" and q: "i < 3" "z < 512" "y < 512" "table s0 [0, i, z, y] = Some G"
  shows "\<exists>s'. mem_copy_block (UserSpace.page_address i z y) a s = Some s' \<and> ready s0 n A h s' \<and>
    (\<forall>k < 512. mem s' F k = mem s0 G k) \<and> (\<forall>G. G \<noteq> F \<longrightarrow> mem s' G = mem s G)"
  unfolding mem_copy_block_def
proof (rule fill_loop [where Q = "ready s0 n A h", OF _ _ r])
  fix k :: u64 and t assume k: "k < 512" and t: "ready s0 n A h t"
  note h = t [unfolded ready_def, THEN conjunct1]
  note d = handedD [OF h]
  have i: "i < 512" using q(1) by (rule order.strict_trans) simp
  then have "child_path [i, z, y]" using q by (simp add: child_path_def)
  then have u: "user_path [0, i, z, y]" by (rule child_path_user)
  note pa = page_address_path [OF i q(2,3)]
  note ip = in_page [OF pa(1) k]
  have "translate t (UserSpace.page_address i z y + 8 * k) = Some G"
    using translate_table [OF d(2)] ip(2) pa(2) d(4) [OF u] q(4) by simp
  moreover have "mem t G = mem s0 G" using d(6) [OF u] q(4) by simp
  ultimately have "load_entry (UserSpace.page_address i z y + 8 * k) t = Some (mem s0 G k)"
    using ip(1) by (simp add: load_entry_def)
  then show "(do { w \<leftarrow> load_entry (UserSpace.page_address i z y + 8 * k) t; upd_entry (a + 8 * k) (\<lambda>_. w) t }) =
      Some (put_entry F k (\<lambda>_. mem s0 G k) t)"
    using handed_access(2) [OF h a k] by simp
qed (rule ready_put [where A = A, OF _ a])

lemma link_page:
  assumes r: "ready s0 n A h s" and a: "A a = Some F" and b: "A b = Some T" and i: "i < 512"
  shows "get_physical_address a s = Some (F * 0x1000)" "upd_entry (b + 8 * i) g s = Some (put_entry T i g s)"
    "set_table_entry (b + 8 * i) a s =
      Some (put_entry T i (set_entry_user 1 \<circ> set_entry_rw 1 \<circ> set_entry_present 1 \<circ> set_entry_frame F) s)"
    "take_bit 40 F = F" "F * 0x1000 div 0x1000 = F"
proof -
  note h = r [unfolded ready_def, THEN conjunct1]
  show f: "get_physical_address a s = Some (F * 0x1000)" "upd_entry (b + 8 * i) g s = Some (put_entry T i g s)"
    "take_bit 40 F = F" "F * 0x1000 div 0x1000 = F" for g
    using handed_access(3-5) [OF h a, of 0] handed_access(2) [OF h b i] by simp_all
  show "set_table_entry (b + 8 * i) a s =
      Some (put_entry T i (set_entry_user 1 \<circ> set_entry_rw 1 \<circ> set_entry_present 1 \<circ> set_entry_frame F) s)"
    using f by (simp add: set_table_entry_def)
qed

text \<open>Where the copying is: what the invariant says, with a page left for each node to come.\<close>

definition cloning :: "vm \<Rightarrow> u64 \<Rightarrow> (u64 \<Rightarrow> u64) \<Rightarrow> u64 list set \<Rightarrow> (u64 \<Rightarrow> u64 option) \<Rightarrow> (u64 list \<Rightarrow> u64 option) \<Rightarrow> 'h \<times> vm \<Rightarrow> bool" where
  "cloning s0 R mR S A N s \<longleftrightarrow> ready s0 (card (child_paths s0 - S)) A (fst s) (snd s) \<and> cloned s0 R mR S A N (snd s)"

lemma cloning_cong:
  assumes "cloning s0 R mR S A N s" "child_paths s0 \<inter> S = child_paths s0 \<inter> S'"
  shows "cloning s0 R mR S' A N s"
proof -
  have "child_paths s0 - S = child_paths s0 - S'" using assms(2) by blast
  then show ?thesis using assms cloned_skip [of s0 R mR S A N "snd s" S'] by (simp add: cloning_def)
qed

lemma new_node:
  assumes c: "cloning s0 R mR S A N (h, s)" and q: "q \<in> child_paths s0" "q \<notin> S"
  obtains a F h' s' where "kmalloc_a (h, s) = Some (a, h', s')" "A a = None" "F \<notin> ran A"
    "ready s0 (card (child_paths s0 - insert q S)) (A(a \<mapsto> F)) h' s'" "cloned s0 R mR S (A(a \<mapsto> F)) N s'"
proof -
  have "child_paths s0 - S = insert q (child_paths s0 - insert q S)" using q by blast
  then have "card (child_paths s0 - S) = Suc (card (child_paths s0 - insert q S))"
    by (metis Diff_iff card_insert_disjoint finite_Diff finite_child_paths insertI1)
  then have "ready s0 (Suc (card (child_paths s0 - insert q S))) A h s" using c by (simp add: cloning_def)
  then obtain a F h' s' where n: "kmalloc_a (h, s) = Some (a, h', s')" "A a = None" "F \<notin> ran A"
    "ready s0 (card (child_paths s0 - insert q S)) (A(a \<mapsto> F)) h' s'" "\<forall>G \<in> ran A. mem s' G = mem s G"
    by (rule ready_new) (rule that)
  have cl: "cloned s0 R mR S A N s" using c by (simp add: cloning_def)
  have "cloned s0 R mR S (A(a \<mapsto> F)) N s'"
    by (rule cloned_keep [OF cl]) (use n(2,5) clonedD(3,4) [OF cl] in auto)
  then show thesis by (rule that [OF n(1-4)])
qed

lemma parent_entry:
  assumes h: "handed s0 A s" and p: "p \<in> child_paths s0" "child_path (p @ [i])"
    and va: "translate s va = table s (0 # p)" "get_field 3 9 va = i"
  shows "\<exists>e. load_entry va s = Some e \<and> (entry_present e = 1 \<longleftrightarrow> p @ [i] \<in> child_paths s0)"
proof -
  have "child_path p" using p(1) by (simp add: child_paths_def)
  then have t: "table s (0 # p) = table s0 (0 # p)" "table s ((0 # p) @ [i]) = table s0 (0 # p @ [i])"
    using handedD(4) [OF h] child_path_user p(2) by simp_all
  obtain T where T: "table s (0 # p) = Some T" using p(1) t(1) by (auto simp: child_paths_def)
  then have "table s ((0 # p) @ [i]) = (if entry_present (mem s T i) \<noteq> 0 then Some (entry_frame (mem s T i)) else None)"
    unfolding table_def walk_snoc by simp
  then have "table s0 (0 # p @ [i]) = None \<longleftrightarrow> entry_present (mem s T i) = 0" unfolding t(2) by simp
  then have "entry_present (mem s T i) = 1 \<longleftrightarrow> p @ [i] \<in> child_paths s0"
    using p(2) present_bit [of "mem s T i"] by (auto simp: child_paths_def)
  then show ?thesis using va T by (simp add: load_entry_def)
qed

text \<open>The pages handed out and the nodes so far stay.\<close>

definition cloning_on :: "vm \<Rightarrow> u64 \<Rightarrow> (u64 \<Rightarrow> u64) \<Rightarrow> (u64 \<Rightarrow> u64 option) \<Rightarrow> (u64 list \<Rightarrow> u64 option) \<Rightarrow> u64 list set \<Rightarrow> 'h \<times> vm \<Rightarrow> bool" where
  "cloning_on s0 R mR A N S s \<longleftrightarrow> (\<exists>A' N'. A \<subseteq>\<^sub>m A' \<and> N \<subseteq>\<^sub>m N' \<and> cloning s0 R mR S A' N' s)"

lemma cloning_onI: "cloning s0 R mR S A' N' s \<Longrightarrow> A \<subseteq>\<^sub>m A' \<Longrightarrow> N \<subseteq>\<^sub>m N' \<Longrightarrow> cloning_on s0 R mR A N S s"
  unfolding cloning_on_def by blast

lemma cloning_onE:
  assumes "cloning_on s0 R mR A N S s"
  obtains A' N' where "A \<subseteq>\<^sub>m A'" "N \<subseteq>\<^sub>m N'" "cloning s0 R mR S A' N' s"
  using assms unfolding cloning_on_def by blast

lemma cloning_on_cong: "cloning_on s0 R mR A N S s \<Longrightarrow> child_paths s0 \<inter> S = child_paths s0 \<inter> S' \<Longrightarrow> cloning_on s0 R mR A N S' s"
  unfolding cloning_on_def using cloning_cong by blast

lemma cloning_on_trans:
  assumes "cloning_on s0 R mR A' N' S s" "A \<subseteq>\<^sub>m A'" "N \<subseteq>\<^sub>m N'"
  shows "cloning_on s0 R mR A N S s"
  using assms unfolding cloning_on_def by (meson map_le_trans)

lemma cloning_absent:
  assumes "cloning s0 R mR S A N s" "child_path q" "q \<notin> child_paths s0"
  shows "cloning_on s0 R mR A N (S \<union> below q) s"
proof -
  have "child_paths s0 \<inter> S = child_paths s0 \<inter> (S \<union> below q)" using below_absent [OF assms(2,3)] by blast
  then show ?thesis by (intro cloning_onI [OF cloning_cong [OF assms(1)]]) simp_all
qed

text \<open>A new page is filled and linked.\<close>

lemma add_node:
  assumes cl: "cloned s0 R mR S A N s" "cloned s0 R mR S (A(a \<mapsto> F)) N s1" and a: "A a = None" "F \<notin> ran A"
    and r: "ready s0 (card (child_paths s0 - insert (p @ [i]) S)) (A(a \<mapsto> F)) h s2"
    and m: "\<forall>G. G \<noteq> F \<longrightarrow> mem s2 G = mem s1 G" and T: "N p = Some T" "A b = Some T"
    and q: "p @ [i] \<in> child_paths s0" "below (p @ [i]) \<inter> S = {}"
    and node: "length p = 2 \<Longrightarrow> \<forall>j < 512. mem s2 F j = mem s0 (the (table s0 (0 # p @ [i]))) j"
      "length p < 2 \<Longrightarrow> \<forall>j < 512. mem s2 F j = 0"
    and g: "\<And>e. entry_present (g e) \<noteq> 0 \<and> entry_frame (g e) = F \<and> entry_user (g e) = 1"
  shows "cloning s0 R mR (insert (p @ [i]) S) (A(a \<mapsto> F)) (N(p @ [i] \<mapsto> F)) (h, put_entry T i g s2)"
    "A \<subseteq>\<^sub>m A(a \<mapsto> F)" "N \<subseteq>\<^sub>m N(p @ [i] \<mapsto> F)" "(A(a \<mapsto> F)) b = Some T"
proof -
  have FR: "F \<noteq> R" "F \<notin> ran N" "F \<in> ran (A(a \<mapsto> F))" using clonedD(3,4) [OF cl(1)] a(2) by (auto simp: ran_def)
  have fresh: "p @ i # r \<notin> S" for r using q(2) by (auto simp: below_def)
  have "cloned s0 R mR S (A(a \<mapsto> F)) N s2"
    by (rule cloned_keep [OF cl(2)]) (use m FR in auto)
  then have "cloned s0 R mR (insert (p @ [i]) S) (A(a \<mapsto> F)) (N(p @ [i] \<mapsto> F)) (put_entry T i g s2)"
    by (rule cloned_link) (use FR T(1) q(1) fresh node g in auto)
  moreover show b: "(A(a \<mapsto> F)) b = Some T" using a(1) T(2) by auto
  ultimately show "cloning s0 R mR (insert (p @ [i]) S) (A(a \<mapsto> F)) (N(p @ [i] \<mapsto> F)) (h, put_entry T i g s2)"
    unfolding cloning_def fst_conv snd_conv using ready_put [OF r b] by blast
  have "N (p @ [i]) = None" using clonedD(1) [OF cl(1)] fresh [of "[]"] by auto
  then show "N \<subseteq>\<^sub>m N(p @ [i] \<mapsto> F)" "A \<subseteq>\<^sub>m A(a \<mapsto> F)" using a(1) by (auto simp: map_le_def)
qed

lemma clone_page_spec:
  assumes c: "cloning s0 R mR S A N (h, s)" and i: "i < 3" "z < 512" "y < 512" and T: "N [i, z] = Some T" "A pt = Some T"
    and fresh: "below [i, z, y] \<inter> S = {}"
  shows "\<exists>s'. clone_page kmalloc_a pt i z y (h, s) = Some s' \<and> cloning_on s0 R mR A N (S \<union> below [i, z, y]) s'"
proof -
  have cl: "cloned s0 R mR S A N s" and hs: "handed s0 A s" using c by (simp_all add: cloning_def ready_def)
  have "i < 512" using i(1) by (rule order.strict_trans) simp
  then have p: "child_path ([i, z] @ [y])" "unat i < 512" "unat z < 512" "unat y < 512"
    using i by (simp_all add: child_path_def word_less_nat_alt)
  have "[i, z] \<in> child_paths s0" using clonedD(1) [OF cl] T(1) by blast
  from parent_entry [OF hs this p(1), of "get_page_entry 0 i z y"] obtain e where
    e: "load_entry (get_page_entry 0 i z y) s = Some e" "entry_present e = 1 \<longleftrightarrow> [i, z, y] \<in> child_paths s0"
    using translate_entries(1,2) [OF handedD(1) [OF hs], of 0] p by auto
  show ?thesis
  proof (cases "[i, z, y] \<in> child_paths s0")
    case False
    then have "clone_page kmalloc_a pt i z y (h, s) = Some (h, s)" using e by (simp add: clone_page_def)
    then show ?thesis using cloning_absent [OF c _ False] p(1) by simp
  next
    case True
    have "[i, z, y] \<notin> S" using fresh below_self [of "[i, z, y]"] by blast
    then obtain a F h1 s1 where n: "kmalloc_a (h, s) = Some (a, h1, s1)" "A a = None" "F \<notin> ran A"
      "ready s0 (card (child_paths s0 - insert [i, z, y] S)) (A(a \<mapsto> F)) h1 s1" "cloned s0 R mR S (A(a \<mapsto> F)) N s1"
      by (rule new_node [OF c True]) (rule that)
    obtain G where G: "table s0 [0, i, z, y] = Some G" using True by (auto simp: child_paths_def)
    have a: "(A(a \<mapsto> F)) a = Some F" "(A(a \<mapsto> F)) pt = Some T" using n(2) T(2) by auto
    obtain s2 where s2: "mem_copy_block (UserSpace.page_address i z y) a s1 = Some s2"
      "ready s0 (card (child_paths s0 - insert [i, z, y] S)) (A(a \<mapsto> F)) h1 s2"
      "\<forall>k < 512. mem s2 F k = mem s0 G k" "\<forall>G. G \<noteq> F \<longrightarrow> mem s2 G = mem s1 G"
      using copy_page [OF n(4) a(1) i G] by blast
    note l = link_page [OF s2(2) a i(3)]
    let ?g = "set_entry_rw 1 \<circ> set_entry_present 1 \<circ> set_entry_user 1 \<circ> set_entry_frame F"
    have run: "clone_page kmalloc_a pt i z y (h, s) = Some (h1, put_entry T y ?g s2)"
      using e True n(1) s2(1) l by (simp add: clone_page_def)
    note add = add_node [where p = "[i, z]" and i = y and g = ?g, OF cl n(5,2,3) _ s2(4) T]
    have "child_paths s0 \<inter> insert [i, z, y] S = child_paths s0 \<inter> (S \<union> below [i, z, y])"
      by (auto simp: below_def child_paths_def child_path_def)
    moreover have "cloning_on s0 R mR A N (insert [i, z, y] S) (h1, put_entry T y ?g s2)"
      using add(1-3) s2(2,3) G True fresh l(4) by (intro cloning_onI) (simp_all add: take_bit_Suc)
    ultimately show ?thesis using run cloning_on_cong by blast
  qed
qed

text \<open>A new table.\<close>

lemma add_table:
  assumes c: "cloning s0 R mR S A N (h, s)" and q: "p @ [i] \<in> child_paths s0" "below (p @ [i]) \<inter> S = {}" "length p < 2"
    and T: "N p = Some T" "A b = Some T"
  obtains a F h1 s1 s2 s3 where "kmalloc_a (h, s) = Some (a, h1, s1)" "mem_clear_block a s1 = Some s2" "set_table_entry (b + 8 * i) a s2 = Some s3"
    "cloning s0 R mR (insert (p @ [i]) S) (A(a \<mapsto> F)) (N(p @ [i] \<mapsto> F)) (h1, s3)" "A \<subseteq>\<^sub>m A(a \<mapsto> F)" "N \<subseteq>\<^sub>m N(p @ [i] \<mapsto> F)"
proof -
  have cl: "cloned s0 R mR S A N s" using c by (simp add: cloning_def)
  have "p @ [i] \<notin> S" using q(2) below_self [of "p @ [i]"] by blast
  then obtain a F h1 s1 where n: "kmalloc_a (h, s) = Some (a, h1, s1)" "A a = None" "F \<notin> ran A"
    "ready s0 (card (child_paths s0 - insert (p @ [i]) S)) (A(a \<mapsto> F)) h1 s1" "cloned s0 R mR S (A(a \<mapsto> F)) N s1"
    by (rule new_node [OF c q(1)]) (rule that)
  have i: "i < 512" using q(1) by (simp add: child_paths_def child_path_snoc)
  have a: "(A(a \<mapsto> F)) a = Some F" "(A(a \<mapsto> F)) b = Some T" using n(2) T(2) by auto
  obtain s2 where s2: "mem_clear_block a s1 = Some s2" "ready s0 (card (child_paths s0 - insert (p @ [i]) S)) (A(a \<mapsto> F)) h1 s2"
    "\<forall>k < 512. mem s2 F k = 0" "\<forall>G. G \<noteq> F \<longrightarrow> mem s2 G = mem s1 G"
    using clear_page [OF n(4) a(1)] by blast
  note l = link_page [OF s2(2) a i]
  let ?g = "set_entry_user 1 \<circ> set_entry_rw 1 \<circ> set_entry_present 1 \<circ> set_entry_frame F"
  note add = add_node [where g = ?g, OF cl n(5,2,3) s2(2,4) T q(1,2)]
  show thesis
    by (rule that [OF n(1) s2(1) l(3) add(1-3)]) (use q(3) s2(3) l(4) in \<open>simp_all add: take_bit_Suc\<close>)
qed

text \<open>The loop over the entries of a table, the body copying what is below one.\<close>

lemma entries_loop:
  assumes start: "cloning s0 R mR (insert q S) A N s" and fresh: "below q \<inter> S = {}"
    and body: "\<And>i S A' N' s. i < n \<Longrightarrow> A \<subseteq>\<^sub>m A' \<Longrightarrow> N \<subseteq>\<^sub>m N' \<Longrightarrow> cloning s0 R mR S A' N' s \<Longrightarrow> below (q @ [i]) \<inter> S = {} \<Longrightarrow>
      \<exists>s'. body i s = Some s' \<and> cloning_on s0 R mR A' N' (S \<union> below (q @ [i])) s'"
  shows "\<exists>s'. for_loop body n 0 s = Some s' \<and>
    cloning_on s0 R mR A N (insert q S \<union> \<Union> ((\<lambda>i. below (q @ [i])) ` {i. i < n})) s'"
proof (rule for_loop_collects [where P = "cloning_on s0 R mR A N"])
  show "cloning_on s0 R mR A N (insert q S) s" by (rule cloning_onI [OF start]) simp_all
  fix i t let ?S = "insert q S \<union> \<Union> ((\<lambda>j. below (q @ [j])) ` {j. j < i})"
  assume i: "i < n" and P: "cloning_on s0 R mR A N ?S t"
  from P obtain A' N' where A': "A \<subseteq>\<^sub>m A'" "N \<subseteq>\<^sub>m N'" "cloning s0 R mR ?S A' N' t" by (rule cloning_onE)
  have "below (q @ [i]) \<inter> ?S = {}" using fresh by (auto simp: below_def)
  from body [OF i A' this] show "\<exists>t'. body i t = Some t' \<and> cloning_on s0 R mR A N (?S \<union> below (q @ [i])) t'"
    using cloning_on_trans [OF _ A'(1,2)] by blast
qed

lemma clone_table_spec:
  assumes c: "cloning s0 R mR S A N (h, s)" and i: "i < 3" "z < 512" and T: "N [i] = Some T" "A pd = Some T"
    and fresh: "below [i, z] \<inter> S = {}"
  shows "\<exists>s'. clone_table kmalloc_a pd i z (h, s) = Some s' \<and> cloning_on s0 R mR A N (S \<union> below [i, z]) s'"
proof -
  have cl: "cloned s0 R mR S A N s" and hs: "handed s0 A s" using c by (simp_all add: cloning_def ready_def)
  have "i < 512" using i(1) by (rule order.strict_trans) simp
  then have p: "child_path ([i] @ [z])" "unat i < 512" "unat z < 512"
    using i by (simp_all add: child_path_def word_less_nat_alt)
  have "[i] \<in> child_paths s0" using clonedD(1) [OF cl] T(1) by blast
  from parent_entry [OF hs this p(1), of "get_pd_entry 0 i z"] obtain e where
    e: "load_entry (get_pd_entry 0 i z) s = Some e" "entry_present e = 1 \<longleftrightarrow> [i, z] \<in> child_paths s0"
    using translate_entries(3,4) [OF handedD(1) [OF hs], of 0] p by auto
  show ?thesis
  proof (cases "[i, z] \<in> child_paths s0")
    case False
    then have "clone_table kmalloc_a pd i z (h, s) = Some (h, s)" using e by (simp add: clone_table_def)
    then show ?thesis using cloning_absent [OF c _ False] p(1) by simp
  next
    case True
    obtain a F h1 s1 s2 s3 where n: "kmalloc_a (h, s) = Some (a, h1, s1)" "mem_clear_block a s1 = Some s2" "set_table_entry (pd + 8 * z) a s2 = Some s3"
      "cloning s0 R mR (insert [i, z] S) (A(a \<mapsto> F)) (N([i, z] \<mapsto> F)) (h1, s3)" "A \<subseteq>\<^sub>m A(a \<mapsto> F)" "N \<subseteq>\<^sub>m N([i, z] \<mapsto> F)"
      by (rule add_table [where p = "[i]" and i = z and b = pd, OF c _ _ _ T])
        (use True fresh in simp, use fresh in simp, simp, rule that, simp_all)
    have "\<exists>s'. for_loop (clone_page kmalloc_a a i z) 512 0 (h1, s3) = Some s' \<and>
        cloning_on s0 R mR (A(a \<mapsto> F)) (N([i, z] \<mapsto> F)) (insert [i, z] S \<union> \<Union> ((\<lambda>y. below ([i, z] @ [y])) ` {y. y < 512})) s'"
    proof (rule entries_loop [OF n(4) fresh])
      fix y S' A' N' t
      assume s: "y < 512" "cloning s0 R mR S' A' N' t" "below ([i, z] @ [y]) \<inter> S' = {}"
        and le: "A(a \<mapsto> F) \<subseteq>\<^sub>m A'" "N([i, z] \<mapsto> F) \<subseteq>\<^sub>m N'"
      have "A' a = Some F" "N' [i, z] = Some F" using map_le_Some [OF le(1), of a] map_le_Some [OF le(2), of "[i, z]"] by simp_all
      then show "\<exists>t'. clone_page kmalloc_a a i z y t = Some t' \<and> cloning_on s0 R mR A' N' (S' \<union> below ([i, z] @ [y])) t'"
        using clone_page_spec [of s0 R mR S' A' N' "fst t" "snd t" i z y F a] i s by simp
    qed
    then show ?thesis
      using cloning_on_cong [OF _ below_entries] cloning_on_trans [OF _ n(5,6)] e True n(1-3)
      by (auto simp: clone_table_def)
  qed
qed

lemma clone_directory_spec:
  assumes c: "cloning s0 R mR S A N (h, s)" and i: "i < 3" and T: "N [] = Some T" "A pdp = Some T" and fresh: "below [i] \<inter> S = {}"
  shows "\<exists>s'. clone_directory kmalloc_a pdp i (h, s) = Some s' \<and> cloning_on s0 R mR A N (S \<union> below [i]) s'"
proof -
  have cl: "cloned s0 R mR S A N s" and hs: "handed s0 A s" using c by (simp_all add: cloning_def ready_def)
  have "i < 512" using i(1) by (rule order.strict_trans) simp
  then have p: "child_path ([] @ [i])" "unat i < 512"
    using i by (simp_all add: child_path_def word_less_nat_alt)
  have "[] \<in> child_paths s0" using clonedD(1) [OF cl] T(1) by blast
  from parent_entry [OF hs this p(1), of "get_pdp_entry 0 i"] obtain e where
    e: "load_entry (get_pdp_entry 0 i) s = Some e" "entry_present e = 1 \<longleftrightarrow> [i] \<in> child_paths s0"
    using translate_entries(5,6) [OF handedD(1) [OF hs], of 0] p by auto
  show ?thesis
  proof (cases "[i] \<in> child_paths s0")
    case False
    then have "clone_directory kmalloc_a pdp i (h, s) = Some (h, s)" using e by (simp add: clone_directory_def)
    then show ?thesis using cloning_absent [OF c _ False] p(1) by simp
  next
    case True
    obtain a F h1 s1 s2 s3 where n: "kmalloc_a (h, s) = Some (a, h1, s1)" "mem_clear_block a s1 = Some s2" "set_table_entry (pdp + 8 * i) a s2 = Some s3"
      "cloning s0 R mR (insert [i] S) (A(a \<mapsto> F)) (N([i] \<mapsto> F)) (h1, s3)" "A \<subseteq>\<^sub>m A(a \<mapsto> F)" "N \<subseteq>\<^sub>m N([i] \<mapsto> F)"
      by (rule add_table [where p = "[]" and i = i and b = pdp, OF c _ _ _ T])
        (use True fresh in simp, use fresh in simp, simp, rule that, simp_all)
    have "\<exists>s'. for_loop (clone_table kmalloc_a a i) 512 0 (h1, s3) = Some s' \<and>
        cloning_on s0 R mR (A(a \<mapsto> F)) (N([i] \<mapsto> F)) (insert [i] S \<union> \<Union> ((\<lambda>z. below ([i] @ [z])) ` {z. z < 512})) s'"
    proof (rule entries_loop [OF n(4) fresh])
      fix z S' A' N' t
      assume s: "z < 512" "cloning s0 R mR S' A' N' t" "below ([i] @ [z]) \<inter> S' = {}"
        and le: "A(a \<mapsto> F) \<subseteq>\<^sub>m A'" "N([i] \<mapsto> F) \<subseteq>\<^sub>m N'"
      have "A' a = Some F" "N' [i] = Some F" using map_le_Some [OF le(1), of a] map_le_Some [OF le(2), of "[i]"] by simp_all
      then show "\<exists>t'. clone_table kmalloc_a a i z t = Some t' \<and> cloning_on s0 R mR A' N' (S' \<union> below ([i] @ [z])) t'"
        using clone_table_spec [of s0 R mR S' A' N' "fst t" "snd t" i z F a] i s by simp
    qed
    then show ?thesis
      using cloning_on_cong [OF _ below_entries] cloning_on_trans [OF _ n(5,6)] e True n(1-3)
      by (auto simp: clone_directory_def)
  qed
qed

text \<open>The loop of \<open>clone_pml4t\<close>.\<close>

lemma clone_loop_spec:
  assumes c: "cloning s0 R mR {[]} A N s" and T: "N [] = Some T" "A pdp = Some T"
  shows "\<exists>s'. for_loop (clone_directory kmalloc_a pdp) 3 0 s = Some s' \<and> cloning_on s0 R mR A N UNIV s'"
proof -
  have "\<exists>s'. for_loop (clone_directory kmalloc_a pdp) 3 0 s = Some s' \<and>
      cloning_on s0 R mR A N (insert [] {} \<union> \<Union> ((\<lambda>i. below ([] @ [i])) ` {i. i < 3})) s'"
  proof (rule entries_loop [OF c])
    fix i S' A' N' t
    assume s: "i < 3" "cloning s0 R mR S' A' N' t" "below ([] @ [i]) \<inter> S' = {}" and le: "A \<subseteq>\<^sub>m A'" "N \<subseteq>\<^sub>m N'"
    then show "\<exists>t'. clone_directory kmalloc_a pdp i t = Some t' \<and> cloning_on s0 R mR A' N' (S' \<union> below ([] @ [i])) t'"
      using clone_directory_spec [of s0 R mR S' A' N' "fst t" "snd t" i T pdp] map_le_Some [OF le(1) T(2)] map_le_Some [OF le(2) T(1)] by simp
  qed simp
  moreover have "child_paths s0 \<inter> (insert [] {} \<union> \<Union> ((\<lambda>i. below ([] @ [i])) ` {i. i < 3})) = child_paths s0 \<inter> UNIV"
  proof -
    have "q = [] \<or> q \<in> \<Union> ((\<lambda>i. below ([] @ [i])) ` {i. i < 3})" if "child_path q" for q
    proof (cases q)
      case (Cons i r)
      then have "i < 3" "q \<in> below ([] @ [i])" using that by (simp_all add: child_path_def below_def)
      then show ?thesis by blast
    qed simp
    then show ?thesis unfolding child_paths_def by blast
  qed
  ultimately show ?thesis using cloning_on_cong [of s0 R mR A N] by meson
qed

end

end
