(* ===== verification/KHeapAligned.thy ===== *)
theory KHeapAligned
  imports KHeapProps
begin

text \<open>
  Page-aligned requests: \<open>alloc\<close> splits the hole it takes in front of the block, so that the block's data begins with
  a page. The cases here are those of a hole that leaves room for a hole in front and one behind.
\<close>

section \<open>Words\<close>

lemma and_mask_of_nat: "(of_nat p :: u64) AND 0xFFF = of_nat (p mod 4096)"
proof -
  have "unat ((of_nat p :: u64) AND 0xFFF) = p mod 2 ^ 64 mod 2 ^ 12" by (simp add: and_page_mask unat_mod unat_of_nat)
  also have "\<dots> = p mod 4096" by (simp add: mod_mod_cancel)
  finally have "of_nat (unat ((of_nat p :: u64) AND 0xFFF)) = (of_nat (p mod 4096) :: u64)" by (simp only:)
  then show ?thesis by simp
qed

lemma mod_page_word: "p < 2 ^ 64 \<Longrightarrow> (of_nat p :: u64) mod 0x1000 = of_nat (p mod 4096)"
  by (simp add: word_unat_eq_iff unat_mod unat_of_nat unat_of_nat_small)

text \<open>The bytes in front of the header of an aligned block behind the position \<open>p\<close>.\<close>

definition front :: "nat \<Rightarrow> nat" where
  "front p = 4080 - p mod 4096"

lemma front_words:
  assumes "p mod 4096 \<le> 4048" "p + 4096 < 2 ^ 64"
  shows "(of_nat p + 16 :: u64) AND 0xFFF \<noteq> 0" "HEAP_BLOCK_SIZE - (of_nat p AND 0xFFF) - 16 = (of_nat (front p) :: u64)"
    "of_nat p + HEAP_BLOCK_SIZE - (of_nat p AND 0xFFF) - 16 = (of_nat (p + front p) :: u64)"
    "HEAP_BLOCK_SIZE - (of_nat p + 16) mod HEAP_BLOCK_SIZE = (of_nat (front p) :: u64)"
proof -
  have m: "(p + 16) mod 4096 = p mod 4096 + 16" using assms(1) by (simp add: mod_add_eq [symmetric, of p] del: mod_add_eq)
  have s: "of_nat p + 16 = (of_nat (p + 16) :: u64)" by simp
  show "(of_nat p + 16 :: u64) AND 0xFFF \<noteq> 0"
    unfolding s and_mask_of_nat m by (simp add: word_unat_eq_iff unat_of_nat del: of_nat_add)
  have f: "(of_nat (front p) :: u64) = 4080 - of_nat (p mod 4096)"
    using assms(1) by (simp add: front_def of_nat_diff)
  show "HEAP_BLOCK_SIZE - (of_nat p AND 0xFFF) - 16 = (of_nat (front p) :: u64)"
    unfolding and_mask_of_nat f by simp
  show "of_nat p + HEAP_BLOCK_SIZE - (of_nat p AND 0xFFF) - 16 = (of_nat (p + front p) :: u64)"
    unfolding and_mask_of_nat of_nat_add f by simp
  have "(of_nat p + 16) mod HEAP_BLOCK_SIZE = (of_nat (p mod 4096 + 16) :: u64)"
    unfolding s m [symmetric] by (rule mod_page_word) (use assms(2) in simp)
  then show "HEAP_BLOCK_SIZE - (of_nat p + 16) mod HEAP_BLOCK_SIZE = (of_nat (front p) :: u64)" unfolding f by simp
qed

section \<open>Splitting the hole\<close>

text \<open>The hole in front, with the writes in the order of the code.\<close>

definition write_front :: "nat \<Rightarrow> nat \<Rightarrow> memory \<Rightarrow> memory" where
  "write_front p n = set_ftr_header (of_nat (p + n - 16)) (of_nat p) \<circ> set_ftr_magic (of_nat (p + n - 16)) HEAP_MAGIC \<circ>
     set_hdr_is_hole (of_nat p) 1 \<circ> set_hdr_magic (of_nat p) HEAP_MAGIC \<circ> set_hdr_size (of_nat p) (of_nat n)"

lemma write_front_at:
  assumes "32 \<le> n" "p + n < 2 ^ 64"
  shows "block_at (write_front p n m) p n Hole" "same_outside m (write_front p n m) p (p + n)"
proof -
  have "apart (of_nat p) (of_nat (p + n - 16))" "apart (of_nat (p + n - 16)) (of_nat p)"
    using assms by (intro apart_of_nat; simp)+
  then show "block_at (write_front p n m) p n Hole"
    using assms by (simp add: block_at_def write_front_def fields)
  show "same_outside m (write_front p n m) p (p + n)"
    using assms unfolding write_front_def o_apply
    by (intro same_outside_setters same_outside_refl; simp)
qed

text \<open>The three blocks an aligned request makes of a hole of \<open>n\<close> bytes at \<open>p\<close>, and the memory.\<close>

definition split_hole :: "nat \<Rightarrow> nat \<Rightarrow> nat \<Rightarrow> blocks" where
  "split_hole p n need = [(front p, Hole), (need, Used), (n - front p - need, Hole)]"

definition write_split :: "nat \<Rightarrow> nat \<Rightarrow> nat \<Rightarrow> memory \<Rightarrow> memory" where
  "write_split p n need = write_hole (p + front p + need) (n - front p - need) \<circ> write_block (p + front p) need \<circ>
     write_front p (front p)"

lemma write_split_tiles:
  assumes "32 \<le> front p" "32 \<le> need" "front p + need + 32 \<le> n" "p + n < 2 ^ 64"
  shows "tiles (write_split p n need m) p (split_hole p n need)" "same_outside m (write_split p n need m) p (p + n)"
proof -
  let ?f = "front p" and ?r = "n - front p - need"
  define m1 where "m1 = write_front p ?f m"
  define m2 where "m2 = write_block (p + ?f) need m1"
  define m3 where "m3 = write_hole (p + ?f + need) ?r m2"
  have m3: "write_split p n need m = m3" by (simp add: write_split_def m1_def m2_def m3_def)
  have b: "p + ?f < 2 ^ 64" "p + ?f + need < 2 ^ 64" "p + ?f + need + ?r < 2 ^ 64" "32 \<le> ?r" "p + ?f + need + ?r = p + n"
    using assms by simp_all
  note w1 = write_front_at [OF assms(1) b(1), of m, folded m1_def]
  note w2 = write_block_at(1,3) [OF assms(2) b(2), of m1, folded m2_def]
  note w3 = write_block_at(2,4) [OF b(4,3), of m2, folded m3_def]
  have "same_bytes m1 m2 p (p + ?f)" "same_bytes m2 m3 p (p + ?f)" "same_bytes m2 m3 (p + ?f) (p + ?f + need)"
    using same_outside_bytes [OF w2(2)] same_outside_bytes [OF w3(2)] by simp_all
  then show "tiles (write_split p n need m) p (split_hole p n need)"
    using block_at_same_bytes w1(1) w2(1) w3(1) unfolding m3 split_hole_def by (auto simp: add.assoc)
  show "same_outside m (write_split p n need m) p (p + n)"
    using w1(2) w2(2) w3(2) assms unfolding m3 same_outside_def b(5) by (auto simp: not_less not_le)
qed

text \<open>What \<open>alloc_from\<close> computes for an aligned request.\<close>

lemma alloc_from_aligned_eq:
  assumes look: "lookup_ordered_array i (index (heap st)) = of_nat p" and h: "hdr_size (hmem st) (of_nat p) = of_nat n"
    and p: "p mod 4096 \<le> 4048" and fit: "front p + (unat sz + 32) + 32 \<le> n" "p + n \<le> unat (end_address (heap st))"
    and pE: "p + 4096 < 2 ^ 64"
  defines "need \<equiv> unat sz + 32"
  shows "alloc_from i sz (sz + 16 + 16) 1 st =
    (of_nat (p + front p + 16), index_insert (of_nat (p + front p + need)) (upd_mem (write_split p n need) st))"
proof -
  let ?f = "front p"
  have E: "unat (end_address (heap st)) < 2 ^ 64" by simp
  have f: "32 \<le> ?f" using p by (simp add: front_def)
  have n64: "n < 2 ^ 64" "p + n < 2 ^ 64" using fit(2) E by linarith+
  have need: "sz + 16 + 16 = of_nat need" by (simp add: need_def add.commute)
  have n1: "need \<le> n" "?f + need \<le> n" using fit(1) by (simp_all add: need_def)
  have diff: "of_nat n - of_nat need = (of_nat (n - need) :: u64)" using n1 by (simp add: of_nat_diff)
  have u: "unat (of_nat (n - need) :: u64) = n - need" by (rule unat_pos) (use n64 in simp)
  have lt: "\<not> (of_nat (n - need) :: u64) < 32"
    unfolding word_less_nat_alt u using fit(1) by (simp add: need_def)
  note fw = front_words [OF p pE]
  have e1: "(of_nat (p + ?f) - 16 :: u64) = of_nat (p + ?f - 16)" using f by (simp add: of_nat_diff)
  let ?m1 = "write_front p ?f (hmem st)"
  have sz1: "hdr_size ?m1 (of_nat p) = of_nat ?f"
    using write_front_at(1) [OF f, of p "hmem st"] n64 fit(1) by (simp add: block_at_def)
  have e2: "(of_nat n - of_nat ?f :: u64) = of_nat (n - ?f)" using n1 by (simp add: of_nat_diff)
  have e3: "(of_nat (n - ?f) - of_nat need :: u64) = of_nat (n - ?f - need)" using n1 by (simp add: of_nat_diff)
  have r: "unat (of_nat (n - ?f - need) :: u64) = n - ?f - need" by (rule unat_pos) (use n64 in simp)
  have pos: "(of_nat (n - ?f - need) :: u64) > 0" unfolding word_less_nat_alt r using fit(1) by (simp add: need_def)
  have sz: "sz = of_nat (unat sz)" by simp
  have e4: "of_nat (p + ?f) + 16 + sz = (of_nat (p + ?f + need - 16) :: u64)"
  proof -
    have "p + ?f + need - 16 = p + ?f + 16 + unat sz" by (simp add: need_def)
    then have "(of_nat (p + ?f + need - 16) :: u64) = of_nat (p + ?f + 16 + unat sz)" by (simp only:)
    then show ?thesis by simp
  qed
  have e5: "of_nat (p + ?f + need - 16) + 16 = (of_nat (p + ?f + need) :: u64)"
    by (simp add: need_def of_nat_diff)
  have e6: "of_nat (p + ?f + need) + of_nat (n - ?f) - of_nat need - 16 = (of_nat (p + ?f + need + (n - ?f - need) - 16) :: u64)"
  proof -
    have "p + ?f + need + (n - ?f - need) - 16 = p + n - 16" using n1 by simp
    moreover have "16 \<le> p + n" using fit(1) by simp
    ultimately show ?thesis using n1 by (simp add: of_nat_diff)
  qed
  have e7: "(of_nat (p + ?f + need + (n - ?f - need) - 16) :: u64) < end_address (heap st)"
  proof -
    have "p + ?f + need + (n - ?f - need) - 16 = p + n - 16" using n1 by simp
    then show ?thesis unfolding word_less_nat_alt using unat_pos [of "p + n - 16"] n64 fit
      by (simp only:)
  qed
  have e8: "of_nat (p + ?f) + 16 = (of_nat (p + ?f + 16) :: u64)" by simp
  show ?thesis
    unfolding e8 [symmetric] alloc_from_def Let_def look h need diff fw(2,3)
    using fw(1) lt pos e7
    by (simp add: e1 sz1 sz1 [unfolded write_front_def o_apply] e2 e3 e4 e5 e6 write_split_def write_front_def write_block_def write_hole_def upd_mem_def o_assoc
        del: of_nat_add of_nat_diff)
qed

text \<open>The effect on the heap: the index keeps the entry of the hole in front and gets one for the hole behind.\<close>

lemma alloc_from_aligned:
  assumes inv: "heap_inv st (as @ (n, k) # bs)" and k: "k \<noteq> Used"
    and p: "p = unat (start_address (heap st)) + span as" "p mod 4096 \<le> 4048" "p + 4096 < 2 ^ 64"
    and look: "lookup_ordered_array i (index (heap st)) = of_nat p"
    and fit: "front p + (unat sz + 32) + 32 \<le> n"
    and res: "alloc_from i sz (sz + 16 + 16) 1 st = (a, st')"
  shows "unat a = p + front p + 16 \<and> heap_inv st' (as @ split_hole p n (unat sz + 32) @ bs) \<and>
    same_outside (hmem st) (hmem st') p (p + n) \<and> page_requests st' = page_requests st \<and>
    start_address (heap st') = start_address (heap st) \<and> end_address (heap st') = end_address (heap st)"
proof -
  let ?S = "unat (start_address (heap st))" and ?need = "unat sz + 32" and ?f = "front p"
  have blk: "block_at (hmem st) p n k" and pE: "p + n \<le> unat (end_address (heap st))"
    using inv by (simp_all add: heap_inv_def p(1))
  have p64: "p + n < 2 ^ 64" "hdr_size (hmem st) (of_nat p) = of_nat n" using blk by (simp_all add: block_at_def)
  have f: "32 \<le> ?f" using p(2) by (simp add: front_def)
  note eq = alloc_from_aligned_eq [OF look p64(2) p(2) fit pE p(3)]
  let ?m = "write_split p n ?need (hmem st)"
  have need: "32 \<le> ?need" by simp
  note w = write_split_tiles [OF f need fit p64(1), of "hmem st"]
  have st': "hmem st' = ?m" "page_requests st' = page_requests st" "a = of_nat (p + ?f + 16)"
    "start_address (heap st') = start_address (heap st)" "end_address (heap st') = end_address (heap st)"
    using res unfolding eq by (auto simp: index_insert_def upd_mem_def)
  have sp: "span (split_hole p n ?need) = n" using fit by (simp add: split_hole_def)
  have tiles: "tiles ?m ?S (as @ split_hole p n ?need @ bs)"
    using inv w sp by (intro tiles_replace [of "hmem st" _ as "(n, k)"]) (simp_all add: heap_inv_def p(1))
  have room: "oa_room (index (heap (upd_mem (write_split p n ?need) st)))" using heap_inv_room(2) [OF inv] by simp
  have "index_set st' = add_mset (p + ?f + ?need) (index_set st)"
    using res index_insert_set [OF room, of "of_nat (p + ?f + ?need)"] fit p64(1) unat_pos [of "p + ?f + ?need"]
    unfolding eq by (auto simp del: of_nat_add)
  also have "\<dots> = mset (holes ?S (as @ split_hole p n ?need @ bs))"
    using inv k fit by (simp add: heap_inv_def split_hole_def p(1) add.assoc)
  finally have "index_set st' = mset (holes ?S (as @ split_hole p n ?need @ bs))" .
  moreover have "unat a = p + ?f + 16" unfolding st'(3) by (rule unat_pos) (use fit p64 in simp)
  ultimately show ?thesis
    using inv tiles st' w(2) sp by (simp add: heap_inv_def)
qed

section \<open>A page from the last hole\<close>

text \<open>When only the last hole has room for a page, the search finds it.\<close>

lemma hole_fits_aligned:
  assumes "p mod 4096 \<le> 4048" "p + 4096 < 2 ^ 64" "hdr_size m (of_nat p) = of_nat n" "front p + 4128 \<le> n" "n < 2 ^ 64"
  shows "hole_fits m 4128 1 (of_nat p)"
proof -
  note fw = front_words [OF assms(1,2)]
  have "unat (of_nat n :: u64) = n" "unat (of_nat (front p) :: u64) = front p" using assms(4,5) by (simp_all add: unat_pos)
  moreover have "(of_nat n - of_nat (front p) :: u64) = of_nat (n - front p)" using assms(4) by (simp add: of_nat_diff)
  moreover have "unat (of_nat (n - front p) :: u64) = n - front p" by (rule unat_pos) (use assms(5) in simp)
  ultimately show ?thesis
    unfolding hole_fits_def Let_def assms(3) fw(4) using fw(1) assms(4)
    by (simp add: word_less_nat_alt word_le_nat_alt)
qed

lemma hole_fits_size: "hole_fits m 4128 1 x \<Longrightarrow> 4128 \<le> unat (hdr_size m x)"
  by (auto simp: hole_fits_def Let_def word_less_nat_alt word_le_nat_alt unat_sub_if' split: if_splits)

lemma alloc_page_last:
  assumes inv: "heap_inv st (bs @ [(n, k)])" and k: "k \<noteq> Used" and small: "\<forall>(m, b) \<in> set bs. b \<noteq> Used \<longrightarrow> m < 4128"
    and p: "p = unat (start_address (heap st)) + span bs" "p mod 4096 \<le> 4048"
    and fit: "front p + 4128 + 32 \<le> n"
  shows "\<exists>a st'. alloc 4096 1 st = Some (a, st') \<and> unat a = p + front p + 16 \<and>
    heap_inv st' (bs @ split_hole p n 4128) \<and> same_outside (hmem st) (hmem st') p (p + n) \<and>
    page_requests st' = page_requests st \<and>
    start_address (heap st') = start_address (heap st) \<and> end_address (heap st') = end_address (heap st)"
proof -
  let ?a = "index (heap st)" and ?S = "unat (start_address (heap st))" and ?r = "find_smallest_hole (4096 + 16 + 16) 1 st"
  have blk: "block_at (hmem st) p n k" using inv by (simp add: heap_inv_def p(1))
  then have b: "p + n < 2 ^ 64" "hdr_size (hmem st) (of_nat p) = of_nat n" by (simp_all add: block_at_def)
  have pp: "p + 4096 < 2 ^ 64" "n < 2 ^ 64" "front p + 4128 \<le> n" "p < 2 ^ 64" using b(1) fit by simp_all
  have "of_nat p \<in> set (oa_list ?a)"
    unfolding heap_inv_index(2) [OF inv] unat_pos [OF pp(4)] using k by (simp add: p(1))
  moreover have "hole_fits (hmem st) (4096 + 16 + 16) 1 (of_nat p)"
    using hole_fits_aligned [OF p(2) pp(1) b(2) pp(3,2)] by simp
  ultimately have r: "?r \<noteq> - 1" "?r < oa_size ?a" "hole_fits (hmem st) (4096 + 16 + 16) 1 (lookup_ordered_array ?r ?a)"
    using find_smallest_hole_spec [OF heap_inv_room(2) [OF inv], of "4096 + 16 + 16" 1] by blast+
  obtain as m c bs' where e: "bs @ [(n, k)] = as @ (m, c) # bs'" "c \<noteq> Used"
    "lookup_ordered_array ?r ?a = of_nat (?S + span as)" "block_at (hmem st) (?S + span as) m c"
    using heap_inv_entry [OF inv r(2)] by blast
  have "m < 2 ^ 64" "hdr_size (hmem st) (of_nat (?S + span as)) = of_nat m" using e(4) by (simp_all add: block_at_def)
  then have "4128 \<le> m" using hole_fits_size [of "hmem st" "of_nat (?S + span as)"] r(3) e(3) unat_pos [of m] by simp
  then have "bs' = []" 
  proof (cases bs' rule: rev_cases)
    case (snoc ys y)
    then have "bs = as @ (m, c) # ys" using e(1) by simp
    then have "(m, c) \<in> set bs" by simp
    then show ?thesis using small e(2) \<open>4128 \<le> m\<close> by auto
  qed simp
  then have look: "lookup_ordered_array ?r ?a = of_nat p" using e(1,3) p(1) by simp
  obtain a st' where res: "alloc_from ?r 4096 (4096 + 16 + 16) 1 st = (a, st')" by fastforce
  have al: "alloc 4096 1 st = Some (a, st')" by (subst alloc.simps) (use r(1) res in simp)
  have "front p + (unat (4096 :: u64) + 32) + 32 \<le> n" using fit by simp
  from alloc_from_aligned [OF inv k p(1,2) pp(1) look this res] al show ?thesis by simp
qed

end
