(* ===== verification/HeapPages.thy ===== *)
theory HeapPages
  imports CloneSource KHeapAligned
begin

text \<open>
  The kernel heap on its pages: \<open>kmalloc\<close> and \<open>kmalloc_a\<close> over the heap and the page tables, \<open>clone_pml4t\<close> with the
  allocator of the code, and \<open>kmalloc_a\<close> as the source of pages it needs. The headers and footers of the blocks are in the
  memory of the heap (\<open>hmem\<close>), what a block holds for \<open>clone_pml4t\<close> is in the frame of its page: the blocks of pages hold
  no header but their own, which lies in front of the page (\<open>alloc_page_last\<close>).
\<close>

section \<open>Operations\<close>

text \<open>The calls of \<open>alloc_kernel_page\<close> in \<open>expand\<close>, by the number of pages.\<close>

primrec map_requests :: "u64 list \<Rightarrow> vm \<Rightarrow> vm option" where
  "map_requests [] v = Some v"
| "map_requests (n # ns) v = Option.bind (alloc_kernel_page n v) (\<lambda>(_, v). map_requests ns v)"

definition heap_kmalloc :: "u64 \<Rightarrow> u32 \<Rightarrow> kheap_state \<times> vm \<Rightarrow> (u64 \<times> kheap_state \<times> vm) option" where
  "heap_kmalloc sz align = (\<lambda>(h, v). do {
     (a, h') \<leftarrow> kmalloc_int (\<lambda>_. 0) sz align (Some h);
     v \<leftarrow> map_requests (drop (length (page_requests h)) (page_requests (the h'))) v;
     Some (a, the h', v)
   })"

text \<open>\<open>kmalloc_a(MEM_BLOCK_SIZE)\<close>, and \<open>clone_pml4t\<close> with it.\<close>

definition heap_page :: "kheap_state \<times> vm \<Rightarrow> (u64 \<times> kheap_state \<times> vm) option" where
  "heap_page = heap_kmalloc MEM_BLOCK_SIZE 1"

definition clone_pml4t :: "kheap_state \<times> vm \<Rightarrow> (u64 \<times> kheap_state \<times> vm) option" where
  "clone_pml4t = clone_tables heap_page"

lemma heap_kmalloc_run:
  assumes "alloc sz (ucast align) h = Some (a, h')" "page_requests h' = page_requests h" "sz \<noteq> 0"
  shows "heap_kmalloc sz align (h, v) = Some (a, h', v)"
  using assms by (simp add: heap_kmalloc_def kmalloc_int_def)

section \<open>Addresses\<close>

text \<open>An address of the fourth gigabyte.\<close>

lemma fourth_gigabyte:
  assumes "0xc0000 \<le> unat k" "unat k < 0x100000"
  defines "a \<equiv> k * 0x1000"
  shows "unat a = unat k * 4096" "a \<noteq> 0" "page_aligned a" "addr_pml4 a = 0" "addr_pdp a = 3" "\<not> user_path (va_path a)"
    "q \<in> upper_paths a \<Longrightarrow> user_path q \<Longrightarrow> q = [0]"
proof -
  have "unat k * 4096 < 2 ^ LENGTH(64)" using assms(2) by simp
  then show u: "unat a = unat k * 4096" by (simp add: a_def unat_word_ariths)
  then show "a \<noteq> 0" "page_aligned a" using assms(1) by (auto simp: page_aligned_def)
  have "unat k div 2 ^ 18 = 3" using assms by simp
  then show d: "addr_pml4 a = 0" "addr_pdp a = 3"
    by (simp_all add: addr_pml4_def addr_pdp_def word_unat_eq_iff unat_get_field u)
  show "\<not> user_path (va_path a)" "q \<in> upper_paths a \<Longrightarrow> user_path q \<Longrightarrow> q = [0]"
    by (auto simp: user_path_def va_path_def upper_paths_def d)
qed

text \<open>The path of the page with a number.\<close>

definition number_path :: "nat \<Rightarrow> u64 list" where
  "number_path j = va_path (of_nat j * 0x1000)"

lemma number_page:
  assumes "0xc0000 \<le> j" "j < 0x100000"
  shows "unat (of_nat j * 0x1000 :: u64) = j * 4096" "(of_nat j * 0x1000 :: u64) \<noteq> 0" "page_aligned (of_nat j * 0x1000)"
    "addr_pml4 (of_nat j * 0x1000) \<noteq> 511" "valid_path (number_path j)" "length (number_path j) = 4"
proof -
  have u: "unat (of_nat j :: u64) = j" using assms(2) by (simp add: unat_of_nat_small)
  note f = fourth_gigabyte [of "of_nat j", unfolded u, OF assms]
  show "unat (of_nat j * 0x1000 :: u64) = j * 4096" "(of_nat j * 0x1000 :: u64) \<noteq> 0" "page_aligned (of_nat j * 0x1000)"
    "addr_pml4 (of_nat j * 0x1000) \<noteq> 511" using f by simp_all
  show "valid_path (number_path j)" "length (number_path j) = 4" using valid_va [of "of_nat j * 0x1000"] f(4)
    by (simp_all add: number_path_def)
qed

lemma user_number_path:
  assumes "0xc0000 \<le> j" "j < 0x100000" "user_path q"
  shows "\<not> prefix q (number_path j) \<or> q = [] \<or> q = [0]"
proof -
  have u: "unat (of_nat j :: u64) = j" using assms(2) by (simp add: unat_of_nat_small)
  note f = fourth_gigabyte [of "of_nat j", unfolded u, OF assms(1,2)]
  show ?thesis using assms(3) f(4,5) by (auto simp: user_path_def number_path_def va_path_def)
qed

section \<open>Enough room\<close>

text \<open>
  The pages with numbers in \<open>J\<close> are mapped in the fourth gigabyte, to frames of their own, in use and neither in \<open>B\<close> nor
  tables nor pages of the process.
\<close>

definition backed :: "nat set \<Rightarrow> u64 set \<Rightarrow> vm \<Rightarrow> bool" where
  "backed J B s \<longleftrightarrow>
     (\<forall>j \<in> J. 0xc0000 \<le> j \<and> j < 0x100000 \<and>
        (\<exists>F. table s (number_path j) = Some F \<and> unat F \<in> used_set (mm s) \<and> no_table s F \<and> F \<notin> B \<and>
           (\<forall>q. user_path q \<longrightarrow> length q = 4 \<longrightarrow> table s q \<noteq> Some F))) \<and>
     inj_on (\<lambda>j. table s (number_path j)) J"

lemma backedD:
  assumes "backed J B s" "j \<in> J"
  obtains F where "0xc0000 \<le> j" "j < 0x100000" "table s (number_path j) = Some F" "unat F \<in> used_set (mm s)" "no_table s F"
    "F \<notin> B" "\<forall>q. user_path q \<longrightarrow> length q = 4 \<longrightarrow> table s q \<noteq> Some F"
  using assms unfolding backed_def by blast

lemma backed_next:
  assumes b: "backed J B s" and j: "j \<in> J" "table s (number_path j) = Some F" and J: "J' \<subseteq> J - {j}"
  shows "backed J' (insert F B) s"
proof -
  have inj: "inj_on (\<lambda>j. table s (number_path j)) J" using b by (simp add: backed_def)
  have "\<exists>G. table s (number_path i) = Some G \<and> unat G \<in> used_set (mm s) \<and> no_table s G \<and> G \<notin> insert F B \<and>
      (\<forall>q. user_path q \<longrightarrow> length q = 4 \<longrightarrow> table s q \<noteq> Some G)" "0xc0000 \<le> i" "i < 0x100000" if i: "i \<in> J'" for i
  proof -
    have iJ: "i \<in> J" "i \<noteq> j" using i J by blast+
    obtain G where G: "0xc0000 \<le> i" "i < 0x100000" "table s (number_path i) = Some G" "unat G \<in> used_set (mm s)" "no_table s G"
      "G \<notin> B" "\<forall>q. user_path q \<longrightarrow> length q = 4 \<longrightarrow> table s q \<noteq> Some G"
      by (rule backedD [OF b iJ(1)])
    have "G \<noteq> F" using inj_onD [OF inj _ iJ(1) j(1)] iJ(2) G(3) j(2) by auto
    then show "\<exists>G. table s (number_path i) = Some G \<and> unat G \<in> used_set (mm s) \<and> no_table s G \<and> G \<notin> insert F B \<and>
      (\<forall>q. user_path q \<longrightarrow> length q = 4 \<longrightarrow> table s q \<noteq> Some G)" using G(3-7) by blast
    show "0xc0000 \<le> i" "i < 0x100000" by (fact G)+
  qed
  moreover have "inj_on (\<lambda>j. table s (number_path j)) J'" by (rule inj_on_subset [OF inj]) (use J in blast)
  ultimately show ?thesis unfolding backed_def by blast
qed

lemma backedI:
  assumes "\<And>j. j \<in> J \<Longrightarrow> 0xc0000 \<le> j \<and> j < 0x100000" "\<And>j. j \<in> J \<Longrightarrow> table s (number_path j) = Some (G j)"
    "\<And>j. j \<in> J \<Longrightarrow> unat (G j) \<in> used_set (mm s) \<and> no_table s (G j)" "inj_on G J"
    "\<And>q f j. user_path q \<Longrightarrow> length q = 4 \<Longrightarrow> table s q = Some f \<Longrightarrow> j \<in> J \<Longrightarrow> f \<noteq> G j"
  shows "backed J {} s"
proof -
  have "inj_on (\<lambda>j. table s (number_path j)) J" using assms(2,4) by (auto simp: inj_on_def)
  then show ?thesis using assms unfolding backed_def by blast
qed

lemma backed_subset: "backed J B s \<Longrightarrow> J' \<subseteq> J \<Longrightarrow> backed J' B s"
  unfolding backed_def using inj_on_subset by blast

text \<open>The pages that lie behind the position \<open>p\<close> and in front of \<open>e\<close>.\<close>

definition pages_in :: "nat \<Rightarrow> nat \<Rightarrow> nat set" where
  "pages_in p e = {j. p < j * 4096 \<and> j * 4096 + 4096 \<le> e}"

text \<open>
  The heap begins at \<open>S\<close>, has the blocks \<open>T\<close> in use and in its last hole, the only one that is large enough, room for \<open>n\<close>
  pages; the pages of the hole are backed, and the pages handed out lie in front of it.
\<close>

definition heap_avail :: "u64 \<Rightarrow> (nat \<times> nat) set \<Rightarrow> nat \<Rightarrow> (u64 \<Rightarrow> u64 option) \<Rightarrow> kheap_state \<Rightarrow> vm \<Rightarrow> bool" where
  "heap_avail S T n A h s \<longleftrightarrow>
     (\<exists>bs l k. heap_inv h (bs @ [(l, k)]) \<and> k \<noteq> Used \<and> (\<forall>(m, b) \<in> set bs. b \<noteq> Used \<longrightarrow> m < 4128) \<and>
        start_address (heap h) = S \<and> T \<subseteq> set (allocs (unat S) bs) \<and>
        (unat S + span bs) mod 4096 \<le> 4048 \<and> front (unat S + span bs) + n * 8192 + 32 \<le> l \<and>
        backed (pages_in (unat S + span bs) (unat S + span bs + l)) (ran A) s \<and>
        (\<forall>a \<in> dom A. unat a < unat S + span bs))"

lemma heap_availI:
  assumes "heap_inv h (bs @ [(l, k)])" "k \<noteq> Used" "\<forall>(m, b) \<in> set bs. b \<noteq> Used \<longrightarrow> m < 4128" "start_address (heap h) = S"
    "T \<subseteq> set (allocs (unat S) bs)" "(unat S + span bs) mod 4096 \<le> 4048" "front (unat S + span bs) + n * 8192 + 32 \<le> l"
    "backed (pages_in (unat S + span bs) (unat S + span bs + l)) (ran A) s" "\<forall>a \<in> dom A. unat a < unat S + span bs"
  shows "heap_avail S T n A h s"
  unfolding heap_avail_def using assms by (intro exI [of _ bs] exI [of _ l] exI [of _ k] conjI) assumption+

lemma heap_avail_put:
  assumes h: "handed s0 A s" and v: "heap_avail S T n A hp s" and a: "A a = Some F"
  shows "heap_avail S T n A hp (put_entry F i g s)"
proof -
  note d = handedD [OF h]
  have t: "table (put_entry F i g s) q = table s q" if "valid_path q" "length q \<le> 4" for q
    using put_data(1) [OF d(1,2) d(11) [OF a] that] .
  then have nt: "no_table (put_entry F i g s) x = no_table s x" for x by (simp add: no_table_def)
  have m: "mm (put_entry F i g s) = mm s" by (simp add: put_entry_def)
  have u: "table (put_entry F i g s) q = table s q" if "user_path q" for q using t user_path_valid [OF that] by blast
  have b: "backed J B (put_entry F i g s)" if "backed J B s" for J B
  proof -
    have p: "table (put_entry F i g s) (number_path j) = table s (number_path j)" if "j \<in> J" for j
      using \<open>backed J B s\<close> that t number_page(5,6) [of j] by (auto simp: backed_def)
    have "inj_on (\<lambda>j. table (put_entry F i g s) (number_path j)) J"
      using that inj_on_cong [of J "\<lambda>j. table (put_entry F i g s) (number_path j)" "\<lambda>j. table s (number_path j)"] p
      by (simp add: backed_def)
    then show ?thesis using that p u unfolding backed_def nt m by (metis (no_types, lifting))
  qed
  show ?thesis using v b unfolding heap_avail_def by blast
qed

section \<open>The next page\<close>

lemma front_position:
  assumes "p mod 4096 \<le> 4048"
  obtains j where "p + front p + 16 = j * 4096" "p < j * 4096" "(p + front p + 4128) mod 4096 = 16"
    "front (p + front p + 4128) = 4064"
proof -
  obtain q r where pq: "p = q * 4096 + r" "r \<le> 4048" "p div 4096 = q" "p mod 4096 = r"
    using assms div_mult_mod_eq [of p 4096, symmetric] by blast
  then have e: "p + front p + 16 = (p div 4096 + 1) * 4096" by (simp add: front_def)
  then have "p + front p + 4128 = (p div 4096 + 2) * 4096 + 16" by simp
  then have m: "(p + front p + 4128) mod 4096 = 16" by simp
  have "p < (p div 4096 + 1) * 4096" using e by simp
  then show thesis using that [OF e] m by (simp add: front_def)
qed

lemma heap_page_new:
  assumes h: "handed s0 A s" and v: "heap_avail S T (Suc n) A hp s"
  shows "\<exists>a F h' s'. heap_page (hp, s) = Some (a, h', s') \<and> A a = None \<and> handed s0 (A(a \<mapsto> F)) s' \<and>
    heap_avail S T n (A(a \<mapsto> F)) h' s' \<and> (\<forall>G \<in> ran A. mem s' G = mem s G)"
proof -
  obtain bs l k where inv: "heap_inv hp (bs @ [(l, k)])" "k \<noteq> Used" "\<forall>(m, b) \<in> set bs. b \<noteq> Used \<longrightarrow> m < 4128"
    and S: "start_address (heap hp) = S" and T: "T \<subseteq> set (allocs (unat S) bs)"
    and p: "(unat S + span bs) mod 4096 \<le> 4048" "front (unat S + span bs) + Suc n * 8192 + 32 \<le> l"
    and b: "backed (pages_in (unat S + span bs) (unat S + span bs + l)) (ran A) s"
    and A: "\<forall>a \<in> dom A. unat a < unat S + span bs"
    using v unfolding heap_avail_def by blast
  define q where "q = unat S + span bs"
  note d = handedD [OF h]
  have room: "front q + 4128 + 32 \<le> l" using p(2) by (simp add: q_def)
  obtain a h' where al: "alloc 4096 1 hp = Some (a, h')" "unat a = q + front q + 16" "heap_inv h' (bs @ split_hole q l 4128)"
    "page_requests h' = page_requests hp" "start_address (heap h') = S"
    using alloc_page_last [OF inv, of q] p(1) room by (auto simp: S q_def)
  obtain j where j: "q + front q + 16 = j * 4096" "q < j * 4096" "(q + front q + 4128) mod 4096 = 16" "front (q + front q + 4128) = 4064"
    using front_position [of q] p(1) unfolding q_def by blast
  have jin: "j \<in> pages_in q (q + l)" using j(1,2) room by (simp add: pages_in_def)
  obtain F where F: "0xc0000 \<le> j" "j < 0x100000" "table s (number_path j) = Some F" "unat F \<in> used_set (mm s)" "no_table s F"
    "F \<notin> ran A" "\<forall>q. user_path q \<longrightarrow> length q = 4 \<longrightarrow> table s q \<noteq> Some F"
    by (rule backedD [OF b jin [unfolded q_def]])
  note n = number_page [OF F(1,2)]
  have a: "a = of_nat j * 0x1000" using al(2) j(1) n(1) by (simp add: word_unat_eq_iff)
  have path: "va_path a = number_path j" by (simp add: a number_path_def)
  have new: "A a = None"
  proof (rule ccontr)
    assume "A a \<noteq> None"
    then have "unat a < q" using A by (auto simp: q_def)
    then show False using al(2) by simp
  qed
  have "handed s0 (A(a \<mapsto> F)) s"
  proof (rule handedI, goal_cases)
    case (7 c G)
    then show ?case using d(7-11,14) [of c G] F(3-5) n path by (cases "c = a") (auto simp: a)
  next
    case (8 c G r)
    then show ?case using F(7) d(4) [of r] d(12) [of c G r] by (cases "c = a") auto
  next
    case (9 c e G)
    then show ?case using F(6) d(13) by (auto simp: ran_def split: if_splits)
  qed (use d(1-6) in blast)+
  moreover have "heap_avail S T n (A(a \<mapsto> F)) h' s"
  proof (rule heap_availI [where bs = "bs @ [(front q, Hole), (4128, Used)]" and l = "l - front q - 4128" and k = Hole])
    let ?bs = "bs @ [(front q, Hole), (4128, Used)]"
    have sp: "unat S + span ?bs = q + front q + 4128" by (simp add: q_def)
    have len: "q + front q + 4128 + (l - front q - 4128) = q + l" using room by simp
    show "heap_inv h' (?bs @ [(l - front q - 4128, Hole)])" using al(3) by (simp add: split_hole_def)
    have "front q < 4128" by (simp add: front_def)
    then show "\<forall>(m, b) \<in> set ?bs. b \<noteq> Used \<longrightarrow> m < 4128" using inv(3) by auto
    show "T \<subseteq> set (allocs (unat S) ?bs)" using T by auto
    show "(unat S + span ?bs) mod 4096 \<le> 4048" unfolding sp j(3) by simp
    show "front (unat S + span ?bs) + n * 8192 + 32 \<le> l - front q - 4128" unfolding sp j(4) using p(2) by (simp add: q_def)
    have "pages_in (q + front q + 4128) (q + l) \<subseteq> pages_in q (q + l) - {j}" using j(1) by (auto simp: pages_in_def)
    from backed_next [OF b [folded q_def] jin F(3) this] new
    show "backed (pages_in (unat S + span ?bs) (unat S + span ?bs + (l - front q - 4128))) (ran (A(a \<mapsto> F))) s"
      unfolding sp len by simp
    show "\<forall>c \<in> dom (A(a \<mapsto> F)). unat c < unat S + span ?bs" unfolding sp
    proof
      fix c assume "c \<in> dom (A(a \<mapsto> F))"
      then have "c = a \<or> unat c < q" using A by (auto simp: q_def split: if_splits)
      then show "unat c < q + front q + 4128" using al(2) by auto
    qed
  qed (use al(5) in simp_all)
  moreover have "heap_page (hp, s) = Some (a, h', s)"
    unfolding heap_page_def by (rule heap_kmalloc_run) (use al(1,4) in simp_all)
  ultimately show ?thesis using new by blast
qed

interpretation heap_pages: page_source heap_page "heap_avail S T"
  by unfold_locales (fact heap_page_new, fact heap_avail_put)

end
