(* ===== verification/CloneCorrect.thy ===== *)
theory CloneCorrect
  imports CloneLoops HeapPages KHeapCorrect
begin

text \<open>
  What \<open>clone_pml4t\<close> leaves: the address space of the child, and the property.
\<close>

section \<open>The address space of the child\<close>

text \<open>The tables are complete.\<close>

definition child_space :: "vm \<Rightarrow> u64 \<Rightarrow> (u64 \<Rightarrow> u64 option) \<Rightarrow> (u64 list \<Rightarrow> u64 option) \<Rightarrow> vm \<Rightarrow> bool" where
  "child_space s0 R A N s \<longleftrightarrow> handed s0 A s \<and> cloned s0 R (mem s R) UNIV A N s \<and>
     (\<forall>i < 512. entry_present (mem s R i) \<noteq> 0 \<longleftrightarrow> i = 0 \<or> i = 511) \<and> entry_frame (mem s R 511) = R \<and>
     (\<exists>P P0. N [] = Some P \<and> entry_frame (mem s R 0) = P \<and> table s0 [0] = Some P0 \<and> mem s P 3 = mem s P0 3)"

lemma child_walk:
  assumes c: "cloned s0 R mR UNIV A N s" and P: "N [] = Some P" and q: "child_path q"
  shows "walk (mem s) P q = N q"
  using q
proof (induction q rule: rev_induct)
  case (snoc i q)
  then have q: "child_path q" "length q < 3" "i < 512" "q = [] \<longrightarrow> i < 3" by (simp_all add: child_path_snoc)
  note IH = snoc.IH [OF q(1)]
  show ?case
  proof (cases "N q")
    case None
    then have "q \<notin> child_paths s0" using clonedD(1) [OF c] by auto
    then have "q @ [i] \<notin> child_paths s0" using below_absent [OF q(1)] by (auto simp: below_def)
    then have "N (q @ [i]) = None" using clonedD(1) [OF c] by auto
    then show ?thesis using IH None by (simp add: walk_snoc)
  next
    case (Some T)
    have "\<not> (q = [] \<and> i = 3)" using q(4) by auto
    then show ?thesis
      using clonedD(7) [OF c Some] q(2,3) IH Some by (auto simp: walk_snoc child_node_def split: if_splits)
  qed
qed (use P in simp)

abbreviation in_child :: "u64 \<Rightarrow> vm \<Rightarrow> vm" where
  "in_child R \<equiv> switch_paging (R * 0x1000)"

lemma child_root:
  assumes c: "child_space s0 R A N s"
  shows "entry_frame (R * 0x1000) = R" "root (in_child R s) = R" "cr3 (in_child R s) = R * 0x1000"
proof -
  have h: "handed s0 A s" and "R \<in> ran A" using c by (auto simp: child_space_def cloned_def)
  then obtain a where "A a = Some R" by (auto simp: ran_def)
  from handed_access(4,5) [OF h this, of 0] show e: "entry_frame (R * 0x1000) = R" by (simp add: entry_frame_address)
  then show "root (in_child R s) = R" "cr3 (in_child R s) = R * 0x1000"
    using c by (simp_all add: root_def switch_paging_def child_space_def)
qed

text \<open>The tables and pages of the child: its own, and the kernel's.\<close>

lemma child_table:
  assumes c: "child_space s0 R A N s" and p: "valid_path p" "length p \<le> 4"
  shows "table (in_child R s) p =
    (if p = [] then Some R else if hd p = 0 \<and> child_path (tl p) then N (tl p)
     else if hd p = 0 \<and> hd (tl p) = 3 then table s p else None)"
proof -
  have cl: "cloned s0 R (mem s R) UNIV A N s" and h: "handed s0 A s" and R: "\<And>i. i < 512 \<Longrightarrow> entry_present (mem s R i) \<noteq> 0 \<longleftrightarrow> i = 0 \<or> i = 511"
    using c by (simp_all add: child_space_def)
  obtain P P0 where P: "N [] = Some P" "entry_frame (mem s R 0) = P" "table s0 [0] = Some P0" "mem s P 3 = mem s P0 3"
    using c by (auto simp: child_space_def)
  have t: "table (in_child R s) p = walk (mem s) R p" using child_root(2) [OF c] by (simp add: table_def switch_paging_def)
  show ?thesis
  proof (cases p)
    case Nil
    then show ?thesis using t by simp
  next
    case (Cons i q)
    then have i: "i < 512" "i \<noteq> 511" and q: "\<forall>j \<in> set q. j < 512" "length q \<le> 3"
      using p by (auto simp: valid_path_Cons word_less_nat_alt)
    show ?thesis
    proof (cases "i = 0")
      case False
      then show ?thesis using R [OF i(1)] i(2) t Cons by simp
    next
      case True
      then have w: "walk (mem s) R p = walk (mem s) P q" using R [of 0] P(2) Cons by simp
      show ?thesis
      proof (cases "child_path q")
        case True
        then show ?thesis using child_walk [OF cl P(1) True] t w Cons \<open>i = 0\<close> by simp
      next
        case False
        then obtain j r where j: "q = j # r" "\<not> j < 3" "j < 512" using q by (cases q) (auto simp: child_path_def)
        have p': "p = [0] @ j # r" using Cons \<open>i = 0\<close> j(1) by simp
        show ?thesis
        proof (cases "j = 3")
          case True
          have "table s [0] = Some P0" using handedD(4) [OF h, of "[0]"] P(3) by (simp add: user_path_def valid_path_def)
          then have "table s p = walk (mem s) P0 (j # r)" unfolding p' table_def walk_append by simp
          then show ?thesis using t w P(4) True p' \<open>\<not> child_path q\<close> j(1) by simp
        next
          case False
          have "N [j] = None" using clonedD(1) [OF cl] j(2) by (auto simp: child_paths_def child_path_def)
          then have "entry_present (mem s P j) = 0"
            using clonedD(7) [OF cl P(1)] j(3) False by (auto simp: child_node_def split: if_splits)
          then show ?thesis using t w p' \<open>\<not> child_path q\<close> j(1) False by simp
        qed
      qed
    qed
  qed
qed

lemma child_frame:
  assumes c: "child_space s0 R A N s" and p: "valid_path p" "length p \<le> 4" and f: "table (in_child R s) p = Some f"
  obtains "p = []" "f = R" | q where "p = 0 # q" "child_path q" "N q = Some f" | "hd (tl p) = 3" "table s p = Some f"
  using child_table [OF c p] f by (cases p) (auto split: if_splits)

text \<open>The process can run in it.\<close>

lemma child_inv:
  assumes c: "child_space s0 R A N s"
  shows "vm_inv (in_child R s)"
proof -
  note r = child_root [OF c]
  have cl: "cloned s0 R (mem s R) UNIV A N s" and h: "handed s0 A s" and R: "entry_present (mem s R 511) \<noteq> 0" "entry_frame (mem s R 511) = R"
    using c by (simp_all add: child_space_def)
  note d = clonedD [OF cl] and hd = handedD [OF h]
  have A: "unat f \<in> used_set (mm s) \<and> no_table s f" if "f \<in> ran A" for f
    using that hd(11,14) by (auto simp: ran_def)
  have N: "f \<in> ran A" "f \<noteq> R" if "N q = Some f" for q f using that d(3,5) by (auto simp: ran_def)
  have 1: "unat f \<in> used_set (mm s) \<and> (f = R \<longrightarrow> p = [])"
    if p: "valid_path p" "length p \<le> 3" "table (in_child R s) p = Some f" for p f
  proof -
    have "length p \<le> 4" using p(2) by simp
    with c p(1) show ?thesis using p(3)
    proof (rule child_frame)
      assume "table s p = Some f"
      then show ?thesis using vm_invD(6) [OF hd(1) p(1,2)] A [OF d(4)] p(1,2) by (auto simp: no_table_def)
    qed (use A d(4) N in auto)
  qed
  have 2: "p = q" if p: "valid_path p" "length p \<le> 3" "table (in_child R s) p = Some f"
    and q: "valid_path q" "length q \<le> 3" "table (in_child R s) q = Some f" for p q f
  proof -
    have l: "length p \<le> 4" "length q \<le> 4" using p(2) q(2) by simp_all
    show ?thesis
      using c p(1) l(1) p(3)
    proof (rule child_frame)
      fix p' assume p': "p = 0 # p'" "N p' = Some f"
      show ?thesis
        using c q(1) l(2) q(3)
      proof (rule child_frame)
        fix q' assume "q = 0 # q'" "N q' = Some f"
        then show ?thesis using inj_onD [OF d(2), of p' q'] p' by auto
      qed (use p' N A q in \<open>auto simp: no_table_def\<close>)
    next
      assume p': "table s p = Some f"
      show ?thesis
        using c q(1) l(2) q(3)
      proof (rule child_frame)
        assume "table s q = Some f"
        then show ?thesis using vm_invD(8) [OF hd(1) p(1) q(1) p(2) q(2) p'] by blast
      qed (use p' N A [OF d(4)] A p in \<open>auto simp: no_table_def\<close>)
    next
      assume "p = []" "f = R"
      then show ?thesis using 1 [OF q] by blast
    qed
  qed
  have m: "mem (in_child R s) = mem s" "mm (in_child R s) = mm s" by (simp_all add: switch_paging_def)
  have "unat R \<notin> free_blocks (mm s)" using A [OF d(4)] by (simp add: used_set_alt)
  then show ?thesis
    unfolding vm_inv_def r m using vm_invD(1,2) [OF hd(1)] R 1 2 by blast
qed

section \<open>Building it\<close>

text \<open>The entries for the kernel and for the PML4 itself.\<close>

lemma cloned_kernel:
  assumes c: "cloned s0 R mR S A N s" and P: "N [] = Some P"
  shows "cloned s0 R mR S A N (put_entry P 3 g s)"
proof -
  note d = clonedD [OF c]
  have "child_node s0 N (put_entry P 3 g s) q T" if T: "N q = Some T" for q T
  proof -
    have "mem (put_entry P 3 g s) T i = mem s T i" if "\<not> (q = [] \<and> i = 3)" for i
      using inj_onD [OF d(2), of q "[]"] T P that by (auto simp: put_entry_mem)
    then show ?thesis using d(7) [OF T] by (cases "q = []") (auto simp: child_node_def)
  qed
  moreover have "P \<noteq> R" using P d(5) by (auto simp: ran_def)
  then have "mem (put_entry P 3 g s) R = mR" using d(6) by (simp add: put_entry_def)
  ultimately show ?thesis using c unfolding cloned_def by blast
qed

lemma cloned_root:
  assumes c: "cloned s0 R mR S A N s"
  shows "cloned s0 R (mem (put_entry R i g s) R) S A N (put_entry R i g s)"
proof -
  note d = clonedD [OF c]
  have "mem (put_entry R i g s) T = mem s T" if "N q = Some T" for q T
    using that d(5) by (auto simp: put_entry_def ran_def)
  then have "child_node s0 N (put_entry R i g s) q T" if "N q = Some T" for q T
    using d(7) [OF that] that by (simp add: child_node_def)
  then show ?thesis using c unfolding cloned_def by blast
qed

context page_source begin

text \<open>The PML4 and the page directory pointer table.\<close>

lemma clone_start:
  assumes h: "vm_inv s" "root s = entry_frame (cr3 s)" and P0: "table s [0] \<noteq> None"
    and av: "avail (Suc (card (child_paths s))) Map.empty hp s"
  obtains a b R P h1 h2 s1 s2 s3 s4 s5 where "kmalloc_a (hp, s) = Some (a, h1, s1)" "kmalloc_a (h1, s1) = Some (b, h2, s2)"
    "mem_clear_block a s2 = Some s3" "mem_clear_block b s3 = Some s4" "set_table_entry a b s4 = Some s5"
    "cloning s R (mem s5 R) {[]} [a \<mapsto> R, b \<mapsto> P] [[] \<mapsto> P] (h2, s5)" "a \<noteq> b"
    "\<And>i. i < 512 \<Longrightarrow> entry_present (mem s5 R i) \<noteq> 0 \<longleftrightarrow> i = 0" "entry_frame (mem s5 R 0) = P"
proof -
  have r: "ready s (Suc (card (child_paths s))) Map.empty hp s" using handed_start [OF h] av by (simp add: ready_def)
  obtain a R h1 s1 where 1: "kmalloc_a (hp, s) = Some (a, h1, s1)" "ready s (card (child_paths s)) [a \<mapsto> R] h1 s1"
    by (rule ready_new [OF r]) (rule that)
  have n: "[] \<in> child_paths s" using P0 by (simp add: child_paths_def child_path_def)
  then have "card (child_paths s) = Suc (card (child_paths s - {[]}))"
    by (metis card_Suc_Diff1 finite_child_paths)
  with 1(2) have r1: "ready s (Suc (card (child_paths s - {[]}))) [a \<mapsto> R] h1 s1" by simp
  obtain b P h2 s2 where 2: "kmalloc_a (h1, s1) = Some (b, h2, s2)" "[a \<mapsto> R] b = None" "P \<notin> ran [a \<mapsto> R]"
    "ready s (card (child_paths s - {[]})) ([a \<mapsto> R](b \<mapsto> P)) h2 s2"
    by (rule ready_new [OF r1]) (rule that)
  then have ab: "a \<noteq> b" "P \<noteq> R" by auto
  let ?A = "[a \<mapsto> R, b \<mapsto> P]" and ?n = "card (child_paths s - {[]})"
  have A: "?A a = Some R" "?A b = Some P" using ab by simp_all
  obtain s3 where 3: "mem_clear_block a s2 = Some s3" "ready s ?n ?A h2 s3" "\<forall>i < 512. mem s3 R i = 0"
    using clear_page [OF 2(4) A(1)] by blast
  obtain s4 where 4: "mem_clear_block b s3 = Some s4" "ready s ?n ?A h2 s4" "\<forall>i < 512. mem s4 P i = 0" "\<forall>G. G \<noteq> P \<longrightarrow> mem s4 G = mem s3 G"
    using clear_page [OF 3(2) A(2)] by blast
  let ?g = "set_entry_user 1 \<circ> set_entry_rw 1 \<circ> set_entry_present 1 \<circ> set_entry_frame P"
  let ?s = "put_entry R 0 ?g s4"
  note l = link_page [OF 4(2) A(2,1), of 0]
  have R: "mem ?s R i = (if i = 0 then ?g 0 else 0)" if "i < 512" for i using that 3(3) 4(4) ab(2) by (simp add: put_entry_mem)
  have "mem ?s P = mem s4 P" using ab(2) by (simp add: put_entry_def)
  then have "child_node s [[] \<mapsto> P] ?s [] P" using 4(3) by (simp add: child_node_def)
  then have "cloned s R (mem ?s R) {[]} ?A [[] \<mapsto> P] ?s" using n ab by (auto simp: cloned_def)
  then have c: "cloning s R (mem ?s R) {[]} ?A [[] \<mapsto> P] (h2, ?s)"
    using ready_put [OF 4(2) A(1)] unfolding cloning_def fst_conv snd_conv by blast
  have "set_table_entry a b s4 = Some ?s" using l(3) by simp
  from that [OF 1(1) 2(1) 3(1) 4(1) this c ab(1)] show thesis using R l(4) by (simp add: take_bit_Suc)
qed

text \<open>The whole of \<open>clone_pml4t\<close>.\<close>

lemma clone_tables_spec:
  assumes h: "vm_inv s" "root s = entry_frame (cr3 s)" and P0: "table s [0] = Some P0"
    and av: "avail (Suc (card (child_paths s))) Map.empty hp s"
  shows "\<exists>R A N h' s'. clone_tables kmalloc_a (hp, s) = Some (R * 0x1000, h', s') \<and> child_space s R A N s' \<and> avail 0 A h' s'"
proof -
  have p0: "table s [0] \<noteq> None" using P0 by simp
  obtain a b R P h1 h2 s1 s2 s3 s4 s5 where st: "kmalloc_a (hp, s) = Some (a, h1, s1)" "kmalloc_a (h1, s1) = Some (b, h2, s2)"
    "mem_clear_block a s2 = Some s3" "mem_clear_block b s3 = Some s4" "set_table_entry a b s4 = Some s5"
    and c5: "cloning s R (mem s5 R) {[]} [a \<mapsto> R, b \<mapsto> P] [[] \<mapsto> P] (h2, s5)" and ab: "a \<noteq> b"
    and R5: "\<And>i. i < 512 \<Longrightarrow> entry_present (mem s5 R i) \<noteq> 0 \<longleftrightarrow> i = 0" "entry_frame (mem s5 R 0) = P"
    by (rule clone_start [OF h p0 av]) (rule that)
  have A: "[a \<mapsto> R, b \<mapsto> P] a = Some R" "[a \<mapsto> R, b \<mapsto> P] b = Some P" "[[] \<mapsto> P] [] = Some P" using ab by simp_all
  obtain h6 s6 where s6: "for_loop (clone_directory kmalloc_a b) 3 0 (h2, s5) = Some (h6, s6)"
    "cloning_on s R (mem s5 R) [a \<mapsto> R, b \<mapsto> P] [[] \<mapsto> P] UNIV (h6, s6)"
    using clone_loop_spec [OF c5 A(3,2)] by (metis surj_pair)
  from s6(2) obtain A' N where le: "[a \<mapsto> R, b \<mapsto> P] \<subseteq>\<^sub>m A'" "[[] \<mapsto> P] \<subseteq>\<^sub>m N" and c6: "cloning s R (mem s5 R) UNIV A' N (h6, s6)"
    by (rule cloning_onE)
  have a: "A' a = Some R" "A' b = Some P" and N: "N [] = Some P"
    using map_le_Some [OF le(1)] map_le_Some [OF le(2)] A by blast+
  have r6: "ready s (card (child_paths s - UNIV)) A' h6 s6" and cl6: "cloned s R (mem s5 R) UNIV A' N s6" using c6 by (simp_all add: cloning_def)
  have hd6: "handed s A' s6" using r6 by (simp add: ready_def)
  have "table s6 [0] = Some P0" using handedD(4) [OF hd6, of "[0]"] P0 by (simp add: user_path_def valid_path_def)
  then have K: "load_entry (get_pdp_entry 0 3) s6 = Some (mem s6 P0 3)"
    using translate_entries(5,6) [OF handedD(1) [OF hd6], of 0 3 0 0] by (simp add: load_entry_def)
  let ?s7 = "put_entry P 3 (\<lambda>_. mem s6 P0 3) s6"
  note r7 = ready_put [OF r6 a(2), of 3 "\<lambda>_. mem s6 P0 3"]
  note l6 = link_page [OF r6 a(1,2), of 3] and l7 = link_page [OF r7 a(1,1), of 511]
  let ?g = "set_entry_user 0 \<circ> set_entry_rw 1 \<circ> set_entry_present 1 \<circ> set_entry_frame R"
  let ?s8 = "put_entry R 511 ?g ?s7"
  note r8 = ready_put [OF r7 a(1), of 511 ?g]
  have run: "clone_tables kmalloc_a (hp, s) = Some (R * 0x1000, h6, ?s8)"
    using st s6(1) K l6 l7 link_page(1) [OF r8 a(1,1), of 0] by (simp add: clone_tables_def)
  have RP: "R \<noteq> P" using ab A(1,2) handedD(13) [OF hd6 a(1), of b] a(2) by auto
  have l: "take_bit 40 R = R" using l6(4) by simp
  have R8: "mem ?s8 R i = (if i = 511 then ?g (mem s5 R 511) else mem s5 R i)" for i
    using clonedD(6) [OF cl6] RP by (simp add: put_entry_mem)
  have "\<forall>i < 512. entry_present (mem ?s8 R i) \<noteq> 0 \<longleftrightarrow> i = 0 \<or> i = 511" "entry_frame (mem ?s8 R 511) = R" "entry_frame (mem ?s8 R 0) = P"
    using R5 l by (simp_all add: R8)
  moreover have "mem ?s8 P 3 = mem ?s8 P0 3" using RP \<open>table s6 [0] = Some P0\<close> handedD(11) [OF hd6 a(1)]
    by (auto simp: put_entry_mem no_table_def valid_path_def)
  moreover have "handed s A' ?s8" "avail 0 A' h6 ?s8" using r8 by (simp_all add: ready_def)
  ultimately have "child_space s R A' N ?s8" "avail 0 A' h6 ?s8"
    using cloned_root [OF cloned_kernel [OF cl6 N], of 511 ?g] N P0 unfolding child_space_def by blast+
  then show ?thesis using run by blast
qed

end

section \<open>The property\<close>

lemma child_space_pages:
  assumes c: "child_space s R A N s'" and q: "child_path q" "length q = 3"
  shows "table (in_child R s') (0 # q) = N q"
    "table s (0 # q) = None \<Longrightarrow> N q = None"
    "table s (0 # q) = Some F \<Longrightarrow> \<exists>G. N q = Some G \<and> (\<forall>k < 512. mem s' G k = mem s F k)"
proof -
  have cl: "cloned s R (mem s' R) UNIV A N s'" using c by (simp add: child_space_def)
  note d = clonedD [OF cl]
  show "table (in_child R s') (0 # q) = N q"
    using child_table [OF c, of "0 # q"] user_path_valid [OF child_path_user [OF q(1)]] q(1) by simp
  show "N q = None" if "table s (0 # q) = None"
  proof -
    have "q \<notin> dom N" using d(1) that by (simp add: child_paths_def)
    then show ?thesis by (simp add: domIff)
  qed
  show "\<exists>G. N q = Some G \<and> (\<forall>k < 512. mem s' G k = mem s F k)" if "table s (0 # q) = Some F"
  proof -
    have "q \<in> dom N" using d(1) q(1) that by (simp add: child_paths_def)
    then obtain G where "N q = Some G" by blast
    then show ?thesis using d(7) [of q G] q(2) that by (simp add: child_node_def)
  qed
qed

text \<open>The child's pages belong to it alone.\<close>

lemma child_space_private:
  assumes c: "child_space s R A N s'" and q: "child_path q" "table (in_child R s') (0 # q) = Some G" and l: "length q = 3"
  shows "no_table s' G" "user_path p \<Longrightarrow> length p = 4 \<Longrightarrow> table s' p \<noteq> Some G"
    "child_path p \<Longrightarrow> length p = 3 \<Longrightarrow> table (in_child R s') (0 # p) = Some G \<Longrightarrow> p = q"
proof -
  have cl: "cloned s R (mem s' R) UNIV A N s'" and h: "handed s A s'" using c by (simp_all add: child_space_def)
  have G: "N q = Some G" using child_space_pages(1) [OF c q(1) l] q(2) by simp
  then have "G \<in> ran A" using clonedD(3) [OF cl] by (auto simp: ran_def)
  then obtain a where a: "A a = Some G" by (auto simp: ran_def)
  note d = handedD [OF h]
  show "no_table s' G" by (rule d(11) [OF a])
  show "user_path p \<Longrightarrow> length p = 4 \<Longrightarrow> table s' p \<noteq> Some G" using d(12) [OF a] d(4) by simp
  show "p = q" if "child_path p" "length p = 3" "table (in_child R s') (0 # p) = Some G"
  proof -
    have "N p = Some G" using child_space_pages(1) [OF c that(1,2)] that(3) by simp
    then show ?thesis using inj_onD [OF clonedD(2) [OF cl], of p q] G by (simp add: domI)
  qed
qed

text \<open>
  What \<open>clone_pml4t\<close> makes of \<open>s\<close>: \<open>R\<close> is the frame of a PML4. The parent keeps its tables and its memory. A
  process can run on the new tables. There the child has exactly the pages the parent has below 3 GB, each a page
  of its own, in no other page of the child, no page of the parent and no table, with the contents of the parent's.
  The fourth gigabyte is the kernel's.
\<close>

definition space_copied :: "vm \<Rightarrow> u64 \<Rightarrow> vm \<Rightarrow> bool" where
  "space_copied s R s' \<longleftrightarrow> vm_inv s' \<and> cr3 s' = cr3 s \<and> root s' = entry_frame (cr3 s') \<and>
    (\<forall>p. user_path p \<longrightarrow> table s' p = table s p) \<and>
    (\<forall>p F. user_path p \<longrightarrow> length p = 4 \<longrightarrow> table s p = Some F \<longrightarrow> mem s' F = mem s F) \<and>
    vm_inv (in_child R s') \<and> root (in_child R s') = entry_frame (cr3 (in_child R s')) \<and>
    (\<forall>i z y. i < 3 \<longrightarrow> z < 512 \<longrightarrow> y < 512 \<longrightarrow>
       (case table s [0, i, z, y] of
          None \<Rightarrow> table (in_child R s') [0, i, z, y] = None
        | Some F \<Rightarrow> \<exists>G. table (in_child R s') [0, i, z, y] = Some G \<and> (\<forall>k < 512. mem s' G k = mem s F k) \<and>
            no_table s' G \<and> (\<forall>p. user_path p \<longrightarrow> length p = 4 \<longrightarrow> table s' p \<noteq> Some G) \<and>
            (\<forall>q. child_path q \<longrightarrow> length q = 3 \<longrightarrow> table (in_child R s') (0 # q) = Some G \<longrightarrow> q = [i, z, y]))) \<and>
    (\<forall>z y. z < 512 \<longrightarrow> y < 512 \<longrightarrow> table (in_child R s') [0, 3, z, y] = table s' [0, 3, z, y])"

lemma space_copied_mapped:
  assumes c: "space_copied s R s'" and b: "i < 3" "z < 512" "y < 512"
  shows "table (in_child R s') [0, i, z, y] \<noteq> None \<longleftrightarrow> table s [0, i, z, y] \<noteq> None"
  using c [unfolded space_copied_def, THEN conjunct2, THEN conjunct2, THEN conjunct2, THEN conjunct2, THEN conjunct2,
      THEN conjunct2, THEN conjunct2, THEN conjunct1, rule_format, OF b]
  by (auto split: option.splits)

lemma clone_pml4t_copies:
  assumes "vm_inv s" and "root s = entry_frame (cr3 s)" and "table s [0] \<noteq> None"
    and "heap_avail S T (Suc (card (child_paths s))) Map.empty h s"
  shows "\<exists>R h' s' bs. clone_pml4t (h, s) = Some (R * 0x1000, h', s') \<and> space_copied s R s' \<and>
    heap_inv h' bs \<and> start_address (heap h') = S \<and> T \<subseteq> set (allocs (unat S) bs)"
proof -
  obtain P0 where P0: "table s [0] = Some P0" using assms(3) by blast
  obtain R A N h' s' where run: "clone_pml4t (h, s) = Some (R * 0x1000, h', s')" and c: "child_space s R A N s'"
    and av: "heap_avail S T 0 A h' s'"
    using heap_pages.clone_tables_spec [OF assms(1,2) P0 assms(4)] unfolding clone_pml4t_def by blast
  obtain bs where bs: "heap_inv h' bs" "start_address (heap h') = S" "T \<subseteq> set (allocs (unat S) bs)"
    using av unfolding heap_avail_def by fastforce
  have "handed s A s'" using c by (simp add: child_space_def)
  note d = handedD [OF this] and r = child_root [OF c]
  have "case table s [0, i, z, y] of None \<Rightarrow> table (in_child R s') [0, i, z, y] = None
      | Some F \<Rightarrow> \<exists>G. table (in_child R s') [0, i, z, y] = Some G \<and> (\<forall>k < 512. mem s' G k = mem s F k) \<and>
          no_table s' G \<and> (\<forall>p. user_path p \<longrightarrow> length p = 4 \<longrightarrow> table s' p \<noteq> Some G) \<and>
          (\<forall>q. child_path q \<longrightarrow> length q = 3 \<longrightarrow> table (in_child R s') (0 # q) = Some G \<longrightarrow> q = [i, z, y])"
    if i: "i < 3" "z < 512" "y < 512" for i z y
  proof -
    have "i < 512" using i(1) by (rule order.strict_trans) simp
    then have q: "child_path [i, z, y]" "length [i, z, y] = 3" using i by (simp_all add: child_path_def)
    note p = child_space_pages [OF c q]
    show ?thesis
    proof (cases "table s [0, i, z, y]")
      case (Some F)
      then obtain G where G: "table (in_child R s') [0, i, z, y] = Some G" "\<forall>k < 512. mem s' G k = mem s F k"
        using p(1) p(3) [of F] by auto
      then show ?thesis using child_space_private [OF c q(1) G(1) q(2)] Some by simp
    qed (use p(1,2) in simp)
  qed
  moreover have "table (in_child R s') [0, 3, z, y] = table s' [0, 3, z, y]" if "z < 512" "y < 512" for z y
    using child_table [OF c, of "[0, 3, z, y]"] that by (simp add: valid_path_def word_less_nat_alt child_path_def)
  ultimately show ?thesis
    using run bs d(1-4,6) child_inv [OF c] r unfolding space_copied_def
    by (intro exI [of _ R] exI [of _ h'] exI [of _ s'] exI [of _ bs]) simp
qed

text \<open>
  C11: When the last hole of the heap has room for a page for each of the parent's tables and pages and for the PML4, the
  other holes are too small for a page, header and footer fit in front of the first page, and the pages of the hole are
  mapped to frames in use, each to its own, that are no tables and no pages of the parent (\<open>heap_avail\<close>), \<open>clone_pml4t\<close>, taking its pages with \<open>kmalloc_a\<close> from the heap, never faults and
  returns the physical address of a PML4. The heap keeps its invariant and the blocks \<open>T\<close> in use. The parent keeps its
  mappings and its memory. A process can run on the new tables: they satisfy the invariant of the tables. There the child
  has exactly the pages the parent has below 3 GB, each a page of its own, in no other page of the child, no page of the
  parent and no table, with the contents of the parent's; and the fourth gigabyte is the kernel's.
\<close>

theorem clone_pml4t_correct:
  assumes "vm_inv s" and "root s = entry_frame (cr3 s)" and "table s [0] \<noteq> None"
    and "heap_avail S T (Suc (card (child_paths s))) Map.empty h s"
  shows "\<exists>R h' s' bs. clone_pml4t (h, s) = Some (R * 0x1000, h', s') \<and>
    heap_inv h' bs \<and> start_address (heap h') = S \<and> T \<subseteq> set (allocs (unat S) bs) \<and>
    vm_inv s' \<and> cr3 s' = cr3 s \<and> root s' = entry_frame (cr3 s') \<and>
    (\<forall>p. user_path p \<longrightarrow> table s' p = table s p) \<and>
    (\<forall>p F. user_path p \<longrightarrow> length p = 4 \<longrightarrow> table s p = Some F \<longrightarrow> mem s' F = mem s F) \<and>
    vm_inv (in_child R s') \<and> root (in_child R s') = entry_frame (cr3 (in_child R s')) \<and>
    (\<forall>i z y. i < 3 \<longrightarrow> z < 512 \<longrightarrow> y < 512 \<longrightarrow>
       (case table s [0, i, z, y] of
          None \<Rightarrow> table (in_child R s') [0, i, z, y] = None
        | Some F \<Rightarrow> \<exists>G. table (in_child R s') [0, i, z, y] = Some G \<and> (\<forall>k < 512. mem s' G k = mem s F k) \<and>
            no_table s' G \<and> (\<forall>p. user_path p \<longrightarrow> length p = 4 \<longrightarrow> table s' p \<noteq> Some G) \<and>
            (\<forall>q. child_path q \<longrightarrow> length q = 3 \<longrightarrow> table (in_child R s') (0 # q) = Some G \<longrightarrow> q = [i, z, y]))) \<and>
    (\<forall>z y. z < 512 \<longrightarrow> y < 512 \<longrightarrow> table (in_child R s') [0, 3, z, y] = table s' [0, 3, z, y])"
proof -
  obtain R h' s' bs where c: "clone_pml4t (h, s) = Some (R * 0x1000, h', s')" "space_copied s R s'"
    "heap_inv h' bs" "start_address (heap h') = S" "T \<subseteq> set (allocs (unat S) bs)"
    using clone_pml4t_copies [OF assms] by blast
  then show ?thesis unfolding space_copied_def by (intro exI [of _ R] exI [of _ h'] exI [of _ s'] exI [of _ bs] conjI) blast+
qed

text \<open>
  The process with one page, on a kernel that has mapped 12 pages from 3 GB on, and a heap on them with one block in use
  and the rest free.
\<close>

definition heap_vm :: vm where
  "heap_vm = snd (the (alloc_kernel_page 12 process_vm))"

definition page_heap :: kheap_state where
  "page_heap = mk_heap 0xc0000000 [(81, Used), (49071, Hole)]"

lemma heap_vm_pages:
  obtains F where "vm_inv heap_vm" "root heap_vm = entry_frame (cr3 heap_vm)" "cr3 heap_vm = 0x1000"
    "pages_added process_vm 0xc0000000 12 F heap_vm" "mem_max_blocks (mm heap_vm) = mem_max_blocks sample_mm"
proof -
  have c: "can_alloc (4 * unat (12 :: u64) + 0) (mm process_vm)"
    using can_alloc_enough [of "mm process_vm" 48] vm_invD(1,2) [OF process_vm_inv(1)] sample_vm_free by simp
  have z: "free_zeroed process_vm" by (auto simp: free_zeroed_def process_vm_def sample_mm_sets)
  have r: "root process_vm = entry_frame (cr3 process_vm)" by simp
  have n: "unat (12 :: u64) = 12" "kernel_next_block (mm process_vm) = 0xc0000" "cr3 process_vm = 0x1000"
    by (simp_all add: sample_mm_def process_vm_def)
  have le: "unat (kernel_next_block (mm process_vm)) * 4096 + unat (12 :: u64) * 4096 \<le> 2 ^ 47" unfolding n by simp
  obtain s' F where "alloc_kernel_page 12 process_vm = Some (kernel_next_block (mm process_vm) * 0x1000, s')"
    "kernel_next_block (mm s') = kernel_next_block (mm process_vm) + 12" "vm_inv s'" "free_zeroed s'" "root s' = entry_frame (cr3 s')"
    "pages_added process_vm (kernel_next_block (mm process_vm) * 0x1000) (unat (12 :: u64)) F s'" "can_alloc 0 (mm s')"
    "video_memory s' = video_memory process_vm" "mem_max_blocks (mm s') = mem_max_blocks (mm process_vm)" "cr3 s' = cr3 process_vm"
    by (rule alloc_kernel_page_left [OF process_vm_inv(1) z r le c])
  then show thesis using that [of F] unfolding n by (simp add: heap_vm_def)
qed

lemma heap_vm_user:
  "user_path q \<Longrightarrow> q \<noteq> [] \<Longrightarrow> q \<noteq> [0] \<Longrightarrow> table heap_vm q = table process_vm q" "table heap_vm [0] \<noteq> None"
proof -
  obtain F where v: "root heap_vm = entry_frame (cr3 heap_vm)" "pages_added process_vm 0xc0000000 12 F heap_vm"
    by (rule heap_vm_pages)
  have path: "va_path (0xc0000000 + of_nat k * 0x1000) = number_path (0xc0000 + k)" if "k < 12" for k
    by (simp add: number_path_def algebra_simps)
  show user: "table heap_vm q = table process_vm q" if q: "user_path q" "q \<noteq> []" "q \<noteq> [0]" for q
  proof -
    have "\<not> prefix q (va_path a)" if "a \<in> (\<lambda>k. 0xc0000000 + of_nat k * 0x1000) ` {..<12}" for a
    proof -
      obtain k where k: "k < 12" "a = 0xc0000000 + of_nat k * 0x1000" using \<open>a \<in> _\<close> by auto
      show ?thesis using user_number_path [of "0xc0000 + k" q] q k(1) unfolding k(2) path [OF k(1)] by simp
    qed
    then show ?thesis using v(2) user_path_valid [OF q(1)] unfolding pages_added_def changes_below_def by blast
  qed
  have "table heap_vm [0, 0, 0, 7] = Some 5"
    using user [of "[0, 0, 0, 7]"] process_vm_table [of "[0, 0, 0, 7]" 5] by (simp add: user_path_def valid_path_def)
  then show "table heap_vm [0] \<noteq> None" using walk_prefix [of "mem heap_vm" "root heap_vm" "[0]" "[0, 0, 7]"] by (auto simp: table_def)
qed

lemma heap_vm_process: "table heap_vm [0, 0, 0, 7] = Some 5" "child_paths heap_vm = {[], [0], [0, 0], [0, 0, 7]}"
proof -
  have t: "table heap_vm (0 # q) = Some f \<longleftrightarrow> q = [0] \<and> f = 3 \<or> q = [0, 0] \<and> f = 4 \<or> q = [0, 0, 7] \<and> f = 5"
    if "child_path q" "q \<noteq> []" for q f
    using process_vm_table [of "0 # q" f] user_path_valid [OF child_path_user [OF that(1)]] heap_vm_user(1) [OF child_path_user [OF that(1)]] that(2)
    by simp
  have c: "child_path [0]" "child_path [0, 0]" "child_path [0, 0, 7]" "child_path []" by (simp_all add: child_path_def)
  then show "table heap_vm [0, 0, 0, 7] = Some 5" using t by simp
  show "child_paths heap_vm = {[], [0], [0, 0], [0, 0, 7]}"
  proof (rule set_eqI)
    fix q show "q \<in> child_paths heap_vm \<longleftrightarrow> q \<in> {[], [0], [0, 0], [0, 0, 7]}"
      using t [of q] heap_vm_user(2) c by (cases "q = []") (auto simp: child_paths_def)
  qed
qed

lemma heap_vm_backed: "backed (pages_in 0xc0000051 0xc000c000) {} heap_vm"
proof -
  obtain F where v: "root heap_vm = entry_frame (cr3 heap_vm)" "pages_added process_vm 0xc0000000 12 F heap_vm"
    "mem_max_blocks (mm heap_vm) = mem_max_blocks sample_mm"
    by (rule heap_vm_pages)
  note a = v(2) [unfolded pages_added_def]
  have j: "j = 0xc0000 + (j - 0xc0000)" "j - 0xc0000 < 12" if "j \<in> pages_in 0xc0000051 0xc000c000" for j
    using that by (auto simp: pages_in_def)
  show ?thesis
  proof (rule backedI [where G = "\<lambda>j. F (j - 0xc0000)"])
    fix j assume "j \<in> pages_in 0xc0000051 0xc000c000"
    note j = j [OF this]
    show "0xc0000 \<le> j \<and> j < 0x100000" using j by linarith
    have "0xc0000000 + of_nat (j - 0xc0000) * 0x1000 = (of_nat (0xc0000 + (j - 0xc0000)) * 0x1000 :: u64)" by (simp add: algebra_simps)
    then have "va_path (0xc0000000 + of_nat (j - 0xc0000) * 0x1000) = number_path j" unfolding number_path_def using j(1) by simp
    then show "table heap_vm (number_path j) = Some (F (j - 0xc0000))" using a j(2) translate_table [OF v(1)] by metis
    have "unat (F (j - 0xc0000)) \<in> free_blocks (mm process_vm) - free_blocks (mm heap_vm)" "no_table heap_vm (F (j - 0xc0000))"
      using a j(2) by blast+
    then show "unat (F (j - 0xc0000)) \<in> used_set (mm heap_vm) \<and> no_table heap_vm (F (j - 0xc0000))"
      by (auto simp: used_set_alt v(3) free_blocks_def)
    fix q f assume q: "user_path q" "length q = 4" "table heap_vm q = Some f"
    then have "q \<noteq> []" "q \<noteq> [0]" by auto
    then have "table process_vm q = Some f" using heap_vm_user(1) [OF q(1)] q(3) by simp
    then have "f = 5" using process_vm_table [of q f] user_path_valid [OF q(1)] q(2) by auto
    moreover have "unat (F (j - 0xc0000)) \<in> {64..<128}"
      using a [THEN conjunct2, THEN conjunct1, rule_format, OF j(2)] sample_mm_sets by simp
    ultimately show "f \<noteq> F (j - 0xc0000)" by auto
  next
    show "inj_on (\<lambda>j. F (j - 0xc0000)) (pages_in 0xc0000051 0xc000c000)"
    proof (rule inj_onI)
      fix i k assume i: "i \<in> pages_in 0xc0000051 0xc000c000" "k \<in> pages_in 0xc0000051 0xc000c000" "F (i - 0xc0000) = F (k - 0xc0000)"
      then have "i - 0xc0000 = k - 0xc0000" using inj_onD [OF a [THEN conjunct1], of "i - 0xc0000" "k - 0xc0000"] j(2) by simp
      then show "i = k" using j(1) [OF i(1)] j(1) [OF i(2)] by simp
    qed
  qed
qed

lemma heap_vm_avail: "heap_avail 0xc0000000 {(0xc0000000, 81)} (Suc (card (child_paths heap_vm))) Map.empty page_heap heap_vm"
proof -
  have "buildable 0xc0000000 [(81, Used), (49071, Hole)]" by (simp add: buildable_def)
  note h = mk_heap_inv(1,2) [OF this, folded page_heap_def]
  have S: "start_address (heap page_heap) = 0xc0000000" using h(2) by (simp add: word_unat_eq_iff)
  show ?thesis
    by (intro heap_availI [where bs = "[(81, Used)]" and l = 49071 and k = Hole])
      (use h S heap_vm_backed in \<open>simp_all add: heap_vm_process(2) front_def\<close>)
qed

theorem clone_pml4t_correct_witness:
  "\<exists>R h' s' G. clone_pml4t (page_heap, heap_vm) = Some (R * 0x1000, h', s') \<and> table (in_child R s') [0, 0, 0, 7] = Some G \<and>
     table s' [0, 0, 0, 7] = Some 5 \<and> G \<noteq> 5 \<and> (\<forall>k < 512. mem s' G k = mem heap_vm 5 k)"
proof -
  obtain F where v: "vm_inv heap_vm" "root heap_vm = entry_frame (cr3 heap_vm)" by (rule heap_vm_pages)
  have u: "user_path [0, 0, 0, 7]" by (simp add: user_path_def valid_path_def)
  from clone_pml4t_correct [OF v heap_vm_user(2) heap_vm_avail]
  obtain R h' s' where s': "clone_pml4t (page_heap, heap_vm) = Some (R * 0x1000, h', s')"
    "\<forall>p. user_path p \<longrightarrow> table s' p = table heap_vm p"
    and p: "\<forall>i z y. i < 3 \<longrightarrow> z < 512 \<longrightarrow> y < 512 \<longrightarrow>
       (case table heap_vm [0, i, z, y] of
          None \<Rightarrow> table (in_child R s') [0, i, z, y] = None
        | Some F \<Rightarrow> \<exists>G. table (in_child R s') [0, i, z, y] = Some G \<and> (\<forall>k < 512. mem s' G k = mem heap_vm F k) \<and>
            no_table s' G \<and> (\<forall>p. user_path p \<longrightarrow> length p = 4 \<longrightarrow> table s' p \<noteq> Some G) \<and>
            (\<forall>q. child_path q \<longrightarrow> length q = 3 \<longrightarrow> table (in_child R s') (0 # q) = Some G \<longrightarrow> q = [i, z, y]))"
    by (elim exE conjE) (rule that; assumption)
  have five: "table s' [0, 0, 0, 7] = Some 5" using s'(2) u heap_vm_process(1) by simp
  from p [rule_format, of 0 0 7] heap_vm_process(1) obtain G where G: "table (in_child R s') [0, 0, 0, 7] = Some G"
    "\<forall>k < 512. mem s' G k = mem heap_vm 5 k" "\<forall>p. user_path p \<longrightarrow> length p = 4 \<longrightarrow> table s' p \<noteq> Some G"
    by auto
  moreover have "G \<noteq> 5" using G(3) u five by force
  ultimately show ?thesis using s'(1) five by blast
qed

end
