(* ===== verification/Fat32Files.thy ===== *)
theory Fat32Files
  imports Fat32Correct
begin

text \<open>
  Reading a file: \<open>read_file\<close> follows the chain of the FAT, taking the buffer for each sector of the table
  from the heap and giving it back.
\<close>

section \<open>A heap with room for a sector\<close>








section \<open>The file system at work\<close>










section \<open>Reading along a chain\<close>













end
