(* ===== verification/Layouts.thy ===== *)
theory Layouts
  imports Memory Bitfields
begin

text \<open>
  How the compiler lays out a structure, and the structures of the headers: the offset of each field from
  its size and alignment (\<open>__attribute__((packed))\<close> is alignment 1), reading and writing a field of a structure
  in memory, and bit-fields of a word. The laws say that fields lie inside of their structure and do not
  overlap, so that a write to one of them is read back and leaves the others.
\<close>

section \<open>Offsets\<close>

text \<open>Name, size in bytes and alignment of every field.\<close>

type_synonym layout = "(string \<times> nat \<times> nat) list"

definition round_up :: "nat \<Rightarrow> nat \<Rightarrow> nat" where
  "round_up k a = (k + (a - 1)) div a * a"

fun field_from :: "nat \<Rightarrow> layout \<Rightarrow> string \<Rightarrow> (nat \<times> nat) option" where
  "field_from k [] f = None"
| "field_from k ((g, n, a) # l) f =
     (if f = g then Some (round_up k a, n) else field_from (round_up k a + n) l f)"

fun end_from :: "nat \<Rightarrow> layout \<Rightarrow> nat" where
  "end_from k [] = k"
| "end_from k ((_, n, a) # l) = end_from (round_up k a + n) l"

definition field_at :: "layout \<Rightarrow> string \<Rightarrow> (nat \<times> nat) option" where
  "field_at = field_from 0"

text \<open>\<open>sizeof\<close>: the end of the last field, rounded up to the largest alignment.\<close>

definition sizeof :: "layout \<Rightarrow> nat" where
  "sizeof l = round_up (end_from 0 l) (foldr (max \<circ> snd \<circ> snd) l 1)"

definition packed :: "(string \<times> nat) list \<Rightarrow> layout" where
  "packed = map (\<lambda>(f, n). (f, n, 1))"

text \<open>Without the attribute, a scalar is aligned to its size.\<close>

definition natural :: "(string \<times> nat) list \<Rightarrow> layout" where
  "natural = map (\<lambda>(f, n). (f, n, n))"

section \<open>Fields in memory\<close>

definition read_field :: "layout \<Rightarrow> string \<Rightarrow> memory \<Rightarrow> u64 \<Rightarrow> u64" where
  "read_field l f m p = (case field_at l f of Some (k, n) \<Rightarrow> of_nat (load_le n m (p + of_nat k)) | None \<Rightarrow> 0)"

definition write_field :: "layout \<Rightarrow> string \<Rightarrow> u64 \<Rightarrow> u64 \<Rightarrow> memory \<Rightarrow> memory" where
  "write_field l f p v m = (case field_at l f of Some (k, n) \<Rightarrow> store_le n m (p + of_nat k) (unat v) | None \<Rightarrow> m)"

text \<open>The address of an array in a structure.\<close>

definition field_address :: "layout \<Rightarrow> string \<Rightarrow> u64 \<Rightarrow> u64" where
  "field_address l f p = (case field_at l f of Some (k, n) \<Rightarrow> p + of_nat k | None \<Rightarrow> 0)"

section \<open>Bit-fields\<close>

text \<open>Bit-fields of one word follow each other from its lowest bit.\<close>

type_synonym bits = "(string \<times> nat) list"

definition bits_at :: "bits \<Rightarrow> string \<Rightarrow> (nat \<times> nat) option" where
  "bits_at l = field_at (packed l)"

definition get_bits :: "bits \<Rightarrow> string \<Rightarrow> 'a::len word \<Rightarrow> 'a word" where
  "get_bits l f w = (case bits_at l f of Some (k, n) \<Rightarrow> get_field k n w | None \<Rightarrow> 0)"

definition put_bits :: "bits \<Rightarrow> string \<Rightarrow> 'a::len word \<Rightarrow> 'a word \<Rightarrow> 'a word" where
  "put_bits l f v w = (case bits_at l f of Some (k, n) \<Rightarrow> set_field k n v w | None \<Rightarrow> w)"

section \<open>Laws\<close>

lemma round_up_ge: "0 < a \<Longrightarrow> k \<le> round_up k a"
proof -
  assume "0 < a"
  then have "(k + (a - 1)) mod a \<le> a - 1" by (metis Suc_diff_1 less_Suc_eq_le mod_less_divisor)
  moreover have "k + (a - 1) = (k + (a - 1)) div a * a + (k + (a - 1)) mod a" by simp
  ultimately show ?thesis unfolding round_up_def by linarith
qed

lemma round_up_1 [simp]: "round_up k (Suc 0) = k"
  by (simp add: round_up_def)

abbreviation aligned_layout :: "layout \<Rightarrow> bool" where
  "aligned_layout l \<equiv> \<forall>(_, _, a) \<in> set l. 0 < a"

lemma end_from_ge: "aligned_layout l \<Longrightarrow> k \<le> end_from k l"
proof (induction k l rule: end_from.induct)
  case (2 k f n a l)
  then show ?case using round_up_ge [of a k] by simp
qed simp

lemma field_from_bounds:
  "aligned_layout l \<Longrightarrow> field_from k l f = Some (j, n) \<Longrightarrow> k \<le> j \<and> j + n \<le> end_from k l"
proof (induction k l f rule: field_from.induct)
  case (2 k g n' a l f)
  then show ?case using round_up_ge [of a k] end_from_ge [of l "round_up k a + n'"] by (auto split: if_splits)
qed simp

lemma field_from_disjoint:
  "aligned_layout l \<Longrightarrow> f \<noteq> g \<Longrightarrow> field_from k l f = Some (j, n) \<Longrightarrow> field_from k l g = Some (j', n') \<Longrightarrow>
     j + n \<le> j' \<or> j' + n' \<le> j"
proof (induction k l f rule: field_from.induct)
  case (2 k h d a l f)
  then show ?case
    using field_from_bounds [of l "round_up k a + d" g j' n'] field_from_bounds [of l "round_up k a + d" f j n]
    by (auto split: if_splits)
qed simp

lemma sizeof_ge: "aligned_layout l \<Longrightarrow> end_from 0 l \<le> sizeof l"
proof -
  have "1 \<le> foldr (max \<circ> snd \<circ> snd) l 1" by (induction l) auto
  then show ?thesis by (simp add: sizeof_def round_up_ge)
qed

lemma field_at_bounds: "aligned_layout l \<Longrightarrow> field_at l f = Some (j, n) \<Longrightarrow> j + n \<le> sizeof l"
  using field_from_bounds [of l 0 f j n] sizeof_ge [of l] by (simp add: field_at_def)

lemma field_at_disjoint:
  "aligned_layout l \<Longrightarrow> f \<noteq> g \<Longrightarrow> field_at l f = Some (j, n) \<Longrightarrow> field_at l g = Some (j', n') \<Longrightarrow>
     j + n \<le> j' \<or> j' + n' \<le> j"
  by (simp add: field_at_def field_from_disjoint)

lemma offsets_disjoint:
  assumes "j + n \<le> j' \<or> j' + n' \<le> j" "j + n < 2 ^ 64" "j' + n' < 2 ^ 64"
  shows "disjoint_ranges (p + of_nat j) n (p + of_nat j') n'"
proof -
  have at: "j \<le> unat (x - p) \<and> unat (x - p) < j + n" if "in_range (p + of_nat j) n x" "j + n < 2 ^ 64" for x j n
  proof -
    have "x - p = (x - (p + of_nat j)) + of_nat j" by simp
    also have "unat \<dots> = unat (x - (p + of_nat j)) + j"
      using that by (subst unat_add_small) (simp_all add: unat_of_nat_small in_range_def)
    finally show ?thesis using that(1) by (simp add: in_range_def)
  qed
  show ?thesis using at [of j n] at [of j' n'] assms by (fastforce simp: disjoint_ranges_def)
qed

text \<open>Reading and writing.\<close>

lemma read_write_same:
  assumes "field_at l f = Some (k, n)" "n \<le> 8" "unat v < 256 ^ n"
  shows "read_field l f (write_field l f p v m) p = v"
  using assms by (simp add: read_field_def write_field_def load_store_same)

lemma read_write_other:
  assumes "aligned_layout l" "sizeof l < 2 ^ 64" "f \<noteq> g"
  shows "read_field l g (write_field l f p v m) p = read_field l g m p"
proof (cases "field_at l f"; cases "field_at l g")
  fix x y assume at: "field_at l f = Some x" "field_at l g = Some y"
  obtain j n j' n' where xy: "x = (j, n)" "y = (j', n')" by (cases x, cases y) simp
  have b: "j + n < 2 ^ 64" "j' + n' < 2 ^ 64"
    using field_at_bounds [OF assms(1), of f j n] field_at_bounds [OF assms(1), of g j' n'] at assms(2)
    by (simp_all add: xy)
  have "disjoint_ranges (p + of_nat j) n (p + of_nat j') n'"
    using field_at_disjoint [OF assms(1,3)] at b by (intro offsets_disjoint) (auto simp: xy)
  then show ?thesis using at b by (simp add: read_field_def write_field_def xy load_store_other)
qed (simp_all add: read_field_def write_field_def)

lemma read_field_cong:
  assumes "aligned_layout l" "sizeof l < 2 ^ 64" "\<And>x. in_range p (sizeof l) x \<Longrightarrow> m x = m' x"
  shows "read_field l f m p = read_field l f m' p"
proof (cases "field_at l f")
  case (Some x)
  obtain k n where x: "x = (k, n)" by (cases x) simp
  then have "k + n \<le> sizeof l" using field_at_bounds [OF assms(1)] Some by simp
  then have "load_le n m (p + of_nat k) = load_le n m' (p + of_nat k)"
    using assms(2,3) in_range_shift [of p k n _ "sizeof l"] by (intro load_le_cong) auto
  then show ?thesis by (simp add: read_field_def Some x)
qed (simp add: read_field_def)

lemma get_put_bits:
  fixes w :: "'a::len word"
  assumes "bits_at l f = Some (k, n)" "k + n \<le> LENGTH('a)"
  shows "get_bits l f (put_bits l f v w) = take_bit n v"
  using assms by (simp add: get_bits_def put_bits_def)

lemma get_put_other_bits:
  fixes w :: "'a::len word"
  assumes "f \<noteq> g"
  shows "get_bits l g (put_bits l f v w) = get_bits l g w"
proof -
  have "aligned_layout (packed l)" by (auto simp: packed_def)
  from field_at_disjoint [OF this assms] show ?thesis
    by (auto simp: get_bits_def put_bits_def bits_at_def split: option.split intro!: get_set_other)
qed

end
