(* ===== verification/PagingFixed.thy ===== *)
theory PagingFixed
  imports PagingInit
begin

text \<open>
  \<open>brute_create_page\<close> of \<open>kernel/memman.c\<close>: pages for frames the caller names, the registers of
  devices for example.
\<close>

section \<open>The loop\<close>

lemma frame_40:
  fixes phys :: u64
  assumes "unat phys + n * 4096 \<le> 2 ^ 52" "k < n"
  shows "take_bit 40 (phys div 0x1000 + of_nat k) = phys div 0x1000 + of_nat k"
proof -
  have "unat phys div 4096 + k < 2 ^ 40" using assms by simp
  then have "unat (phys div 0x1000 + of_nat k) < 2 ^ 40"
    using unat_add_small [of "phys div 0x1000" "of_nat k"] by (simp add: unat_div unat_of_nat)
  then show ?thesis by (simp add: word_unat_eq_iff unsigned_take_bit_eq take_bit_nat_eq_self)
qed

text \<open>The frames \<open>F k\<close> are mapped at \<open>va_of k\<close>, and no other page changes.\<close>

definition maps_fixed :: "vm \<Rightarrow> (u64 \<Rightarrow> u64) \<Rightarrow> (u64 \<Rightarrow> u64) \<Rightarrow> nat set \<Rightarrow> vm \<Rightarrow> bool" where
  "maps_fixed s va_of F K s' \<longleftrightarrow> grows s s' \<and>
     (\<forall>k \<in> K. table s' (va_path (va_of (of_nat k))) = Some (F (of_nat k))) \<and>
     changes_below s ((\<lambda>k. va_of (of_nat k)) ` K) s'"

lemma maps_fixed_step:
  assumes "grows s s1" "table s1 (va_path (va_of (of_nat j))) = Some (F (of_nat j))"
    "changes_below s {va_of (of_nat j)} s1"
    and m: "maps_fixed s1 va_of F K s'" and j: "va_path (va_of (of_nat j)) \<notin> (\<lambda>k. va_path (va_of (of_nat k))) ` K"
      "addr_pml4 (va_of (of_nat j)) \<noteq> 511"
  shows "maps_fixed s va_of F (insert j K) s'"
proof -
  have "grows s1 s'" using m by (simp add: maps_fixed_def)
  moreover have "table s' (va_path (va_of (of_nat j))) = Some (F (of_nat j))"
    using m j(1) valid_va [OF j(2)] assms(2) changes_below_page [of s1 "(\<lambda>k. va_of (of_nat k)) ` K" s' "va_path (va_of (of_nat j))"]
    by (auto simp: maps_fixed_def)
  moreover have "changes_below s ((\<lambda>k. va_of (of_nat k)) ` insert j K) s'"
    by (rule changes_below_trans [OF assms(3)]) (use m in \<open>auto simp: maps_fixed_def\<close>)
  ultimately show ?thesis using m grows_trans [OF assms(1)] by (auto simp: maps_fixed_def)
qed

lemma brute_loop_spec:
  fixes phys va :: u64
  defines "va_of \<equiv> \<lambda>i. va + i * 0x1000" and "F \<equiv> \<lambda>i. phys div 0x1000 + i"
  assumes "vm_inv s" "free_zeroed s" "unat i \<le> unat sz" "can_alloc (3 * (unat sz - unat i) + left) (mm s)"
    "\<forall>k \<in> {unat i..<unat sz}. addr_pml4 (va_of (of_nat k)) \<noteq> 511 \<and> take_bit 40 (F (of_nat k)) = F (of_nat k)"
    "inj_on (\<lambda>k. va_path (va_of (of_nat k))) {unat i..<unat sz}"
  shows "\<exists>s'. brute_loop phys va sz user i s = Some (sz, s') \<and> maps_fixed s va_of F {unat i..<unat sz} s' \<and> can_alloc left (mm s')"
  using assms(3-)
proof (induction "unat sz - unat i" arbitrary: i s)
  case 0
  then have "i = sz" by (simp add: word_unat_eq_iff)
  then show ?case using 0 grows_refl by (subst brute_loop.simps) (simp add: maps_fixed_def changes_below_refl)
next
  case (Suc d)
  let ?K = "{unat (i + 1)..<unat sz}"
  have lt: "i < sz" using Suc.hyps(2) by (simp add: word_less_nat_alt)
  then have i1: "unat (i + 1) = Suc (unat i)" by (rule unat_incr)
  have K: "{unat i..<unat sz} = insert (unat i) ?K" "unat i \<notin> ?K" using lt i1 by (auto simp: word_less_nat_alt)
  have "3 * (unat sz - unat i) + left = Suc (Suc (Suc (3 * (unat sz - unat (i + 1)) + left)))"
    using Suc.hyps(2) i1 by simp
  then have ok: "can_alloc (Suc (Suc (Suc (3 * (unat sz - unat (i + 1)) + left)))) (mm s)"
    using Suc.prems(4) by (simp only:)
  have a: "addr_pml4 (va_of i) \<noteq> 511" "take_bit 40 (F i) = F i" using Suc.prems(5) K(1) by auto
  obtain page s0 s1 where s1: "create_page_for_current (va_of i) 0 s = Some (page, s0)"
    "upd_entry page (set_entry_frame (F i) \<circ> set_entry_rw 1 \<circ> set_entry_user user \<circ> set_entry_present 1) s0 = Some s1"
    "grows s s1" "table s1 (va_path (va_of i)) = Some (F i)"
    "changes_below s {va_of i} s1"
    "can_alloc (3 * (unat sz - unat (i + 1)) + left) (mm s1)"
    using named_page_spec [OF Suc.prems(1,2) a(1) ok, of "set_entry_frame (F i) \<circ> set_entry_rw 1 \<circ> set_entry_user user \<circ> set_entry_present 1"]
      a(2) by (auto simp: take_bit_Suc)
  have d: "d = unat sz - unat (i + 1)" "unat (i + 1) \<le> unat sz" using Suc.hyps(2) i1 by simp_all
  obtain s' where s': "brute_loop phys va sz user (i + 1) s1 = Some (sz, s')" "maps_fixed s1 va_of F ?K s'"
    "can_alloc left (mm s')"
    using Suc.hyps(1) [OF d(1) grows_inv [OF s1(3)] d(2) s1(6)] Suc.prems(5,6) unfolding K(1)
    by (auto intro: inj_on_subset)
  have "va_path (va_of i) \<notin> (\<lambda>k. va_path (va_of (of_nat k))) ` ?K"
    using Suc.prems(6) K(2) unfolding K(1) by (simp add: inj_on_insert)
  then have "maps_fixed s va_of F (insert (unat i) ?K) s'"
    using maps_fixed_step [of s s1 va_of "unat i" F ?K s'] s1(3-5) s'(2) a(1) by simp
  moreover have "brute_loop phys va sz user i s = Some (sz, s')"
    using lt s1(1,2) s'(1) by (subst brute_loop.simps) (simp add: va_of_def F_def)
  ultimately show ?case using s'(3) unfolding K(1) by blast
qed

text \<open>
  With enough free blocks \<open>brute_create_page\<close> maps exactly the pages asked for to the frames asked for,
  returns their number and leaves the translation of every other page outside of the tables as it was.
\<close>

lemma brute_create_page_left:
  assumes inv: "vm_inv s" and z: "free_zeroed s" and r: "root s = entry_frame (cr3 s)"
    and n: "unat va + unat sz * 4096 \<le> 2 ^ 47" "unat phys + unat sz * 4096 \<le> 2 ^ 52"
    and free: "unat sz div 512 \<le> card (free_blocks (mm s))" "can_alloc (3 * unat sz + left) (mm s)"
  shows "\<exists>s'. brute_create_page phys va sz user s = Some (ucast sz, s') \<and> grows s s' \<and> can_alloc left (mm s') \<and>
    (\<forall>k < unat sz. translate s' (va + of_nat k * 0x1000) = Some (phys div 0x1000 + of_nat k)) \<and>
    (\<forall>v. addr_pml4 v \<noteq> 511 \<longrightarrow> (\<forall>k < unat sz. va_path v \<noteq> va_path (va + of_nat k * 0x1000)) \<longrightarrow>
       translate s' v = translate s v) \<and>
    changes_below s ((\<lambda>k. va + of_nat k * 0x1000) ` {..<unat sz}) s'"
proof -
  have f: "take_bit 40 (phys div 0x1000 + of_nat k) = phys div 0x1000 + of_nat k" if k: "k < unat sz" for k
    using n(2) k by (intro frame_40) simp_all
  have "can_alloc (3 * (unat sz - unat 0) + left) (mm s)" using free(2) by simp
  from brute_loop_spec [OF inv z _ this, of va phys user] pages_distinct [OF n(1)] f
  obtain s' where s': "brute_loop phys va sz user 0 s = Some (sz, s')"
    "maps_fixed s (\<lambda>i. va + i * 0x1000) (\<lambda>i. phys div 0x1000 + i) {0..<unat sz} s'" "can_alloc left (mm s')" by auto
  then have g: "grows s s'" by (simp add: maps_fixed_def)
  have r': "root s' = entry_frame (cr3 s')" using g r by (simp add: grows_def)
  note tr = translate_table [OF r] translate_table [OF r']
  have "\<not> sz div 512 > mem_free_block_count (mm s)"
    using free(1) by (simp add: word_less_nat_alt mem_free_block_count_eq [OF vm_invD(1) [OF inv]] unat_div)
  then have "brute_create_page phys va sz user s = Some (ucast sz, s')"
    using s'(1) by (simp add: brute_create_page_def)
  moreover have "translate s' v = translate s v"
    if "addr_pml4 v \<noteq> 511" "\<forall>k < unat sz. va_path v \<noteq> va_path (va + of_nat k * 0x1000)" for v
  proof -
    have "va_path v \<notin> (\<lambda>k. va_path (va + of_nat k * 0x1000)) ` {0..<unat sz}" using that(2) by auto
    then show ?thesis
      using s'(2) changes_below_page [of s "(\<lambda>k. va + of_nat k * 0x1000) ` {0..<unat sz}" s', OF _ valid_va [OF that(1)] length_va_path]
      unfolding tr maps_fixed_def by auto
  qed
  ultimately show ?thesis
    using s'(2,3) g unfolding maps_fixed_def by (intro exI [of _ s']) (simp add: tr atLeast0LessThan)
qed

lemma brute_create_page_correct:
  assumes inv: "vm_inv s" and z: "free_zeroed s" and r: "root s = entry_frame (cr3 s)"
    and n: "unat va + unat sz * 4096 \<le> 2 ^ 47" "unat phys + unat sz * 4096 \<le> 2 ^ 52"
    and free: "0 \<notin> free_blocks (mm s)" "3 * unat sz \<le> card (free_blocks (mm s) \<inter> {..<searched (mm s)})"
  shows "\<exists>s'. brute_create_page phys va sz user s = Some (ucast sz, s') \<and> vm_inv s' \<and> free_zeroed s' \<and>
    (\<forall>k < unat sz. translate s' (va + of_nat k * 0x1000) = Some (phys div 0x1000 + of_nat k)) \<and>
    (\<forall>v. addr_pml4 v \<noteq> 511 \<longrightarrow> (\<forall>k < unat sz. va_path v \<noteq> va_path (va + of_nat k * 0x1000)) \<longrightarrow>
       translate s' v = translate s v)"
proof -
  have "unat sz \<le> card (free_blocks (mm s))"
    using free(2) card_mono [OF finite_block_sets(2), of "free_blocks (mm s) \<inter> {..<searched (mm s)}" "mm s"] by simp
  then have "unat sz div 512 \<le> card (free_blocks (mm s))" by (rule order_trans [OF div_le_dividend])
  moreover have "can_alloc (3 * unat sz + 0) (mm s)" using can_alloc_enough [OF vm_invD(1,2) [OF inv] free] by simp
  ultimately show ?thesis using brute_create_page_left [OF inv z r n, of 0] grows_inv by metis
qed

end
