(* ===== verification/Acpi.thy ===== *)
theory Acpi
  imports CLib PagingFixed
begin

text \<open>
  The search for the ACPI tables in \<open>kernel/acpi.c\<close>, over byte-addressed memory: the root pointer in the BIOS
  area and the table with a given signature.
\<close>

section \<open>The searches\<close>

text \<open>\<open>name\<close> is the address of the literal \<open>RSD PTR\<close>, with a blank at its end.\<close>

function get_rsdt_loop :: "u64 \<Rightarrow> memory \<Rightarrow> u64 \<Rightarrow> u64" where
  "get_rsdt_loop name m i =
     (if i < 0xFFFFF
      then if strncmp m i name 8 \<noteq> 0 then load_u64 m (i + 16) else get_rsdt_loop name m (i + 16)
      else 0)"
  by pat_completeness auto
termination
proof (relation "measure (\<lambda>(_, _, i). 0x100010 - unat i)")
  fix name i :: u64 and m :: memory
  assume "i < 0xFFFFF"
  then have i: "unat i < 0xFFFFF" by (simp add: word_less_nat_alt)
  then have "unat (i + 16) = unat i + 16" by (subst unat_add_small) simp_all
  with i show "((name, m, i + 16), name, m, i) \<in> measure (\<lambda>(_, _, i). 0x100010 - unat i)" by simp
qed simp

definition get_rsdt :: "u64 \<Rightarrow> memory \<Rightarrow> u64" where
  "get_rsdt name m = get_rsdt_loop name m 0xC0000"

text \<open>
  The header has 36 bytes, its length at 4; the pointers of 32 bits follow. The number of tables is computed with 64 bits,
  as \<open>sizeof\<close> is, and stored in an \<open>int\<close>; the first argument of the loop is the number of rounds left.
\<close>

definition table_count :: "memory \<Rightarrow> u64 \<Rightarrow> int" where
  "table_count m rsdt = sint (ucast ((ucast (load_u32 m (rsdt + 4)) - 36 :: u64) div 4) :: u32)"

definition sdt_ptr :: "memory \<Rightarrow> u64 \<Rightarrow> nat \<Rightarrow> u64" where
  "sdt_ptr m rsdt i = ucast (load_u32 m (rsdt + 36 + of_nat (4 * i)))"

fun find_sdt_loop :: "nat \<Rightarrow> nat \<Rightarrow> memory \<Rightarrow> u64 \<Rightarrow> u64 \<Rightarrow> u64" where
  "find_sdt_loop 0 i m rsdt signature = 0"
| "find_sdt_loop (Suc k) i m rsdt signature =
     (let h = sdt_ptr m rsdt i
      in if strncmp m h signature 4 \<noteq> 0 then h else find_sdt_loop k (Suc i) m rsdt signature)"

definition find_sdt :: "u64 \<Rightarrow> u64 \<Rightarrow> memory \<Rightarrow> u64" where
  "find_sdt rsdt signature m = find_sdt_loop (nat (table_count m rsdt)) 0 m rsdt signature"

text \<open>
  \<open>acpi_init\<close> maps the two areas where the firmware leaves its tables, each to itself, and looks for the
  table of interrupt controllers. \<open>m\<close> is the memory at the addresses so mapped and below 1 MB; the result is
  \<open>madt\<close>. It returns only if the mapping does.
\<close>

definition acpi_init :: "u64 \<Rightarrow> u64 \<Rightarrow> memory \<Rightarrow> vm \<Rightarrow> (u64 \<times> vm) option" where
  "acpi_init name signature m v =
     (case brute_create_page 0x1FF0000 0x1FF0000 16 0 v of None \<Rightarrow> None | Some (_, v1) \<Rightarrow>
      case brute_create_page 0x3FF0000 0x3FF0000 15 0 v1 of None \<Rightarrow> None | Some (_, v2) \<Rightarrow>
        Some (find_sdt (get_rsdt name m) signature m, v2))"

declare get_rsdt_loop.simps [simp del]

section \<open>What they find\<close>

text \<open>Comparing with a literal of \<open>n\<close> characters.\<close>

lemma strncmp_literal:
  "cstr m (b + of_nat i) w \<Longrightarrow> n \<le> length w \<Longrightarrow>
     strncmp_loop n i m a b = (if \<forall>j < n. m (a + of_nat (i + j)) = w ! j then 1 else 0)"
proof (induction n arbitrary: i w)
  case (Suc n)
  then obtain c cs where w: "w = c # cs" by (cases w) simp_all
  have "b + of_nat i + 1 = b + of_nat (Suc i)" by simp
  with Suc.prems w have c: "m (b + of_nat i) = c" "c \<noteq> 0" "cstr m (b + of_nat (Suc i)) cs" "n \<le> length cs"
    by (simp_all del: of_nat_Suc)
  have "(\<forall>j < Suc n. m (a + of_nat (i + j)) = w ! j) \<longleftrightarrow>
      m (a + of_nat i) = c \<and> (\<forall>j < n. m (a + of_nat (Suc i + j)) = cs ! j)"
    unfolding w by (auto simp: less_Suc_eq_0_disj simp del: of_nat_add of_nat_Suc)
  moreover have "strncmp_loop (Suc n) i m a b =
      (if m (a + of_nat i) = c then strncmp_loop n (Suc i) m a b else 0)"
    using c(1,2) by (auto simp: Let_def simp del: of_nat_Suc)
  ultimately show ?case using Suc.IH [OF c(3,4)] by simp
qed simp

definition has_signature :: "memory \<Rightarrow> u64 \<Rightarrow> u8 list \<Rightarrow> bool" where
  "has_signature m h w \<longleftrightarrow> (\<forall>j < length w. m (h + of_nat j) = w ! j)"

lemma strncmp_signature:
  assumes "cstr m b w" "n = length w"
  shows "strncmp m a b n \<noteq> 0 \<longleftrightarrow> has_signature m a w"
  using strncmp_literal [of m b 0 w n a] assms by (simp add: strncmp_def has_signature_def)

lemma find_sdt_loop_find:
  assumes "cstr m signature w" "length w = 4"
  shows "find_sdt_loop k i m rsdt signature =
    (case find (\<lambda>h. has_signature m h w) (map (sdt_ptr m rsdt) [i..<i + k]) of None \<Rightarrow> 0 | Some h \<Rightarrow> h)"
proof (induction k arbitrary: i)
  case (Suc k)
  have "[i..<i + Suc k] = i # [Suc i..<Suc i + k]" by (simp add: upt_conv_Cons)
  with Suc strncmp_signature [OF assms(1), of 4] assms(2) show ?case by (simp add: Let_def del: upt_Suc)
qed simp

text \<open>The number of tables is that of the specification, and not positive when the length is too small.\<close>

lemma count_negative:
  "list_all (\<lambda>k. sint (ucast ((ucast k - 36 :: u64) div 4) :: u32) \<le> 0) (map (of_nat :: nat \<Rightarrow> u32) [0..<36])"
  by code_simp

lemma table_count_eq: "nat (table_count m rsdt) = (unat (load_u32 m (rsdt + 4)) - 36) div 4"
proof -
  let ?l = "load_u32 m (rsdt + 4)" and ?n = "unat (load_u32 m (rsdt + 4))"
  have l: "?n < 2 ^ 32" using unsigned_less [of ?l, where ?'a = nat] by simp
  show ?thesis
  proof (cases "?n < 36")
    case True
    have "?l = of_nat ?n" by simp
    then have "?l \<in> set (map of_nat [0..<36])" unfolding set_map set_upt using True by (intro image_eqI [of _ _ ?n]) simp_all
    then have "table_count m rsdt \<le> 0" using count_negative unfolding table_count_def list_all_iff by blast
    then show ?thesis using True by simp
  next
    case False
    have u: "unat (ucast ?l :: u64) = ?n" using l by (simp add: unsigned_ucast_eq take_bit_nat_eq_self)
    then have "unat (ucast ?l - 36 :: u64) = ?n - 36" using False by (subst unat_diff_small) (simp_all add: word_le_nat_alt)
    then have "unat ((ucast ?l - 36 :: u64) div 4) = (?n - 36) div 4" by (simp add: unat_div)
    moreover have "ucast v = (of_nat (unat v) :: u32)" for v :: u64 by simp
    ultimately have "(ucast ((ucast ?l - 36 :: u64) div 4) :: u32) = of_nat ((?n - 36) div 4)" by metis
    then show ?thesis using l sint_of_nat_small [of "(?n - 36) div 4", where ?'a = 32] by (simp add: table_count_def)
  qed
qed

text \<open>\<open>find_sdt\<close> returns the first table of the list with the signature, or a null pointer.\<close>

definition tables :: "memory \<Rightarrow> u64 \<Rightarrow> u64 list" where
  "tables m rsdt = map (sdt_ptr m rsdt) [0..<(unat (load_u32 m (rsdt + 4)) - 36) div 4]"

lemma find_sdt_first:
  assumes "cstr m signature w" "length w = 4"
  shows "find_sdt rsdt signature m =
    (case find (\<lambda>h. has_signature m h w) (tables m rsdt) of None \<Rightarrow> 0 | Some h \<Rightarrow> h)"
  using find_sdt_loop_find [OF assms, of "(unat (load_u32 m (rsdt + 4)) - 36) div 4" 0 rsdt]
  by (simp only: find_sdt_def table_count_eq tables_def add_0_left)

text \<open>\<open>get_rsdt\<close> looks at every 16th address of the area and reads 8 bytes where the format has 4.\<close>

lemma get_rsdt_loop_find:
  assumes "cstr m name w" "length w = 8" "n \<le> 0x4000"
  shows "get_rsdt_loop name m (0x100000 - of_nat (16 * n)) =
    (case find (\<lambda>a. has_signature m a w) (map (\<lambda>k. 0x100000 - of_nat (16 * k)) (rev [1..<Suc n])) of
       None \<Rightarrow> 0 | Some a \<Rightarrow> load_u64 m (a + 16))"
  using assms(3)
proof (induction n)
  case 0
  then show ?case by (simp add: get_rsdt_loop.simps [of name m "0x100000"] word_less_nat_alt)
next
  case (Suc n)
  let ?a = "0x100000 - of_nat (16 * Suc n) :: u64"
  have k: "unat (of_nat (16 * Suc n) :: u64) = 16 * Suc n" using Suc.prems by (intro unat_of_nat_small) simp
  have "unat ?a = 0x100000 - 16 * Suc n"
    using k Suc.prems by (subst unat_diff_small) (simp_all add: word_le_nat_alt)
  then have lt: "?a < 0xFFFFF" by (simp add: word_less_nat_alt)
  define a where "a = ?a"
  have after: "a + 16 = 0x100000 - of_nat (16 * n)" by (simp add: a_def)
  have step: "get_rsdt_loop name m a =
      (if has_signature m a w then load_u64 m (a + 16) else get_rsdt_loop name m (0x100000 - of_nat (16 * n)))"
    using lt [folded a_def] strncmp_signature [OF assms(1), of 8 a] assms(2) unfolding after [symmetric]
    by (simp add: get_rsdt_loop.simps [of name m a] a_def [symmetric])
  have l: "rev [1..<Suc (Suc n)] = Suc n # rev [1..<Suc n]" by simp
  have ih: "get_rsdt_loop name m (0x100000 - of_nat (16 * n)) =
      (case find (\<lambda>a. has_signature m a w) (map (\<lambda>k. 0x100000 - of_nat (16 * k)) (rev [1..<Suc n])) of
       None \<Rightarrow> 0 | Some a \<Rightarrow> load_u64 m (a + 16))" using Suc by simp
  show ?case unfolding l list.map find.simps a_def [symmetric] step ih by simp
qed

text \<open>\<open>acpi_init\<close> maps its 31 pages, each to itself, and returns what the two searches find.\<close>

lemma area_page:
  assumes "unat a + k * 4096 < 2 ^ 48"
  shows "unat (a + of_nat k * 0x1000 :: u64) = unat a + k * 4096"
proof -
  have "a + of_nat k * 0x1000 = of_nat (unat a + k * 4096)" by simp
  then show ?thesis using assms by (simp add: unat_of_nat_small del: of_nat_add of_nat_mult)
qed

lemma acpi_init_maps:
  assumes "vm_inv v" "free_zeroed v" "root v = entry_frame (cr3 v)" "can_alloc (3 * 16 + (3 * 15 + left)) (mm v)"
    and "cstr m signature w" "length w = 4"
  shows "\<exists>v'. acpi_init name signature m v =
      Some (case find (\<lambda>h. has_signature m h w) (tables m (get_rsdt name m)) of None \<Rightarrow> 0 | Some h \<Rightarrow> h, v') \<and>
    grows v v' \<and> can_alloc left (mm v') \<and>
    (\<forall>k < 16. translate v' (0x1FF0000 + of_nat k * 0x1000) = Some (0x1FF0 + of_nat k)) \<and>
    (\<forall>k < 15. translate v' (0x3FF0000 + of_nat k * 0x1000) = Some (0x3FF0 + of_nat k))"
proof -
  obtain v1 where v1: "brute_create_page 0x1FF0000 0x1FF0000 16 0 v = Some (16, v1)" "grows v v1" "can_alloc (3 * 15 + left) (mm v1)"
    "\<forall>k < 16. translate v1 (0x1FF0000 + of_nat k * 0x1000) = Some (0x1FF0 + of_nat k)"
    using brute_create_page_left [OF assms(1-3), of "0x1FF0000" 16 "0x1FF0000" "3 * 15 + left" 0] assms(4) by auto
  have r1: "root v1 = entry_frame (cr3 v1)" using v1(2) assms(3) by (simp add: grows_def)
  obtain v2 where v2: "brute_create_page 0x3FF0000 0x3FF0000 15 0 v1 = Some (15, v2)" "grows v1 v2" "can_alloc left (mm v2)"
    "\<forall>k < 15. translate v2 (0x3FF0000 + of_nat k * 0x1000) = Some (0x3FF0 + of_nat k)"
    "\<forall>x. addr_pml4 x \<noteq> 511 \<longrightarrow> (\<forall>k < 15. va_path x \<noteq> va_path (0x3FF0000 + of_nat k * 0x1000)) \<longrightarrow> translate v2 x = translate v1 x"
    using brute_create_page_left [OF grows_inv [OF v1(2)] r1, of "0x3FF0000" 15 "0x3FF0000" left 0] v1(3) by auto
  have "translate v2 (0x1FF0000 + of_nat k * 0x1000) = Some (0x1FF0 + of_nat k)" if k: "k < 16" for k
  proof -
    let ?x = "0x1FF0000 + of_nat k * 0x1000 :: u64"
    have x: "unat ?x = 0x1FF0000 + k * 4096" using k by (subst area_page) simp_all
    have "va_path ?x \<noteq> va_path (0x3FF0000 + of_nat j * 0x1000)" if j: "j < 15" for j
      by (rule va_path_neq) (use x j k area_page [of "0x3FF0000" j] in simp_all)
    moreover have "addr_pml4 ?x \<noteq> 511" using x k by (simp add: addr_pml4_def word_unat_eq_iff unat_get_field)
    ultimately show ?thesis using v2(5) v1(4) k by simp
  qed
  then show ?thesis using v1(1) v2(1,3,4) grows_trans [OF v1(2) v2(2)] find_sdt_first [OF assms(5,6)]
    by (intro exI [of _ v2]) (simp add: acpi_init_def)
qed

end
