(* ===== verification/Descriptors.thy ===== *)
theory Descriptors
  imports Bitfields
begin

text \<open>
  The descriptor tables of \<open>kernel/gdt.c\<close> and \<open>kernel/idt.c\<close>: how bases, limits and
  handler addresses are packed into descriptors, and what the processor reads from the tables that
  \<open>gdt_install\<close> and \<open>idt_install\<close> leave.
\<close>

section \<open>Segments\<close>

record gdt_entry =
  limit_low :: u16
  base_low :: u16
  base_middle :: u8
  access :: u8
  granularity :: u8
  base_high :: u8

type_synonym gdt_table = "nat \<Rightarrow> gdt_entry"

definition zero_gdt_entry :: gdt_entry where
  "zero_gdt_entry = \<lparr>limit_low = 0, base_low = 0, base_middle = 0, access = 0, granularity = 0, base_high = 0\<rparr>"

text \<open>
  The arguments are signed; under the masks an arithmetic shift and \<open>drop_bit\<close> give the same bits.
\<close>

definition gdt_set_gate :: "nat \<Rightarrow> u32 \<Rightarrow> u32 \<Rightarrow> u8 \<Rightarrow> u8 \<Rightarrow> gdt_table \<Rightarrow> gdt_table" where
  "gdt_set_gate num base limit acc gran gdt =
     gdt(num := \<lparr>limit_low = ucast (limit AND 0xFFFF),
                 base_low = ucast (base AND 0xFFFF),
                 base_middle = ucast (drop_bit 16 base AND 0xFF),
                 access = acc,
                 granularity = ucast (drop_bit 16 limit AND 0x0F) OR (gran AND 0xF0),
                 base_high = ucast (drop_bit 24 base AND 0xFF)\<rparr>)"

definition gdt_set_ss_gate :: "nat \<Rightarrow> u64 \<Rightarrow> u32 \<Rightarrow> u8 \<Rightarrow> u8 \<Rightarrow> gdt_table \<Rightarrow> gdt_table" where
  "gdt_set_ss_gate num base limit acc gran gdt =
     gdt(num + 1 := \<lparr>limit_low = ucast (drop_bit 32 base AND 0x0000FFFF),
                     base_low = ucast (drop_bit 48 base AND 0xFFFF),
                     base_middle = 0, access = 0, granularity = 0, base_high = 0\<rparr>,
         num := \<lparr>limit_low = ucast (limit AND 0xFFFF),
                 base_low = ucast (base AND 0xFFFF),
                 base_middle = ucast (drop_bit 16 base AND 0xFF),
                 access = acc,
                 granularity = ucast (drop_bit 16 limit AND 0x0F) OR (gran AND 0xF0),
                 base_high = ucast (drop_bit 24 base AND 0xFF)\<rparr>)"

text \<open>
  The task state segment. The structure is not packed, so that its size is 112 bytes (\<open>zero2\<close> is
  aligned to 8) and the fields from \<open>zero2\<close> on are 4 bytes behind their place in the hardware's format.
\<close>

record tss_entry_t =
  zero1 :: u32
  rsp0_low :: u32
  rsp0_high :: u32
  rsp1_low :: u32
  rsp1_high :: u32
  rsp2_low :: u32
  rsp2_high :: u32
  zero2 :: u64
  ist1_low :: u32
  ist1_high :: u32
  ist2_low :: u32
  ist2_high :: u32
  ist3_low :: u32
  ist3_high :: u32
  ist4_low :: u32
  ist4_high :: u32
  ist5_low :: u32
  ist5_high :: u32
  ist6_low :: u32
  ist6_high :: u32
  ist7_low :: u32
  ist7_high :: u32
  zero3 :: u64
  zero4 :: u16
  iomap_adr :: u16

definition zero_tss :: tss_entry_t where
  "zero_tss = \<lparr>zero1 = 0, rsp0_low = 0, rsp0_high = 0, rsp1_low = 0, rsp1_high = 0, rsp2_low = 0, rsp2_high = 0,
     zero2 = 0, ist1_low = 0, ist1_high = 0, ist2_low = 0, ist2_high = 0, ist3_low = 0, ist3_high = 0, ist4_low = 0, ist4_high = 0,
     ist5_low = 0, ist5_high = 0, ist6_low = 0, ist6_high = 0, ist7_low = 0, ist7_high = 0,
     zero3 = 0, zero4 = 0, iomap_adr = 0\<rparr>"

record gdt_state =
  gdt :: gdt_table
  tss_entry :: tss_entry_t
  task_register :: u16

definition tss_set_gate :: "u64 \<Rightarrow> nat \<Rightarrow> u64 \<Rightarrow> u64 \<Rightarrow> u64 \<Rightarrow> gdt_state \<Rightarrow> gdt_state" where
  "tss_set_gate tss_address num rsp0 rsp1 rsp2 s =
     s\<lparr>gdt := gdt_set_ss_gate num tss_address (ucast (tss_address + 112)) 0x89 0x9F (gdt s),
       tss_entry := zero_tss\<lparr>
         rsp0_high := ucast (drop_bit 32 rsp0), rsp0_low := ucast (rsp0 AND 0xFFFFFFFF),
         rsp1_high := ucast (drop_bit 32 rsp1), rsp1_low := ucast (rsp1 AND 0xFFFFFFFF),
         rsp2_high := ucast (drop_bit 32 rsp2), rsp2_low := ucast (rsp2 AND 0xFFFFFFFF)\<rparr>\<rparr>"

definition load_tr :: "nat \<Rightarrow> gdt_state \<Rightarrow> gdt_state" where
  "load_tr num s = s\<lparr>task_register := of_nat (num * 8)\<rparr>"

definition gdt_install :: "u64 \<Rightarrow> gdt_state \<Rightarrow> gdt_state" where
  "gdt_install tss_address s =
     (let g = gdt_set_gate 4 0 0 0xF2 0x00 (gdt_set_gate 3 0 0 0xF8 0x20
                (gdt_set_gate 2 0 0 0x92 0x00 (gdt_set_gate 1 0 0 0x98 0x20
                  (gdt_set_gate 0 0 0 0 0 (gdt s)))))
      in load_tr 5 (tss_set_gate tss_address 5 0xbffff000 0xbffff000 0xbffff000 (s\<lparr>gdt := g\<rparr>)))"

section \<open>Interrupt gates\<close>

record idt_descriptor =
  offset_low :: u16
  selector :: u16
  ist :: u8
  type_attr :: u8
  offset_middle :: u16
  offset_high :: u32

type_synonym idt_table = "nat \<Rightarrow> idt_descriptor"

definition zero_idt :: idt_table where
  "zero_idt = (\<lambda>_. \<lparr>offset_low = 0, selector = 0, ist = 0, type_attr = 0, offset_middle = 0, offset_high = 0\<rparr>)"

definition idt_set_gate :: "nat \<Rightarrow> u64 \<Rightarrow> u16 \<Rightarrow> u8 \<Rightarrow> u8 \<Rightarrow> idt_table \<Rightarrow> idt_table" where
  "idt_set_gate num base sel type i idt =
     idt(num := \<lparr>offset_low = ucast (base AND 0x0FFFF), selector = sel, ist = i AND 0x07, type_attr = type,
                 offset_middle = ucast (drop_bit 16 base AND 0x0FFFF),
                 offset_high = ucast (drop_bit 32 base AND 0x0FFFFFFFF)\<rparr>)"

text \<open>
  \<open>isr n\<close> is the address of \<open>isrn\<close> in \<open>interrupt.asm\<close>. The first 34 calls differ in
  the number only.
\<close>

definition idt_install :: "(nat \<Rightarrow> u64) \<Rightarrow> idt_table" where
  "idt_install isr =
     idt_set_gate 0x80 (isr 128) 0x08 0xEE 0
      (idt_set_gate 0x77 (isr 1) 0x08 0x8E 0
        (fold (\<lambda>n. idt_set_gate n (isr n) 0x08 0x8E 0) [0..<34] zero_idt))"

section \<open>What the processor reads\<close>

text \<open>The formats of the AMD64 manual: base and limit of a segment, base of a 16-byte descriptor.\<close>

definition segment_base :: "gdt_entry \<Rightarrow> u32" where
  "segment_base e = ucast (base_low e) OR push_bit 16 (ucast (base_middle e)) OR push_bit 24 (ucast (base_high e))"

definition segment_limit :: "gdt_entry \<Rightarrow> u32" where
  "segment_limit e = ucast (limit_low e) OR push_bit 16 (ucast (granularity e AND 0x0F))"

definition system_base :: "gdt_entry \<Rightarrow> gdt_entry \<Rightarrow> u64" where
  "system_base e e' = ucast (segment_base e) OR push_bit 32 (ucast (limit_low e')) OR push_bit 48 (ucast (base_low e'))"

definition gate_offset :: "idt_descriptor \<Rightarrow> u64" where
  "gate_offset d = ucast (offset_low d) OR push_bit 16 (ucast (offset_middle d)) OR push_bit 32 (ucast (offset_high d))"

definition gate_present :: "idt_descriptor \<Rightarrow> bool" where
  "gate_present d \<longleftrightarrow> bit (type_attr d) 7"

text \<open>The privilege level that may call the gate by an \<open>int\<close> instruction.\<close>

definition gate_dpl :: "idt_descriptor \<Rightarrow> u8" where
  "gate_dpl d = get_field 5 2 (type_attr d)"

lemma masks: "(0xF :: 'a::len word) = mask 4" "(0xFF :: 'a::len word) = mask 8" "(0xFFFF :: 'a::len word) = mask 16"
  "(0xFFFFFFFF :: 'a::len word) = mask 32" "(0xF0 :: 'a::len word) = push_bit 4 (mask 4)" "(0x7 :: 'a::len word) = mask 3"
  by (simp_all add: mask_eq_exp_minus_1 push_bit_eq_mult)

text \<open>Adjacent fields join.\<close>

lemma join_fields:
  "take_bit i w OR push_bit i (take_bit k (drop_bit i w)) = take_bit (i + k) w" for w :: "'a::len word"
  by (rule bit_word_eqI) (auto simp: bit_simps)

lemma ucast_field: "n \<le> LENGTH('b) \<Longrightarrow> ucast (ucast (take_bit n w) :: 'b::len word) = take_bit n w" for w :: "'a::len word"
  by (rule bit_word_eqI) (auto simp: bit_simps)

lemma take_bit_full: "take_bit 32 w = w" "take_bit 64 v = v" for w :: u32 and v :: u64
  by (rule bit_word_eqI, simp add: bit_simps)+

lemma segment_base_set: "segment_base (gdt_set_gate num base limit acc gran g num) = base"
  using join_fields [of 16 base 8] join_fields [of 24 base 8]
  by (simp add: segment_base_def gdt_set_gate_def masks take_bit_eq_mask [symmetric] ucast_field or.assoc [symmetric] take_bit_full)

lemma granularity_limit: "ucast (take_bit 4 w) OR (gran AND 0xF0) = g \<Longrightarrow> ucast (g AND 0x0F) = take_bit 4 w"
  for w :: u32 and gran g :: u8
  unfolding masks by (rule bit_word_eqI) (auto simp: bit_simps)

lemma segment_limit_set: "segment_limit (gdt_set_gate num base limit acc gran g num) = take_bit 20 limit"
  using join_fields [of 16 limit 4] granularity_limit [of "drop_bit 16 limit" gran, OF refl]
  by (simp add: segment_limit_def gdt_set_gate_def masks(1-4) take_bit_eq_mask [symmetric] ucast_field)

lemma system_base_set:
  "system_base (gdt_set_ss_gate num base limit acc gran g num) (gdt_set_ss_gate num base limit acc gran g (num + 1)) = base"
proof -
  have "ucast (segment_base (gdt_set_ss_gate num base limit acc gran g num)) = take_bit 32 base"
  proof -
    let ?b = "ucast base :: u32"
    have "segment_base (gdt_set_ss_gate num base limit acc gran g num) = segment_base (gdt_set_gate num ?b limit acc gran g num)"
      unfolding segment_base_def gdt_set_ss_gate_def gdt_set_gate_def masks take_bit_eq_mask [symmetric]
      by (auto intro!: bit_word_eqI simp: bit_simps)
    then show ?thesis unfolding segment_base_set by (auto intro!: bit_word_eqI simp: bit_simps)
  qed
  then show ?thesis
  using join_fields [of 16 base 8] join_fields [of 24 base 8] join_fields [of 32 base 16] join_fields [of 48 base 16]
  by (simp add: system_base_def gdt_set_ss_gate_def masks take_bit_eq_mask [symmetric] ucast_field or.assoc [symmetric] take_bit_full)
qed

lemma gate_offset_set: "gate_offset (idt_set_gate num base sel type i idt num) = base"
  using join_fields [of 16 base 16] join_fields [of 32 base 32]
  by (simp add: gate_offset_def idt_set_gate_def masks take_bit_eq_mask [symmetric] ucast_field or.assoc [symmetric] take_bit_full)

section \<open>The installed tables\<close>

lemma idt_set_gate_other: "k \<noteq> num \<Longrightarrow> idt_set_gate num base sel type i idt k = idt k"
  by (simp add: idt_set_gate_def)

lemma idt_set_gate_fields [simp]:
  "selector (idt_set_gate num base sel type i idt num) = sel" "type_attr (idt_set_gate num base sel type i idt num) = type"
  by (simp_all add: idt_set_gate_def)

lemma fold_gates:
  "fold (\<lambda>n. idt_set_gate n (isr n) sel type i) [0..<m] idt k =
     (if k < m then idt_set_gate k (isr k) sel type i idt k else idt k)"
  by (induction m) (auto simp: idt_set_gate_def less_Suc_eq)

text \<open>Every vector of the table: nothing, a gate for the kernel or the one for system calls.\<close>

lemma idt_install_at:
  "idt_install isr n =
     (if n = 0x80 then idt_set_gate n (isr 128) 0x08 0xEE 0 zero_idt n
      else if n = 0x77 then idt_set_gate n (isr 1) 0x08 0x8E 0 zero_idt n
      else if n < 34 then idt_set_gate n (isr n) 0x08 0x8E 0 zero_idt n
      else zero_idt n)"
  by (simp add: idt_install_def fold_gates idt_set_gate_def)

lemma gate_types: "bit (0xEE :: u8) 7" "bit (0x8E :: u8) 7" "get_field 5 2 (0xEE :: u8) = 3" "get_field 5 2 (0x8E :: u8) = 0"
  by (simp_all add: get_field_def drop_bit_eq_div bit_numeral_rec take_bit_Suc)

text \<open>
  C34: After \<open>idt_install\<close> and \<open>gdt_install\<close> the processor finds what was meant: handlers for the
  vectors 0 to 33, 0x77 and 0x80 and no others, all in the kernel's code segment, and only the gate for system
  calls can be called from user mode; the code and data segments of kernel and user start at 0, and the task
  state segment is where it is, with the stack for system calls. Its limit is not its size but an address.
\<close>

theorem installed_tables:
  "(gate_present (idt_install isr n) \<longleftrightarrow> n < 34 \<or> n = 0x77 \<or> n = 0x80) \<and>
   (gate_present (idt_install isr n) \<longrightarrow>
      gate_offset (idt_install isr n) = (if n = 0x77 then isr 1 else isr n) \<and>
      selector (idt_install isr n) = 8 \<and> gate_dpl (idt_install isr n) = (if n = 0x80 then 3 else 0)) \<and>
   (\<forall>k \<in> {1, 2, 3, 4}. segment_base (gdt (gdt_install tss s) k) = 0) \<and>
   system_base (gdt (gdt_install tss s) 5) (gdt (gdt_install tss s) 6) = tss \<and>
   segment_limit (gdt (gdt_install tss s) 5) = take_bit 20 (ucast (tss + 112)) \<and>
   rsp0_low (tss_entry (gdt_install tss s)) = 0xbffff000 \<and> rsp0_high (tss_entry (gdt_install tss s)) = 0 \<and>
   task_register (gdt_install tss s) = 5 * 8"
proof -
  have zero: "\<not> gate_present (zero_idt n)" by (simp add: gate_present_def zero_idt_def)
  have gates: "(gate_present (idt_install isr n) \<longleftrightarrow> n < 34 \<or> n = 0x77 \<or> n = 0x80) \<and>
    (gate_present (idt_install isr n) \<longrightarrow>
      gate_offset (idt_install isr n) = (if n = 0x77 then isr 1 else isr n) \<and>
      selector (idt_install isr n) = 8 \<and> gate_dpl (idt_install isr n) = (if n = 0x80 then 3 else 0))"
    using zero by (auto simp: idt_install_at gate_offset_set gate_present_def gate_dpl_def gate_types)
  let ?g = "gdt (gdt_install tss s)"
  have "?g k = gdt_set_gate k 0 0 (access (?g k)) (granularity (?g k)) (gdt s) k" if "k \<in> {1, 2, 3, 4}" for k
    using that by (auto simp: gdt_install_def load_tr_def tss_set_gate_def gdt_set_ss_gate_def gdt_set_gate_def Let_def)
  then have seg: "\<forall>k \<in> {1, 2, 3, 4}. segment_base (?g k) = 0" using segment_base_set by metis
  let ?h = "gdt_set_gate 4 0 0 0xF2 0x00 (gdt_set_gate 3 0 0 0xF8 0x20 (gdt_set_gate 2 0 0 0x92 0x00
    (gdt_set_gate 1 0 0 0x98 0x20 (gdt_set_gate 0 0 0 0 0 (gdt s)))))"
  have g: "?g = gdt_set_ss_gate 5 tss (ucast (tss + 112)) 0x89 0x9F ?h"
    by (simp add: gdt_install_def load_tr_def tss_set_gate_def Let_def)
  have "segment_limit (gdt_set_ss_gate 5 tss l 0x89 0x9F ?h 5) = segment_limit (gdt_set_gate 5 0 l 0x89 0x9F ?h 5)" for l
    by (simp add: segment_limit_def gdt_set_ss_gate_def gdt_set_gate_def)
  then have "segment_limit (?g 5) = take_bit 20 (ucast (tss + 112))" unfolding g segment_limit_set by simp
  moreover have "system_base (?g 5) (?g 6) = tss"
    using system_base_set [of 5 tss "ucast (tss + 112)" "0x89" "0x9F" ?h] by (simp add: g)
  moreover have "rsp0_low (tss_entry (gdt_install tss s)) = 0xbffff000" "rsp0_high (tss_entry (gdt_install tss s)) = 0"
    "task_register (gdt_install tss s) = 5 * 8"
    by (simp_all add: gdt_install_def load_tr_def tss_set_gate_def Let_def drop_bit_eq_div)
  ultimately show ?thesis using gates seg by blast
qed

theorem installed_tables_witness:
  "gate_offset (idt_install of_nat 14) = 14 \<and> gate_dpl (idt_install of_nat 0x80) = 3"
  using installed_tables [of of_nat 14] installed_tables [of of_nat "0x80"] by simp

end
