(* ===== verification/Interrupts.thy ===== *)
theory Interrupts
  imports Descriptors PagingFixed "HOL-Library.Monad_Syntax"
begin

text \<open>
  Interrupts: the dispatch of \<open>kernel/isr.c\<close>, the system calls of \<open>kernel/syscall.c\<close> and the
  set-up of the interrupt controllers in \<open>kernel/apic.c\<close> and \<open>kernel/ioapic.c\<close>. The state of the
  kernel a handler works on is a type variable; what the controllers are told is recorded.
\<close>

section \<open>Dispatch\<close>

record registers_t =
  ds :: u64
  r9 :: u64
  r8 :: u64
  rsp :: u64
  rbp :: u64
  rdi :: u64
  rsi :: u64
  rdx :: u64
  rcx :: u64
  rbx :: u64
  rax :: u64
  int_no :: u64
  err_code :: u64
  rip :: u64
  cs :: u64
  rflags :: u64
  userrsp :: u64
  ss :: u64

text \<open>
  A handler gets a pointer to the registers on the stack. It returns, or never does, or the code calls what an array
  index out of bounds finds.
\<close>

datatype 'a outcome = Returns 'a | Hangs | Stray

type_synonym 'w handler = "registers_t \<Rightarrow> 'w \<Rightarrow> (registers_t \<times> 'w) outcome"

record 'w machine =
  handlers :: "'w handler option list"
  apic_writes :: "(u16 \<times> u32) list"
  reported :: "(u64 \<times> u64) list"
  world :: 'w

definition MAX_HANDLERS :: nat where
  "MAX_HANDLERS = 255"

definition write_apicr :: "u16 \<Rightarrow> u32 \<Rightarrow> 'w machine \<Rightarrow> 'w machine" where
  "write_apicr offset val s = s\<lparr>apic_writes := apic_writes s @ [(offset, val)]\<rparr>"

text \<open>\<open>int_no\<close> is signed. An interrupt without a handler is reported on the screen.\<close>

definition isr_handler :: "registers_t \<Rightarrow> 'w machine \<Rightarrow> (registers_t \<times> 'w machine) outcome" where
  "isr_handler regs s =
     (let s = (if sint (int_no regs) \<ge> 0x20 then write_apicr 0xb0 0 s else s)
      in if sint (int_no regs) < 0 \<or> sint (int_no regs) \<ge> int (length (handlers s)) then Stray
         else case handlers s ! unat (int_no regs) of
                Some handler \<Rightarrow>
                  (case handler regs (world s) of
                     Returns (regs', w) \<Rightarrow> Returns (regs', s\<lparr>world := w\<rparr>)
                   | Hangs \<Rightarrow> Hangs
                   | Stray \<Rightarrow> Stray)
              | None \<Rightarrow> Returns (regs, s\<lparr>reported := reported s @ [(int_no regs, err_code regs)]\<rparr>))"

definition gpf_handler :: "'w handler" where
  "gpf_handler regs w = Hangs"

definition register_handler :: "int \<Rightarrow> 'w handler \<Rightarrow> 'w machine \<Rightarrow> 'w machine option" where
  "register_handler n handler s =
     (if 0 \<le> n \<and> n < int (length (handlers s)) then Some (s\<lparr>handlers := (handlers s)[nat n := Some handler]\<rparr>) else None)"

section \<open>System calls\<close>

text \<open>
  The functions of the table, on the six registers for arguments; \<open>None\<close> is not returning. \<open>rax\<close> is
  signed too.
\<close>

type_synonym 'w syscall = "u64 list \<Rightarrow> 'w \<Rightarrow> (u64 \<times> 'w) option"

definition SYSCALL_NUM :: nat where
  "SYSCALL_NUM = 10"

definition syscall_handler :: "'w syscall list \<Rightarrow> 'w handler" where
  "syscall_handler syscalls regs w =
     (if sint (rax regs) \<ge> int SYSCALL_NUM then Returns (regs, w)
      else if sint (rax regs) < 0 then Stray
      else case (syscalls ! unat (rax regs)) [rdi regs, rsi regs, rdx regs, rcx regs, r8 regs, r9 regs] w of
             None \<Rightarrow> Hangs
           | Some (ret, w') \<Rightarrow> Returns (regs\<lparr>rax := ret\<rparr>, w'))"

definition syscalls_init :: "'w syscall list \<Rightarrow> 'w machine \<Rightarrow> 'w machine option" where
  "syscalls_init syscalls = register_handler 0x80 (syscall_handler syscalls)"

text \<open>
  The handlers that \<open>kernel_entry\<close> has registered when it starts the shell, in the order of the calls: those of
  \<open>memman_init\<close>, \<open>kernel_entry\<close>, \<open>syscalls_init\<close> and \<open>scheduler_init\<close>.
\<close>

definition register_all ::
  "'w handler \<Rightarrow> 'w handler \<Rightarrow> 'w syscall list \<Rightarrow> 'w handler \<Rightarrow> 'w machine \<Rightarrow> 'w machine option" where
  "register_all page_fault_handler keyboard_handler syscalls switch_task s = do {
     s \<leftarrow> register_handler 0x0E page_fault_handler s;
     s \<leftarrow> register_handler 0x21 keyboard_handler s;
     s \<leftarrow> register_handler 0xD gpf_handler s;
     s \<leftarrow> syscalls_init syscalls s;
     register_handler 0x20 switch_task s
   }"

section \<open>The controllers\<close>

text \<open>What the processor's controller and the ports have been told.\<close>

record ioapic =
  ioapic_index :: u8
  ioapic_regs :: "u8 \<Rightarrow> u32"

definition disable_legacy_pic :: "(u16 \<times> u8) list \<Rightarrow> (u16 \<times> u8) list" where
  "disable_legacy_pic ports = ports @ [(0xa1, 0xff), (0x21, 0xff)]"

text \<open>The model specific register 0x1B, its two halves.\<close>

definition enable_apic :: "u32 \<times> u32 \<Rightarrow> u32 \<times> u32" where
  "enable_apic msr = (case msr of (lo, hi) \<Rightarrow> (lo OR 0x00000800, hi))"

definition apic_init ::
  "(u16 \<times> u8) list \<Rightarrow> u32 \<times> u32 \<Rightarrow> 'w machine \<Rightarrow> vm \<Rightarrow> ((u16 \<times> u8) list \<times> (u32 \<times> u32) \<times> 'w machine \<times> vm) option" where
  "apic_init ports msr s v =
     map_option (\<lambda>(_, v'). (disable_legacy_pic ports, enable_apic msr, write_apicr 0xf0 0x00000100 s, v'))
       (brute_create_page 0xfee00000 0xfee00000 1 0 v)"

definition timer_init :: "u32 \<Rightarrow> u32 \<Rightarrow> u32 \<Rightarrow> bool \<Rightarrow> 'w machine \<Rightarrow> 'w machine" where
  "timer_init vector counter divider periodic s =
     (let timer_lvt = (0 OR vector) OR (if periodic then 0x0020000 else 0)
      in write_apicr 0x380 counter (write_apicr 0x320 timer_lvt (write_apicr 0x3e0 divider s)))"

text \<open>
  \<open>startupipi\<close> is not initialised: \<open>low\<close> and \<open>high\<close> are what the stack holds, and the fields
  that are not assigned keep it.
\<close>

definition start_ap :: "u8 \<Rightarrow> u8 \<Rightarrow> u32 \<Rightarrow> u32 \<Rightarrow> 'w machine \<Rightarrow> 'w machine" where
  "start_ap apicid vector low high s =
     (let fields = (\<lambda>v t. set_field 18 2 0 \<circ> set_field 15 1 0 \<circ> set_field 14 1 0 \<circ> set_field 11 1 0 \<circ>
            set_field 8 3 t \<circ> set_field 0 8 v);
          low1 = fields 0 5 low;
          high1 = set_field 24 8 (ucast apicid) high;
          low2 = fields (ucast vector) 6 low1;
          high2 = set_field 24 8 (ucast apicid) high1
      in write_apicr 0x300 low2 (write_apicr 0x310 high2 (write_apicr 0x300 low1 (write_apicr 0x310 high1 s))))"

definition write_ioapicr :: "u8 \<Rightarrow> u32 \<Rightarrow> ioapic \<Rightarrow> ioapic" where
  "write_ioapicr offset val d = d\<lparr>ioapic_index := offset, ioapic_regs := (ioapic_regs d)(offset := val)\<rparr>"

definition read_ioapicr :: "u8 \<Rightarrow> ioapic \<Rightarrow> u32 \<times> ioapic" where
  "read_ioapicr offset d = (ioapic_regs d offset, d\<lparr>ioapic_index := offset\<rparr>)"

text \<open>\<open>irq1\<close> is not initialised either.\<close>

definition ioapic_init :: "u32 \<Rightarrow> u32 \<Rightarrow> ioapic \<Rightarrow> vm \<Rightarrow> (ioapic \<times> vm) option" where
  "ioapic_init low high d v =
     (let low' = (set_field 17 15 0 \<circ> set_field 16 1 0 \<circ> set_field 15 1 0 \<circ> set_field 13 1 0 \<circ> set_field 11 1 0 \<circ>
            set_field 8 3 0 \<circ> set_field 0 8 0x21) low;
          high' = (set_field 24 8 0 \<circ> set_field 0 24 0) high
      in map_option (\<lambda>(_, v'). (write_ioapicr 0x13 high' (write_ioapicr 0x12 low' d), v'))
           (brute_create_page 0xfec00000 0xfec00000 1 0 v))"

section \<open>Which vectors arrive where\<close>

lemma int_noI: "int_no regs = of_nat n \<Longrightarrow> n < 256 \<Longrightarrow> sint (int_no regs) = int n \<and> unat (int_no regs) = n"
  by (simp add: sint_of_nat_small unat_of_nat_small)

text \<open>Dispatching a number of the table.\<close>

lemma isr_handler_at:
  assumes "int_no regs = of_nat n" "n < length (handlers s)" "length (handlers s) = MAX_HANDLERS"
  shows "isr_handler regs s =
    (let s1 = (if n \<ge> 32 then write_apicr 0xb0 0 s else s)
     in case handlers s ! n of
          None \<Rightarrow> Returns (regs, s1\<lparr>reported := reported s @ [(of_nat n, err_code regs)]\<rparr>)
        | Some h \<Rightarrow> (case h regs (world s) of
                      Returns (regs', w) \<Rightarrow> Returns (regs', s1\<lparr>world := w\<rparr>) | Hangs \<Rightarrow> Hangs | Stray \<Rightarrow> Stray))"
proof -
  have "n < 256" using assms(2,3) by (simp add: MAX_HANDLERS_def)
  from int_noI [OF assms(1) this] assms show ?thesis
    by (simp add: isr_handler_def write_apicr_def Let_def split: option.split outcome.split)
qed

lemma register_all_result:
  assumes "register_all pf kb syscalls st s0 = Some s" "length (handlers s0) = MAX_HANDLERS"
  shows "s = s0\<lparr>handlers := (handlers s0)[14 := Some pf, 33 := Some kb, 13 := Some gpf_handler,
                 128 := Some (syscall_handler syscalls), 32 := Some st]\<rparr>"
  using assms by (auto simp: register_all_def register_handler_def syscalls_init_def MAX_HANDLERS_def
      split: Option.bind_splits if_splits)

lemma register_all_succeeds:
  "length (handlers s0) = MAX_HANDLERS \<Longrightarrow> \<exists>s. register_all pf kb syscalls st s0 = Some s"
  by (simp add: register_all_def register_handler_def syscalls_init_def MAX_HANDLERS_def)

text \<open>The way of a system call through the dispatch, whenever the handler of vector 0x80 is installed.\<close>

definition serves :: "'w syscall list \<Rightarrow> 'w machine \<Rightarrow> bool" where
  "serves syscalls s \<longleftrightarrow> length (handlers s) = MAX_HANDLERS \<and> handlers s ! 0x80 = Some (syscall_handler syscalls)"

lemma register_all_serves:
  "register_all pf kb syscalls st s0 = Some s \<Longrightarrow> length (handlers s0) = MAX_HANDLERS \<Longrightarrow> serves syscalls s"
  using register_all_result [of pf kb syscalls st s0 s] by (simp add: serves_def MAX_HANDLERS_def)

lemma system_call_spec:
  assumes "serves syscalls s" and "int_no regs = of_nat 0x80"
  shows "isr_handler regs s =
      (if sint (rax regs) < 0 then Stray
       else if unat (rax regs) \<ge> SYSCALL_NUM then Returns (regs, write_apicr 0xb0 0 s)
       else case (syscalls ! unat (rax regs)) [rdi regs, rsi regs, rdx regs, rcx regs, r8 regs, r9 regs] (world s) of
              None \<Rightarrow> Hangs
            | Some (ret, w) \<Rightarrow> Returns (regs\<lparr>rax := ret\<rparr>, (write_apicr 0xb0 0 s)\<lparr>world := w\<rparr>))"
proof -
  have rax: "sint (rax regs) \<ge> 10 \<longleftrightarrow> unat (rax regs) \<ge> 10" if "\<not> sint (rax regs) < 0"
  proof -
    have "sint (rax regs) < 2 ^ 63" using signed_take_bit_int_less_exp [of 63 "uint (rax regs)"] by (simp add: sint_uint)
    then have "uint (rax regs) = sint (rax regs)"
      using that unfolding uint_sint [of "rax regs"] by (intro take_bit_int_eq_self) simp_all
    then have "sint (rax regs) = uint (rax regs)" by simp
    also have "\<dots> = int (unat (rax regs))" by simp
    finally show ?thesis by linarith
  qed
  have "isr_handler regs s = (case syscall_handler syscalls regs (world s) of
      Returns (regs', w) \<Rightarrow> Returns (regs', (write_apicr 0xb0 0 s)\<lparr>world := w\<rparr>) | Hangs \<Rightarrow> Hangs | Stray \<Rightarrow> Stray)"
    using isr_handler_at [OF assms(2), of s] assms(1) by (simp add: serves_def MAX_HANDLERS_def)
  moreover have "(write_apicr 0xb0 0 s)\<lparr>world := world s\<rparr> = write_apicr 0xb0 0 s"
    by (simp add: write_apicr_def)
  ultimately show ?thesis using rax
    by (cases "sint (rax regs) < 0"; cases "unat (rax regs) \<ge> 10")
      (auto simp: syscall_handler_def SYSCALL_NUM_def split: option.splits)
qed

text \<open>
  C22: A system call: the gate for vector 0x80 is open to user mode, and the kernel calls the function whose number is in
  \<open>rax\<close> with the six argument registers, returns its result in \<open>rax\<close> and changes no other register. A number from
  10 on does nothing. A negative one passes the test, which is signed, and the kernel calls what stands in
  front of its table.
\<close>

theorem system_call_path:
  assumes "register_all pf kb syscalls st s0 = Some s" "length (handlers s0) = MAX_HANDLERS"
    and "int_no regs = of_nat 0x80"
  shows "gate_present (idt_install isr 0x80) \<and> gate_dpl (idt_install isr 0x80) = 3 \<and> gate_offset (idt_install isr 0x80) = isr 0x80 \<and>
    isr_handler regs s =
      (if sint (rax regs) < 0 then Stray
       else if unat (rax regs) \<ge> SYSCALL_NUM then Returns (regs, write_apicr 0xb0 0 s)
       else case (syscalls ! unat (rax regs)) [rdi regs, rsi regs, rdx regs, rcx regs, r8 regs, r9 regs] (world s) of
              None \<Rightarrow> Hangs
            | Some (ret, w) \<Rightarrow> Returns (regs\<lparr>rax := ret\<rparr>, (write_apicr 0xb0 0 s)\<lparr>world := w\<rparr>))"
  unfolding system_call_spec [OF register_all_serves [OF assms(1,2)] assms(3)]
  by (simp add: idt_install_at gate_offset_set gate_present_def gate_dpl_def gate_types)

definition no_handlers :: "nat machine" where
  "no_handlers = \<lparr>handlers = replicate MAX_HANDLERS None, apic_writes = [], reported = [], world = 0\<rparr>"

definition user_registers :: registers_t where
  "user_registers = \<lparr>ds = 0x23, r9 = 0, r8 = 0, rsp = 0, rbp = 0, rdi = 7, rsi = 0, rdx = 0, rcx = 0, rbx = 0, rax = 2,
     int_no = 0x80, err_code = 0, rip = 0, cs = 0x1B, rflags = 0, userrsp = 0, ss = 0x23\<rparr>"

text \<open>Ten system calls that return their first argument and add it to the state.\<close>

theorem system_call_path_witness:
  "\<exists>s regs' s'. register_all (\<lambda>r w. Hangs) (\<lambda>r w. Returns (r, w)) (replicate 10 (\<lambda>args w. Some (hd args, w + unat (hd args))))
      (\<lambda>r w. Returns (r, w)) no_handlers = Some s \<and>
    isr_handler user_registers s = Returns (regs', s') \<and> rax regs' = 7 \<and> world s' = 7 \<and>
    isr_handler (user_registers\<lparr>rax := - 1\<rparr>) s = Stray"
proof -
  let ?sc = "replicate 10 (\<lambda>args w. Some (hd args, w + unat (hd args))) :: nat syscall list"
  have l: "length (handlers no_handlers) = MAX_HANDLERS" by (simp add: no_handlers_def)
  obtain s where s: "register_all (\<lambda>r w. Hangs) (\<lambda>r w. Returns (r, w)) ?sc (\<lambda>r w. Returns (r, w)) no_handlers = Some s"
    using register_all_succeeds [OF l] by blast
  have w: "world s = 0" using register_all_result [OF s l] by (simp add: no_handlers_def)
  have i: "int_no user_registers = of_nat 0x80" "int_no (user_registers\<lparr>rax := - 1\<rparr>) = of_nat 0x80"
    by (simp_all add: user_registers_def)
  show ?thesis using s system_call_path [OF s l i(1)] system_call_path [OF s l i(2)] w
    by (simp add: user_registers_def SYSCALL_NUM_def write_apicr_def)
qed

text \<open>
  C23: The keyboard and the timer: whatever the stack held, \<open>ioapic_init\<close> maps the I/O controller's registers and tells
  it to deliver the keyboard's interrupt, unmasked and to processor 0, as vector 0x21, and \<open>timer_init\<close> has the timer
  deliver 0x20 periodically. Both vectors have a gate that user mode cannot call, and the dispatch acknowledges
  the interrupt and runs the driver or the scheduler.
\<close>

theorem hardware_interrupts_reach_handlers:
  assumes "register_all pf kb syscalls st s0 = Some s" "length (handlers s0) = MAX_HANDLERS"
    and "vm_inv v" "free_zeroed v" "root v = entry_frame (cr3 v)"
    and "0 \<notin> free_blocks (mm v)" "3 \<le> card (free_blocks (mm v) \<inter> {..<searched (mm v)})"
  shows "\<exists>d' v' irq lvt. ioapic_init low high d v = Some (d', v') \<and> translate v' 0xfec00000 = Some 0xfec00 \<and>
    irq = ioapic_regs d' 0x12 \<and> get_field 16 1 irq = 0 \<and> get_field 24 8 (ioapic_regs d' 0x13) = 0 \<and>
    apic_writes (timer_init 0x20 counter divider True s) ! Suc (length (apic_writes s)) = (0x320, lvt) \<and> bit lvt 17 \<and>
    (\<forall>(vector, handler) \<in> {(get_field 0 8 irq, kb), (get_field 0 8 lvt, st)}.
      gate_present (idt_install isr (unat vector)) \<and> gate_dpl (idt_install isr (unat vector)) = 0 \<and>
      isr_handler (regs\<lparr>int_no := ucast vector\<rparr>) s =
        (case handler (regs\<lparr>int_no := ucast vector\<rparr>) (world s) of
           Returns (regs', w) \<Rightarrow> Returns (regs', (write_apicr 0xb0 0 s)\<lparr>world := w\<rparr>) | Hangs \<Rightarrow> Hangs | Stray \<Rightarrow> Stray))"
proof -
  note s = register_all_result [OF assms(1,2)]
  have l: "length (handlers s) = MAX_HANDLERS" using assms(2) by (simp add: s)
  have h: "handlers s ! 33 = Some kb" "handlers s ! 32 = Some st" using assms(2) by (simp_all add: s MAX_HANDLERS_def)
  obtain v' where v': "brute_create_page 0xfec00000 0xfec00000 1 0 v = Some (1, v')" "translate v' 0xfec00000 = Some 0xfec00"
    using brute_create_page_correct [OF assms(3-5), of "0xfec00000" 1 "0xfec00000" 0] assms(6,7) by auto
  obtain d' where d': "ioapic_init low high d v = Some (d', v')" "get_field 0 8 (ioapic_regs d' 0x12) = 0x21"
    "get_field 16 1 (ioapic_regs d' 0x12) = 0" "get_field 24 8 (ioapic_regs d' 0x13) = 0"
    using v'(1) by (auto simp: ioapic_init_def write_ioapicr_def Let_def take_bit_eq_mod)
  let ?lvt = "0x20020 :: u32"
  have lvt: "apic_writes (timer_init 0x20 counter divider True s) ! Suc (length (apic_writes s)) = (0x320, ?lvt)"
    by (simp add: timer_init_def write_apicr_def Let_def nth_append)
  have v2: "get_field 0 8 ?lvt = 0x20" by (simp add: get_field_def take_bit_eq_mod)
  have run: "gate_present (idt_install isr (unat vector)) \<and> gate_dpl (idt_install isr (unat vector)) = 0 \<and>
      isr_handler (regs\<lparr>int_no := ucast vector\<rparr>) s = (case handler (regs\<lparr>int_no := ucast vector\<rparr>) (world s) of
        Returns (regs', w) \<Rightarrow> Returns (regs', (write_apicr 0xb0 0 s)\<lparr>world := w\<rparr>) | Hangs \<Rightarrow> Hangs | Stray \<Rightarrow> Stray)"
    if "unat vector = n" "n = 32 \<or> n = 33" "handlers s ! n = Some handler" for vector :: u32 and handler n
  proof -
    have "int_no (regs\<lparr>int_no := ucast vector\<rparr>) = of_nat n" by (simp add: that(1) [symmetric])
    from isr_handler_at [OF this _ l] that(2,3) l have "isr_handler (regs\<lparr>int_no := ucast vector\<rparr>) s =
        (case handler (regs\<lparr>int_no := ucast vector\<rparr>) (world s) of
          Returns (regs', w) \<Rightarrow> Returns (regs', (write_apicr 0xb0 0 s)\<lparr>world := w\<rparr>) | Hangs \<Rightarrow> Hangs | Stray \<Rightarrow> Stray)"
      by (auto simp: MAX_HANDLERS_def)
    then show ?thesis using that(1,2) by (auto simp: idt_install_at gate_present_def gate_dpl_def gate_types)
  qed
  have "bit ?lvt 17" by (simp add: bit_numeral_rec)
  with d' v'(2) lvt run [of "get_field 0 8 (ioapic_regs d' 0x12)" 33 kb] run [of "get_field 0 8 ?lvt" 32 st] h show ?thesis
    by (intro exI [of _ d'] exI [of _ v'] exI [of _ "ioapic_regs d' 0x12"] exI [of _ ?lvt]) (auto simp: v2)
qed

theorem hardware_interrupts_reach_handlers_witness:
  "\<exists>s d' v'. register_all (\<lambda>r w. Hangs) (\<lambda>r w. Returns (r, w + 1)) [] (\<lambda>r w. Returns (r, w)) no_handlers = Some s \<and>
     ioapic_init 0xFFFFFFFF 0xFFFFFFFF \<lparr>ioapic_index = 0, ioapic_regs = \<lambda>_. 0\<rparr> sample_vm = Some (d', v') \<and>
     translate v' 0xfec00000 = Some 0xfec00"
proof -
  have l: "length (handlers no_handlers) = MAX_HANDLERS" by (simp add: no_handlers_def)
  obtain s where s: "register_all (\<lambda>r w. Hangs) (\<lambda>r w. Returns (r, w + 1)) [] (\<lambda>r w. Returns (r, w)) no_handlers = Some s"
    using register_all_succeeds [OF l] by blast
  have "root sample_vm = entry_frame (cr3 sample_vm)" by simp
  from hardware_interrupts_reach_handlers [OF s l sample_vm_inv this, of "0xFFFFFFFF" "0xFFFFFFFF"
      "\<lparr>ioapic_index = 0, ioapic_regs = \<lambda>_. 0\<rparr>" 1 1 of_nat user_registers] sample_vm_free
  obtain d' v' where "ioapic_init 0xFFFFFFFF 0xFFFFFFFF \<lparr>ioapic_index = 0, ioapic_regs = \<lambda>_. 0\<rparr> sample_vm = Some (d', v')"
    "translate v' 0xfec00000 = Some 0xfec00" by auto
  with s show ?thesis by blast
qed

end
