(* ===== verification/Structs.thy ===== *)
theory Structs
  imports Layouts Elf Acpi Interrupts
begin

text \<open>
  The structures the kernel shares with the disk, with programs and with the processor, as layouts, and that
  the accessors of the component theories read and write the bytes and bits where the compiler puts
  the fields.
\<close>

section \<open>Files of programs\<close>

definition Elf64_Ehdr :: layout where
  "Elf64_Ehdr = packed [(''e_ident'', 16), (''e_type'', 2), (''e_machine'', 2), (''e_version'', 4), (''e_entry'', 8),
     (''e_phoff'', 8), (''e_shoff'', 8), (''e_flags'', 4), (''e_ehsize'', 2), (''e_phentsize'', 2), (''e_phnum'', 2),
     (''e_shentsize'', 2), (''e_shnum'', 2), (''e_shstrndx'', 2)]"

definition Elf64_Phdr :: layout where
  "Elf64_Phdr = packed [(''p_type'', 4), (''p_flags'', 4), (''p_offset'', 8), (''p_vaddr'', 8), (''p_paddr'', 8),
     (''p_filesz'', 8), (''p_memsz'', 8), (''p_align'', 8)]"

definition Elf64_Shdr :: layout where
  "Elf64_Shdr = packed [(''sh_name'', 4), (''sh_type'', 4), (''sh_flags'', 8), (''sh_vaddr'', 8), (''sh_offset'', 8),
     (''sh_size'', 8), (''sh_link'', 4), (''sh_info'', 4), (''sh_addralign'', 8), (''sh_entsize'', 8)]"

section \<open>The disk\<close>

definition fat32_volume_id :: layout where
  "fat32_volume_id = packed [(''jump'', 3), (''oem_identifier'', 8), (''bytes_per_sector'', 2), (''sectors_per_cluster'', 1),
     (''reserved_sectors'', 2), (''number_of_fats'', 1), (''directory_entries'', 2), (''total_sectors'', 2),
     (''media_type'', 1), (''sectors_per_fat'', 2), (''sectors_per_track'', 2), (''number_of_heads'', 2),
     (''hidden_sectors'', 4), (''large_sectors'', 4), (''sectors_per_fat2'', 4), (''flags'', 2), (''version'', 2),
     (''root_cluster'', 4), (''fsinfo'', 2), (''backup_boot'', 2), (''reserved'', 12), (''drive_number'', 1),
     (''ntflags'', 1), (''signature'', 1), (''volume_id'', 4), (''label'', 11), (''identifier'', 8)]"

definition partition_entry :: layout where
  "partition_entry = packed [(''flag'', 1), (''chs_begin'', 3), (''type'', 1), (''chs_end'', 3), (''lba'', 4), (''sectors'', 4)]"

definition partition_table :: layout where
  "partition_table = packed [(''boot_code'', 446), (''partition'', 4 * sizeof partition_entry), (''magic'', 2)]"

definition dir_entry :: layout where
  "dir_entry = packed [(''filename'', 11), (''attribute'', 1), (''nt'', 1), (''creation_ms'', 1), (''creation_time'', 2),
     (''creation_date'', 2), (''access_date'', 2), (''cluster_high'', 2), (''modification_time'', 2),
     (''modification_date'', 2), (''cluster_low'', 2), (''size'', 4)]"

definition dir_attribute :: bits where
  "dir_attribute = [(''ro'', 1), (''hidden'', 1), (''sys'', 1), (''volid'', 1), (''dir'', 1), (''archive'', 1), (''unused'', 2)]"

section \<open>The heap and the firmware\<close>

text \<open>The structures of the heap and of the firmware are not packed.\<close>

definition header_t :: layout where
  "header_t = natural [(''magic'', 4), (''is_hole'', 1), (''size'', 8)]"

definition footer_t :: layout where
  "footer_t = natural [(''magic'', 4), (''header'', 8)]"

definition ordered_array_t :: layout where
  "ordered_array_t = natural [(''array'', 8), (''size'', 8), (''max_size'', 8), (''less_than'', 8)]"

definition heap_t_layout :: layout where
  "heap_t_layout = (''index'', sizeof ordered_array_t, 8) #
     natural [(''start_address'', 8), (''end_address'', 8), (''max_address'', 8), (''supervisor'', 1), (''readonly'', 1)]"

definition acpi_sdt_header :: layout where
  "acpi_sdt_header = [(''signature'', 4, 1), (''length'', 4, 4), (''revision'', 1, 1), (''checksum'', 1, 1), (''OEMID'', 6, 1),
     (''OEMTableID'', 8, 1), (''OEMRevision'', 4, 4), (''CreatorID'', 4, 4), (''CreatorRevision'', 4, 4)]"

definition rsdt_t :: layout where
  "rsdt_t = [(''h'', sizeof acpi_sdt_header, 4), (''sdt_ptr'', 32 * 4, 4)]"

definition memory_region_layout :: layout where
  "memory_region_layout = packed [(''start'', 8), (''size'', 8), (''type'', 4), (''acpi3'', 4)]"

definition multiboot_info :: layout where
  "multiboot_info = packed [(''m_flags'', 4), (''m_memory'', 8), (''m_bootDevice'', 4), (''m_cmdLine'', 4), (''m_modsCount'', 4),
     (''m_modsAddr'', 4), (''m_syms0'', 4), (''m_syms1'', 4), (''m_syms2'', 4), (''m_mmap_length'', 4), (''m_mmap_addr'', 4),
     (''m_drives_length'', 4), (''m_drives_addr'', 4), (''m_config_table'', 4), (''m_bootloader_name'', 4),
     (''m_apm_table'', 4), (''m_vbe_control_info'', 4), (''m_vbe_mode_info'', 4), (''m_vbe_mode'', 2),
     (''m_vbe_interface_addr'', 4), (''m_vbe_interface_len'', 2)]"

section \<open>Tasks, locks and the task state segment\<close>

definition task_layout :: layout where
  "task_layout = packed [(''pid'', 8), (''rsp'', 8), (''rbp'', 8), (''rip'', 8), (''pml4'', 8), (''status'', 1), (''next'', 8)]"

definition lock_layout :: layout where
  "lock_layout = packed [(''pid'', 8), (''next'', 8)]"

definition tss_layout :: layout where
  "tss_layout = natural [(''zero1'', 4), (''rsp0_low'', 4), (''rsp0_high'', 4), (''rsp1_low'', 4), (''rsp1_high'', 4),
     (''rsp2_low'', 4), (''rsp2_high'', 4), (''zero2'', 8), (''ist1_low'', 4), (''ist1_high'', 4), (''ist2_low'', 4),
     (''ist2_high'', 4), (''ist3_low'', 4), (''ist3_high'', 4), (''ist4_low'', 4), (''ist4_high'', 4), (''ist5_low'', 4),
     (''ist5_high'', 4), (''ist6_low'', 4), (''ist6_high'', 4), (''ist7_low'', 4), (''ist7_high'', 4), (''zero3'', 8),
     (''zero4'', 2), (''iomap_adr'', 2)]"

section \<open>Words of bit-fields\<close>

definition page_entry :: bits where
  "page_entry = [(''present'', 1), (''rw'', 1), (''user'', 1), (''pwt'', 1), (''pcd'', 1), (''accessed'', 1), (''dirty'', 1),
     (''size'', 1), (''global'', 1), (''avl'', 3), (''frame'', 40), (''reserved'', 11), (''nx'', 1)]"

definition pd_entry :: bits where
  "pd_entry = [(''present'', 1), (''rw'', 1), (''user'', 1), (''pwt'', 1), (''pcd'', 1), (''accessed'', 1), (''ignored'', 1),
     (''zero'', 1), (''ignored2'', 1), (''avl'', 3), (''table'', 40), (''reserved'', 11), (''nx'', 1)]"

definition pdp_entry :: bits where
  "pdp_entry = [(''present'', 1), (''rw'', 1), (''user'', 1), (''pwt'', 1), (''pcd'', 1), (''accessed'', 1), (''ignored'', 1),
     (''zero'', 1), (''mbz'', 1), (''avl'', 3), (''directory'', 40), (''reserved'', 11), (''nx'', 1)]"

definition pml4_entry :: bits where
  "pml4_entry = [(''present'', 1), (''rw'', 1), (''user'', 1), (''pwt'', 1), (''pcd'', 1), (''accessed'', 1), (''ignored'', 1),
     (''mbz'', 2), (''avl'', 3), (''directory_pointer'', 40), (''reserved'', 11), (''nx'', 1)]"

text \<open>The union \<open>address\<close>: its two structures.\<close>

definition address_parts :: bits where
  "address_parts = [(''offset'', 12), (''pt'', 9), (''pd'', 9), (''pdp'', 9), (''pml4'', 9), (''sign'', 16)]"

definition address_frame :: bits where
  "address_frame = [('''', 12), (''frame'', 36), (''unused'', 16)]"

definition icr_low :: bits where
  "icr_low = [(''vector'', 8), (''msgtype'', 3), (''destmod'', 1), (''delstat'', 1), (''zero1'', 1), (''level'', 1),
     (''trigmod'', 1), (''rrs'', 2), (''dsh'', 2), (''zero2'', 12)]"

definition icr_high :: bits where
  "icr_high = [(''zero3'', 24), (''dest'', 8)]"

definition redirect_low :: bits where
  "redirect_low = [(''vector'', 8), (''delmod'', 3), (''destmod'', 1), (''delivs'', 1), (''intpol'', 1), (''rirr'', 1),
     (''triggermode'', 1), (''mask'', 1), (''reserved'', 15)]"

definition redirect_high :: bits where
  "redirect_high = [(''reserved2'', 24), (''destination'', 8)]"

section \<open>Scalar fields\<close>

lemma load_le_bound: "load_le n m a < 256 ^ n"
proof (induction n m a rule: load_le.induct)
  case (2 n m a)
  have "unat (m a) < 256" using unsigned_less [of "m a", where ?'a = nat] by simp
  then show ?case using 2 by simp
qed simp

lemma read_byte: "field_at l f = Some (k, Suc 0) \<Longrightarrow> read_field l f m p = ucast (m (p + of_nat k))"
  by (simp add: read_field_def unsigned_of_nat)

lemma read_u16: "field_at l f = Some (k, 2) \<Longrightarrow> read_field l f m p = ucast (load_u16 m (p + of_nat k))"
  using load_le_bound [of 2 m "p + of_nat k"]
  by (simp add: read_field_def load_u16_def unsigned_of_nat take_bit_nat_eq_self)

lemma read_u32: "field_at l f = Some (k, 4) \<Longrightarrow> read_field l f m p = ucast (load_u32 m (p + of_nat k))"
  using load_le_bound [of 4 m "p + of_nat k"]
  by (simp add: read_field_def load_u32_def unsigned_of_nat take_bit_nat_eq_self)

lemma read_u64: "field_at l f = Some (k, 8) \<Longrightarrow> read_field l f m p = load_u64 m (p + of_nat k)"
  by (simp add: read_field_def load_u64_def)

lemma unat_extend: "LENGTH('a) \<le> LENGTH('b) \<Longrightarrow> unat (ucast v :: 'b::len word) = unat v" for v :: "'a::len word"
proof -
  assume "LENGTH('a) \<le> LENGTH('b)"
  then have "unat v < 2 ^ LENGTH('b)" using unsigned_less [of v, where ?'a = nat] by (meson less_le_trans power_increasing one_le_numeral)
  then show ?thesis by (simp add: unsigned_ucast_eq take_bit_nat_eq_self)
qed

lemma write_u32: "field_at l f = Some (k, 4) \<Longrightarrow> write_field l f p (ucast v) m = store_u32 m (p + of_nat k) v"
  for v :: u32
  by (simp add: write_field_def store_u32_def unat_extend)

lemma write_u64: "field_at l f = Some (k, 8) \<Longrightarrow> write_field l f p v m = store_u64 m (p + of_nat k) v"
  by (simp add: write_field_def store_u64_def)

lemma write_byte: "field_at l f = Some (k, Suc 0) \<Longrightarrow> write_field l f p (ucast v) m = m(p + of_nat k := v)" for v :: u8
  by (simp add: write_field_def unat_extend)

lemmas field_access = read_byte read_u16 read_u32 read_u64 write_byte write_u32 write_u64

lemmas offsets = field_at_def packed_def natural_def round_up_def sizeof_def

lemmas bit_positions = bits_at_def field_at_def packed_def get_bits_def put_bits_def

section \<open>The accessors of the theories\<close>

lemma elf_fields:
  "read_field Elf64_Ehdr ''e_type'' m h = ucast (e_type m h)"
  "read_field Elf64_Ehdr ''e_machine'' m h = ucast (e_machine m h)"
  "read_field Elf64_Ehdr ''e_version'' m h = ucast (e_version m h)"
  "read_field Elf64_Ehdr ''e_entry'' m h = e_entry m h"
  "read_field Elf64_Ehdr ''e_phoff'' m h = e_phoff m h"
  "read_field Elf64_Ehdr ''e_phnum'' m h = ucast (e_phnum m h)"
  "read_field Elf64_Phdr ''p_type'' m h = ucast (p_type m h)"
  "read_field Elf64_Phdr ''p_offset'' m h = p_offset m h"
  "read_field Elf64_Phdr ''p_vaddr'' m h = p_vaddr m h"
  "read_field Elf64_Phdr ''p_filesz'' m h = p_filesz m h"
  "read_field Elf64_Phdr ''p_memsz'' m h = p_memsz m h"
  by (simp_all add: Elf64_Ehdr_def Elf64_Phdr_def offsets field_access e_type_def e_machine_def e_version_def e_entry_def
      e_phoff_def e_phnum_def p_type_def p_offset_def p_vaddr_def p_filesz_def p_memsz_def)

lemma fat_fields:
  "read_field fat32_volume_id ''bytes_per_sector'' m h = ucast (bytes_per_sector m h)"
  "read_field fat32_volume_id ''sectors_per_cluster'' m h = ucast (sectors_per_cluster m h)"
  "read_field fat32_volume_id ''reserved_sectors'' m h = ucast (reserved_sectors m h)"
  "read_field fat32_volume_id ''number_of_fats'' m h = ucast (number_of_fats m h)"
  "read_field fat32_volume_id ''sectors_per_fat2'' m h = ucast (sectors_per_fat2 m h)"
  "read_field fat32_volume_id ''root_cluster'' m h = ucast (root_cluster m h)"
  "read_field partition_entry ''lba'' m (field_address partition_table ''partition'' h) = ucast (partition_lba m h)"
  "read_field partition_table ''magic'' m h = ucast (table_magic m h)"
  "read_field dir_entry ''cluster_high'' m h = ucast (cluster_high m h)"
  "read_field dir_entry ''cluster_low'' m h = ucast (cluster_low m h)"
  "read_field dir_entry ''size'' m h = ucast (file_size m h)"
  by (simp_all add: fat32_volume_id_def partition_entry_def partition_table_def dir_entry_def field_address_def offsets
      field_access bytes_per_sector_def sectors_per_cluster_def reserved_sectors_def number_of_fats_def
      sectors_per_fat2_def root_cluster_def partition_lba_def table_magic_def cluster_high_def cluster_low_def file_size_def)

lemma heap_fields:
  "read_field header_t ''magic'' m h = ucast (hdr_magic m h)"
  "read_field header_t ''is_hole'' m h = ucast (hdr_is_hole m h)"
  "read_field header_t ''size'' m h = hdr_size m h"
  "read_field footer_t ''magic'' m h = ucast (ftr_magic m h)"
  "read_field footer_t ''header'' m h = ftr_header m h"
  "write_field header_t ''magic'' h (ucast v4) m = set_hdr_magic h v4 m"
  "write_field header_t ''is_hole'' h (ucast v1) m = set_hdr_is_hole h v1 m"
  "write_field header_t ''size'' h v8 m = set_hdr_size h v8 m"
  "write_field footer_t ''magic'' h (ucast v4) m = set_ftr_magic h v4 m"
  "write_field footer_t ''header'' h v8 m = set_ftr_header h v8 m"
  by (simp_all add: header_t_def footer_t_def offsets field_access hdr_magic_def hdr_is_hole_def hdr_size_def
      ftr_magic_def ftr_header_def set_hdr_magic_def set_hdr_is_hole_def set_hdr_size_def set_ftr_magic_def set_ftr_header_def)

lemma acpi_fields:
  "read_field acpi_sdt_header ''length'' m h = ucast (load_u32 m (h + 4))"
  "sdt_ptr m h i = ucast (load_u32 m (field_address rsdt_t ''sdt_ptr'' h + of_nat (4 * i)))"
  by (simp_all add: acpi_sdt_header_def rsdt_t_def field_address_def offsets field_access sdt_ptr_def)

text \<open>The sizes the code uses as \<open>sizeof\<close>.\<close>

lemma sizes:
  "sizeof Elf64_Ehdr = 64" "sizeof Elf64_Phdr = 56" "sizeof Elf64_Shdr = 64" "sizeof fat32_volume_id = 90"
  "sizeof partition_table = 512" "sizeof dir_entry = 32" "sizeof header_t = 16" "sizeof footer_t = 16"
  "sizeof heap_t_layout = 64" "sizeof acpi_sdt_header = 36" "sizeof memory_region_layout = 24" "sizeof lock_layout = 16"
  "sizeof task_layout = 49" "sizeof tss_layout = 112"
  by (simp_all add: Elf64_Ehdr_def Elf64_Phdr_def Elf64_Shdr_def fat32_volume_id_def partition_table_def partition_entry_def
      dir_entry_def header_t_def footer_t_def heap_t_layout_def ordered_array_t_def acpi_sdt_header_def
      memory_region_layout_def lock_layout_def task_layout_def tss_layout_def offsets)

definition kernel_structures :: "layout list" where
  "kernel_structures =
     [Elf64_Ehdr, Elf64_Phdr, Elf64_Shdr, fat32_volume_id, partition_entry, partition_table, dir_entry, header_t, footer_t,
      ordered_array_t, heap_t_layout, acpi_sdt_header, rsdt_t, memory_region_layout, multiboot_info, task_layout, lock_layout,
      tss_layout]"

lemma kernel_structures_aligned: "l \<in> set kernel_structures \<Longrightarrow> aligned_layout l \<and> sizeof l < 2 ^ 64"
proof -
  have "list_all (\<lambda>l. list_all (\<lambda>(_, _, a). 0 < a) l \<and> sizeof l < 2 ^ 64) kernel_structures"
    by (simp add: kernel_structures_def Elf64_Ehdr_def Elf64_Phdr_def Elf64_Shdr_def fat32_volume_id_def partition_entry_def
      partition_table_def dir_entry_def header_t_def footer_t_def ordered_array_t_def heap_t_layout_def acpi_sdt_header_def
      rsdt_t_def memory_region_layout_def multiboot_info_def task_layout_def lock_layout_def tss_layout_def offsets)
  then show "l \<in> set kernel_structures \<Longrightarrow> aligned_layout l \<and> sizeof l < 2 ^ 64" by (fastforce simp: list_all_iff)
qed

text \<open>
  The task state segment is not packed: the stacks of the privilege levels are where the processor reads them, while
  the first interrupt stack is at 40 and the offset of the permission map at 106, where the processor has 36 and 102.
\<close>

lemma tss_offsets:
  "field_at tss_layout ''rsp0_low'' = Some (4, 4)" "field_at tss_layout ''rsp2_high'' = Some (24, 4)"
  "field_at tss_layout ''ist1_low'' = Some (40, 4)" "field_at tss_layout ''iomap_adr'' = Some (106, 2)"
  by (simp_all add: tss_layout_def offsets)

section \<open>The bits\<close>

text \<open>One set of accessors serves the entries of all four levels.\<close>

lemma entry_bits:
  "get_bits page_entry ''present'' e = entry_present e" "get_bits page_entry ''user'' e = entry_user e"
  "get_bits page_entry ''frame'' e = entry_frame e"
  "put_bits page_entry ''present'' v e = set_entry_present v e" "put_bits page_entry ''rw'' v e = set_entry_rw v e"
  "put_bits page_entry ''user'' v e = set_entry_user v e" "put_bits page_entry ''frame'' v e = set_entry_frame v e"
  by (simp_all add: page_entry_def bit_positions entry_present_def entry_user_def entry_frame_def set_entry_present_def
      set_entry_rw_def set_entry_user_def set_entry_frame_def numeral_2_eq_2)

lemma upper_entry_bits:
  assumes "(l, f) \<in> {(pd_entry, ''table''), (pdp_entry, ''directory''), (pml4_entry, ''directory_pointer'')}"
  shows "bits_at l ''present'' = bits_at page_entry ''present''" "bits_at l ''rw'' = bits_at page_entry ''rw''"
    "bits_at l ''user'' = bits_at page_entry ''user''" "bits_at l f = bits_at page_entry ''frame''"
  using assms by (auto simp: page_entry_def pd_entry_def pdp_entry_def pml4_entry_def bit_positions)

lemma address_bits:
  "get_bits address_parts ''pt'' a = addr_pt a" "get_bits address_parts ''pd'' a = addr_pd a"
  "get_bits address_parts ''pdp'' a = addr_pdp a" "get_bits address_parts ''pml4'' a = addr_pml4 a"
  "get_bits address_frame ''frame'' a = addr_frame a"
  by (simp_all add: address_parts_def address_frame_def bit_positions addr_pt_def addr_pd_def addr_pdp_def addr_pml4_def
      addr_frame_def)

text \<open>The start-up message: the commands of \<open>start_ap\<close> by the names of their fields.\<close>

lemma start_ap_fields:
  "start_ap apicid vector low high s =
     (let fields = (\<lambda>v t. put_bits icr_low ''dsh'' 0 \<circ> put_bits icr_low ''trigmod'' 0 \<circ> put_bits icr_low ''level'' 0 \<circ>
            put_bits icr_low ''destmod'' 0 \<circ> put_bits icr_low ''msgtype'' t \<circ> put_bits icr_low ''vector'' v);
          low1 = fields 0 5 low;
          high1 = put_bits icr_high ''dest'' (ucast apicid) high;
          low2 = fields (ucast vector) 6 low1;
          high2 = put_bits icr_high ''dest'' (ucast apicid) high1
      in write_apicr 0x300 low2 (write_apicr 0x310 high2 (write_apicr 0x300 low1 (write_apicr 0x310 high1 s))))"
  by (simp add: start_ap_def icr_low_def icr_high_def bit_positions Let_def)

text \<open>The redirection of the keyboard, which unmasks it and sets its vector.\<close>

lemma ioapic_init_fields:
  "ioapic_init low high d v =
     (let low' = (put_bits redirect_low ''reserved'' 0 \<circ> put_bits redirect_low ''mask'' 0 \<circ> put_bits redirect_low ''triggermode'' 0 \<circ>
            put_bits redirect_low ''intpol'' 0 \<circ> put_bits redirect_low ''destmod'' 0 \<circ> put_bits redirect_low ''delmod'' 0 \<circ>
            put_bits redirect_low ''vector'' 0x21) low;
          high' = (put_bits redirect_high ''destination'' 0 \<circ> put_bits redirect_high ''reserved2'' 0) high
      in map_option (\<lambda>(_, v'). (write_ioapicr 0x13 high' (write_ioapicr 0x12 low' d), v'))
           (brute_create_page 0xfec00000 0xfec00000 1 0 v))"
  by (simp add: ioapic_init_def redirect_low_def redirect_high_def bit_positions Let_def)

end
