(* ===== verification/Reports.thy ===== *)
theory Reports
  imports MonitorCorrect Structs Sched
begin

text \<open>
  The functions that show what the kernel holds: each is a sequence of calls of \<open>puts\<close>, \<open>putint\<close> and \<open>puthex\<close>
  of theory \<open>Monitor\<close>, here a list of items that \<open>report\<close> carries out, and the lemmas say which text is
  then on the screen.
\<close>

section \<open>Sequences of output\<close>

text \<open>
  Literals lie in the read-only part of the kernel; every other argument is read from the memory when its
  turn comes.
\<close>

datatype item = Text string | Dec "memory \<Rightarrow> u64" | Hex "memory \<Rightarrow> u64" | Str "memory \<Rightarrow> u64"

abbreviation nl :: item where "nl \<equiv> Text [CHR 0x0A]"

definition bytes_of :: "string \<Rightarrow> u8 list" where
  "bytes_of = map of_char"

definition put_literal :: "string \<Rightarrow> monitor \<Rightarrow> monitor" where
  "put_literal t s = fold putchar (bytes_of t) s"

text \<open>\<open>str\<close> is the address of the buffer of \<open>putint\<close> and \<open>puthex\<close> on the stack.\<close>

fun show_item :: "u64 \<Rightarrow> item \<Rightarrow> memory \<Rightarrow> monitor \<Rightarrow> (memory \<times> monitor) option" where
  "show_item str (Text t) m s = Some (m, put_literal t s)"
| "show_item str (Dec f) m s = putint (f m) str m s"
| "show_item str (Hex f) m s = puthex (f m) str m s"
| "show_item str (Str f) m s = map_option (Pair m) (puts m (f m) s)"

fun report :: "u64 \<Rightarrow> item list \<Rightarrow> memory \<Rightarrow> monitor \<Rightarrow> (memory \<times> monitor) option" where
  "report str [] m s = Some (m, s)"
| "report str (i # is) m s = Option.bind (show_item str i m s) (\<lambda>(m', s'). report str is m' s')"

section \<open>Programs\<close>

definition field_lines :: "layout \<Rightarrow> u64 \<Rightarrow> (string \<times> string) list \<Rightarrow> item list" where
  "field_lines l h ls = concat (map (\<lambda>(label, f). [Text label, Hex (\<lambda>m. read_field l f m h), nl]) ls)"

definition debug_elf_header :: "u64 \<Rightarrow> item list" where
  "debug_elf_header h =
     [Text ''Identification: '', Str (\<lambda>_. field_address Elf64_Ehdr ''e_ident'' h), nl] @
     field_lines Elf64_Ehdr h
       [(''Type: '', ''e_type''), (''Machine: '', ''e_machine''), (''Version: '', ''e_version''), (''Entry point'', ''e_entry''),
        (''Program header offset: '', ''e_phoff''), (''Section header offset: '', ''e_shoff''), (''Flags: '', ''e_flags''),
        (''ELF header size: '', ''e_ehsize''), (''Size of program header entry: '', ''e_phentsize''),
        (''Number of program header entries: '', ''e_phnum''), (''Size of section header entries: '', ''e_shentsize''),
        (''Number of section header entries: '', ''e_shnum''), (''Section name string table index: '', ''e_shstrndx'')]"

definition debug_program_header :: "u64 \<Rightarrow> item list" where
  "debug_program_header h =
     [Text ''-- Program header --'', nl] @
     field_lines Elf64_Phdr h
       [(''Type: '', ''p_type''), (''Flags: '', ''p_flags''), (''Offset in file: '', ''p_offset''), (''Virtual address: '', ''p_vaddr''),
        (''Reserved: '', ''p_paddr''), (''Segment size in file: '', ''p_filesz''), (''Segment size in mem: '', ''p_memsz''),
        (''Alignment: '', ''p_align'')]"

definition debug_section_header :: "u64 \<Rightarrow> item list" where
  "debug_section_header h =
     [Text ''-- Section header --'', nl] @
     field_lines Elf64_Shdr h
       [(''Name: '', ''sh_name''), (''Type: '', ''sh_type''), (''Flags: '', ''sh_flags''), (''Virtual address: '', ''sh_vaddr''),
        (''Offset in file: '', ''sh_offset''), (''Size of section: '', ''sh_size''), (''Link: '', ''sh_link''),
        (''Misc info: '', ''sh_info''), (''Alignment: '', ''sh_addralign''),
        (''Size of entries in section table: '', ''sh_entsize'')]"

section \<open>Memory\<close>

definition debug_address :: "u64 \<Rightarrow> item list" where
  "debug_address a =
     [Text ''Debug '', Hex (\<lambda>_. a), Text '':'', nl,
      Text ''PML4: '', Hex (\<lambda>_. addr_pml4 a), Text '' PDP: '', Hex (\<lambda>_. addr_pdp a), Text '' PD: '', Hex (\<lambda>_. addr_pd a),
      Text '' PT: '', Hex (\<lambda>_. addr_pt a), Text '' Offset: '', Hex (\<lambda>_. get_bits address_parts ''offset'' a), nl,
      Text ''Physical frame: '', Hex (\<lambda>_. addr_frame a), nl]"

definition debug_memmap_text :: "memman \<Rightarrow> item list" where
  "debug_memmap_text phys =
     (case debug_memmap phys of (blocks, free, bytes) \<Rightarrow>
        [Text ''Debugging '', Dec (\<lambda>_. blocks), Text '' memory blocks: '', Dec (\<lambda>_. free), Text '' ('', Dec (\<lambda>_. bytes),
         Text ''B) free'', nl])"

text \<open>
  \<open>page_fault_handler\<close> up to the endless loop at its end: \<open>pid\<close> is the running process, \<open>cr2\<close> the address of the
  fault.
\<close>

definition page_fault_text :: "u64 \<Rightarrow> u64 \<Rightarrow> registers_t \<Rightarrow> item list" where
  "page_fault_text pid cr2 regs =
     [Text ''Task: '', Dec (\<lambda>_. pid), Text '' @ RIP: '', Hex (\<lambda>_. rip regs), nl, Text ''Page fault (''] @
     (if err_code regs AND 0x1 = 0 then [Text ''not present ''] else []) @
     (if err_code regs AND 0x2 \<noteq> 0 then [Text ''read-only ''] else []) @
     (if err_code regs AND 0x4 \<noteq> 0 then [Text ''user-mode ''] else []) @
     (if err_code regs AND 0x8 \<noteq> 0 then [Text ''reserved ''] else []) @
     [Text '')! At '', Hex (\<lambda>_. cr2), nl]"

section \<open>Tasks, heap and files\<close>

definition debug_task :: "task \<Rightarrow> item list" where
  "debug_task t =
     [Text ''PID: '', Hex (\<lambda>_. t_pid t), Text '' RIP: '', Hex (\<lambda>_. t_rip t), Text '' RSP: '', Hex (\<lambda>_. t_rsp t),
      Text '' Next: '', Hex (\<lambda>_. t_next t), nl]"

definition heap_debug :: "int \<Rightarrow> heap_t \<Rightarrow> item list" where
  "heap_debug n h =
     (if n = 0 then [Text ''[ALLOC] ''] else if n = 1 then [Text ''[FREE] ''] else []) @
     [Text ''start: '', Hex (\<lambda>_. start_address h), Text '' end: '', Hex (\<lambda>_. end_address h),
      Text '' max: '', Hex (\<lambda>_. max_address h), nl]"

text \<open>The array is copied before the loop, the headers are not.\<close>

definition print_index :: "heap_t \<Rightarrow> item list" where
  "print_index h =
     concat (map (\<lambda>i. let header = oa_array (index h) (of_nat i)
                      in [Text ''Header '', Dec (\<lambda>_. of_nat i), Text '' position: '', Hex (\<lambda>_. header),
                          Text '' magic: '', Hex (\<lambda>m. ucast (hdr_magic m header)),
                          Text '' is_hole: '', Dec (\<lambda>m. ucast (hdr_is_hole m header)),
                          Text '' size: '', Hex (\<lambda>m. hdr_size m header), nl])
                 [0..<unat (oa_size (index h))])"

text \<open>\<open>puts\<close> does not change memory, so that the attributes are those before the call.\<close>

definition put_dir :: "memory \<Rightarrow> u64 \<Rightarrow> int \<Rightarrow> item list" where
  "put_dir m dir n =
     [Text ''Files in dir:'', nl] @
     concat (map (\<lambda>i. let d = dir + of_nat (32 * i); attribute = read_field dir_entry ''attribute'' m d
                      in if attribute \<noteq> 0x0F \<or> attribute \<noteq> 0x10 then [Str (\<lambda>_. d), nl] else [])
                 [0..<nat n])"

section \<open>Controllers\<close>

text \<open>\<open>var\<close> is what \<open>read_apicr\<close> returns for the register 0x20, as an \<open>int\<close>.\<close>

definition puts_apic_info :: "u32 \<Rightarrow> item list" where
  "puts_apic_info var = [Text ''[APIC] ID: '', Hex (\<lambda>_. scast (signed_drop_bit 24 var)), nl]"

definition puts_apic_register :: "u32 \<Rightarrow> u32 \<Rightarrow> item list" where
  "puts_apic_register offset val =
     [Text ''[APIC] APIC register '', Hex (\<lambda>_. scast offset), Text '': '', Hex (\<lambda>_. ucast val), nl]"

fun irq_lines :: "nat \<Rightarrow> nat \<Rightarrow> ioapic \<Rightarrow> item list \<times> ioapic" where
  "irq_lines 0 i d = ([], d)"
| "irq_lines (Suc k) i d =
     (let (lo, d) = read_ioapicr (0x10 + 2 * of_nat i) d;
          (hi, d) = read_ioapicr (0x10 + 2 * of_nat i + 1) d;
          (rest, d) = irq_lines k (Suc i) d
      in ([Text ''IRQ '', Dec (\<lambda>_. of_nat i), Text '': '', Hex (\<lambda>_. ucast lo), Text '' '', Hex (\<lambda>_. ucast hi), Text '' ''] @
          (if (i + 1) mod 3 = 0 then [nl] else []) @ rest, d))"

definition puts_ioapic_info :: "ioapic \<Rightarrow> item list \<times> ioapic" where
  "puts_ioapic_info d =
     (let (id, d) = read_ioapicr 0 d; (version, d) = read_ioapicr 1 d; (aid, d) = read_ioapicr 2 d; (irqs, d) = irq_lines 24 0 d
      in ([Text ''[IOAPIC] ID: '', Hex (\<lambda>_. ucast id), Text '' Version: '', Hex (\<lambda>_. ucast version),
           Text '' AID: '', Hex (\<lambda>_. ucast aid), nl] @ irqs @ [nl], d))"

section \<open>What is shown\<close>

text \<open>The text of an item.\<close>

fun item_text :: "memory \<Rightarrow> item \<Rightarrow> u8 list \<Rightarrow> bool" where
  "item_text m (Text t) bs \<longleftrightarrow> bs = bytes_of t"
| "item_text m (Dec f) bs \<longleftrightarrow> bs = decimal_of (f m)"
| "item_text m (Hex f) bs \<longleftrightarrow> bs = hex_of (f m)"
| "item_text m (Str f) bs \<longleftrightarrow> f m \<noteq> 0 \<and> cstr m (f m) bs"

text \<open>The text does not depend on the buffer on the stack.\<close>

definition shows_text :: "u64 \<Rightarrow> memory \<Rightarrow> item list \<Rightarrow> u8 list list \<Rightarrow> bool" where
  "shows_text str m items texts \<longleftrightarrow>
     (\<forall>m'. (\<forall>x. \<not> in_range str 32 x \<longrightarrow> m' x = m x) \<longrightarrow> list_all2 (item_text m') items texts)"

lemma shows_textD: "shows_text str m items texts \<Longrightarrow> list_all2 (item_text m) items texts"
  by (simp add: shows_text_def)

text \<open>A literal is shown as \<open>puts\<close> shows a string with these bytes.\<close>

lemma puts_loop_put_literal:
  "cstr m (p + of_nat i) bs \<Longrightarrow> puts_loop m p i s = Some (fold putchar bs s)"
proof (induction bs arbitrary: i s)
  case Nil
  then show ?case by (subst puts_loop.simps) (simp add: cstr_iff)
next
  case (Cons c bs)
  then have "m (p + of_nat i) = c" "c \<noteq> 0" "cstr m (p + of_nat (Suc i)) bs"
    by (simp_all add: cstr.simps(2) add.commute add.left_commute)
  with Cons.IH [of "Suc i" "putchar c s"] show ?case by (subst puts_loop.simps) simp
qed

lemma puts_put_literal: "p \<noteq> 0 \<Longrightarrow> cstr m p (bytes_of t) \<Longrightarrow> puts m p s = Some (put_literal t s)"
  using puts_loop_put_literal [of m p 0 "bytes_of t" s] by (simp add: puts_def put_literal_def)

lemma put_literal_spec:
  assumes "mon_ok s"
  shows "screen_of (put_literal t s) = show_string (bytes_of t) (screen_of s) \<and> mon_ok (put_literal t s)"
proof -
  have "mon_ok s \<Longrightarrow> screen_of (fold putchar bs s) = show_string bs (screen_of s) \<and> mon_ok (fold putchar bs s)" for bs s
    by (induction bs arbitrary: s) (simp_all add: putchar_spec)
  then show ?thesis using assms by (simp add: put_literal_def)
qed

lemma show_item_spec:
  assumes "mon_ok s" "str \<noteq> 0" "item_text m i bs"
  obtains m' s' where "show_item str i m s = Some (m', s')" "screen_of s' = show_string bs (screen_of s)" "mon_ok s'"
    "\<forall>x. \<not> in_range str 32 x \<longrightarrow> m' x = m x"
proof (cases i)
  case (Text t)
  then show ?thesis using that [of m "put_literal t s"] put_literal_spec [OF assms(1)] assms(3) by simp
next
  case (Dec f)
  then show ?thesis using that putint_spec [OF assms(1,2), of "f m" m] assms(3) by auto
next
  case (Hex f)
  then show ?thesis using that puthex_spec [OF assms(1,2), of "f m" m] assms(3) by auto
next
  case (Str f)
  then show ?thesis using that [of m] puts_spec [OF assms(1), of "f m" m bs] assms(3) by auto
qed

text \<open>A sequence shows the texts of its items one after the other.\<close>

lemma report_shows:
  "mon_ok s \<Longrightarrow> str \<noteq> 0 \<Longrightarrow> shows_text str m items texts \<Longrightarrow>
     \<exists>m' s'. report str items m s = Some (m', s') \<and> screen_of s' = show_string (concat texts) (screen_of s) \<and> mon_ok s' \<and>
       (\<forall>x. \<not> in_range str 32 x \<longrightarrow> m' x = m x)"
proof (induction items arbitrary: m s texts)
  case Nil
  then have "texts = []" using shows_textD by blast
  then show ?case using Nil by simp
next
  case (Cons i items)
  have "list_all2 (item_text m) (i # items) texts" by (rule shows_textD [OF Cons.prems(3)])
  then obtain bs ts where texts: "texts = bs # ts" "item_text m i bs" by (auto simp: list_all2_Cons1)
  obtain m1 s1 where 1: "show_item str i m s = Some (m1, s1)" "screen_of s1 = show_string bs (screen_of s)" "mon_ok s1"
    "\<forall>x. \<not> in_range str 32 x \<longrightarrow> m1 x = m x"
    by (rule show_item_spec [OF Cons.prems(1,2) texts(2)])
  have "shows_text str m1 items ts" using Cons.prems(3) 1(4) by (auto simp: shows_text_def texts(1))
  from Cons.IH [OF 1(3) Cons.prems(2) this] show ?case using 1 texts(1) by auto
qed

text \<open>Items one by one.\<close>

lemma shows_text_Nil: "shows_text str m [] []"
  by (simp add: shows_text_def)

lemma shows_text_Cons:
  assumes "\<And>m'. \<forall>x. \<not> in_range str 32 x \<longrightarrow> m' x = m x \<Longrightarrow> item_text m' i bs" "shows_text str m is ts"
  shows "shows_text str m (i # is) (bs # ts)"
  using assms unfolding shows_text_def list_all2_Cons by blast

lemma shows_literal: "shows_text str m is ts \<Longrightarrow> shows_text str m (Text t # is) (bytes_of t # ts)"
  by (rule shows_text_Cons) simp_all

lemma shows_number:
  assumes "\<And>m'. \<forall>x. \<not> in_range str 32 x \<longrightarrow> m' x = m x \<Longrightarrow> f m' = f m" "shows_text str m is ts"
  shows "shows_text str m (Hex f # is) (hex_of (f m) # ts)" "shows_text str m (Dec f # is) (decimal_of (f m) # ts)"
  by (rule shows_text_Cons [OF _ assms(2)], simp only: item_text.simps assms(1))+

lemma shows_string:
  assumes "p \<noteq> 0" "cstr m p bs" "disjoint_ranges str 32 p k" "length bs < k" "k \<le> 2 ^ 64" "shows_text str m is ts"
  shows "shows_text str m (Str (\<lambda>_. p) # is) (bs # ts)"
proof (rule shows_text_Cons [OF _ assms(6)])
  fix m' assume "\<forall>x. \<not> in_range str 32 x \<longrightarrow> m' x = m x"
  then have "cstr m' p bs" by (intro cstr_disjoint [OF assms(2-5)]) simp
  then show "item_text m' (Str (\<lambda>_. p)) bs" using assms(1) by simp
qed

lemma shows_text_append:
  "shows_text str m xs ts \<Longrightarrow> shows_text str m ys us \<Longrightarrow> shows_text str m (xs @ ys) (ts @ us)"
  by (auto simp: shows_text_def intro: list_all2_appendI)

lemmas shows_intros = shows_text_append shows_literal shows_number shows_text_Nil

lemma shows_text_concat:
  "(\<And>x. x \<in> set xs \<Longrightarrow> shows_text str m (f x) (g x)) \<Longrightarrow>
     shows_text str m (concat (map f xs)) (concat (map g xs))"
  by (induction xs) (simp_all add: shows_text_Nil shows_text_append)

text \<open>The lines of a structure that does not overlap the buffer.\<close>

lemma field_lines_text:
  assumes "aligned_layout l" "sizeof l < 2 ^ 64" "disjoint_ranges str 32 h (sizeof l)"
  shows "shows_text str m (field_lines l h ls)
    (concat (map (\<lambda>(label, f). [bytes_of label, hex_of (read_field l f m h), bytes_of [CHR 0x0A]]) ls))"
  unfolding field_lines_def
proof (rule shows_text_concat)
  fix x assume "x \<in> set ls"
  have "read_field l f m' h = read_field l f m h" if "\<forall>x. \<not> in_range str 32 x \<longrightarrow> m' x = m x" for m' f
    using that assms(3) by (intro read_field_cong [OF assms(1,2)]) (auto simp: disjoint_ranges_def)
  then have "shows_text str m [Text label, Hex (\<lambda>m. read_field l f m h), nl]
      [bytes_of label, hex_of (read_field l f m h), bytes_of [CHR 0x0A]]" for label f
    by (intro shows_intros) blast
  then show "shows_text str m (case x of (label, f) \<Rightarrow> [Text label, Hex (\<lambda>m. read_field l f m h), nl])
      (case x of (label, f) \<Rightarrow> [bytes_of label, hex_of (read_field l f m h), bytes_of [CHR 0x0A]])"
    by (simp only: split: prod.split) blast
qed

section \<open>The reports of the kernel\<close>

text \<open>
  The header of a program, when it and its identification, a string in it, are apart from the buffer.
\<close>

lemma aligned_packed: "aligned_layout (packed l)"
  by (auto simp: packed_def)

lemma debug_elf_header_text:
  assumes "disjoint_ranges str 32 h 64" "h \<noteq> 0" "cstr m h ident" "length ident < 64"
  shows "\<exists>texts. shows_text str m (debug_elf_header h)
      ([bytes_of ''Identification: '', ident, bytes_of [CHR 0x0A]] @ texts) \<and>
    hex_of (ucast (e_type m h)) \<in> set texts \<and> hex_of (e_entry m h) \<in> set texts \<and> hex_of (e_phoff m h) \<in> set texts"
proof -
  have at: "field_address Elf64_Ehdr ''e_ident'' h = h" by (simp add: Elf64_Ehdr_def offsets field_address_def)
  have al: "aligned_layout Elf64_Ehdr" unfolding Elf64_Ehdr_def by (rule aligned_packed)
  have id: "shows_text str m [Text ''Identification: '', Str (\<lambda>_. h), nl] [bytes_of ''Identification: '', ident, bytes_of [CHR 0x0A]]"
    by (intro shows_literal shows_string [OF assms(2,3,1,4)] shows_text_Nil) simp
  note lines = field_lines_text [of Elf64_Ehdr str h m, OF al, unfolded sizes(1), OF _ assms(1)]
  show ?thesis unfolding debug_elf_header_def at
    by (intro exI conjI, rule shows_text_append [OF id lines]) (simp_all add: elf_fields)
qed

text \<open>The listing of a directory has every entry, whatever its attribute: the condition is always true.\<close>

lemma put_dir_all: "put_dir m dir n =
    [Text ''Files in dir:'', nl] @ concat (map (\<lambda>i. [Str (\<lambda>_. dir + of_nat (32 * i)), nl]) [0..<nat n])"
proof -
  have "attribute \<noteq> 0x0F \<or> attribute \<noteq> 0x10" for attribute :: u64 by auto
  then show ?thesis by (simp add: put_dir_def Let_def)
qed

text \<open>A page fault: the message, from which bit 1 of the error code reads as \<open>read-only\<close>.\<close>

lemma page_fault_message:
  assumes "err_code regs = 6"
  shows "shows_text str m (page_fault_text pid cr2 regs)
    ([bytes_of ''Task: '', decimal_of pid, bytes_of '' @ RIP: '', hex_of (rip regs), bytes_of [CHR 0x0A], bytes_of ''Page fault ('',
      bytes_of ''not present '', bytes_of ''read-only '', bytes_of ''user-mode '', bytes_of '')! At '', hex_of cr2, bytes_of [CHR 0x0A]])"
proof -
  have bits: "(6 :: u64) AND 1 = 0" "(6 :: u64) AND 2 \<noteq> 0" "(6 :: u64) AND 4 \<noteq> 0" "(6 :: u64) AND 8 = 0" by simp_all
  show ?thesis by (simp add: page_fault_text_def assms bits) (intro shows_intros refl)
qed

text \<open>The identification of a processor from 0x80 on is shown with its sign extended to 64 bits.\<close>

lemma apic_id_sign:
  fixes var :: u32
  assumes "bit var 31"
  shows "(scast (signed_drop_bit 24 var) :: u64) = NOT (mask 8) OR ucast (drop_bit 24 var)"
  by (rule bit_word_eqI) (use assms in \<open>auto simp: bit_simps min_def dest: bit_imp_le_length\<close>)

text \<open>The registers of the I/O controller are only read; the last one is the upper half of line 23.\<close>

lemma irq_lines_registers: "ioapic_regs (snd (irq_lines k i d)) = ioapic_regs d"
proof (induction k i d rule: irq_lines.induct)
  case (2 k i d)
  then show ?case by (simp add: read_ioapicr_def split: prod.split) (metis ioapic.select_convs(2) ioapic.surjective ioapic.update_convs(1) snd_conv)
qed simp

end
