(* ===== verification/Boot.thy ===== *)
theory Boot
  imports Reports PagingFixed Fat32Correct KHeapProps Descriptors Locking Keyboard
begin

text \<open>
  The start of the kernel: \<open>memman_init\<close> from the structures the boot loader leaves in memory, and
  \<open>kernel_entry\<close> of \<open>kernel/main.c\<close>, which puts the components together, up to the fork of the shell. The messages of
  \<open>memman_init\<close> are given as in theory \<open>Reports\<close>; those of the other operations are left out.
\<close>

section \<open>The memory map\<close>

definition read_region :: "memory \<Rightarrow> u64 \<Rightarrow> memory_region" where
  "read_region m p =
     \<lparr>region_start = read_field memory_region_layout ''start'' m p, region_size = read_field memory_region_layout ''size'' m p,
      region_type = ucast (read_field memory_region_layout ''type'' m p),
      region_acpi3 = ucast (read_field memory_region_layout ''acpi3'' m p)\<rparr>"

definition memory_map :: "memory \<Rightarrow> u64 \<Rightarrow> memory_region list" where
  "memory_map m bootinfo =
     (let map_addr = read_field multiboot_info ''m_mmap_addr'' m bootinfo
      in map (\<lambda>i. read_region m (map_addr + of_nat (sizeof memory_region_layout * i)))
           [0..<unat (read_field multiboot_info ''m_mmap_length'' m bootinfo)])"

text \<open>\<open>memman_init\<close> without its messages.\<close>

definition memman_init ::
  "'w handler \<Rightarrow> u64 \<Rightarrow> u64 \<Rightarrow> memory \<Rightarrow> u64 \<Rightarrow> 'w machine \<Rightarrow> vm \<Rightarrow> ('w machine \<times> vm) option" where
  "memman_init page_fault kstart kend m bootinfo s v = do {
     s \<leftarrow> register_handler 0x0E page_fault s;
     let mm1 = memman_init_map kstart kend (memory_map m bootinfo) (mm v);
     v \<leftarrow> memman_init_paging (blocks_used_by_kernel kstart kend (mem_max_blocks mm1)) (v\<lparr>mm := mm1\<rparr>);
     Some (s, v)
   }"

text \<open>
  Its messages. The table of the names has six entries; \<open>stray\<close> tells what lies behind it.
\<close>

definition strMemoryType :: "string list" where
  "strMemoryType = [''Unknown'', ''Available'', ''Reserved'', ''ACPI Reclaim'', ''ACPI NVS Memory'', ''Bad stuff'']"

definition region_line :: "(u32 \<Rightarrow> u64) \<Rightarrow> memory_region \<Rightarrow> item list" where
  "region_line stray r =
     [Text ''   From: '', Hex (\<lambda>_. region_start r), Text ''    Size: '', Hex (\<lambda>_. region_size r), Text ''    Type: '',
      (if unat (region_type r) < length strMemoryType then Text (strMemoryType ! unat (region_type r))
       else Str (\<lambda>_. stray (region_type r))), nl]"

definition memman_init_text :: "(u32 \<Rightarrow> u64) \<Rightarrow> memory_region list \<Rightarrow> u64 \<Rightarrow> memman \<Rightarrow> u64 \<Rightarrow> item list" where
  "memman_init_text stray rs kend mm1 pml4 =
     (case scan_memory_map rs 0 0 of (total_size, limit) \<Rightarrow>
        [Text ''Initializing memory manager... '', nl, Text ''Analyzing memory map:'', nl] @
        concat (map (region_line stray) rs) @
        [Text ''Found '', Dec (\<lambda>_. total_size), Text '' bytes of usable memory...'', nl,
         Text ''Highest address of available memory: '', Dec (\<lambda>_. limit), nl,
         Text ''Memory map put at '', Hex (\<lambda>_. (kend div 0x1000 + 1) * 0x1000), Text '' and it's taking '',
         Dec (\<lambda>_. mem_max_blocks mm1 div 8), Text '' bytes...'', nl,
         Text ''Initialised '', Dec (\<lambda>_. mem_max_blocks mm1), Text '' memory blocks... ('',
         Dec (\<lambda>_. mem_max_blocks mm1 - mem_used_blocks mm1), Text '' blocks or '',
         Dec (\<lambda>_. (mem_max_blocks mm1 - mem_used_blocks mm1) * MEM_BLOCK_SIZE), Text '' bytes usable)'', nl] @
        debug_memmap_text mm1 @ [Text ''Current PML4 table: '', Hex (\<lambda>_. pml4), nl])"

section \<open>The kernel\<close>

text \<open>The state of all components, and what \<open>kernel_entry\<close> is given.\<close>

record 'w kernel =
  k_vm :: vm
  k_files :: fat32
  k_gdt :: gdt_state
  k_idt :: idt_table
  k_machine :: "'w machine"
  k_ports :: "(u16 \<times> u8) list"
  k_msr :: "u32 \<times> u32"
  k_ioapic :: ioapic
  k_sched :: sched
  k_locks :: locking
  k_keyboard :: keyboard
  k_monitor_lock :: u64
  k_keyboard_lock :: u64

text \<open>
  Addresses of symbols, what the stack holds where \<open>ioapic_init\<close> does not initialise its structure, the disk, and the
  handlers and system calls, which are models of their own.
\<close>

record 'w boot_args =
  b_kernel_start :: u64
  b_kernel_end :: u64
  b_bootinfo :: u64
  b_tss :: u64
  b_isr :: "nat \<Rightarrow> u64"
  b_stack :: "u32 \<times> u32"
  b_disk :: disk
  b_page_fault :: "'w handler"
  b_keyboard :: "'w handler"
  b_timer :: "'w handler"
  b_syscalls :: "'w syscall list"

definition boot_memory :: "'w boot_args \<Rightarrow> 'w kernel \<Rightarrow> 'w kernel option" where
  "boot_memory b k = do {
     (machine, v) \<leftarrow> memman_init (b_page_fault b) (b_kernel_start b) (b_kernel_end b) (fmem (k_files k)) (b_bootinfo b)
        (k_machine k) (k_vm k);
     (start, v) \<leftarrow> alloc_kernel_page (KHEAP_INITIAL_SIZE div MEM_BLOCK_SIZE) v;
     h \<leftarrow> kheap_init (\<lambda>_. start) (fheap (k_files k));
     Some (k\<lparr>k_machine := machine, k_vm := v, k_files := (k_files k)\<lparr>fheap := h\<rparr>\<rparr>)
   }"

definition boot_devices :: "'w boot_args \<Rightarrow> 'w kernel \<Rightarrow> 'w kernel option" where
  "boot_devices b k = do {
     f \<leftarrow> fat32_init (b_disk b) (k_files k);
     (ports, msr, machine, v) \<leftarrow> apic_init (k_ports k) (k_msr k) (k_machine k) (k_vm k);
     (ioapic, v) \<leftarrow> ioapic_init (fst (b_stack b)) (snd (b_stack b)) (k_ioapic k) v;
     Some (k\<lparr>k_files := f, k_ports := ports, k_msr := msr, k_machine := machine, k_vm := v, k_ioapic := ioapic\<rparr>)
   }"

definition boot_tasks :: "'w boot_args \<Rightarrow> 'w kernel \<Rightarrow> 'w kernel option" where
  "boot_tasks b k = do {
     machine \<leftarrow> register_handler 0x21 (b_keyboard b) (k_machine k);
     machine \<leftarrow> register_handler 0xD gpf_handler machine;
     machine \<leftarrow> syscalls_init (b_syscalls b) machine;
     let machine = timer_init 0x20 0x002fffff 0xB True machine;
     (task, f) \<leftarrow> fs_kmalloc (of_nat (sizeof task_layout)) (k_files k);
     let sched = scheduler_init task (get_current_pml4 (k_vm k)) (k_sched k);
     machine \<leftarrow> register_handler 0x20 (b_timer b) machine;
     (monitor_lock, locks) \<leftarrow> register_lock (k_locks k);
     (keyboard_lock, locks) \<leftarrow> register_lock locks;
     Some (k\<lparr>k_machine := machine, k_files := f, k_sched := sched, k_locks := locks, k_monitor_lock := monitor_lock,
       k_keyboard := keyboard_init (k_keyboard k), k_keyboard_lock := keyboard_lock\<rparr>)
   }"

text \<open>\<open>kernel_entry\<close> up to \<open>fork_kernel\<close>.\<close>

definition kernel_entry :: "'w boot_args \<Rightarrow> 'w kernel \<Rightarrow> 'w kernel option" where
  "kernel_entry b k =
     (let k = k\<lparr>k_gdt := gdt_install (b_tss b) (k_gdt k), k_idt := idt_install (b_isr b)\<rparr>
      in Option.bind (boot_memory b k) (\<lambda>k. Option.bind (boot_devices b k) (boot_tasks b)))"

end
