(* ===== verification/Process.thy ===== *)
theory Process
  imports Boot CloneCorrect Elf
begin

text \<open>
  The calls of \<open>kernel/fork.c\<close>, \<open>kernel/exit.c\<close> and \<open>kernel/exec.c\<close> over the state of all components: a child has a
  structure from the heap, an entry in the list of the scheduler and page tables of its own; a switch of tasks loads
  the tables of the task it resumes. Then the invariant of the whole kernel, and that these calls keep it.
\<close>

section \<open>Operations\<close>

text \<open>
  \<open>fork\<close> as the parent runs it: the structure and the pages of the child are blocks of the heap; \<open>ip\<close>, \<open>sp\<close> and
  \<open>bp\<close> are the registers it reads for the child.
\<close>

definition fork_call :: "u64 \<Rightarrow> u64 \<Rightarrow> u64 \<Rightarrow> 'w kernel \<Rightarrow> (u64 \<times> 'w kernel) option" where
  "fork_call ip sp bp k = do {
     (new_task, h, v) \<leftarrow> heap_kmalloc (of_nat (sizeof task_layout)) 0 (fheap (k_files k), k_vm k);
     (pml4, h, v) \<leftarrow> clone_pml4t (h, v);
     (pid, s) \<leftarrow> fork new_task pml4 ip sp bp (k_sched k);
     Some (pid, k\<lparr>k_files := (k_files k)\<lparr>fheap := h\<rparr>, k_vm := v, k_sched := s\<rparr>)
   }"

text \<open>\<open>fork_kernel\<close>: the child gets two pages for its stacks, which the parent has as well.\<close>

definition fork_kernel_call :: "u64 \<Rightarrow> 'w kernel \<Rightarrow> (u64 \<times> 'w kernel) option" where
  "fork_kernel_call ip k = do {
     (new_task, h, v) \<leftarrow> heap_kmalloc (of_nat (sizeof task_layout)) 0 (fheap (k_files k), k_vm k);
     (stack, v) \<leftarrow> alloc_page 0xbffff000 1 v;
     (_, v) \<leftarrow> alloc_page 0xbfffe000 0 v;
     (pml4, h, v) \<leftarrow> clone_pml4t (h, v);
     (pid, s) \<leftarrow> fork_kernel new_task (stack + 0x1000) pml4 ip (k_sched k);
     Some (pid, k\<lparr>k_files := (k_files k)\<lparr>fheap := h\<rparr>, k_vm := v, k_sched := s\<rparr>)
   }"

text \<open>A switch, with the loading of \<open>cr3\<close>; no context when \<open>switch_task\<close> returns.\<close>

definition load_context :: "sched \<times> cpu_context option \<Rightarrow> 'w kernel \<Rightarrow> cpu_context option \<times> 'w kernel" where
  "load_context r k =
     (case r of
        (s, None) \<Rightarrow> (None, k\<lparr>k_sched := s\<rparr>)
      | (s, Some c) \<Rightarrow> (Some c, k\<lparr>k_sched := s, k_vm := switch_paging (c_cr3 c) (k_vm k)\<rparr>))"

definition switch_call :: "u64 \<Rightarrow> u64 \<Rightarrow> u64 \<Rightarrow> 'w kernel \<Rightarrow> (cpu_context option \<times> 'w kernel) option" where
  "switch_call ip sp bp k = map_option (\<lambda>r. load_context r k) (switch_task ip sp bp (k_sched k))"

definition exit_call :: "u64 \<Rightarrow> u64 \<Rightarrow> u64 \<Rightarrow> 'w kernel \<Rightarrow> (cpu_context option \<times> 'w kernel) option" where
  "exit_call ip sp bp k = map_option (\<lambda>r. load_context r k) (exit_task ip sp bp (k_sched k))"

definition exec_call :: "disk \<Rightarrow> u64 \<Rightarrow> 'w kernel \<Rightarrow> (exec_result \<times> 'w kernel) option" where
  "exec_call disk filename k =
     map_option (\<lambda>(r, p). (r, k\<lparr>k_files := fs p, k_vm := pg p\<rparr>)) (exec disk filename \<lparr>fs = k_files k, pg = k_vm k\<rparr>)"

text \<open>
  The child of \<open>kernel_entry\<close>: in user mode at the entry of the shell, or, when there is no shell, after \<open>exit\<close>.
\<close>

definition shell_process ::
  "disk \<Rightarrow> u64 \<Rightarrow> u64 \<Rightarrow> u64 \<Rightarrow> u64 \<Rightarrow> 'w kernel \<Rightarrow> ((u64 + cpu_context option) \<times> 'w kernel) option" where
  "shell_process disk shell ip sp bp k = do {
     (r, k) \<leftarrow> exec_call disk shell k;
     case r of
       Enters entry \<Rightarrow> Some (Inl entry, k)
     | exec_result.Returns _ \<Rightarrow> map_option (\<lambda>(c, k). (Inr c, k)) (exit_call ip sp bp k)
   }"

section \<open>The invariant\<close>

text \<open>
  The structures of the tasks are blocks of the heap, and the page tables in force are those of the current task.
\<close>

definition task_blocks :: "u64 list \<Rightarrow> blocks \<Rightarrow> kheap_state \<Rightarrow> bool" where
  "task_blocks ts bs h \<longleftrightarrow>
     (\<forall>t \<in> set ts. 16 \<le> unat t \<and> (\<exists>l. 32 \<le> l \<and> (unat t - 16, l) \<in> set (allocs (unat (start_address (heap h))) bs)))"

definition kernel_inv :: "'w kernel \<Rightarrow> u64 list \<Rightarrow> blocks \<Rightarrow> bool" where
  "kernel_inv k ts bs \<longleftrightarrow> heap_inv (fheap (k_files k)) bs \<and> sched_inv (k_sched k) ts \<and> task_blocks ts bs (fheap (k_files k)) \<and>
     vm_inv (k_vm k) \<and> root (k_vm k) = entry_frame (cr3 (k_vm k)) \<and>
     t_pml4 (the (tasks (k_sched k) (current_task (k_sched k)))) = cr3 (k_vm k)"

text \<open>
  Room for the structure and \<open>n\<close> pages: the last hole is large enough, the others are too small for a page, a hole with
  header and footer fits in front of the first page, with and without the structure, and the pages of the hole are backed.
\<close>

definition fork_room :: "kheap_state \<Rightarrow> vm \<Rightarrow> nat \<Rightarrow> blocks \<Rightarrow> bool" where
  "fork_room h v n bs \<longleftrightarrow>
     (let S = unat (start_address (heap h)) + span (butlast bs)
      in bs \<noteq> [] \<and> snd (last bs) \<noteq> Used \<and> n * 8192 + 4193 \<le> fst (last bs) \<and>
         (\<forall>(m, b) \<in> set (butlast bs). b \<noteq> Used \<longrightarrow> m < 4128) \<and> S mod 4096 \<le> 4048 \<and> (S + 81) mod 4096 \<le> 4048 \<and>
         backed (pages_in S (S + fst (last bs))) {} v)"

lemma front_le: "front p \<le> 4080"
  by (simp add: front_def)

lemma pages_in_sub: "p \<le> p' \<Longrightarrow> e' \<le> e \<Longrightarrow> pages_in p' e' \<subseteq> pages_in p e"
  by (auto simp: pages_in_def)

text \<open>After a block of 81 bytes has been taken, the pages are still available.\<close>

lemma room_carved:
  assumes room: "fork_room h v n (as @ (m, c) # zs)" and c: "81 \<le> m" "c \<noteq> Used"
    and h': "heap_inv h' (as @ carve m 81 @ zs)" "start_address (heap h') = start_address (heap h)"
  shows "heap_avail (start_address (heap h)) (set (allocs (unat (start_address (heap h))) (as @ carve m 81 @ zs))) n Map.empty h' v"
proof -
  let ?S = "unat (start_address (heap h))"
  note r = room [unfolded fork_room_def Let_def]
  show ?thesis
  proof (cases zs rule: rev_cases)
    case Nil
    then have l: "n * 8192 + 4193 \<le> m" "(?S + span as + 81) mod 4096 \<le> 4048" "\<forall>(m, b) \<in> set as. b \<noteq> Used \<longrightarrow> m < 4128"
      "backed (pages_in (?S + span as) (?S + span as + m)) {} v" using r by (simp_all add: butlast_append)
    then have cv: "carve m 81 = [(81, Used), (m - 81, Hole)]" by (simp add: carve_def)
    have "pages_in (?S + span as + 81) (?S + span as + 81 + (m - 81)) \<subseteq> pages_in (?S + span as) (?S + span as + m)"
      by (rule pages_in_sub) (use c in simp_all)
    then have "backed (pages_in (?S + span as + 81) (?S + span as + 81 + (m - 81))) {} v" using backed_subset [OF l(4)] by blast
    moreover have "front (?S + span as + 81) + n * 8192 + 32 \<le> m - 81" using front_le [of "?S + span as + 81"] l(1) by simp
    ultimately show ?thesis
      by (intro heap_availI [where bs = "as @ [(81, Used)]" and l = "m - 81" and k = Hole])
        (use h' l(2,3) in \<open>simp_all add: Nil cv add.assoc\<close>)
  next
    case (snoc ys z)
    obtain l b where z: "z = (l, b)" by (cases z)
    have bl: "butlast (as @ (m, c) # ys @ [(l, b)]) = as @ (m, c) # ys" by (simp add: butlast_append)
    have sp: "span (as @ carve m 81 @ ys) = span (as @ (m, c) # ys)" using c by (simp add: span_carve)
    let ?p = "?S + span (as @ (m, c) # ys)"
    have l: "n * 8192 + 4193 \<le> l" "b \<noteq> Used" "?p mod 4096 \<le> 4048" "\<forall>(m, b) \<in> set (as @ (m, c) # ys). b \<noteq> Used \<longrightarrow> m < 4128"
      "backed (pages_in ?p (?p + l)) {} v" using r unfolding snoc z bl by simp_all
    have "heap_avail (start_address (heap h)) (set (allocs ?S (as @ carve m 81 @ ys @ [(l, b)]))) n Map.empty h' v"
    proof (rule heap_availI [where bs = "as @ carve m 81 @ ys" and l = l and k = b])
      show "heap_inv h' ((as @ carve m 81 @ ys) @ [(l, b)])" using h'(1) by (simp add: snoc z)
      show "\<forall>(m, b) \<in> set (as @ carve m 81 @ ys). b \<noteq> Used \<longrightarrow> m < 4128" using l(4) c(2) by (auto simp: carve_def)
      show "front (?S + span (as @ carve m 81 @ ys)) + n * 8192 + 32 \<le> l"
        using front_le [of "?S + span (as @ carve m 81 @ ys)"] l(1) by simp
      show "backed (pages_in (?S + span (as @ carve m 81 @ ys)) (?S + span (as @ carve m 81 @ ys) + l)) (ran Map.empty) v"
        using l(5) unfolding sp by simp
      show "(?S + span (as @ carve m 81 @ ys)) mod 4096 \<le> 4048" using l(3) unfolding sp .
    qed (use h'(2) l(2) in simp_all)
    then show ?thesis by (simp add: snoc z)
  qed
qed

lemma task_allocated:
  assumes inv: "heap_inv h bs" and ts: "task_blocks ts bs h" and room: "fork_room h v n bs"
  defines "S \<equiv> start_address (heap h)"
  obtains a h' bs' where "\<forall>w. heap_kmalloc (of_nat (sizeof task_layout)) 0 (h, w) = Some (a, h', w)" "a \<noteq> 0" "a \<notin> set ts"
    "heap_avail S (set (allocs (unat S) bs')) n Map.empty h' v"
    "\<forall>t \<in> set (ts @ [a]). 16 \<le> unat t \<and> (\<exists>l. 32 \<le> l \<and> (unat t - 16, l) \<in> set (allocs (unat S) bs'))"
proof -
  have sz: "of_nat (sizeof task_layout) = (49 :: u64)" "unat (49 :: u64) + 32 = 81" by (simp_all add: sizes)
  have hole: "(fst (last bs), snd (last bs)) \<in> set bs" "snd (last bs) \<noteq> Used" "81 \<le> fst (last bs)"
    using room by (simp_all add: fork_room_def Let_def)
  obtain a h' as m c zs where r: "alloc 49 0 h = Some (a, h')" "bs = as @ (m, c) # zs" "c \<noteq> Used" "81 \<le> m"
    "unat a = unat S + span as + 16" "heap_inv h' (as @ carve m 81 @ zs)"
    "same_outside (hmem h) (hmem h') (unat a - 16) (unat a - 16 + m)" "start_address (heap h') = S" "page_requests h' = page_requests h"
    using alloc_fitting [OF inv _ hole(1,2), of 49] hole(3) unfolding sz S_def by auto
  have "adds_block h bs h' (as @ carve m 81 @ zs) (unat a - 16) (carved m 81)"
    using adds_block_carve [of h as m c zs 81 h'] inv r by (simp add: S_def)
  note ad = this [unfolded adds_block_def Let_def, folded S_def]
  have al: "set (allocs (unat S) (as @ carve m 81 @ zs)) = insert (unat a - 16, carved m 81) (set (allocs (unat S) bs))" using ad by blast
  have m: "81 \<le> carved m 81" using r(4) by (simp add: carved_def)
  have "a \<notin> set ts"
  proof
    assume "a \<in> set ts"
    then obtain l where "32 \<le> l" "(unat a - 16, l) \<in> set (allocs (unat S) bs)" using ts by (auto simp: task_blocks_def S_def)
    then show False using ad m by fastforce
  qed
  moreover have "\<forall>w. heap_kmalloc (of_nat (sizeof task_layout)) 0 (h, w) = Some (a, h', w)"
    unfolding sz using heap_kmalloc_run [of 49 0 h a h'] r(1,9) by simp
  moreover have "heap_avail S (set (allocs (unat S) (as @ carve m 81 @ zs))) n Map.empty h' v"
    using room_carved [OF room [unfolded r(2)] r(4,3,6)] r(8) unfolding S_def by blast
  moreover have "16 \<le> unat t \<and> (\<exists>l. 32 \<le> l \<and> (unat t - 16, l) \<in> set (allocs (unat S) (as @ carve m 81 @ zs)))" if "t \<in> set (ts @ [a])" for t
  proof (cases "t = a")
    case True
    have "32 \<le> carved m 81" using m by simp
    then show ?thesis unfolding al using True r(5) by auto
  next
    case False
    then show ?thesis unfolding al using that ts by (auto simp: task_blocks_def S_def)
  qed
  moreover have "a \<noteq> 0" using r(5) by auto
  ultimately show thesis using that by blast
qed

section \<open>Fork\<close>

text \<open>A new task for the address space \<open>R\<close>.\<close>

definition forked :: "'w kernel \<Rightarrow> u64 list \<Rightarrow> u64 \<Rightarrow> cpu_context \<Rightarrow> 'w kernel \<Rightarrow> bool" where
  "forked k ts a c k' \<longleftrightarrow> a \<notin> set ts \<and> ready (k_sched k') a \<and> keeps_tasks ts (k_sched k) (k_sched k') \<and>
     current_task (k_sched k') = current_task (k_sched k) \<and>
     tasks (k_sched k') a = Some \<lparr>t_pid = next_pid (k_sched k), t_rsp = c_rsp c, t_rbp = c_rbp c, t_rip = c_rip c,
       t_pml4 = c_cr3 c, t_status = 0, t_next = 0\<rparr>"

lemma forked_inv:
  assumes inv: "kernel_inv k ts bs" and h: "heap_inv h' bs'" "task_blocks (ts @ [a]) bs' h'"
    and s: "sched_inv s (ts @ [a])" "keeps_tasks ts (k_sched k) s" "current_task s = current_task (k_sched k)"
    and v: "vm_inv v" "root v = entry_frame (cr3 v)" "cr3 v = cr3 (k_vm k)"
  shows "kernel_inv (k\<lparr>k_files := (k_files k)\<lparr>fheap := h'\<rparr>, k_vm := v, k_sched := s\<rparr>) (ts @ [a]) bs'"
proof -
  note i = inv [unfolded kernel_inv_def]
  have "current_task (k_sched k) \<in> set ts" using i by (simp add: sched_inv_def)
  moreover from this have "tasks (k_sched k) (current_task (k_sched k)) \<noteq> None"
    using i path_Some by (fastforce simp: sched_inv_def)
  ultimately have "t_pml4 (the (tasks s (current_task s))) = cr3 (k_vm k)"
    using s(2,3) i by (auto simp: keeps_tasks_def map_option_case split: option.splits)
  then show ?thesis using h s(1) v by (simp add: kernel_inv_def)
qed

lemma fork_call_spec:
  assumes inv: "kernel_inv k ts bs" and room: "next_pid (k_sched k) < next_pid (k_sched k) + 1"
    and pages: "fork_room (fheap (k_files k)) (k_vm k) (Suc (card (child_paths (k_vm k)))) bs" "table (k_vm k) [0] \<noteq> None"
  obtains k' a bs' R where "fork_call ip sp bp k = Some (next_pid (k_sched k), k')" "kernel_inv k' (ts @ [a]) bs'"
    "forked k ts a \<lparr>c_rip = ip, c_rsp = sp, c_rbp = bp, c_cr3 = R * 0x1000\<rparr> k'" "space_copied (k_vm k) R (k_vm k')"
proof -
  note i = inv [unfolded kernel_inv_def]
  let ?S = "start_address (heap (fheap (k_files k)))"
  obtain a h1 bs1 where a: "\<forall>w. heap_kmalloc (of_nat (sizeof task_layout)) 0 (fheap (k_files k), w) = Some (a, h1, w)" "a \<noteq> 0" "a \<notin> set ts"
    "heap_avail ?S (set (allocs (unat ?S) bs1)) (Suc (card (child_paths (k_vm k)))) Map.empty h1 (k_vm k)"
    "\<forall>t \<in> set (ts @ [a]). 16 \<le> unat t \<and> (\<exists>l. 32 \<le> l \<and> (unat t - 16, l) \<in> set (allocs (unat ?S) bs1))"
    using i by (auto intro: task_allocated [OF _ _ pages(1)])
  obtain R h' v bs' where v: "clone_pml4t (h1, k_vm k) = Some (R * 0x1000, h', v)" "space_copied (k_vm k) R v"
    "heap_inv h' bs'" "start_address (heap h') = ?S" "set (allocs (unat ?S) bs1) \<subseteq> set (allocs (unat ?S) bs')"
    using clone_pml4t_copies [OF _ _ pages(2) a(4)] i by blast
  have tb: "task_blocks (ts @ [a]) bs' h'" unfolding task_blocks_def v(4) using a(5) v(5) by blast
  obtain s where s: "fork a (R * 0x1000) ip sp bp (k_sched k) = Some (next_pid (k_sched k), s)" "sched_inv s (ts @ [a])"
    "tasks s a = Some \<lparr>t_pid = next_pid (k_sched k), t_rsp = sp, t_rbp = bp, t_rip = ip, t_pml4 = R * 0x1000, t_status = 0, t_next = 0\<rparr>"
    "current_task s = current_task (k_sched k)" "ready s a" "keeps_tasks ts (k_sched k) s"
    using i a(2,3) room by (auto intro: fork_spec [of "k_sched k" ts a "R * 0x1000" ip sp bp])
  let ?k = "k\<lparr>k_files := (k_files k)\<lparr>fheap := h'\<rparr>, k_vm := v, k_sched := s\<rparr>"
  have "fork_call ip sp bp k = Some (next_pid (k_sched k), ?k)"
    using a(1) v(1) s(1) by (simp add: fork_call_def)
  moreover have "kernel_inv ?k (ts @ [a]) bs'"
    using forked_inv [OF inv v(3) tb s(2,6,4)] v(2) by (simp add: space_copied_def)
  moreover have "forked k ts a \<lparr>c_rip = ip, c_rsp = sp, c_rbp = bp, c_cr3 = R * 0x1000\<rparr> ?k"
    using a(3) s by (simp add: forked_def)
  ultimately show thesis using that v(2) by simp
qed

section \<open>Switches\<close>

lemma find_only:
  assumes "y \<in> set xs" "P y" "\<And>x. x \<in> set xs \<Longrightarrow> P x \<Longrightarrow> x = y"
  shows "find P xs = Some y"
proof (cases "find P xs")
  case None
  then show ?thesis using assms(1,2) by (simp add: find_None_iff)
next
  case (Some z)
  then show ?thesis using assms(3) find_mem [OF Some] by simp
qed

lemma find_in_first: "find P xs = Some y \<Longrightarrow> find P (xs @ ys) = Some y"
  by (induction xs) (auto split: if_splits)

text \<open>The one ready task behind the current one.\<close>

lemma find_other:
  assumes "distinct xs" "i < length xs" "y \<in> set xs" "P y" "y \<noteq> xs ! i" "\<And>x. x \<in> set xs \<Longrightarrow> P x \<Longrightarrow> x = y \<or> x = xs ! i"
  shows "find P (rotate (Suc i) xs) = Some y"
proof -
  let ?ys = "drop (Suc i) xs @ take i xs"
  have xs: "xs = take i xs @ xs ! i # drop (Suc i) xs" using assms(2) by (rule id_take_nth_drop)
  have "rotate (Suc i) xs = ?ys @ [xs ! i]"
    using assms(2) xs by (cases "Suc i = length xs") (simp_all add: rotate_drop_take take_Suc_conv_app_nth)
  moreover have "y \<in> set ?ys" using assms(3,5) by (subst (asm) xs) auto
  moreover have "xs ! i \<notin> set ?ys" using assms(1) by (subst (asm) xs) auto
  moreover have "set ?ys \<subseteq> set xs" by (auto dest: in_set_dropD in_set_takeD)
  ultimately have "find P ?ys = Some y" using assms(4,6) by (intro find_only) blast+
  then show ?thesis unfolding \<open>rotate (Suc i) xs = _\<close> by (rule find_in_first)
qed

lemma switch_call_to:
  assumes inv: "kernel_inv k ts bs" and ip: "ip \<noteq> 0x12345"
    and cur: "current_task (k_sched k) = ts ! i" "i < length ts" "find (ready (k_sched k)) (rotate (Suc i) ts) = Some a" "a \<noteq> ts ! i"
    and t: "tasks (k_sched k) a = Some t"
    and space: "vm_inv (switch_paging (t_pml4 t) (k_vm k))" "root (switch_paging (t_pml4 t) (k_vm k)) = entry_frame (t_pml4 t)"
  obtains k' where "switch_call ip sp bp k = Some (Some \<lparr>c_rip = t_rip t, c_rsp = t_rsp t, c_rbp = t_rbp t, c_cr3 = t_pml4 t\<rparr>, k')"
    "kernel_inv k' ts bs" "current_task (k_sched k') = a" "k_vm k' = switch_paging (t_pml4 t) (k_vm k)"
    "keeps_tasks ts (k_sched k) (k_sched k')"
    "tasks (k_sched k') (ts ! i) = map_option (\<lambda>t. t\<lparr>t_rip := ip, t_rsp := sp, t_rbp := bp\<rparr>) (tasks (k_sched k) (ts ! i))"
proof -
  note v = inv [unfolded kernel_inv_def]
  then have s: "sched_inv (k_sched k) ts" by blast
  let ?s1 = "upd_task (ts ! i) (\<lambda>t. t\<lparr>t_rip := ip, t_rsp := sp, t_rbp := bp\<rparr>) (k_sched k)"
  let ?s = "?s1\<lparr>current_task := a, interrupts := True\<rparr>"
  let ?k = "k\<lparr>k_sched := ?s, k_vm := switch_paging (t_pml4 t) (k_vm k)\<rparr>"
  have ta: "tasks ?s1 a = Some t" using t cur(4) by simp
  have "switch_task ip sp bp (k_sched k) = Some (?s, Some \<lparr>c_rip = t_rip t, c_rsp = t_rsp t, c_rbp = t_rbp t, c_cr3 = t_pml4 t\<rparr>)"
    using switch_task_eq [OF s cur(1,2) ip, of sp bp] cur(1,3) ta by (simp add: Let_def)
  then have "switch_call ip sp bp k = Some (Some \<lparr>c_rip = t_rip t, c_rsp = t_rsp t, c_rbp = t_rbp t, c_cr3 = t_pml4 t\<rparr>, ?k)"
    by (simp add: switch_call_def load_context_def)
  moreover have "sched_inv ?s ts"
    using sched_inv_save [OF s, of a bp sp ip] find_rotate_mem [OF cur(3)] cur(1) by simp
  moreover have "keeps_tasks ts (k_sched k) ?s"
    by (auto simp: keeps_tasks_def pid_of_def ready_def option.map_comp o_def map_option_case split: option.splits)
  ultimately show thesis
    using that [of ?k] v space t cur(4) by (simp add: kernel_inv_def switch_paging_def)
qed

lemma exit_call_to:
  assumes inv: "kernel_inv k ts bs" and ip: "ip \<noteq> 0x12345"
    and cur: "current_task (k_sched k) = ts ! i" "i < length ts" "a \<in> set ts" "a \<noteq> ts ! i" "ready (k_sched k) a"
      "\<And>x. x \<in> set ts \<Longrightarrow> ready (k_sched k) x \<Longrightarrow> x = a \<or> x = ts ! i"
    and t: "tasks (k_sched k) a = Some t"
    and space: "vm_inv (switch_paging (t_pml4 t) (k_vm k))" "root (switch_paging (t_pml4 t) (k_vm k)) = entry_frame (t_pml4 t)"
  obtains k' where "exit_call ip sp bp k = Some (Some \<lparr>c_rip = t_rip t, c_rsp = t_rsp t, c_rbp = t_rbp t, c_cr3 = t_pml4 t\<rparr>, k')"
    "kernel_inv k' ts bs" "current_task (k_sched k') = a" "k_vm k' = switch_paging (t_pml4 t) (k_vm k)"
    "\<not> ready (k_sched k') (ts ! i)"
proof -
  note v = inv [unfolded kernel_inv_def]
  then have s: "sched_inv (k_sched k) ts" by blast
  have mem: "ts ! i \<in> set ts" using cur(2) by simp
  obtain s' where s': "change_task_status (pid_of (k_sched k) (ts ! i)) 2 (k_sched k) = Some s'" "sched_inv s' ts"
    "tasks s' = (tasks (k_sched k))(ts ! i := map_option (\<lambda>t. t\<lparr>t_status := 2\<rparr>) (tasks (k_sched k) (ts ! i)))"
    "current_task s' = current_task (k_sched k)"
    using change_task_status_spec [OF s mem, of 2] by blast
  let ?k = "k\<lparr>k_sched := s'\<lparr>interrupts := True\<rparr>\<rparr>"
  have k: "kernel_inv ?k ts bs"
    unfolding kernel_inv_def
  proof (intro conjI)
    show "sched_inv (k_sched ?k) ts" by (rule sched_inv_cong [OF s'(2)]) (use s'(2) in \<open>auto simp: sched_inv_def\<close>)
    have "tasks (k_sched k) (ts ! i) \<noteq> None" using s mem path_Some by (fastforce simp: sched_inv_def)
    then show "t_pml4 (the (tasks (k_sched ?k) (current_task (k_sched ?k)))) = cr3 (k_vm ?k)"
      using v s'(3,4) cur(1) by auto
  qed (use v in simp_all)
  have r: "ready (k_sched ?k) x \<longleftrightarrow> ready (k_sched k) x \<and> x \<noteq> ts ! i" for x
    by (auto simp: ready_def s'(3))
  have fd: "find (ready (k_sched ?k)) (rotate (Suc i) ts) = Some a"
    by (rule find_only) (use cur r in auto)
  have c: "current_task (k_sched ?k) = ts ! i" "tasks (k_sched ?k) a = Some t" "k_vm ?k = k_vm k"
    using s'(3,4) cur(1,4) t by simp_all
  obtain k' where k': "switch_call ip sp bp ?k = Some (Some \<lparr>c_rip = t_rip t, c_rsp = t_rsp t, c_rbp = t_rbp t, c_cr3 = t_pml4 t\<rparr>, k')"
    "kernel_inv k' ts bs" "current_task (k_sched k') = a" "k_vm k' = switch_paging (t_pml4 t) (k_vm ?k)"
    "keeps_tasks ts (k_sched ?k) (k_sched k')"
    by (rule switch_call_to [OF k ip c(1) cur(2) fd cur(4) c(2), of sp bp]) (use space in \<open>simp_all add: c(3)\<close>)
  have "get_current_pid (k_sched k) = Some (pid_of (k_sched k) (ts ! i))"
    using s mem path_Some cur(1) by (fastforce simp: get_current_pid_def pid_of_def sched_inv_def)
  then have "exit_call ip sp bp k = map_option (\<lambda>r. load_context r k) (switch_task ip sp bp (k_sched ?k))"
    by (simp add: exit_call_def exit_task_def s'(1))
  moreover have "(\<lambda>r. load_context r k) = (\<lambda>r. load_context r ?k)"
    by (rule ext) (simp add: load_context_def split: prod.split option.split)
  ultimately have "exit_call ip sp bp k = switch_call ip sp bp ?k" by (simp add: switch_call_def)
  moreover have "\<not> ready (k_sched k') (ts ! i)" using k'(5) r mem by (auto simp: keeps_tasks_def)
  ultimately show thesis using that k'(1-4) by simp
qed

end
