(* ===== verification/BootCorrect.thy ===== *)
theory BootCorrect
  imports Process
begin

text \<open>
  What the kernel is after \<open>kernel_entry\<close>: every component in its invariant, on the pages the others have
  prepared for it.
\<close>

section \<open>Memory\<close>

lemma registers_ok: "n < 255 \<Longrightarrow> length (handlers s) = MAX_HANDLERS \<Longrightarrow>
    register_handler (int n) h s = Some (s\<lparr>handlers := (handlers s)[n := Some h]\<rparr>)"
  by (simp add: register_handler_def MAX_HANDLERS_def)

lemma memman_init_map_next:
  "kernel_next_block (memman_init_map kstart kend rs s) =
     0xc0000 + blocks_used_by_kernel kstart kend (mem_max_blocks (memman_init_map kstart kend rs s))"
  by (simp add: memman_init_map_def Let_def split: prod.split)

text \<open>
  What the boot loader has to leave: a memory map whose available regions do not wrap around, enough memory, room for
  the heap below its limit, page tables of its own in the first megabyte, and zeros in the free blocks.
\<close>

definition boot_map :: "'w boot_args \<Rightarrow> 'w kernel \<Rightarrow> memman" where
  "boot_map b k = memman_init_map (b_kernel_start b) (b_kernel_end b) (memory_map (fmem (k_files k)) (b_bootinfo b)) (mm (k_vm k))"

definition kernel_blocks :: "'w boot_args \<Rightarrow> 'w kernel \<Rightarrow> u64" where
  "kernel_blocks b k = blocks_used_by_kernel (b_kernel_start b) (b_kernel_end b) (mem_max_blocks (boot_map b k))"

definition boot_ready :: "'w boot_args \<Rightarrow> 'w kernel \<Rightarrow> bool" where
  "boot_ready b k \<longleftrightarrow>
     (\<forall>r \<in> set (memory_map (fmem (k_files k)) (b_bootinfo b)). region_type r = 1 \<longrightarrow>
        unat (region_start r) + unat (region_size r) < 2 ^ 64) \<and>
     512 + unat (kernel_blocks b k) \<le> unat (mem_max_blocks (boot_map b k)) \<and> unat (mem_max_blocks (boot_map b k)) \<le> 2 ^ 40 \<and>
     unat (kernel_blocks b k) + 33 \<le> 0x10000 \<and>
     3 * unat (kernel_blocks b k) + 173 \<le> card (free_blocks (boot_map b k) \<inter> {..<searched (boot_map b k)}) \<and>
     unat (entry_frame (cr3 (k_vm k))) < 256 \<and>
     (\<forall>f i. unat f \<in> free_blocks (boot_map b k) \<longrightarrow> mem (k_vm k) f i = 0) \<and>
     length (handlers (k_machine k)) = MAX_HANDLERS"

text \<open>The pages of the kernel, and the heap in pages of its own behind the video memory.\<close>

definition heap_start :: "u64 \<Rightarrow> u64" where
  "heap_start blocks = (0xc0000 + blocks + 1) * 0x1000"

definition kernel_pages :: "u64 \<Rightarrow> (nat \<Rightarrow> u64) \<Rightarrow> vm \<Rightarrow> bool" where
  "kernel_pages blocks F v \<longleftrightarrow>
     (\<forall>k < unat blocks. translate v (kernel_va k) = Some (0x200 + of_nat k)) \<and>
     translate v 0xfffff000 = Some 8 \<and> translate v (kernel_va (unat blocks)) = Some 0xB8 \<and> inj_on F {..<32} \<and>
     (\<forall>k < 32. translate v (heap_start blocks + of_nat k * 0x1000) = Some (F k))"

text \<open>The frames of the heap are in use, and no tables.\<close>

definition heap_frames :: "(nat \<Rightarrow> u64) \<Rightarrow> vm \<Rightarrow> bool" where
  "heap_frames F v \<longleftrightarrow> (\<forall>k < 32. unat (F k) \<in> used_set (mm v) \<and> no_table v (F k))"

lemma heap_frames_grows:
  assumes "heap_frames F v" "grows v v'"
  shows "heap_frames F v'"
  using assms grows_used [OF assms(2)] unfolding heap_frames_def grows_def by (auto simp: used_set_alt)

text \<open>
  Nothing is mapped but pages of the fourth gigabyte, in front of \<open>_kernel_next_block\<close> or behind the heap; the
  numbers of these pages.
\<close>

definition kernel_page_number :: "vm \<Rightarrow> nat \<Rightarrow> bool" where
  "kernel_page_number v j \<longleftrightarrow> 0xc0000 \<le> j \<and> j < unat (kernel_next_block (mm v)) \<or> 0xd0010 \<le> j \<and> j < 0x100000"

definition kernel_space :: "vm \<Rightarrow> bool" where
  "kernel_space v \<longleftrightarrow> 0xc0000 \<le> unat (kernel_next_block (mm v)) \<and> unat (kernel_next_block (mm v)) \<le> 0xd0000 \<and>
     (\<forall>q. valid_path q \<longrightarrow> length q \<le> 4 \<longrightarrow> q \<noteq> [] \<longrightarrow> table v q \<noteq> None \<longrightarrow>
        (\<exists>a j. unat a = j * 4096 \<and> kernel_page_number v j \<and> prefix q (va_path a)))"

lemma kernel_space_changes:
  assumes v: "kernel_space v" and c: "changes_below v B v'"
    and k: "unat (kernel_next_block (mm v)) \<le> unat (kernel_next_block (mm v'))" "unat (kernel_next_block (mm v')) \<le> 0xd0000"
    and B: "\<forall>a \<in> B. \<exists>j. unat a = j * 4096 \<and> kernel_page_number v' j"
  shows "kernel_space v'"
proof -
  have "\<exists>a j. unat a = j * 4096 \<and> kernel_page_number v' j \<and> prefix q (va_path a)"
    if q: "valid_path q" "length q \<le> 4" "q \<noteq> []" "table v' q \<noteq> None" for q
  proof (cases "\<exists>a \<in> B. prefix q (va_path a)")
    case True
    then show ?thesis using B by blast
  next
    case False
    then have "table v q \<noteq> None" using c q by (simp add: changes_below_def)
    then obtain a j where "unat a = j * 4096" "kernel_page_number v j" "prefix q (va_path a)"
      using v q by (auto simp: kernel_space_def)
    moreover have "kernel_page_number v' j" using calculation(2) k(1) by (auto simp: kernel_page_number_def)
    ultimately show ?thesis by blast
  qed
  then show ?thesis using v k by (simp add: kernel_space_def)
qed

definition vm_ready :: "vm \<Rightarrow> nat \<Rightarrow> bool" where
  "vm_ready v left \<longleftrightarrow> vm_inv v \<and> free_zeroed v \<and> root v = entry_frame (cr3 v) \<and> can_alloc left (mm v) \<and> kernel_space v"

lemma heap_start_unat: "unat blocks + 33 \<le> 0x10000 \<Longrightarrow> unat (heap_start blocks) = 0xc0000000 + (unat blocks + 1) * 4096"
proof -
  assume b: "unat blocks + 33 \<le> 0x10000"
  have "unat (0xc0000 + blocks + 1 :: u64) = 0xc0000 + unat blocks + 1"
    using b by (subst unat_add_small, subst unat_add_small) (simp_all add: unat_add_small)
  then show ?thesis using b unfolding heap_start_def by (simp add: unat_word_ariths)
qed

text \<open>Pages with different numbers below \<open>2^47\<close>.\<close>

lemma paths_apart:
  assumes "unat a = m * 4096" "unat b = n * 4096" "m < 2 ^ 35" "n < 2 ^ 35" "m \<noteq> n"
  shows "va_path a \<noteq> va_path b"
  by (rule va_path_neq) (use assms in simp_all)

lemma heap_page:
  assumes "unat blocks + 33 \<le> 0x10000" "k < 32"
  shows "unat (heap_start blocks + of_nat k * 0x1000) = (0xc0000 + unat blocks + 1 + k) * 4096"
proof -
  have "unat (heap_start blocks) + 32 * 4096 \<le> 2 ^ 47" using assms heap_start_unat by simp
  from page_address [OF this assms(2)] show ?thesis using heap_start_unat [OF assms(1)] by simp
qed

lemma kernel_va_page: "k < 0x3FFFF \<Longrightarrow> unat (kernel_va k) = (0xc0000 + k) * 4096"
  using kernel_page(1) by simp

lemma next_block_unat: "unat blocks + 33 \<le> 0x10000 \<Longrightarrow> unat (0xc0000 + blocks + 1 :: u64) = 0xc0000 + unat blocks + 1"
  by (subst unat_add_small, subst unat_add_small) (simp_all add: unat_add_small)

lemma kernel_mapped_space:
  assumes m: "kernel_mapped blocks v" and n: "kernel_next_block (mm v) = 0xc0000 + blocks + 1" and b: "unat blocks + 33 \<le> 0x10000"
  shows "kernel_space v"
proof -
  note k = next_block_unat [OF b, folded n]
  have "\<exists>a j. unat a = j * 4096 \<and> kernel_page_number v j \<and> prefix q (va_path a)"
    if q: "valid_path q" "length q \<le> 4" "table v q \<noteq> None" for q
  proof -
    have top: "unat (0xfffff000 :: u64) = 0xfffff * 4096" "kernel_page_number v 0xfffff" by (simp_all add: kernel_page_number_def)
    have own: "unat (kernel_va i) = (0xc0000 + i) * 4096" "kernel_page_number v (0xc0000 + i)" if "i \<le> unat blocks" for i
      using kernel_va_page [of i] that k b by (simp_all add: kernel_page_number_def)
    have "\<exists>a \<in> insert 0xfffff000 (kernel_va ` {..unat blocks}). prefix q (va_path a)"
      using m [unfolded kernel_mapped_def] q by meson
    then show ?thesis
    proof
      fix a assume p: "prefix q (va_path a)" and "a \<in> insert 0xfffff000 (kernel_va ` {..unat blocks})"
      then have "a = 0xfffff000 \<or> (\<exists>i \<le> unat blocks. a = kernel_va i)" by blast
      then show ?thesis using top own p by blast
    qed
  qed
  then show ?thesis using k b by (simp add: kernel_space_def)
qed

lemma memman_init_ready:
  assumes "boot_ready b k"
  obtains v where "memman_init h (b_kernel_start b) (b_kernel_end b) (fmem (k_files k)) (b_bootinfo b) (k_machine k) (k_vm k) =
      Some ((k_machine k)\<lparr>handlers := (handlers (k_machine k))[14 := Some h]\<rparr>, v)"
    "vm_ready v 166" "kernel_mapped (kernel_blocks b k) v" "kernel_next_block (mm v) = 0xc0000 + kernel_blocks b k + 1"
proof -
  let ?rs = "memory_map (fmem (k_files k)) (b_bootinfo b)" and ?n = "unat (kernel_blocks b k)"
  define v where "v = (k_vm k)\<lparr>mm := boot_map b k\<rparr>"
  note r = assms [unfolded boot_ready_def]
  have map: "mm_inv (boot_map b k)" "free_blocks (boot_map b k) \<subseteq> avail_blocks ?rs - {..<256} - {512..<512 + ?n}"
    using memman_init_map_spec [of ?rs "b_kernel_start b" "b_kernel_end b" "mm (k_vm k)"] r
    unfolding boot_map_def [symmetric] kernel_blocks_def [symmetric] by auto
  have v: "mm v = boot_map b k" "cr3 v = cr3 (k_vm k)" "mem v = mem (k_vm k)" by (simp_all add: v_def)
  have z: "free_zeroed v" using r by (simp add: free_zeroed_def v)
  have low: "0 \<notin> free_blocks (mm v)" "unat (entry_frame (cr3 v)) \<notin> free_blocks (mm v)" using map(2) r by (auto simp: v)
  have "Suc (3 * (?n + 2) + 166) \<le> card (free_blocks (mm v) \<inter> {..<searched (mm v)})" using r by (simp add: v)
  then have ok: "can_alloc (Suc (3 * (?n + 2) + 166)) (mm v)"
    using map(1) r low(1) by (intro can_alloc_enough) (simp_all add: v)
  have "kernel_next_block (mm v) = 0xc0000 + kernel_blocks b k"
    unfolding v boot_map_def kernel_blocks_def by (rule memman_init_map_next)
  then obtain v' where v': "memman_init_paging (kernel_blocks b k) v = Some v'" "vm_inv v'" "free_zeroed v'"
    "root v' = entry_frame (cr3 v')" "kernel_mapped (kernel_blocks b k) v'"
    "kernel_next_block (mm v') = 0xc0000 + kernel_blocks b k + 1" "can_alloc 166 (mm v')"
    using memman_init_paging_left [of v "kernel_blocks b k" 166] map(1) r z low(2) ok by (auto simp: v)
  have "register_handler 0x0E h (k_machine k) = Some ((k_machine k)\<lparr>handlers := (handlers (k_machine k))[14 := Some h]\<rparr>)"
    using registers_ok [of 14 "k_machine k" h] r by simp
  then have "memman_init h (b_kernel_start b) (b_kernel_end b) (fmem (k_files k)) (b_bootinfo b) (k_machine k) (k_vm k) =
      Some ((k_machine k)\<lparr>handlers := (handlers (k_machine k))[14 := Some h]\<rparr>, v')"
    using v'(1) by (simp add: memman_init_def v_def boot_map_def kernel_blocks_def Let_def)
  moreover have "unat (kernel_blocks b k) + 33 \<le> 0x10000" using r by simp
  ultimately show thesis using that v' kernel_mapped_space [OF v'(5,6)] by (simp add: vm_ready_def)
qed

lemma kernel_heap_pages:
  assumes "vm_ready v 166" "kernel_mapped blocks v" "kernel_next_block (mm v) = 0xc0000 + blocks + 1" "unat blocks + 33 \<le> 0x10000"
  obtains v' F where "alloc_kernel_page 32 v = Some (heap_start blocks, v')" "vm_ready v' 38" "kernel_pages blocks F v'"
    "heap_frames F v'"
proof -
  have n: "unat (32 :: u64) = 32" by simp
  note k = next_block_unat [OF assms(4), folded assms(3)]
  then have le: "unat (kernel_next_block (mm v)) * 4096 + unat (32 :: u64) * 4096 \<le> 2 ^ 47" using assms(4) by simp
  have "can_alloc (4 * unat (32 :: u64) + 38) (mm v)" using assms(1) by (simp add: vm_ready_def)
  then obtain v' F where v': "alloc_kernel_page 32 v = Some (heap_start blocks, v')" "vm_inv v'" "free_zeroed v'"
    "root v' = entry_frame (cr3 v')" "can_alloc 38 (mm v')" "kernel_next_block (mm v') = kernel_next_block (mm v) + 32"
    and added: "pages_added v (heap_start blocks) 32 F v'" and max: "mem_max_blocks (mm v') = mem_max_blocks (mm v)"
    using alloc_kernel_page_left [OF _ _ _ le] assms(1) unfolding n assms(3) heap_start_def vm_ready_def by metis
  have keep: "translate v' va = translate v va"
    if "unat va = j * 4096" "j < 2 ^ 35" "j < 0xc0000 + unat blocks + 1 \<or> 0xc0000 + unat blocks + 33 \<le> j" for va j
  proof -
    have "va_path va \<noteq> va_path (heap_start blocks + of_nat k * 0x1000)" if "k < 32" for k
      using paths_apart [OF \<open>unat va = j * 4096\<close> heap_page [OF assms(4) that]] \<open>j < 2 ^ 35\<close> that assms(4)
        \<open>j < 0xc0000 + unat blocks + 1 \<or> _\<close> by auto
    then show ?thesis using added page_512(1) [OF that(1,2)] by (auto simp: pages_added_def)
  qed
  note m = assms(2) [unfolded kernel_mapped_def]
  have "kernel_pages blocks F v'"
    unfolding kernel_pages_def
  proof (intro conjI allI impI)
    fix k assume k: "k < unat blocks"
    then show "translate v' (kernel_va k) = Some (0x200 + of_nat k)"
      using keep [OF kernel_va_page, of k] m assms(4) by simp
  next
    show "translate v' 0xfffff000 = Some 8" using keep [of "0xfffff000" "0xfffff"] m assms(4) by simp
    have "video_memory v = kernel_va (unat blocks)" using m kernel_va_page [of "unat blocks"] assms(4)
      by (simp add: word_unat_eq_iff)
    then show "translate v' (kernel_va (unat blocks)) = Some 0xB8"
      using keep [OF kernel_va_page, of "unat blocks"] m assms(4) by simp
  qed (use added in \<open>simp_all add: pages_added_def\<close>)
  moreover have "kernel_space v'"
  proof (rule kernel_space_changes)
    show "kernel_space v" using assms(1) by (simp add: vm_ready_def)
    show "changes_below v ((\<lambda>k. heap_start blocks + of_nat k * 0x1000) ` {..<32}) v'" using added by (simp add: pages_added_def)
    have "unat (kernel_next_block (mm v) + 32) = unat (kernel_next_block (mm v)) + 32"
      using k assms(4) by (subst unat_add_small) simp_all
    then have k': "unat (kernel_next_block (mm v')) = 0xc0000 + unat blocks + 33" using k v'(6) by simp
    then show "unat (kernel_next_block (mm v)) \<le> unat (kernel_next_block (mm v'))" "unat (kernel_next_block (mm v')) \<le> 0xd0000"
      using k assms(4) by simp_all
    show "\<forall>a \<in> (\<lambda>k. heap_start blocks + of_nat k * 0x1000) ` {..<32}. \<exists>j. unat a = j * 4096 \<and> kernel_page_number v' j"
    proof
      fix a assume "a \<in> (\<lambda>k. heap_start blocks + of_nat k * 0x1000) ` {..<32}"
      then obtain i where i: "i < 32" "a = heap_start blocks + of_nat i * 0x1000" by auto
      show "\<exists>j. unat a = j * 4096 \<and> kernel_page_number v' j"
        by (rule exI [of _ "0xc0000 + unat blocks + 1 + i"])
          (use heap_page [OF assms(4) i(1)] i k' in \<open>simp add: kernel_page_number_def\<close>)
    qed
  qed
  moreover have "heap_frames F v'"
    unfolding heap_frames_def
  proof (intro allI impI)
    fix k :: nat assume "k < 32"
    then have "unat (F k) \<in> free_blocks (mm v) - free_blocks (mm v')" "no_table v' (F k)" using added by (simp_all add: pages_added_def)
    then show "unat (F k) \<in> used_set (mm v') \<and> no_table v' (F k)" by (auto simp: used_set_alt max free_blocks_def)
  qed
  ultimately show thesis using that v' by (simp add: vm_ready_def)
qed

lemma next_page: "4096 * p + 64 \<le> 4096 * q \<Longrightarrow> 4096 * q < 4096 * p + 64 + 4096 \<Longrightarrow> q = p + 1" for p q :: nat
  by arith

lemma kheap_init_start:
  assumes "unat blocks + 33 \<le> 0x10000"
  obtains h where "kheap_init (\<lambda>_. heap_start blocks) st = Some h" "heap_inv h [(0x17000, Bare)]"
    "start_address (heap h) = heap_start blocks + 0x9000" "end_address (heap h) = heap_start blocks + 0x20000"
proof -
  let ?s = "heap_start blocks" and ?h = "create_heap (heap_start blocks) (heap_start blocks + 0x20000) 0xd0000000 0 0 st"
  note hs = heap_start_unat [OF assms]
  have s: "unat ?s + 0x8040 + 4096 \<le> 2 ^ 32" using hs assms by simp
  have u: "unat (?s + 0x8040) = unat ?s + 0x8040" "unat (?s + 0x20000) = unat ?s + 0x20000" "unat (?s + 0x9000) = unat ?s + 0x9000"
    using s by (subst unat_add_small; simp)+
  have r: "page_round_up (?s + 0x8040) = ?s + 0x9000"
  proof -
    have "unat (?s + 0x8040) + 4096 \<le> 2 ^ 32" using s u(1) by simp
    note p = page_round_up_spec [OF this]
    from p(3) obtain q where q: "unat (page_round_up (?s + 0x8040)) = 4096 * q" by (auto simp: mod_eq_0_iff_dvd elim: dvdE)
    have x: "unat (?s + 0x8040) = 4096 * (0xc0000 + unat blocks + 9) + 64" unfolding u(1) hs by simp
    have "q = 0xc0000 + unat blocks + 9 + 1" using p(1,2) unfolding x q by (rule next_page)
    then show ?thesis using q hs u(3) by (simp add: word_unat_eq_iff)
  qed
  note c = create_heap_spec [OF s, of "?s + 0x20000" "0xd0000000" 0 0 st]
  have "heap_inv ?h [(0x17000, Bare)]" "start_address (heap ?h) = ?s + 0x9000" "end_address (heap ?h) = ?s + 0x20000"
    using c u unfolding r by (simp_all add: word_unat_eq_iff)
  then show thesis using that [of "log_msg ''[KHEAP] kernel heap initialized.'' ?h"]
    by (simp add: kheap_init_def log_msg_def heap_inv_def Let_def)
qed


section \<open>The heap and the file system\<close>

text \<open>A block from the only hole, at the end of the heap.\<close>

lemma fs_kmalloc_last:
  assumes inv: "heap_inv (fheap s) (us @ [(N, k)])" and k: "k \<noteq> Used" and used: "\<forall>b \<in> set us. snd b = Used"
    and sz: "0 < unat sz" "unat sz + 64 \<le> N"
  shows "\<exists>a s'. fs_kmalloc sz s = Some (a, s') \<and> heap_inv (fheap s') (us @ [(unat sz + 32, Used), (N - (unat sz + 32), Hole)]) \<and>
    unat a = unat (start_address (heap (fheap s))) + span us + 16 \<and> partition s' = partition s \<and>
    start_address (heap (fheap s')) = start_address (heap (fheap s)) \<and> end_address (heap (fheap s')) = end_address (heap (fheap s))"
proof -
  have "N \<le> unat (end_address (heap (fheap s)))" using inv by (simp add: heap_inv_def)
  then have "unat sz + 64 < 18446744073709551616" using sz(2) unat_lt_64 by (meson le_less_trans le_trans)
  then have "unat sz + 32 < 2 ^ 64" by simp
  moreover have "(N, k) \<in> set (us @ [(N, k)])" "unat sz + 32 \<le> N" using sz(2) by simp_all
  ultimately obtain a st' as n' k' bs' where r: "alloc sz 0 (fheap s) = Some (a, st')" "us @ [(N, k)] = as @ (n', k') # bs'" "k' \<noteq> Used"
    "unat a = unat (start_address (heap (fheap s))) + span as + 16" "heap_inv st' (as @ carve n' (unat sz + 32) @ bs')"
    "start_address (heap st') = start_address (heap (fheap s))" "end_address (heap st') = end_address (heap (fheap s))"
    using alloc_fitting [OF inv _ _ k] by blast
  have room: "\<not> N - (unat sz + 32) < 32" using sz(2) by simp
  have "as = us \<and> n' = N \<and> k' = k \<and> bs' = []"
    using r(2,3) k used by (induction us arbitrary: as) (auto simp: Cons_eq_append_conv append_eq_Cons_conv)
  then have "heap_inv st' (us @ [(unat sz + 32, Used), (N - (unat sz + 32), Hole)])" "unat a = unat (start_address (heap (fheap s))) + span us + 16"
    using r(4,5) room by (simp_all add: carve_def)
  moreover have "sz \<noteq> 0" using sz(1) by auto
  then have "fs_kmalloc sz s = Some (a, s\<lparr>fheap := st'\<rparr>)"
    using r(1) by (simp add: fs_kmalloc_def kmalloc_def kmalloc_int_def)
  ultimately show ?thesis using r(6,7) by (intro exI [of _ a] exI [of _ "s\<lparr>fheap := st'\<rparr>"]) simp
qed

text \<open>Writing into a block.\<close>

lemma heap_inv_write:
  assumes inv: "heap_inv (fheap s) bs" and blk: "(q, l) \<in> set (allocs (unat (start_address (heap (fheap s)))) bs)"
    and m: "\<And>x. \<not> (q + 16 \<le> unat x \<and> unat x < q + l - 16) \<Longrightarrow> m x = fmem s x"
  shows "heap_inv (fheap (set_mem m s)) bs"
proof -
  have "KHeapTiles.same_outside (fmem s) m (q + 16) (q + l - 16)" using m by (simp add: KHeapTiles.same_outside_def)
  from heap_inv_within [OF inv blk this] show ?thesis by (simp add: set_mem_def)
qed

lemma sector_outside:
  assumes "unat a = q + 16" "unat a + 512 \<le> 2 ^ 64" "\<not> (q + 16 \<le> unat x \<and> unat x < q + 528)"
  shows "snd (read_sector disk lba a m) x = m x"
proof -
  have "\<not> unat (x - a) < 512"
  proof
    assume l: "unat (x - a) < 512"
    have "unat (a + (x - a)) = unat a + unat (x - a)" using l assms(2) by (intro unat_add_small) simp
    then have "unat x = unat a + unat (x - a)" by simp
    then show False using assms(1,3) l by linarith
  qed
  then show ?thesis by (simp add: read_sector_def read_sectors_def)
qed

lemma read_sector_ok: "fst (read_sector disk lba a m) = 1"
  by (simp add: read_sector_def read_sectors_def)

text \<open>
  \<open>fat32_init\<close> on a heap whose only hole is at its end: the partition table and the volume id are in blocks of their
  own, the volume id with a zero behind its label.
\<close>

lemma fat32_init_run:
  assumes inv: "heap_inv (fheap s) [(N, k)]" and k: "k \<noteq> Used" and N: "1200 \<le> N"
  defines "S \<equiv> start_address (heap (fheap s))"
  obtains s' where "fat32_init disk s = Some s'" "heap_inv (fheap s') [(544, Used), (544, Used), (N - 1088, Hole)]"
    "unat (partition s') = unat S + 560" "start_address (heap (fheap s')) = S" "end_address (heap (fheap s')) = end_address (heap (fheap s))"
proof -
  have n: "unat (512 :: u64) = 512" by simp
  obtain t s1 where t: "fs_kmalloc 512 s = Some (t, s1)" "heap_inv (fheap s1) [(544, Used), (N - 544, Hole)]" "unat t = unat S + 16"
    "start_address (heap (fheap s1)) = S" "end_address (heap (fheap s1)) = end_address (heap (fheap s))"
    using fs_kmalloc_last [of s "[]" N k 512] inv k N unfolding n S_def by auto
  obtain v s2 where v: "fs_kmalloc 512 s1 = Some (v, s2)" "heap_inv (fheap s2) [(544, Used), (544, Used), (N - 1088, Hole)]"
    "unat v = unat S + 560" "start_address (heap (fheap s2)) = S" "end_address (heap (fheap s2)) = end_address (heap (fheap s))"
  proof -
    have "512 + 64 \<le> N - 544" using N by simp
    then show thesis using that fs_kmalloc_last [of s1 "[(544, Used)]" "N - 544" Hole 512] t unfolding n by auto
  qed
  let ?bs = "[(544, Used), (544, Used), (N - 1088, Hole)]"
  have al: "(unat S, 544) \<in> set (allocs (unat S) ?bs)" "(unat S + 544, 544) \<in> set (allocs (unat S) ?bs)" by simp_all
  have "unat S + 1200 \<le> unat (end_address (heap (fheap s2)))" using v(2,4) N by (simp add: heap_inv_def)
  then have "unat S + 1200 < 18446744073709551616" using unat_lt_64 by (meson le_less_trans)
  then have w: "unat t + 512 \<le> 2 ^ 64" "unat v + 512 \<le> 2 ^ 64" "unat (v + 81) = unat v + 81"
    using t(3) v(3) unat_add_small [of v 81] by simp_all
  define s3 where "s3 = set_mem (snd (read_sector disk 0 t (fmem s2))) s2"
  have 3: "heap_inv (fheap s3) ?bs" unfolding s3_def
    by (rule heap_inv_write [OF v(2), of "unat S" 544]) (use al v(4) sector_outside [OF t(3) w(1)] in auto)
  have h3: "heap (fheap s3) = heap (fheap s2)" by (simp add: s3_def set_mem_def)
  define lba :: u64 where "lba = ucast (partition_lba (fmem s3) t)"
  define s4 where "s4 = set_mem (snd (read_sector disk lba v (fmem s3))) (s3\<lparr>partition_begin_lba := lba\<rparr>)"
  have v': "unat v = unat S + 544 + 16" using v(3) by simp
  have 4: "heap_inv (fheap s4) ?bs" unfolding s4_def
    by (rule heap_inv_write [of _ _ "unat S + 544" 544]) (use 3 h3 al v(4) sector_outside [OF v' w(2)] in auto)
  have h4: "heap (fheap s4) = heap (fheap s2)" by (simp add: s4_def set_mem_def h3)
  define s5 where "s5 = set_mem ((fmem s4)(v + 81 := 0)) s4"
  have 5: "heap_inv (fheap s5) ?bs" unfolding s5_def
    by (rule heap_inv_write [OF 4, of "unat S + 544" 544]) (use h4 al v(3,4) w(3) in auto)
  have nz: "t \<noteq> 0" "v \<noteq> 0" using t(3) v(3) by auto
  have "\<exists>c f. fat32_init disk s = Some (s5\<lparr>partition := v, cluster_begin_lba := c, fat_begin_lba := f\<rparr>)"
    unfolding fat32_init_def
    by (simp add: t(1) v(1) nz read_sector_ok case_prod_unfold Let_def lba_def [symmetric] s3_def [symmetric] s4_def [symmetric] s5_def [symmetric],
        intro exI, rule refl)
  then obtain c f where "fat32_init disk s = Some (s5\<lparr>partition := v, cluster_begin_lba := c, fat_begin_lba := f\<rparr>)" by blast
  moreover have "heap (fheap s5) = heap (fheap s2)" by (simp add: s5_def set_mem_def h4)
  ultimately show thesis using that 5 v(3-5) by simp
qed

section \<open>Devices\<close>

lemma device_page:
  assumes v: "vm_ready v (3 + left)" and p: "kernel_pages blocks F v" "unat blocks + 33 \<le> 0x10000" "heap_frames F v"
    and a: "unat a = n * 4096" "0xd0010 \<le> n" "n < 0xfffff"
  obtains v' where "brute_create_page a a 1 0 v = Some (1, v')" "vm_ready v' left" "kernel_pages blocks F v'" "heap_frames F v'"
    "translate v' a = Some (a div 0x1000)"
    "\<And>b m. unat b = m * 4096 \<Longrightarrow> m < 2 ^ 35 \<Longrightarrow> m \<noteq> n \<Longrightarrow> translate v' b = translate v b"
proof -
  have one: "unat (1 :: u64) = 1" by simp
  have "can_alloc (3 * unat (1 :: u64) + left) (mm v)" using v by (simp add: vm_ready_def)
  then obtain v' where v': "brute_create_page a a 1 0 v = Some (ucast (1 :: u64), v')" "grows v v'" "can_alloc left (mm v')"
    "\<forall>k < unat (1 :: u64). translate v' (a + of_nat k * 0x1000) = Some (a div 0x1000 + of_nat k)"
    and same: "\<forall>b. addr_pml4 b \<noteq> 511 \<longrightarrow> (\<forall>k < unat (1 :: u64). va_path b \<noteq> va_path (a + of_nat k * 0x1000)) \<longrightarrow>
       translate v' b = translate v b"
    and below: "changes_below v ((\<lambda>k. a + of_nat k * 0x1000) ` {..<unat (1 :: u64)}) v'"
    using brute_create_page_left [of v a 1 a left 0] v a unfolding vm_ready_def one by auto
  have other: "translate v' b = translate v b" if "unat b = m * 4096" "m < 2 ^ 35" "m \<noteq> n" for b m
  proof -
    have "va_path b \<noteq> va_path a" using paths_apart [OF that(1) a(1) that(2) _ that(3)] a(3) by simp
    then show ?thesis using same page_512(1) [OF that(1,2)] by simp
  qed
  have "kernel_pages blocks F v'"
    unfolding kernel_pages_def
  proof (intro conjI allI impI)
    fix k assume "k < unat blocks"
    then show "translate v' (kernel_va k) = Some (0x200 + of_nat k)"
      using other [OF kernel_va_page, of k] p a by (simp add: kernel_pages_def)
  next
    fix k :: nat assume k: "k < 32"
    show "translate v' (heap_start blocks + of_nat k * 0x1000) = Some (F k)"
      using other [OF heap_page [OF p(2) k]] k p a by (simp add: kernel_pages_def)
  qed (use other [of "0xfffff000" "0xfffff"] other [OF kernel_va_page, of "unat blocks"] p a in \<open>simp_all add: kernel_pages_def\<close>)
  moreover have "kernel_space v'"
  proof (rule kernel_space_changes)
    show "kernel_space v" using v by (simp add: vm_ready_def)
    show "changes_below v {a} v'" using below by (simp add: lessThan_Suc)
    show "unat (kernel_next_block (mm v)) \<le> unat (kernel_next_block (mm v'))" "unat (kernel_next_block (mm v')) \<le> 0xd0000"
      using v v'(2) by (simp_all add: vm_ready_def kernel_space_def grows_def)
    show "\<forall>a \<in> {a}. \<exists>j. unat a = j * 4096 \<and> kernel_page_number v' j" using a by (auto simp: kernel_page_number_def)
  qed
  then have "vm_ready v' left" using v'(2,3) v by (simp add: vm_ready_def grows_def)
  ultimately show thesis using that v'(1,4) other heap_frames_grows [OF p(3) v'(2)] by simp
qed

section \<open>Tasks and locks\<close>

lemma scheduler_init_inv:
  "a \<noteq> 0 \<Longrightarrow> next_pid s = 0 \<Longrightarrow>
     sched_inv (scheduler_init a c s) [a] \<and> ready (scheduler_init a c s) a \<and> current_task (scheduler_init a c s) = a \<and>
     t_pml4 (the (tasks (scheduler_init a c s) a)) = c \<and> next_pid (scheduler_init a c s) = 1"
  by (simp add: scheduler_init_def new_pid_def sched_inv_def pid_of_def ready_def)

lemma replicate_update: "i < n \<Longrightarrow> (replicate n x)[i := x] = replicate n x"
  by (metis list_update_id nth_replicate)

lemma two_locks:
  "register_lock locking_init = Some (0, locking_init\<lparr>next_lockid := 1\<rparr>)"
  "register_lock (locking_init\<lparr>next_lockid := 1\<rparr>) = Some (1, locking_init\<lparr>next_lockid := 2\<rparr>)"
  by (simp_all add: register_lock_def locking_init_def set_queue_def replicate_update)

section \<open>The phases\<close>

text \<open>The memory after each phase; what is left of the heap is its last block.\<close>

definition heap_ready :: "u64 \<Rightarrow> blocks \<Rightarrow> kheap_state \<Rightarrow> bool" where
  "heap_ready blocks bs h \<longleftrightarrow> heap_inv h bs \<and> start_address (heap h) = heap_start blocks + 0x9000 \<and>
     end_address (heap h) = heap_start blocks + 0x20000"

lemma boot_memory_ready:
  assumes "boot_ready b k"
  obtains v F h where "boot_memory b k = Some (k\<lparr>k_machine := (k_machine k)\<lparr>handlers := (handlers (k_machine k))[14 := Some (b_page_fault b)]\<rparr>,
      k_vm := v, k_files := (k_files k)\<lparr>fheap := h\<rparr>\<rparr>)"
    "vm_ready v 38" "kernel_pages (kernel_blocks b k) F v" "heap_ready (kernel_blocks b k) [(0x17000, Bare)] h" "heap_frames F v"
proof -
  have small: "unat (kernel_blocks b k) + 33 \<le> 0x10000"
    using assms by (simp_all add: boot_ready_def)
  obtain v where v: "memman_init (b_page_fault b) (b_kernel_start b) (b_kernel_end b) (fmem (k_files k)) (b_bootinfo b) (k_machine k)
      (k_vm k) = Some ((k_machine k)\<lparr>handlers := (handlers (k_machine k))[14 := Some (b_page_fault b)]\<rparr>, v)"
    "vm_ready v 166" "kernel_mapped (kernel_blocks b k) v" "kernel_next_block (mm v) = 0xc0000 + kernel_blocks b k + 1"
    by (rule memman_init_ready [OF assms])
  obtain v' F where v': "alloc_kernel_page 32 v = Some (heap_start (kernel_blocks b k), v')" "vm_ready v' 38"
    "kernel_pages (kernel_blocks b k) F v'" "heap_frames F v'"
    by (rule kernel_heap_pages [OF v(2-4) small])
  obtain h where h: "kheap_init (\<lambda>_. heap_start (kernel_blocks b k)) (fheap (k_files k)) = Some h"
    "heap_ready (kernel_blocks b k) [(0x17000, Bare)] h"
    using kheap_init_start [OF small, of "fheap (k_files k)"] unfolding heap_ready_def by blast
  show thesis
    by (rule that [OF _ v'(2,3) h(2) v'(4)]) (use v(1) v'(1) h(1) in \<open>simp add: boot_memory_def\<close>)
qed

lemma boot_devices_ready:
  assumes v: "vm_ready (k_vm k) 38" and p: "kernel_pages blocks F (k_vm k)" "unat blocks + 33 \<le> 0x10000" "heap_frames F (k_vm k)"
    and h: "heap_ready blocks [(0x17000, Bare)] (fheap (k_files k))"
  obtains k' where "boot_devices b k = Some k'" "vm_ready (k_vm k') 32" "kernel_pages blocks F (k_vm k')" "heap_frames F (k_vm k')"
    "translate (k_vm k') 0xfee00000 = Some 0xfee00" "translate (k_vm k') 0xfec00000 = Some 0xfec00"
    "heap_ready blocks [(544, Used), (544, Used), (0x17000 - 1088, Hole)] (fheap (k_files k'))"
    "unat (partition (k_files k')) = unat (heap_start blocks + 0x9000) + 560"
    "handlers (k_machine k') = handlers (k_machine k)" "k_sched k' = k_sched k" "k_locks k' = k_locks k"
    "k_gdt k' = k_gdt k" "k_idt k' = k_idt k"
proof -
  obtain f where f: "fat32_init (b_disk b) (k_files k) = Some f"
    "heap_ready blocks [(544, Used), (544, Used), (0x17000 - 1088, Hole)] (fheap f)"
    "unat (partition f) = unat (heap_start blocks + 0x9000) + 560"
    using fat32_init_run [of "k_files k" "0x17000" Bare "b_disk b"] h unfolding heap_ready_def by auto
  have "3 + 35 = (38 :: nat)" by simp
  with v have v6: "vm_ready (k_vm k) (3 + 35)" by simp
  obtain v1 where v1: "brute_create_page 0xfee00000 0xfee00000 1 0 (k_vm k) = Some (1, v1)" "vm_ready v1 35"
    "kernel_pages blocks F v1" "heap_frames F v1" "translate v1 0xfee00000 = Some (0xfee00000 div 0x1000)"
    by (rule device_page [OF v6 p, of "0xfee00000" "0xfee00"]) simp_all
  have v3: "vm_ready v1 (3 + 32)" using v1(2) by simp
  obtain v2 where v2: "brute_create_page 0xfec00000 0xfec00000 1 0 v1 = Some (1, v2)" "vm_ready v2 32"
    "kernel_pages blocks F v2" "heap_frames F v2" "translate v2 0xfec00000 = Some (0xfec00000 div 0x1000)" "translate v2 0xfee00000 = translate v1 0xfee00000"
    by (rule device_page [OF v3 v1(3) p(2) v1(4), of "0xfec00000" "0xfec00"]) (simp_all add: that)
  have "\<exists>k'. boot_devices b k = Some k' \<and> k_vm k' = v2 \<and> k_files k' = f \<and> handlers (k_machine k') = handlers (k_machine k) \<and>
      k_sched k' = k_sched k \<and> k_locks k' = k_locks k \<and> k_gdt k' = k_gdt k \<and> k_idt k' = k_idt k"
    using f(1) v1(1) v2(1) by (simp add: boot_devices_def apic_init_def ioapic_init_def write_apicr_def Let_def)
  then show thesis using that f v1(5) v2(2-6) by auto
qed

lemma boot_tasks_ready:
  assumes h: "heap_ready blocks [(544, Used), (544, Used), (0x17000 - 1088, Hole)] (fheap (k_files k))"
    and small: "unat blocks + 33 \<le> 0x10000"
    and k: "k_locks k = locking_init" "next_pid (k_sched k) = 0" "length (handlers (k_machine k)) = MAX_HANDLERS"
  obtains k' task where "boot_tasks b k = Some k'" "k_vm k' = k_vm k" "partition (k_files k') = partition (k_files k)"
    "k_gdt k' = k_gdt k" "k_idt k' = k_idt k"
    "heap_ready blocks [(544, Used), (544, Used), (81, Used), (0x17000 - 1169, Hole)] (fheap (k_files k'))"
    "unat task = unat (heap_start blocks + 0x9000) + 1104" "sched_inv (k_sched k') [task]" "ready (k_sched k') task"
    "current_task (k_sched k') = task" "t_pml4 (the (tasks (k_sched k') task)) = cr3 (k_vm k)" "next_pid (k_sched k') = 1"
    "k_monitor_lock k' = 0" "k_keyboard_lock k' = 1"
    "handlers (k_machine k') = (handlers (k_machine k))[33 := Some (b_keyboard b), 13 := Some gpf_handler,
       128 := Some (syscall_handler (b_syscalls b)), 32 := Some (b_timer b)]"
proof -
  have sz: "of_nat (sizeof task_layout) = (49 :: u64)" "unat (49 :: u64) = 49" by (simp_all add: sizes)
  obtain task f where f: "fs_kmalloc 49 (k_files k) = Some (task, f)"
    "heap_ready blocks [(544, Used), (544, Used), (81, Used), (0x17000 - 1169, Hole)] (fheap f)"
    "unat task = unat (heap_start blocks + 0x9000) + 1104" "partition f = partition (k_files k)"
    using fs_kmalloc_last [of "k_files k" "[(544, Used), (544, Used)]" "0x17000 - 1088" Hole 49] h
    unfolding sz heap_ready_def by auto
  then have "task \<noteq> 0" by auto
  note s = scheduler_init_inv [OF this k(2), of "cr3 (k_vm k)"]
  have run: "\<exists>k'. boot_tasks b k = Some k' \<and> k_vm k' = k_vm k \<and> k_files k' = f \<and> k_gdt k' = k_gdt k \<and> k_idt k' = k_idt k \<and>
      k_sched k' = scheduler_init task (cr3 (k_vm k)) (k_sched k) \<and> k_monitor_lock k' = 0 \<and> k_keyboard_lock k' = 1 \<and>
      handlers (k_machine k') = (handlers (k_machine k))[33 := Some (b_keyboard b), 13 := Some gpf_handler,
       128 := Some (syscall_handler (b_syscalls b)), 32 := Some (b_timer b)]"
    using f(1) k(3)
    by (simp add: boot_tasks_def sz k(1) two_locks get_current_pml4_def syscalls_init_def register_handler_def MAX_HANDLERS_def
        timer_init_def write_apicr_def Let_def)
  then show thesis using that [of _ task] f(2-4) s by auto
qed

section \<open>A sample machine\<close>

text \<open>A machine with 8 MB: the structure at 0x20000, the map at 0x21000.\<close>

definition sample_boot_memory :: memory where
  "sample_boot_memory =
     (\<lambda>_. 0)(0x20028 := 3, 0x2002D := 0x10, 0x2002E := 2,
       0x21009 := 0xF0, 0x2100A := 9, 0x21010 := 1, 0x21014 := 1,
       0x21019 := 0xF0, 0x2101A := 9, 0x21021 := 0x10, 0x21022 := 6, 0x21028 := 2, 0x2102C := 1,
       0x21032 := 0x10, 0x2103A := 0x70, 0x21040 := 1, 0x21044 := 1)"

lemma load_le_4: "load_le 4 m a = unat (m a) + 256 * (unat (m (a + 1)) + 256 * (unat (m (a + 2)) + 256 * unat (m (a + 3))))"
proof -
  have "4 = Suc (Suc (Suc (Suc 0)))" by simp
  then have "load_le 4 m a = load_le (Suc (Suc (Suc (Suc 0)))) m a" by (rule arg_cong)
  then show ?thesis by (simp add: add.assoc)
qed

lemma load_le_add: "load_le (n + n') m a = load_le n m a + 256 ^ n * load_le n' m (a + of_nat n)"
  by (induction n arbitrary: a) (simp_all add: algebra_simps)

lemma load_le_8: "load_le 8 m a = load_le 4 m a + 256 ^ 4 * load_le 4 m (a + 4)"
  using load_le_add [of 4 4 m a] by simp

lemma region_fields:
  "read_region m p = \<lparr>region_start = of_nat (load_le 8 m p), region_size = of_nat (load_le 8 m (p + 8)),
     region_type = ucast (of_nat (load_le 4 m (p + 16)) :: u64), region_acpi3 = ucast (of_nat (load_le 4 m (p + 20)) :: u64)\<rparr>"
  by (simp add: read_region_def read_field_def memory_region_layout_def offsets)

lemma memory_map_fields:
  "memory_map m p = map (\<lambda>i. read_region m (of_nat (load_le 4 m (p + 44)) + of_nat (24 * i)))
     [0..<unat (of_nat (load_le 4 m (p + 40)) :: u64)]"
  unfolding memory_map_def sizes by (simp add: read_field_def multiboot_info_def offsets Let_def)

lemma sample_memory_map: "memory_map sample_boot_memory 0x20000 = sample_regions"
proof -
  have "[0..<3] = [0, 1, 2 :: nat]" by (simp add: upt_rec)
  then show ?thesis
    unfolding memory_map_fields sample_regions_def
    by (simp add: region_fields load_le_8 load_le_4 sample_boot_memory_def)
qed

definition sample_args :: "unit boot_args" where
  "sample_args = \<lparr>b_kernel_start = 0xc0000000, b_kernel_end = 0xc0010000, b_bootinfo = 0x20000, b_tss = 0xc0008000,
     b_isr = (\<lambda>n. 0xc0001000 + of_nat n), b_stack = (0, 0), b_disk = (\<lambda>_ _. 0), b_page_fault = (\<lambda>r w. Hangs),
     b_keyboard = (\<lambda>r w. Returns (r, w)), b_timer = (\<lambda>r w. Returns (r, w)), b_syscalls = []\<rparr>"

definition sample_kernel :: "unit kernel" where
  "sample_kernel = \<lparr>k_vm = \<lparr>mm = sample_mm, mem = (\<lambda>_ _. 0), cr3 = 0x1000, video_memory = 0xB8000\<rparr>,
     k_files = sample_fs\<lparr>fheap := sample_heap\<lparr>hmem := sample_boot_memory\<rparr>\<rparr>,
     k_gdt = \<lparr>gdt = (\<lambda>_. zero_gdt_entry), tss_entry = zero_tss, task_register = 0\<rparr>, k_idt = zero_idt,
     k_machine = \<lparr>handlers = replicate MAX_HANDLERS None, apic_writes = [], reported = [], world = ()\<rparr>,
     k_ports = [], k_msr = (0, 0), k_ioapic = \<lparr>ioapic_index = 0, ioapic_regs = (\<lambda>_. 0)\<rparr>,
     k_sched = \<lparr>current_task = 0, task_list = 0, next_pid = 0, tasks = Map.empty, interrupts = False\<rparr>,
     k_locks = locking_init,
     k_keyboard = \<lparr>occupant = 0, scancode = 0, press_code = 0, break_code = 0, new_press = False, new_break = False\<rparr>,
     k_monitor_lock = 0, k_keyboard_lock = 0\<rparr>"

lemma sample_boot: "boot_ready sample_args sample_kernel"
proof -
  have map: "boot_map sample_args sample_kernel = memman_init_map 0xc0000000 0xc0010000 sample_regions sample_mm"
    by (simp add: boot_map_def sample_args_def sample_kernel_def sample_memory_map)
  have max: "mem_max_blocks (memman_init_map 0xc0000000 0xc0010000 sample_regions sample_mm) = 2048"
    by (simp add: memman_init_map_max sample_regions_def)
  have blocks: "kernel_blocks sample_args sample_kernel = 18"
    unfolding kernel_blocks_def map max by (simp add: sample_args_def blocks_used_by_kernel_def)
  have regions: "\<forall>r \<in> set sample_regions. region_type r = 1 \<longrightarrow> unat (region_start r) + unat (region_size r) < 2 ^ 64"
    by (simp add: sample_regions_def)
  have "disjoint_regions sample_regions" by (auto simp: sample_regions_def region_blocks_def)
  then have free: "free_blocks (boot_map sample_args sample_kernel) = avail_blocks sample_regions - {..<256} - {512..<530}"
    using memman_init_map_spec [OF regions, of "0xc0000000" "0xc0010000" sample_mm]
    unfolding map by (simp add: max blocks_used_by_kernel_def)
  have "last sample_regions \<in> {r \<in> set sample_regions. region_type r = 1}" "region_blocks (last sample_regions) = {256..<2048}"
    by (simp_all add: sample_regions_def region_blocks_def)
  then have "{256..<2048} \<subseteq> avail_blocks sample_regions" unfolding avail_blocks_def by blast
  then have "{530..<1000} \<subseteq> free_blocks (boot_map sample_args sample_kernel) \<inter> {..<2048}"
    unfolding free by fastforce
  from card_mono [OF _ this] have "470 \<le> card (free_blocks (boot_map sample_args sample_kernel) \<inter> {..<2048})" by simp
  moreover have "searched (boot_map sample_args sample_kernel) = 2048" unfolding searched_def map max by simp
  ultimately have "227 \<le> card (free_blocks (boot_map sample_args sample_kernel) \<inter> {..<searched (boot_map sample_args sample_kernel)})"
    by simp
  moreover have "memory_map (fmem (k_files sample_kernel)) (b_bootinfo sample_args) = sample_regions"
    by (simp add: sample_args_def sample_kernel_def sample_memory_map)
  moreover have "unat (entry_frame (cr3 (k_vm sample_kernel))) < 256" "mem (k_vm sample_kernel) = (\<lambda>_ _. 0)"
    "length (handlers (k_machine sample_kernel)) = MAX_HANDLERS"
    by (simp_all add: sample_kernel_def entry_frame_def get_field_def take_bit_eq_mod drop_bit_eq_div)
  ultimately show ?thesis
    unfolding boot_ready_def blocks using regions by (simp add: map max)
qed

section \<open>The whole\<close>

text \<open>
  The kernel after \<open>kernel_entry\<close>: every component is in its invariant; the page tables map the kernel, the video
  memory, the heap in the frames \<open>F\<close> and the registers of the interrupt controllers where the code expects them; the heap
  is tiled by the blocks of the file system and of the first task, and its rest; the scheduler runs that task, with the
  page tables in force; the locks of screen and keyboard are different; the descriptor tables are installed and the five
  handlers registered.
\<close>

definition booted :: "'w boot_args \<Rightarrow> 'w kernel \<Rightarrow> (nat \<Rightarrow> u64) \<Rightarrow> u64 \<Rightarrow> 'w kernel \<Rightarrow> bool" where
  "booted b k F task k' \<longleftrightarrow>
    kernel_inv k' [task] [(544, Used), (544, Used), (81, Used), (0x17000 - 1169, Hole)] \<and> kernel_pages (kernel_blocks b k) F (k_vm k') \<and>
    translate (k_vm k') 0xfee00000 = Some 0xfee00 \<and> translate (k_vm k') 0xfec00000 = Some 0xfec00 \<and>
    start_address (heap (fheap (k_files k'))) = heap_start (kernel_blocks b k) + 0x9000 \<and>
    end_address (heap (fheap (k_files k'))) = heap_start (kernel_blocks b k) + 0x20000 \<and>
    unat (partition (k_files k')) = unat (heap_start (kernel_blocks b k) + 0x9000) + 560 \<and>
    unat task = unat (heap_start (kernel_blocks b k) + 0x9000) + 1104 \<and>
    ready (k_sched k') task \<and> current_task (k_sched k') = task \<and>
    k_monitor_lock k' = 0 \<and> k_keyboard_lock k' = 1 \<and>
    k_gdt k' = gdt_install (b_tss b) (k_gdt k) \<and> k_idt k' = idt_install (b_isr b) \<and>
    handlers (k_machine k') = (handlers (k_machine k))[14 := Some (b_page_fault b), 33 := Some (b_keyboard b),
      13 := Some gpf_handler, 128 := Some (syscall_handler (b_syscalls b)), 32 := Some (b_timer b)]"

lemma kernel_entry_ready:
  assumes "boot_ready b k" and "k_locks k = locking_init" and "next_pid (k_sched k) = 0"
  shows "\<exists>k' F task. kernel_entry b k = Some k' \<and> booted b k F task k' \<and> vm_ready (k_vm k') 32 \<and> heap_frames F (k_vm k') \<and>
    next_pid (k_sched k') = 1"
proof -
  let ?n = "kernel_blocks b k" and ?k = "k\<lparr>k_gdt := gdt_install (b_tss b) (k_gdt k), k_idt := idt_install (b_isr b)\<rparr>"
  have small: "unat ?n + 33 \<le> 0x10000" and l: "length (handlers (k_machine k)) = MAX_HANDLERS"
    using assms(1) by (simp_all add: boot_ready_def)
  have same: "boot_ready b ?k" "kernel_blocks b ?k = ?n"
    using assms(1) by (simp_all add: boot_ready_def kernel_blocks_def boot_map_def)
  obtain v F h where 1: "boot_memory b ?k = Some (?k\<lparr>k_machine := (k_machine k)\<lparr>handlers := (handlers (k_machine k))[14 := Some (b_page_fault b)]\<rparr>,
      k_vm := v, k_files := (k_files k)\<lparr>fheap := h\<rparr>\<rparr>)" "vm_ready v 38" "kernel_pages ?n F v" "heap_ready ?n [(0x17000, Bare)] h" "heap_frames F v"
    by (rule boot_memory_ready [OF same(1), unfolded same(2), simplified])
  define k1 where "k1 = ?k\<lparr>k_machine := (k_machine k)\<lparr>handlers := (handlers (k_machine k))[14 := Some (b_page_fault b)]\<rparr>,
      k_vm := v, k_files := (k_files k)\<lparr>fheap := h\<rparr>\<rparr>"
  have k1: "k_vm k1 = v" "fheap (k_files k1) = h" "handlers (k_machine k1) = (handlers (k_machine k))[14 := Some (b_page_fault b)]"
    "k_sched k1 = k_sched k" "k_locks k1 = k_locks k" "k_gdt k1 = gdt_install (b_tss b) (k_gdt k)" "k_idt k1 = idt_install (b_isr b)"
    by (simp_all add: k1_def)
  obtain k2 where 2: "boot_devices b k1 = Some k2" "vm_ready (k_vm k2) 32" "kernel_pages ?n F (k_vm k2)" "heap_frames F (k_vm k2)"
    "translate (k_vm k2) 0xfee00000 = Some 0xfee00" "translate (k_vm k2) 0xfec00000 = Some 0xfec00"
    "heap_ready ?n [(544, Used), (544, Used), (0x17000 - 1088, Hole)] (fheap (k_files k2))"
    "unat (partition (k_files k2)) = unat (heap_start ?n + 0x9000) + 560"
    "handlers (k_machine k2) = handlers (k_machine k1)" "k_sched k2 = k_sched k1" "k_locks k2 = k_locks k1"
    "k_gdt k2 = k_gdt k1" "k_idt k2 = k_idt k1"
    by (rule boot_devices_ready [of k1 ?n F b]) (simp_all add: k1 1 small)
  have "k_locks k2 = locking_init" "next_pid (k_sched k2) = 0" "length (handlers (k_machine k2)) = MAX_HANDLERS"
    using 2(9-11) k1 assms(2,3) l by simp_all
  from boot_tasks_ready [OF 2(7) small this, of b] obtain k3 task where 3: "boot_tasks b k2 = Some k3" "k_vm k3 = k_vm k2"
    "partition (k_files k3) = partition (k_files k2)" "k_gdt k3 = k_gdt k2" "k_idt k3 = k_idt k2"
    "heap_ready ?n [(544, Used), (544, Used), (81, Used), (0x17000 - 1169, Hole)] (fheap (k_files k3))"
    "unat task = unat (heap_start ?n + 0x9000) + 1104" "sched_inv (k_sched k3) [task]" "ready (k_sched k3) task"
    "current_task (k_sched k3) = task" "t_pml4 (the (tasks (k_sched k3) task)) = cr3 (k_vm k2)"
    "next_pid (k_sched k3) = 1"
    "k_monitor_lock k3 = 0" "k_keyboard_lock k3 = 1"
    "handlers (k_machine k3) = (handlers (k_machine k2))[33 := Some (b_keyboard b), 13 := Some gpf_handler,
       128 := Some (syscall_handler (b_syscalls b)), 32 := Some (b_timer b)]"
    by blast
  have "kernel_entry b k = Some k3" using 1(1) 2(1) 3(1) by (simp add: kernel_entry_def k1_def)
  moreover have "task_blocks [task] [(544, Used), (544, Used), (81, Used), (0x17000 - 1169, Hole)] (fheap (k_files k3))"
    using 3(6,7) by (simp add: task_blocks_def heap_ready_def)
  ultimately have "booted b k F task k3"
    using 2 3 k1 unfolding booted_def by (simp add: vm_ready_def heap_ready_def kernel_inv_def)
  then show ?thesis using \<open>kernel_entry b k = Some k3\<close> 2(2,4) 3(2,12) by auto
qed

text \<open>
  C1: On a machine with enough memory, \<open>kernel_entry\<close> reaches the fork of the shell without a fault, with every component
  in its invariant and set up as \<open>booted\<close> says.
\<close>

theorem kernel_entry_correct:
  assumes "boot_ready b k" and "k_locks k = locking_init" and "next_pid (k_sched k) = 0"
  shows "\<exists>k' F task. kernel_entry b k = Some k' \<and> booted b k F task k'"
  using kernel_entry_ready [OF assms] by blast

theorem kernel_entry_correct_witness:
  "\<exists>k'. kernel_entry sample_args sample_kernel = Some k' \<and> vm_inv (k_vm k') \<and>
     translate (k_vm k') 0xfee00000 = Some 0xfee00 \<and> sched_inv (k_sched k') [current_task (k_sched k')]"
  using kernel_entry_correct [OF sample_boot] by (auto simp: sample_kernel_def booted_def kernel_inv_def)

end
