(* ===== verification/Lifecycle.thy ===== *)
theory Lifecycle
  imports BootCorrect
begin

text \<open>
  The life of a process: its fork, its first run in an address space of its own, and its end.
\<close>

section \<open>A sample\<close>

text \<open>One task, whose structure is at the start of the heap, in the address space \<open>heap_vm\<close>.\<close>

definition process_kernel :: "unit kernel" where
  "process_kernel = sample_kernel\<lparr>k_vm := heap_vm, k_files := sample_fs\<lparr>fheap := page_heap\<rparr>,
     k_sched := scheduler_init 0xc0000010 0x1000 (k_sched sample_kernel)\<rparr>"

lemma page_heap_inv: "heap_inv page_heap [(81, Used), (49071, Hole)]" "start_address (heap page_heap) = 0xc0000000"
proof -
  have "buildable 0xc0000000 [(81, Used), (49071, Hole)]" by (simp add: buildable_def)
  note h = mk_heap_inv(1,2) [OF this, folded page_heap_def]
  show "heap_inv page_heap [(81, Used), (49071, Hole)]" "start_address (heap page_heap) = 0xc0000000"
    using h by (simp_all add: word_unat_eq_iff)
qed

lemma process_kernel_inv: "kernel_inv process_kernel [0xc0000010] [(81, Used), (49071, Hole)]"
proof -
  obtain F where v: "vm_inv heap_vm" "root heap_vm = entry_frame (cr3 heap_vm)" "cr3 heap_vm = 0x1000" by (rule heap_vm_pages)
  have "next_pid (k_sched sample_kernel) = 0" "(0xc0000010 :: u64) \<noteq> 0" by (simp_all add: sample_kernel_def)
  note s = scheduler_init_inv [OF this(2,1), of "0x1000"]
  have "task_blocks [0xc0000010] [(81, Used), (49071, Hole)] page_heap"
    using page_heap_inv(2) by (simp add: task_blocks_def)
  then show ?thesis
    unfolding kernel_inv_def using page_heap_inv(1) s v by (simp add: process_kernel_def)
qed

lemma process_kernel_room: "fork_room page_heap heap_vm (Suc (card (child_paths heap_vm))) [(81, Used), (49071, Hole)]"
proof -
  have "backed (pages_in 0xc0000051 0xc000c000) {} heap_vm" by (rule heap_vm_backed)
  then show ?thesis by (simp add: fork_room_def page_heap_inv(2) heap_vm_process(2))
qed

section \<open>Fork, run, exit\<close>

text \<open>The first switch to a child, when no other task is ready.\<close>

lemma forked_switch:
  assumes inv: "kernel_inv k ts bs" and k1: "kernel_inv k1 (ts @ [a]) bs'" "forked k ts a c k1"
    and alone: "\<forall>t \<in> set ts. ready (k_sched k) t \<longleftrightarrow> t = current_task (k_sched k)" and ip: "ip2 \<noteq> 0x12345"
    and child: "vm_inv (switch_paging (c_cr3 c) (k_vm k1))" "root (switch_paging (c_cr3 c) (k_vm k1)) = entry_frame (c_cr3 c)"
  obtains k2 i where "i < length ts" "current_task (k_sched k) = ts ! i" "switch_call ip2 sp2 bp2 k1 = Some (Some c, k2)"
    "kernel_inv k2 (ts @ [a]) bs'" "current_task (k_sched k2) = a" "k_vm k2 = switch_paging (c_cr3 c) (k_vm k1)"
    "tasks (k_sched k2) (ts ! i) = map_option (\<lambda>t. t\<lparr>t_rip := ip2, t_rsp := sp2, t_rbp := bp2\<rparr>) (tasks (k_sched k1) (ts ! i))"
    "\<forall>x \<in> set (ts @ [a]). ready (k_sched k2) x \<longleftrightarrow> x = a \<or> x = ts ! i"
proof -
  note v = inv [unfolded kernel_inv_def] and f = k1(2) [unfolded forked_def] and v1 = k1(1) [unfolded kernel_inv_def]
  obtain i where i: "i < length ts" "current_task (k_sched k) = ts ! i" using v by (auto intro: sched_inv_current)
  have cur: "current_task (k_sched k1) = (ts @ [a]) ! i" "i < length (ts @ [a])" "a \<noteq> (ts @ [a]) ! i"
    using f i by (auto simp: nth_append)
  have r: "ready (k_sched k1) t \<longleftrightarrow> t = a \<or> t = ts ! i" if "t \<in> set (ts @ [a])" for t
    using that f alone i by (auto simp: keeps_tasks_def)
  have p1: "task_path (tasks (k_sched k1)) (task_list (k_sched k1)) (ts @ [a])" using v1 unfolding sched_inv_def by blast
  have fd: "find (ready (k_sched k1)) (rotate (Suc i) (ts @ [a])) = Some a"
    by (rule find_other [OF path_distinct [OF p1] cur(2)]) (use cur(3) f i r in \<open>auto simp: nth_append\<close>)
  define ta where "ta = the (tasks (k_sched k1) a)"
  have ta: "tasks (k_sched k1) a = Some ta" "t_pml4 ta = c_cr3 c"
    "\<lparr>c_rip = t_rip ta, c_rsp = t_rsp ta, c_rbp = t_rbp ta, c_cr3 = c_cr3 c\<rparr> = c"
    using f by (simp_all add: ta_def)
  obtain k2 where k2: "switch_call ip2 sp2 bp2 k1 = Some (Some c, k2)" "kernel_inv k2 (ts @ [a]) bs'"
    "current_task (k_sched k2) = a" "k_vm k2 = switch_paging (c_cr3 c) (k_vm k1)" "keeps_tasks (ts @ [a]) (k_sched k1) (k_sched k2)"
    "tasks (k_sched k2) (ts ! i) = map_option (\<lambda>t. t\<lparr>t_rip := ip2, t_rsp := sp2, t_rbp := bp2\<rparr>) (tasks (k_sched k1) (ts ! i))"
    by (rule switch_call_to [OF k1(1) ip cur(1,2) fd cur(3) ta(1), of sp2 bp2])
      (use child i(1) in \<open>simp_all add: ta(2,3) nth_append\<close>)
  moreover have "\<forall>x \<in> set (ts @ [a]). ready (k_sched k2) x \<longleftrightarrow> x = a \<or> x = ts ! i" using r k2(5) by (auto simp: keeps_tasks_def)
  ultimately show thesis using that i by blast
qed

text \<open>
  C3: When the only ready task forks, and the last hole of the heap, the only one large enough for a page, has room for the
  structure and the pages of the child and lies in mapped pages (\<open>fork_room\<close>), the child gets a structure and an address
  space of its own, both in blocks of the heap; the next switch runs it behind the fork with the registers of its parent,
  in that address space, which has the contents of the parent's pages; and when it exits, the parent goes on where it was
  switched away, in its own address space, and the child is not ready. The invariant of the kernel holds after every step.
\<close>

theorem fork_run_exit:
  assumes inv: "kernel_inv k ts bs" and room: "next_pid (k_sched k) < next_pid (k_sched k) + 1"
    and pages: "fork_room (fheap (k_files k)) (k_vm k) (Suc (card (child_paths (k_vm k)))) bs" "table (k_vm k) [0] \<noteq> None"
    and alone: "\<forall>t \<in> set ts. ready (k_sched k) t \<longleftrightarrow> t = current_task (k_sched k)"
    and ips: "ip2 \<noteq> 0x12345" "ip3 \<noteq> 0x12345"
  shows "\<exists>k1 k2 k3 a bs' R.
    fork_call ip sp bp k = Some (next_pid (k_sched k), k1) \<and> a \<notin> set ts \<and> kernel_inv k1 (ts @ [a]) bs' \<and>
    space_copied (k_vm k) R (k_vm k1) \<and>
    switch_call ip2 sp2 bp2 k1 = Some (Some \<lparr>c_rip = ip, c_rsp = sp, c_rbp = bp, c_cr3 = R * 0x1000\<rparr>, k2) \<and>
    kernel_inv k2 (ts @ [a]) bs' \<and> current_task (k_sched k2) = a \<and> k_vm k2 = in_child R (k_vm k1) \<and>
    exit_call ip3 sp3 bp3 k2 = Some (Some \<lparr>c_rip = ip2, c_rsp = sp2, c_rbp = bp2, c_cr3 = cr3 (k_vm k)\<rparr>, k3) \<and>
    kernel_inv k3 (ts @ [a]) bs' \<and> current_task (k_sched k3) = current_task (k_sched k) \<and> k_vm k3 = k_vm k1 \<and>
    \<not> ready (k_sched k3) a"
proof -
  note v = inv [unfolded kernel_inv_def]
  obtain k1 a bs' R where k1: "fork_call ip sp bp k = Some (next_pid (k_sched k), k1)" "kernel_inv k1 (ts @ [a]) bs'"
    "forked k ts a \<lparr>c_rip = ip, c_rsp = sp, c_rbp = bp, c_cr3 = R * 0x1000\<rparr> k1" "space_copied (k_vm k) R (k_vm k1)"
    by (rule fork_call_spec [OF inv room pages])
  note f = k1(3) [unfolded forked_def] and v1 = k1(2) [unfolded kernel_inv_def]
  have child: "vm_inv (in_child R (k_vm k1))" "root (in_child R (k_vm k1)) = entry_frame (R * 0x1000)"
    and own: "cr3 (k_vm k1) = cr3 (k_vm k)" "vm_inv (k_vm k1)" "root (k_vm k1) = entry_frame (cr3 (k_vm k1))"
    using k1(4) by (simp_all add: space_copied_def switch_paging_def)
  obtain k2 i where i: "i < length ts" "current_task (k_sched k) = ts ! i"
    and k2: "switch_call ip2 sp2 bp2 k1 = Some (Some \<lparr>c_rip = ip, c_rsp = sp, c_rbp = bp, c_cr3 = R * 0x1000\<rparr>, k2)"
    "kernel_inv k2 (ts @ [a]) bs'" "current_task (k_sched k2) = a" "k_vm k2 = in_child R (k_vm k1)"
    "tasks (k_sched k2) (ts ! i) = map_option (\<lambda>t. t\<lparr>t_rip := ip2, t_rsp := sp2, t_rbp := bp2\<rparr>) (tasks (k_sched k1) (ts ! i))"
    and r2: "\<forall>x \<in> set (ts @ [a]). ready (k_sched k2) x \<longleftrightarrow> x = a \<or> x = ts ! i"
    by (rule forked_switch [OF inv k1(2,3) alone ips(1), of sp2 bp2]) (use child in \<open>simp_all add: that\<close>)
  have "sched_inv (k_sched k1) (ts @ [a])" using v1 by simp
  then have p1: "task_path (tasks (k_sched k1)) (task_list (k_sched k1)) (ts @ [a])" unfolding sched_inv_def by blast
  obtain t where t: "tasks (k_sched k1) (ts ! i) = Some t" using path_Some [OF p1, of "ts ! i"] i(1) by auto
  have t': "t_pml4 t = cr3 (k_vm k)" using v1 t f i own by simp
  have own2: "switch_paging (t_pml4 t) (k_vm k2) = k_vm k1" using k2(4) t' own(1) by (simp add: switch_paging_def)
  have t2: "tasks (k_sched k2) (ts ! i) = Some (t\<lparr>t_rip := ip2, t_rsp := sp2, t_rbp := bp2\<rparr>)" using k2(5) t by simp
  have c2: "current_task (k_sched k2) = (ts @ [a]) ! length ts" "length ts < length (ts @ [a])" "ts ! i \<in> set (ts @ [a])"
    "ts ! i \<noteq> (ts @ [a]) ! length ts" "ready (k_sched k2) (ts ! i)"
    using k2(3) i(1) r2 f nth_mem [OF i(1)] by (simp_all, blast)
  obtain k3 where "exit_call ip3 sp3 bp3 k2 = Some (Some \<lparr>c_rip = ip2, c_rsp = sp2, c_rbp = bp2, c_cr3 = cr3 (k_vm k)\<rparr>, k3)"
    "kernel_inv k3 (ts @ [a]) bs'" "current_task (k_sched k3) = ts ! i" "k_vm k3 = k_vm k1" "\<not> ready (k_sched k3) a"
  proof (rule exit_call_to [OF k2(2) ips(2) c2 _ t2, of sp3 bp3], goal_cases)
    case (1 x)
    then show ?case using r2 by auto
  next
    case (4 k')
    then show ?case using that own2 t' by simp
  qed (use own own2 t' in simp_all)
  moreover have "a \<notin> set ts" using f by blast
  ultimately show ?thesis using k1(1,2,4) k2(1-4) i(2)
    by (intro exI [of _ k1] exI [of _ k2] exI [of _ k3] exI [of _ a] exI [of _ bs'] exI [of _ R]) simp
qed

theorem fork_run_exit_witness:
  "\<exists>k1 k2 k3 R. fork_call 0x7000 0x9000 0x9010 process_kernel = Some (1, k1) \<and>
     switch_call 1 2 3 k1 = Some (Some \<lparr>c_rip = 0x7000, c_rsp = 0x9000, c_rbp = 0x9010, c_cr3 = R * 0x1000\<rparr>, k2) \<and>
     exit_call 4 5 6 k2 = Some (Some \<lparr>c_rip = 1, c_rsp = 2, c_rbp = 3, c_cr3 = 0x1000\<rparr>, k3) \<and> k_vm k3 = k_vm k1"
proof -
  obtain F where v: "cr3 heap_vm = 0x1000" by (rule heap_vm_pages)
  have k: "next_pid (k_sched process_kernel) = 1" "k_vm process_kernel = heap_vm" "fheap (k_files process_kernel) = page_heap"
    "current_task (k_sched process_kernel) = 0xc0000010" "ready (k_sched process_kernel) 0xc0000010"
    by (simp_all add: process_kernel_def sample_kernel_def scheduler_init_def new_pid_def ready_def)
  from fork_run_exit [OF process_kernel_inv, where ?ip = "0x7000" and ?sp = "0x9000" and ?bp = "0x9010" and ?ip2.0 = 1
      and ?sp2.0 = 2 and ?bp2.0 = 3 and ?ip3.0 = 4 and ?sp3.0 = 5 and ?bp3.0 = 6]
  show ?thesis using process_kernel_room heap_vm_user(2) by (simp add: k v) blast
qed

section \<open>The stacks of the shell\<close>

lemma stack_paths: "va_path 0xbffff000 = [0, 2, 511, 511]" "va_path 0xbfffe000 = [0, 2, 511, 510]"
  by (simp_all add: va_path_def addr_pml4_def addr_pdp_def addr_pd_def addr_pt_def word_unat_eq_iff unat_get_field)

text \<open>Below 3 GB, only pages among the two of the stacks, in frames that are in use and no tables.\<close>

definition stack_space :: "vm \<Rightarrow> bool" where
  "stack_space v \<longleftrightarrow>
     (\<forall>q. user_path q \<longrightarrow> q \<noteq> [] \<longrightarrow> q \<noteq> [0] \<longrightarrow> table v q \<noteq> None \<longrightarrow> prefix q [0, 2, 511, 511] \<or> prefix q [0, 2, 511, 510]) \<and>
     (\<forall>q \<in> {[0, 2, 511, 511], [0, 2, 511, 510]}. \<exists>F. table v q = Some F \<and> unat F \<notin> free_blocks (mm v) \<and> no_table v F)"

lemma kernel_space_user:
  assumes "kernel_space v" "user_path q" "q \<noteq> []" "q \<noteq> [0]"
  shows "table v q = None"
proof (rule ccontr)
  assume "table v q \<noteq> None"
  then obtain a j where a: "unat a = j * 4096" "kernel_page_number v j" "prefix q (va_path a)"
    using assms user_path_valid [OF assms(2)] by (auto simp: kernel_space_def)
  have "0xc0000 \<le> j" "j < 0x100000" using a(2) assms(1) by (auto simp: kernel_page_number_def kernel_space_def)
  then have "addr_pml4 a = 0" "addr_pdp a = 3"
    using a(1) by (auto simp: addr_pml4_def addr_pdp_def word_unat_eq_iff unat_get_field)
  then show False using a(3) assms(2-4) by (auto simp: va_path_def user_path_def)
qed

lemma stacks_made:
  assumes v: "vm_ready v 32"
  obtains v1 v2 where "alloc_page 0xbffff000 1 v = Some (0xbffff000, v1)" "alloc_page 0xbfffe000 0 v1 = Some (0xbfffe000, v2)"
    "grows v v2" "stack_space v2" "changes_below v {0xbffff000, 0xbfffe000} v2"
    "\<forall>q \<in> {[0, 2, 511, 511], [0, 2, 511, 510]}. \<forall>x. table v2 q = Some x \<longrightarrow> unat x \<in> free_blocks (mm v)"
proof -
  note r = v [unfolded vm_ready_def]
  have c: "can_alloc (4 * 1 + 28) (mm v)" using r by simp
  obtain v1 F where v1: "alloc_page 0xbffff000 1 v = Some (0xbffff000, v1)" "grows v v1" "pages_added v 0xbffff000 1 F v1"
    "can_alloc 28 (mm v1)"
    using alloc_page_left [where s = v and vaddr = "0xbffff000" and sz = 1 and n = 1 and left = 28] r c by auto
  note g1 = v1(2) [unfolded grows_def]
  have r1: "root v1 = entry_frame (cr3 v1)" using g1 r by simp
  have c1: "can_alloc (4 * 1 + 24) (mm v1)" using v1(4) by simp
  obtain v2 G where v2: "alloc_page 0xbfffe000 0 v1 = Some (0xbfffe000, v2)" "grows v1 v2" "pages_added v1 0xbfffe000 1 G v2"
    "can_alloc 24 (mm v2)"
    using alloc_page_left [where s = v1 and vaddr = "0xbfffe000" and sz = 0 and n = 1 and left = 24] g1 r1 c1 by auto
  note g2 = v2(2) [unfolded grows_def]
  have r2: "root v2 = entry_frame (cr3 v2)" using g2 r1 by simp
  have one: "(\<lambda>k. a + of_nat k * 0x1000) ` {..<1} = {a}" for a :: u64 by (simp add: lessThan_Suc)
  have p1: "table v1 [0, 2, 511, 511] = Some (F 0)" "unat (F 0) \<notin> free_blocks (mm v1)" "no_table v1 (F 0)" "changes_below v {0xbffff000} v1"
    using v1(3) translate_table [OF r1] unfolding pages_added_def one by (auto simp: stack_paths)
  have p2: "table v2 [0, 2, 511, 510] = Some (G 0)" "unat (G 0) \<notin> free_blocks (mm v2)" "no_table v2 (G 0)" "changes_below v1 {0xbfffe000} v2"
    using v2(3) translate_table [OF r2] unfolding pages_added_def one by (auto simp: stack_paths)
  have two: "table v2 [0, 2, 511, 511] = Some (F 0)"
    using changes_below_page [OF p2(4), of "[0, 2, 511, 511]"] p1(1) by (simp add: stack_paths valid_path_def)
  have "unat (F 0) \<in> free_blocks (mm v)" "unat (G 0) \<in> free_blocks (mm v)"
    using v1(3) v2(3) g1 unfolding pages_added_def by auto
  then have fresh: "\<forall>q \<in> {[0, 2, 511, 511], [0, 2, 511, 510]}. \<forall>x. table v2 q = Some x \<longrightarrow> unat x \<in> free_blocks (mm v)"
    unfolding ball_simps two p2(1) by simp
  have "no_table v2 (F 0)" "unat (F 0) \<notin> free_blocks (mm v2)" using g2 p1(2,3) by auto
  moreover have below: "changes_below v {0xbffff000, 0xbfffe000} v2" by (rule changes_below_trans [OF p1(4) p2(4)]) simp
  moreover have "prefix q [0, 2, 511, 511] \<or> prefix q [0, 2, 511, 510]"
    if "user_path q" "q \<noteq> []" "q \<noteq> [0]" "table v2 q \<noteq> None" for q
  proof (rule ccontr)
    assume "\<not> ?thesis"
    then have "table v2 q = table v q" using below user_path_valid [OF that(1)] by (simp add: changes_below_def stack_paths)
    then show False using kernel_space_user [of v q] r that by simp
  qed
  ultimately have "stack_space v2" using two p2(1-3) unfolding stack_space_def by blast
  then show thesis using that [OF v1(1) v2(1) grows_trans [OF v1(2) v2(2)] _ below fresh] by blast
qed

lemma stack_child_paths:
  assumes "stack_space v"
  shows "card (child_paths v) \<le> 5"
proof -
  have "child_paths v \<subseteq> set [[], [2], [2, 511], [2, 511, 511], [2, 511, 510]]"
  proof
    fix q assume "q \<in> child_paths v"
    then have q: "child_path q" "table v (0 # q) \<noteq> None" by (simp_all add: child_paths_def)
    show "q \<in> set [[], [2], [2, 511], [2, 511, 511], [2, 511, 510]]"
    proof (cases "q = []")
      case False
      then have "prefix (0 # q) [0, 2, 511, 511] \<or> prefix (0 # q) [0, 2, 511, 510]"
        using assms [unfolded stack_space_def, THEN conjunct1, rule_format, of "0 # q"] q(2) child_path_user [OF q(1)] by simp
      then show ?thesis by (auto simp: prefix_Cons)
    qed simp
  qed
  then have "card (child_paths v) \<le> card (set [[], [2], [2, 511], [2, 511, 511], [2, 511, 510 :: u64]])"
    by (intro card_mono) simp_all
  also have "\<dots> \<le> 5" by (rule order_trans [OF card_length]) simp
  finally show ?thesis .
qed

text \<open>The rest of the heap, behind the block of the first task, has room for the shell.\<close>

abbreviation boot_blocks :: blocks where
  "boot_blocks \<equiv> [(544, Used), (544, Used), (81, Used), (0x17000 - 1169, Hole)]"

lemma page_bounds: "a * 4096 + 1169 < j * 4096 \<Longrightarrow> j * 4096 + 4096 \<le> a * 4096 + 0x17000 \<Longrightarrow> a < j \<and> j < a + 23" for a j :: nat
  by arith

lemma shell_room:
  assumes v: "vm_ready v 32" "kernel_pages blocks F v" "heap_frames F v" "unat blocks + 33 \<le> 0x10000" and g: "grows v v2"
    and s: "stack_space v2" and c: "changes_below v {0xbffff000, 0xbfffe000} v2"
    and fresh: "\<forall>q \<in> {[0, 2, 511, 511], [0, 2, 511, 510]}. \<forall>x. table v2 q = Some x \<longrightarrow> unat x \<in> free_blocks (mm v)"
    and h: "start_address (heap h) = heap_start blocks + 0x9000"
  shows "fork_room h v2 (Suc (card (child_paths v2))) boot_blocks" "table v2 [0] \<noteq> None"
proof -
  note r = v(1) [unfolded vm_ready_def] and g' = g [unfolded grows_def]
  have r2: "root v2 = entry_frame (cr3 v2)" using r g' by simp
  let ?S = "(0xc0000 + unat blocks + 10) * 4096"
  note hs = heap_start_unat [OF v(4)]
  have S: "unat (start_address (heap h)) = ?S" unfolding h using hs v(4) by (subst unat_add_small) simp_all
  obtain x where "table v2 [0, 2, 511, 511] = Some x" using s by (auto simp: stack_space_def)
  then show "table v2 [0] \<noteq> None" using walk_prefix [of "mem v2" "root v2" "[0]" "[2, 511, 511]"] by (auto simp: table_def)
  have j: "0xc0000 + unat blocks + 1 \<le> j" "j - (0xc0000 + unat blocks + 1) < 32" if "j \<in> pages_in (?S + 1169) (?S + 0x17000)" for j
  proof -
    have "0xc0000 + unat blocks + 10 < j \<and> j < 0xc0000 + unat blocks + 10 + 23"
      using that unfolding pages_in_def mem_Collect_eq by (intro page_bounds) blast+
    then show "0xc0000 + unat blocks + 1 \<le> j" "j - (0xc0000 + unat blocks + 1) < 32" by linarith+
  qed
  have "backed (pages_in (?S + 1169) (?S + 0x17000)) {} v2"
  proof (rule backedI [where G = "\<lambda>j. F (j - (0xc0000 + unat blocks + 1))"])
    fix j assume "j \<in> pages_in (?S + 1169) (?S + 0x17000)"
    note j = j [OF this]
    define i where "i = j - (0xc0000 + unat blocks + 1)"
    have i: "i < 32" "j = 0xc0000 + unat blocks + 1 + i" using j by (simp_all add: i_def)
    show b: "0xc0000 \<le> j \<and> j < 0x100000" using i v(4) by simp
    note n = number_page [of j]
    let ?a = "heap_start blocks + of_nat i * 0x1000"
    have "?a = of_nat j * 0x1000" using heap_page [OF v(4) i(1)] n(1) b i(2) by (simp add: word_unat_eq_iff)
    then have path: "va_path ?a = number_path j" by (simp add: number_path_def)
    have "table v (number_path j) = Some (F i)"
      using v(2) i(1) r translate_table [of v ?a] path by (simp add: kernel_pages_def)
    moreover have "number_path j \<noteq> va_path a" if "a \<in> {0xbffff000, 0xbfffe000}" for a
    proof -
      have "\<not> prefix (va_path a) (number_path j) \<or> va_path a = [] \<or> va_path a = [0]"
        by (rule user_number_path) (use b that in \<open>auto simp: stack_paths user_path_def valid_path_def\<close>)
      then show ?thesis using that by (auto simp: stack_paths)
    qed
    ultimately show "table v2 (number_path j) = Some (F (j - (0xc0000 + unat blocks + 1)))"
      using changes_below_page [OF c n(5,6)] b unfolding i_def by simp
    have F: "unat (F i) \<in> used_set (mm v2)" "no_table v2 (F i)" "unat (F i) \<notin> free_blocks (mm v)"
      using heap_frames_grows [OF v(3) g] v(3) i(1) by (auto simp: heap_frames_def used_set_alt)
    then show "unat (F (j - (0xc0000 + unat blocks + 1))) \<in> used_set (mm v2) \<and> no_table v2 (F (j - (0xc0000 + unat blocks + 1)))"
      by (simp add: i_def)
    fix q f assume q: "user_path q" "length q = 4" "table v2 q = Some f"
    have "q \<noteq> []" "q \<noteq> [0]" using q(2) by auto
    then have "prefix q [0, 2, 511, 511] \<or> prefix q [0, 2, 511, 510]" using s q by (simp add: stack_space_def)
    then have "q \<in> {[0, 2, 511, 511], [0, 2, 511, 510]}" using q(2) by (auto simp: prefix_Cons)
    then have "unat f \<in> free_blocks (mm v)" using fresh q(3) by blast
    then show "f \<noteq> F (j - (0xc0000 + unat blocks + 1))" using F(3) by (auto simp: i_def)
  next
    show "inj_on (\<lambda>j. F (j - (0xc0000 + unat blocks + 1))) (pages_in (?S + 1169) (?S + 0x17000))"
    proof (rule inj_onI)
      fix i k assume i: "i \<in> pages_in (?S + 1169) (?S + 0x17000)" "k \<in> pages_in (?S + 1169) (?S + 0x17000)"
        and e: "F (i - (0xc0000 + unat blocks + 1)) = F (k - (0xc0000 + unat blocks + 1))"
      have "inj_on F {..<32}" using v(2) by (simp add: kernel_pages_def)
      then have "i - (0xc0000 + unat blocks + 1) = k - (0xc0000 + unat blocks + 1)"
        using inj_onD [of F "{..<32}" "i - (0xc0000 + unat blocks + 1)"] e j(2) [OF i(1)] j(2) [OF i(2)] by simp
      then show "i = k" using j(1) [OF i(1)] j(1) [OF i(2)] by simp
    qed
  qed
  moreover have "(?S + 1169) mod 4096 = 1169" "(?S + 1250) mod 4096 = 1250" by simp_all
  ultimately show "fork_room h v2 (Suc (card (child_paths v2))) boot_blocks"
    unfolding fork_room_def Let_def S using stack_child_paths [OF s] by simp
qed

text \<open>What the child sees of it.\<close>

lemma stack_space_child:
  assumes s: "stack_space v" and c: "space_copied v R v'" and va: "unat va < 0xc0000000"
  shows "table (in_child R v') (va_path va) \<noteq> None \<longleftrightarrow> 0xbfffe000 \<le> unat va"
proof -
  have p: "addr_pml4 va = 0" "unat (addr_pdp va) < 3"
    using va by (simp_all add: addr_pml4_def addr_pdp_def word_unat_eq_iff unat_get_field)
  have path: "va_path va = [0, addr_pdp va, addr_pd va, addr_pt va]" by (simp add: va_path_def p(1))
  have b: "addr_pdp va < 3" "addr_pd va < 512" "addr_pt va < 512" using p(2) addr_bounds [of va] by (simp_all add: word_less_nat_alt)
  have "table (in_child R v') (va_path va) \<noteq> None \<longleftrightarrow> table v (va_path va) \<noteq> None"
    unfolding path by (rule space_copied_mapped [OF c b])
  also have "\<dots> \<longleftrightarrow> va_path va \<in> {[0, 2, 511, 511], [0, 2, 511, 510]}"
  proof -
    have "user_path (va_path va)" using b by (simp add: path user_path_def valid_path_def word_less_nat_alt)
    then show ?thesis using s by (auto simp: stack_space_def path)
  qed
  also have "\<dots> \<longleftrightarrow> unat va div 4096 = 0xbffff \<or> unat va div 4096 = 0xbfffe"
  proof -
    have e: "va_path va = va_path w \<longleftrightarrow> unat va div 4096 = n" if "unat w = n * 4096" "n < 2 ^ 36" for w n
    proof -
      have "unat va < 2 ^ 48" "unat w < 2 ^ 48" "unat w div 4096 = n" using va that by simp_all
      then show ?thesis using va_path_page [of va w] va_path_frame [of va w] by metis
    qed
    have "va_path va = [0, 2, 511, 511] \<longleftrightarrow> unat va div 4096 = 0xbffff" "va_path va = [0, 2, 511, 510] \<longleftrightarrow> unat va div 4096 = 0xbfffe"
      using e [of "0xbffff000" "0xbffff"] e [of "0xbfffe000" "0xbfffe"] unfolding stack_paths by simp_all
    then show ?thesis by blast
  qed
  also have "\<dots> \<longleftrightarrow> 0xbfffe000 \<le> unat va" using va by auto
  finally show ?thesis .
qed

section \<open>From the start to the shell\<close>

lemma fork_kernel_call_spec:
  assumes inv: "kernel_inv k ts boot_blocks" and room: "next_pid (k_sched k) < next_pid (k_sched k) + 1"
    and v: "vm_ready (k_vm k) 32" "kernel_pages blocks F (k_vm k)" "heap_frames F (k_vm k)" "unat blocks + 33 \<le> 0x10000"
    and h: "start_address (heap (fheap (k_files k))) = heap_start blocks + 0x9000"
  obtains k' a bs' R v2 where "fork_kernel_call ip k = Some (next_pid (k_sched k), k')" "kernel_inv k' (ts @ [a]) bs'"
    "forked k ts a \<lparr>c_rip = ip, c_rsp = 0xc0000000, c_rbp = 0xc0000000, c_cr3 = R * 0x1000\<rparr> k'"
    "stack_space v2" "space_copied v2 R (k_vm k')"
proof -
  note i = inv [unfolded kernel_inv_def]
  obtain v1 v2 where s: "alloc_page 0xbffff000 1 (k_vm k) = Some (0xbffff000, v1)" "alloc_page 0xbfffe000 0 v1 = Some (0xbfffe000, v2)"
    and st: "grows (k_vm k) v2" "stack_space v2" "changes_below (k_vm k) {0xbffff000, 0xbfffe000} v2"
    and fresh: "\<forall>q \<in> {[0, 2, 511, 511], [0, 2, 511, 510]}. \<forall>x. table v2 q = Some x \<longrightarrow> unat x \<in> free_blocks (mm (k_vm k))"
    by (rule stacks_made [OF v(1)])
  note av = shell_room [OF v st fresh h]
  let ?S = "start_address (heap (fheap (k_files k)))"
  obtain a h1 bs1 where a: "\<forall>w. heap_kmalloc (of_nat (sizeof task_layout)) 0 (fheap (k_files k), w) = Some (a, h1, w)" "a \<noteq> 0" "a \<notin> set ts"
    "heap_avail ?S (set (allocs (unat ?S) bs1)) (Suc (card (child_paths v2))) Map.empty h1 v2"
    "\<forall>t \<in> set (ts @ [a]). 16 \<le> unat t \<and> (\<exists>l. 32 \<le> l \<and> (unat t - 16, l) \<in> set (allocs (unat ?S) bs1))"
    using i by (auto intro: task_allocated [OF _ _ av(1)])
  have g: "vm_inv v2" "root v2 = entry_frame (cr3 v2)" "cr3 v2 = cr3 (k_vm k)" using st(1) i by (simp_all add: grows_def)
  obtain R h' v3 bs' where v3: "clone_pml4t (h1, v2) = Some (R * 0x1000, h', v3)" "space_copied v2 R v3"
    "heap_inv h' bs'" "start_address (heap h') = ?S" "set (allocs (unat ?S) bs1) \<subseteq> set (allocs (unat ?S) bs')"
    using clone_pml4t_copies [OF g(1,2) av(2) a(4)] by blast
  have tb: "task_blocks (ts @ [a]) bs' h'" unfolding task_blocks_def v3(4) using a(5) v3(5) by blast
  obtain s where t: "fork_kernel a 0xc0000000 (R * 0x1000) ip (k_sched k) = Some (next_pid (k_sched k), s)" "sched_inv s (ts @ [a])"
    "tasks s a = Some \<lparr>t_pid = next_pid (k_sched k), t_rsp = 0xc0000000, t_rbp = 0xc0000000, t_rip = ip, t_pml4 = R * 0x1000,
       t_status = 0, t_next = 0\<rparr>"
    "current_task s = current_task (k_sched k)" "ready s a" "keeps_tasks ts (k_sched k) s"
    using i a(2,3) room by (auto intro: fork_kernel_spec [of "k_sched k" ts a "0xc0000000" "R * 0x1000" ip])
  let ?k = "k\<lparr>k_files := (k_files k)\<lparr>fheap := h'\<rparr>, k_vm := v3, k_sched := s\<rparr>"
  have "fork_kernel_call ip k = Some (next_pid (k_sched k), ?k)"
    using a(1) s v3(1) t(1) by (simp add: fork_kernel_call_def)
  moreover have "kernel_inv ?k (ts @ [a]) bs'"
    using forked_inv [OF inv v3(3) tb t(2,6,4)] v3(2) g(3) by (simp add: space_copied_def)
  moreover have "forked k ts a \<lparr>c_rip = ip, c_rsp = 0xc0000000, c_rbp = 0xc0000000, c_cr3 = R * 0x1000\<rparr> ?k"
    using a(3) t by (simp add: forked_def)
  ultimately show thesis using that st(2) v3(2) by simp
qed

text \<open>
  C2: On a machine with enough memory the kernel starts and forks the process of the shell,
  whose structure and page tables are blocks of the heap, and the first switch runs
  that process: behind the fork, with the top of its own stack at 3 GB, in an address space of its own where below 3 GB
  exactly the two pages of its stacks are mapped.
\<close>

theorem kernel_starts_shell:
  assumes "boot_ready b k" and "k_locks k = locking_init" and "next_pid (k_sched k) = 0" and "ip2 \<noteq> 0x12345"
  shows "\<exists>k1 k2 k3 task shell bs R. kernel_entry b k = Some k1 \<and> fork_kernel_call ip k1 = Some (1, k2) \<and>
    kernel_inv k2 [task, shell] bs \<and>
    switch_call ip2 sp2 bp2 k2 = Some (Some \<lparr>c_rip = ip, c_rsp = 0xc0000000, c_rbp = 0xc0000000, c_cr3 = R * 0x1000\<rparr>, k3) \<and>
    kernel_inv k3 [task, shell] bs \<and> current_task (k_sched k3) = shell \<and> shell \<noteq> task \<and>
    (\<forall>va. unat va < 0xc0000000 \<longrightarrow> (translate (k_vm k3) va \<noteq> None \<longleftrightarrow> 0xbfffe000 \<le> unat va))"
proof -
  obtain k1 F task where k1: "kernel_entry b k = Some k1" "booted b k F task k1" "vm_ready (k_vm k1) 32" "heap_frames F (k_vm k1)" "next_pid (k_sched k1) = 1"
    using kernel_entry_ready [OF assms(1-3)] by blast
  note d = k1(2) [unfolded booted_def]
  have inv: "kernel_inv k1 [task] boot_blocks" and kp: "kernel_pages (kernel_blocks b k) F (k_vm k1)"
    and h: "start_address (heap (fheap (k_files k1))) = heap_start (kernel_blocks b k) + 0x9000" using d by blast+
  have small: "unat (kernel_blocks b k) + 33 \<le> 0x10000" using assms(1) by (simp add: boot_ready_def)
  obtain k2 a bs R v2 where k2: "fork_kernel_call ip k1 = Some (next_pid (k_sched k1), k2)"
    "kernel_inv k2 ([task] @ [a]) bs"
    "forked k1 [task] a \<lparr>c_rip = ip, c_rsp = 0xc0000000, c_rbp = 0xc0000000, c_cr3 = R * 0x1000\<rparr> k2"
    "stack_space v2" "space_copied v2 R (k_vm k2)"
    by (rule fork_kernel_call_spec [OF inv _ k1(3) kp k1(4) small h, of ip]) (simp_all add: k1(5))
  have child: "vm_inv (in_child R (k_vm k2))" "root (in_child R (k_vm k2)) = entry_frame (R * 0x1000)"
    using k2(5) by (simp_all add: space_copied_def switch_paging_def)
  obtain k3 where k3: "switch_call ip2 sp2 bp2 k2 = Some (Some \<lparr>c_rip = ip, c_rsp = 0xc0000000, c_rbp = 0xc0000000, c_cr3 = R * 0x1000\<rparr>, k3)"
    "kernel_inv k3 ([task] @ [a]) bs" "current_task (k_sched k3) = a" "k_vm k3 = in_child R (k_vm k2)"
    by (rule forked_switch [OF inv k2(2,3) _ assms(4), of sp2 bp2]) (use d child in \<open>simp_all add: that\<close>)
  have "root (k_vm k3) = entry_frame (cr3 (k_vm k3))" using child k3(4) by (simp add: switch_paging_def)
  then have "\<forall>va. unat va < 0xc0000000 \<longrightarrow> (translate (k_vm k3) va \<noteq> None \<longleftrightarrow> 0xbfffe000 \<le> unat va)"
    using stack_space_child [OF k2(4,5)] translate_table k3(4) by simp
  moreover have "a \<noteq> task" using k2(3) by (simp add: forked_def)
  ultimately show ?thesis using k1(1,5) k2(1,2) k3(1-3)
    by (intro exI [of _ k1] exI [of _ k2] exI [of _ k3] exI [of _ task] exI [of _ a] exI [of _ bs] exI [of _ R]) simp
qed

theorem kernel_starts_shell_witness:
  "\<exists>k1 k2 k3 R. kernel_entry sample_args sample_kernel = Some k1 \<and> fork_kernel_call 0xc0001000 k1 = Some (1, k2) \<and>
     switch_call 1 2 3 k2 = Some (Some \<lparr>c_rip = 0xc0001000, c_rsp = 0xc0000000, c_rbp = 0xc0000000, c_cr3 = R * 0x1000\<rparr>, k3) \<and>
     translate (k_vm k3) 0xbffffff8 \<noteq> None \<and> translate (k_vm k3) 0x8000 = None"
proof -
  have "k_locks sample_kernel = locking_init" "next_pid (k_sched sample_kernel) = 0" by (simp_all add: sample_kernel_def)
  from kernel_starts_shell [OF sample_boot this, where ?ip = "0xc0001000" and ?ip2.0 = 1 and ?sp2.0 = 2 and ?bp2.0 = 3]
  obtain k1 k2 k3 R where k: "kernel_entry sample_args sample_kernel = Some k1" "fork_kernel_call 0xc0001000 k1 = Some (1, k2)"
    "switch_call 1 2 3 k2 = Some (Some \<lparr>c_rip = 0xc0001000, c_rsp = 0xc0000000, c_rbp = 0xc0000000, c_cr3 = R * 0x1000\<rparr>, k3)"
    and t: "\<forall>va. unat va < 0xc0000000 \<longrightarrow> (translate (k_vm k3) va \<noteq> None \<longleftrightarrow> 0xbfffe000 \<le> unat va)" by auto
  have "translate (k_vm k3) 0xbffffff8 \<noteq> None" "\<not> translate (k_vm k3) 0x8000 \<noteq> None"
    using t [rule_format, of "0xbffffff8"] t [rule_format, of "0x8000"] by simp_all
  then show ?thesis using k by (intro exI [of _ k1] exI [of _ k2] exI [of _ k3] exI [of _ R]) simp
qed

end
