(* ===== verification/UserPrograms.thy ===== *)
theory UserPrograms
  imports Interrupts
begin

text \<open>
  User mode: the stubs of \<open>user/syscall.h\<close> and \<open>user/syscall.c\<close>, by which a program calls the kernel, and
  the test programs \<open>hello.c\<close>, \<open>fork.c\<close>, \<open>ping.c\<close> and \<open>loop.c\<close> as the calls they make.
\<close>

section \<open>Stubs\<close>

text \<open>\<open>int 0x80\<close>, with what the entry \<open>isr128\<close> pushes.\<close>

definition int_0x80 :: "registers_t \<Rightarrow> 'w machine \<Rightarrow> (registers_t \<times> 'w machine) outcome" where
  "int_0x80 regs s = isr_handler (regs\<lparr>int_no := 0x80, err_code := 0\<rparr>) s"

text \<open>The result of a stub is in \<open>rax\<close>.\<close>

definition DEFN_SYSCALL0 :: "u64 \<Rightarrow> registers_t \<Rightarrow> 'w machine \<Rightarrow> (registers_t \<times> 'w machine) outcome" where
  "DEFN_SYSCALL0 num regs s = int_0x80 (regs\<lparr>rax := num\<rparr>) s"

definition DEFN_SYSCALL1 :: "u64 \<Rightarrow> u64 \<Rightarrow> registers_t \<Rightarrow> 'w machine \<Rightarrow> (registers_t \<times> 'w machine) outcome" where
  "DEFN_SYSCALL1 num p1 regs s = int_0x80 (regs\<lparr>rax := num, rdi := p1\<rparr>) s"

definition syscall_puts where "syscall_puts = DEFN_SYSCALL1 0"
definition syscall_puthex where "syscall_puthex = DEFN_SYSCALL1 1"
definition syscall_putint where "syscall_putint = DEFN_SYSCALL1 2"
definition syscall_kmalloc where "syscall_kmalloc = DEFN_SYSCALL1 3"
definition syscall_kfree where "syscall_kfree = DEFN_SYSCALL1 4"
definition syscall_readline where "syscall_readline = DEFN_SYSCALL1 5"
definition syscall_fork where "syscall_fork = DEFN_SYSCALL0 6"
definition syscall_exec where "syscall_exec = DEFN_SYSCALL1 7"
definition syscall_exit where "syscall_exit = DEFN_SYSCALL0 8"
definition syscall_sleep where "syscall_sleep = DEFN_SYSCALL0 9"

lemmas stub_defs = syscall_puts_def syscall_puthex_def syscall_putint_def syscall_kmalloc_def
  syscall_kfree_def syscall_readline_def syscall_fork_def syscall_exec_def syscall_exit_def syscall_sleep_def

text \<open>The order of the kernel's table.\<close>

datatype 'w kernel_calls = Kernel_calls
  (k_puts: "'w syscall") (k_puthex: "'w syscall") (k_putint: "'w syscall") (k_kmalloc: "'w syscall") (k_kfree: "'w syscall")
  (k_readline: "'w syscall") (k_fork: "'w syscall") (k_exec: "'w syscall") (k_exit: "'w syscall") (k_sleep: "'w syscall")

definition syscalls :: "'w kernel_calls \<Rightarrow> 'w syscall list" where
  "syscalls k = [k_puts k, k_puthex k, k_putint k, k_kmalloc k, k_kfree k, k_readline k, k_fork k, k_exec k, k_exit k, k_sleep k]"

text \<open>A kernel function that is called with the registers of the program.\<close>

definition enters :: "'w syscall \<Rightarrow> registers_t \<Rightarrow> 'w machine \<Rightarrow> (registers_t \<times> 'w machine) outcome" where
  "enters f regs s =
     (case f [rdi regs, rsi regs, rdx regs, rcx regs, r8 regs, r9 regs] (world s) of
        None \<Rightarrow> Hangs
      | Some (ret, w) \<Rightarrow> Returns (regs\<lparr>rax := ret, int_no := 0x80, err_code := 0\<rparr>, (write_apicr 0xb0 0 s)\<lparr>world := w\<rparr>))"

lemma stub_spec:
  assumes "serves sc s" "n < SYSCALL_NUM"
  shows "DEFN_SYSCALL0 (of_nat n) regs s = enters (sc ! n) regs s"
    "DEFN_SYSCALL1 (of_nat n) p1 regs s = enters (sc ! n) (regs\<lparr>rdi := p1\<rparr>) s"
proof -
  have n: "sint (of_nat n :: u64) = int n" "unat (of_nat n :: u64) = n"
    using assms(2) by (simp_all add: SYSCALL_NUM_def sint_of_nat_small unat_of_nat_small)
  have call: "int_0x80 (regs\<lparr>rax := of_nat n\<rparr>) s = enters (sc ! n) regs s" for regs
  proof -
    have "int_no (regs\<lparr>rax := of_nat n, int_no := 0x80, err_code := 0\<rparr>) = of_nat 0x80" by simp
    from system_call_spec [OF assms(1) this] assms(2) n show ?thesis
      by (simp add: int_0x80_def enters_def split: option.split)
  qed
  have swap: "regs\<lparr>rax := of_nat n, rdi := p1\<rparr> = regs\<lparr>rdi := p1, rax := of_nat n\<rparr>" by simp
  show "DEFN_SYSCALL0 (of_nat n) regs s = enters (sc ! n) regs s"
    "DEFN_SYSCALL1 (of_nat n) p1 regs s = enters (sc ! n) (regs\<lparr>rdi := p1\<rparr>) s"
    by (simp_all only: DEFN_SYSCALL0_def DEFN_SYSCALL1_def swap call)
qed

text \<open>The numbers of the stubs are those of the table.\<close>

lemma stubs_reach_kernel:
  assumes "serves (syscalls k) s"
  shows "syscall_puts a regs s = enters (k_puts k) (regs\<lparr>rdi := a\<rparr>) s"
    "syscall_puthex v regs s = enters (k_puthex k) (regs\<lparr>rdi := v\<rparr>) s"
    "syscall_putint v regs s = enters (k_putint k) (regs\<lparr>rdi := v\<rparr>) s"
    "syscall_kmalloc v regs s = enters (k_kmalloc k) (regs\<lparr>rdi := v\<rparr>) s"
    "syscall_kfree v regs s = enters (k_kfree k) (regs\<lparr>rdi := v\<rparr>) s"
    "syscall_readline a regs s = enters (k_readline k) (regs\<lparr>rdi := a\<rparr>) s"
    "syscall_fork regs s = enters (k_fork k) regs s"
    "syscall_exec a regs s = enters (k_exec k) (regs\<lparr>rdi := a\<rparr>) s"
    "syscall_exit regs s = enters (k_exit k) regs s"
    "syscall_sleep regs s = enters (k_sleep k) regs s"
  using stub_spec [OF assms, of 0] stub_spec [OF assms, of 1] stub_spec [OF assms, of 2] stub_spec [OF assms, of 3]
    stub_spec [OF assms, of 4] stub_spec [OF assms, of 5] stub_spec [OF assms, of 6] stub_spec [OF assms, of 7]
    stub_spec [OF assms, of 8] stub_spec [OF assms, of 9]
  by (simp_all add: syscalls_def SYSCALL_NUM_def stub_defs)

lemma enters_serves:
  assumes "serves sc s" "enters f regs s = Returns (regs', s')"
  shows "serves sc s'"
  using assms by (auto simp: enters_def serves_def write_apicr_def split: option.splits)

section \<open>Programs\<close>

text \<open>Literals are given by their addresses. A program that does not return from a call makes no other.\<close>

definition and_then ::
  "(registers_t \<times> 'w machine) outcome \<Rightarrow> (registers_t \<Rightarrow> 'w machine \<Rightarrow> (registers_t \<times> 'w machine) outcome) \<Rightarrow>
     (registers_t \<times> 'w machine) outcome" where
  "and_then r f = (case r of Returns (regs, s) \<Rightarrow> f regs s | Hangs \<Rightarrow> Hangs | Stray \<Rightarrow> Stray)"

definition hello_main :: "u64 \<Rightarrow> registers_t \<Rightarrow> 'w machine \<Rightarrow> (registers_t \<times> 'w machine) outcome" where
  "hello_main str regs s = and_then (syscall_puts str regs s) syscall_exit"

definition fork_main :: "u64 \<Rightarrow> registers_t \<Rightarrow> 'w machine \<Rightarrow> (registers_t \<times> 'w machine) outcome" where
  "fork_main str regs s = and_then (syscall_puts str regs s) syscall_exit"

text \<open>The first \<open>n\<close> rounds of one of the two loops, which never end, and what runs before them.\<close>

fun ping_rounds :: "nat \<Rightarrow> u64 \<Rightarrow> registers_t \<Rightarrow> 'w machine \<Rightarrow> (registers_t \<times> 'w machine) outcome" where
  "ping_rounds 0 str regs s = Returns (regs, s)"
| "ping_rounds (Suc n) str regs s = and_then (and_then (syscall_puts str regs s) syscall_sleep) (ping_rounds n str)"

definition ping_main :: "nat \<Rightarrow> u64 \<Rightarrow> u64 \<Rightarrow> registers_t \<Rightarrow> 'w machine \<Rightarrow> (registers_t \<times> 'w machine) outcome" where
  "ping_main n pong ping regs s =
     and_then (syscall_fork regs s) (\<lambda>regs s. ping_rounds n (if rax regs = 0 then pong else ping) regs s)"

definition loop_main :: "registers_t \<Rightarrow> 'w machine \<Rightarrow> (registers_t \<times> 'w machine) outcome" where
  "loop_main regs s = Hangs"

text \<open>A call that returns \<open>r\<close> and takes the world by \<open>f\<close>.\<close>

definition returning :: "'w syscall \<Rightarrow> u64 \<Rightarrow> ('w \<Rightarrow> 'w) \<Rightarrow> bool" where
  "returning c r f \<longleftrightarrow> (\<forall>args w. c args w = Some (r, f w))"

lemma enters_returning:
  assumes "returning c r f" "serves sc s"
  obtains regs' s' where "enters c regs s = Returns (regs', s')" "world s' = f (world s)" "serves sc s'" "rax regs' = r"
proof -
  obtain regs' s' where "enters c regs s = Returns (regs', s')" "world s' = f (world s)" "rax regs' = r"
    using assms(1) by (simp add: enters_def returning_def write_apicr_def)
  then show thesis using that enters_serves [OF assms(2)] by blast
qed

text \<open>The loops of \<open>ping.c\<close> go on for ever: any number of rounds returns, and the child shows one text, the parent the other.\<close>

lemma ping_rounds_run:
  assumes "returning (k_puts k) r f" "returning (k_sleep k) r' g" "serves (syscalls k) s"
  shows "\<exists>regs' s'. ping_rounds n str regs s = Returns (regs', s') \<and> world s' = ((g \<circ> f) ^^ n) (world s) \<and> serves (syscalls k) s'"
  using assms(3)
proof (induction n arbitrary: regs s)
  case (Suc n)
  obtain regs1 s1 where p: "syscall_puts str regs s = Returns (regs1, s1)" "world s1 = f (world s)" "serves (syscalls k) s1"
    using enters_returning [OF assms(1) Suc.prems, of "regs\<lparr>rdi := str\<rparr>"] stubs_reach_kernel(1) [OF Suc.prems, of str regs] by metis
  obtain regs2 s2 where q: "syscall_sleep regs1 s1 = Returns (regs2, s2)" "world s2 = g (world s1)" "serves (syscalls k) s2"
    using enters_returning [OF assms(2) p(3), of regs1] stubs_reach_kernel(10) [OF p(3), of regs1] by metis
  show ?case using Suc.IH [OF q(3), of regs2] p q by (simp add: and_then_def funpow_Suc_right del: funpow.simps)
qed simp

lemma ping_main_run:
  assumes "returning (k_fork k) pid e" "returning (k_puts k) r f" "returning (k_sleep k) r' g" "serves (syscalls k) s"
  shows "\<exists>regs0 s0. syscall_fork regs s = Returns (regs0, s0) \<and> world s0 = e (world s) \<and>
    ping_main n pong ping regs s = ping_rounds n (if pid = 0 then pong else ping) regs0 s0 \<and>
    (\<exists>regs' s'. ping_main n pong ping regs s = Returns (regs', s') \<and> world s' = ((g \<circ> f) ^^ n) (e (world s)))"
proof -
  obtain regs0 s0 where f: "syscall_fork regs s = Returns (regs0, s0)" "world s0 = e (world s)" "serves (syscalls k) s0" "rax regs0 = pid"
    using enters_returning [OF assms(1,4), of regs] stubs_reach_kernel(7) [OF assms(4), of regs] by metis
  show ?thesis using f ping_rounds_run [OF assms(2,3) f(3), of n "if pid = 0 then pong else ping" regs0]
    by (intro exI [of _ regs0] exI [of _ s0]) (auto simp: ping_main_def and_then_def)
qed

text \<open>The other two show a text and exit; that exit does not return is the kernel's promise.\<close>

lemma hello_main_run:
  assumes "returning (k_puts k) r f" "\<forall>args w. k_exit k args w = None" "serves (syscalls k) s"
  shows "hello_main str regs s = Hangs" "fork_main str regs s = Hangs" "loop_main regs s = Hangs"
proof -
  obtain regs1 s1 where p: "syscall_puts str regs s = Returns (regs1, s1)" "serves (syscalls k) s1"
    using enters_returning [OF assms(1,3), of "regs\<lparr>rdi := str\<rparr>"] stubs_reach_kernel(1) [OF assms(3), of str regs] by metis
  have "syscall_exit regs1 s1 = Hangs" using stubs_reach_kernel(9) [OF p(2)] assms(2) by (simp add: enters_def)
  with p(1) show "hello_main str regs s = Hangs" "fork_main str regs s = Hangs" "loop_main regs s = Hangs"
    by (simp_all add: hello_main_def fork_main_def loop_main_def and_then_def)
qed

end
