(* ===== verification/Spec2Isabelle.thy ===== *)
theory Spec2Isabelle
  imports FrameAlloc CLib KHeapCorrect LockingCorrect ElfCorrect ShellLoop CloneCorrect Fat32Files Lifecycle UserPrograms
begin

text \<open>
  A model of jaos64, a small 64-bit kernel in C, and the properties that make its parts correct.

  \<^bold>\<open>The program.\<close> \<open>kernel_entry\<close> (\<open>kernel/main.c\<close>) sets up the screen, the descriptor tables, the memory manager, the
  heap, the file system, the interrupt controllers and the scheduler, forks a child and has it execute the shell. The
  memory manager (\<open>kernel/memman.c\<close>) keeps a bitmap of 4 KB blocks and the page tables, which it reaches through the last
  entry of the PML4; the heap (\<open>kernel/kheap.c\<close>) divides an area of virtual memory into blocks and finds free ones through an
  ordered array; tasks and the waiters of locks are linked lists of structures from the heap; drivers
  block the running task and are woken by interrupts; a process calls the kernel by \<open>int 0x80\<close>.

  \<^bold>\<open>Theories and code.\<close> Every theory has its records and operations in the order of the code, under the code's names.
  \<^item> \<open>Prelude\<close>, \<open>Bitfields\<close>: the integer types, arithmetic of words and C bit-fields. \<open>Memory\<close>: byte-addressed memory,
    little-endian loads and stores, ranges of addresses.
  \<^item> \<open>Bitmap\<close>, \<open>FrameAlloc\<close>: the bitmap and the block allocator of \<open>memman.c\<close>, up to the map \<open>memman_init\<close> builds. The record
    \<open>memman\<close> has the static variables of the file; its abstraction is the set of free blocks.
  \<^item> \<open>Paging\<close>, \<open>PagingTables\<close>, \<open>PagingCorrect\<close>, \<open>PagingInit\<close>, \<open>PagingFixed\<close>: page tables as physical memory by frame and entry, the
    walk of the processor (\<open>translate\<close>), \<open>create_page_for_current\<close>, \<open>alloc_page\<close>, \<open>alloc_kernel_page\<close>, \<open>brute_create_page\<close> and
    the second half of \<open>memman_init\<close>. \<open>UserSpace\<close>, \<open>UserSpaceCorrect\<close>: \<open>clean_user_space\<close>, \<open>clone_pml4t\<close>.
    \<open>CloneSource\<close>, \<open>CloneLoops\<close>: what \<open>clone_pml4t\<close> needs of its allocator, and its loops. \<open>HeapPages\<close>, \<open>CloneCorrect\<close>: the heap
    on its pages, \<open>kmalloc_a\<close> as that allocator, and the whole of \<open>clone_pml4t\<close> with it.
  \<^item> \<open>OrderedArray\<close>: \<open>ordered_array.c\<close>. \<open>KHeap\<close>, with \<open>KHeapFields\<close>, \<open>KHeapTiles\<close>, \<open>KHeapAlloc\<close>, \<open>KHeapGrow\<close>, \<open>KHeapProps\<close>,
    \<open>KHeapAligned\<close>, \<open>KHeapFree\<close>, \<open>KHeapContract\<close> and \<open>KHeapCorrect\<close>: \<open>kheap.c\<close> on the bytes of its headers and footers; the invariant is that blocks tile the
    area and the index lists the holes.
  \<^item> \<open>Links\<close>: linked lists in a store. \<open>Sched\<close>: \<open>scheduler.c\<close>, \<open>fork.c\<close>, \<open>exit.c\<close>. \<open>Locking\<close>, \<open>LockingCorrect\<close>: \<open>b_locking.c\<close> with
    the interleaving of processes as a step relation, nested and surplus calls and wake-ups from outside included.
  \<^item> \<open>CLib\<close>: \<open>lib/\<close>. \<open>Monitor\<close>, \<open>MonitorCorrect\<close>: \<open>monitor.c\<close> on the cells of the screen. \<open>Keyboard\<close>: \<open>keyboard.c\<close>.
  \<^item> \<open>Descriptors\<close>: \<open>gdt.c\<close>, \<open>idt.c\<close>. \<open>Interrupts\<close>: \<open>isr.c\<close>, \<open>syscall.c\<close>, \<open>apic.c\<close>, \<open>ioapic.c\<close>. \<open>Acpi\<close>: \<open>acpi.c\<close>.
  \<^item> \<open>Fat32\<close>, \<open>Fat32Correct\<close>, \<open>Fat32Files\<close>: \<open>fat32.c\<close> on the heap. \<open>Elf\<close>, \<open>ElfCorrect\<close>: \<open>elf.c\<close>, \<open>exec.c\<close> on file system, heap and paging.
    \<open>Shell\<close>, \<open>ShellLoop\<close>: \<open>user/shell.c\<close>, the words of a line and the loop at the keyboard. \<open>UserPrograms\<close>: the stubs of
    the system calls and the test programs under \<open>user/\<close>.
  \<^item> \<open>Boot\<close>: \<open>main.c\<close>, the start of the kernel up to the fork of the shell, on a record of all that the parts keep; \<open>Process\<close>:
    fork, exec, exit and the switch of tasks on that record, with page tables and heap. \<open>BootCorrect\<close>, \<open>Lifecycle\<close>: what
    the start leaves, and the life of a process from fork to exit.
  \<^item> \<open>Layouts\<close>, \<open>Structs\<close>: the structures of the headers by sizes and alignments, against which the accessors of the other
    theories are checked. \<open>Reports\<close>: the functions that show what the kernel holds, as sequences of output.

  \<^bold>\<open>Interfaces.\<close> The locales state what one part promises another: the block set of the frame allocator, the ordered
  index of the heap, the areas of an allocator, the states of tasks that the locks change, the source of pages. Each is interpreted on the code's
  operations in the theory that provides them, and the properties use the facts so obtained.

  \<^bold>\<open>What the lemmas show.\<close>
  \<^item> Blocks: which block is returned, that none is lost, duplicated or invented, and which are free after boot.
  \<^item> Heap: allocation and release keep the invariant, areas in use are disjoint and inside of the heap, for all runs of calls
    under stated conditions; and what happens where the code breaks them.
  \<^item> Paging: exactly the pages asked for are mapped, to fresh frames or to the frames named, and no other
    translation changes; what the first tables map; what exec unmaps; that fork copies the address space
    into pages of the heap, under conditions on the room in the heap.
  \<^item> Scheduling and locks: round robin over the ready tasks, no starvation, fork and exit; mutual exclusion and first come
    first served for processes that do not nest their calls, and the lost wake-up and the nested release of the code.
  \<^item> Devices: the screen refines a terminal, numbers are shown so that they can be read back, a line is read within its
    buffer, descriptors and interrupt controllers are set up so that interrupts and system calls reach
    their handlers.
  \<^item> Files and programs: the entry of the FAT that is read, the file along its chain, the coverage of segments and the fault where
    it is missing, the words and the calls of the shell, and that the shell at the keyboard is a session of the lines typed.
  \<^item> The kernel as a whole: from the memory map of the boot loader it reaches a state where the invariants of frames, page tables,
    heap and tasks hold together and the shell's process runs first; a process that is forked runs in a copy of the
    address space, and its exit gives the processor back to the others.
  \<^item> Structures: fields do not overlap, and the accessors of the theories read the fields that the headers declare.

  \<^bold>\<open>Conventions.\<close> Machine integers are words; where C reads them as signed, \<open>sint\<close> does. Loops are recursive functions with
  a measure on the loop variable; loops that may not end are \<open>partial_function (option)\<close>, where \<open>None\<close> is not returning, and
  in the theories on paging, files and keyboard \<open>None\<close> is a fault or waiting for ever. There is no fuel: every theorem that says what
  a function returns says that it returns.

  \<^bold>\<open>Parameters.\<close> Not in C, and therefore arguments: the addresses of symbols and literals, the contents of the disk, the
  scan codes, the registers that assembler reads, and the allocator where a module uses it through its
  interface. The page-level allocator is an argument of the heap (\<open>akp\<close>).
  The headers and footers of the heap are in a byte memory by virtual address (\<open>hmem\<close>), page tables and pages in
  physical memory by frame; a page that \<open>clone_pml4t\<close> takes from the heap is the frame its address is mapped to.

  \<^bold>\<open>Not modelled.\<close> The boot loader and the assembler that saves and loads registers; the TLB; caches and timing; interrupts
  that arrive inside of an operation, except in the locks, whose steps interleave; single instructions but for their
  recorded effects; declarations and unused macros of the headers.
\<close>

end
